(* ===== verification/Throttle.thy ===== *)
theory Throttle
  imports Go_Prelude
begin

text \<open>
  Package auth's Throttle (auth/throttle.go), which counts tries by a key, the store it counts in
  when it has none of the app's (memoryThrottles), and tug.Limit (limit.go), which answers a
  request over its limit with a 429. A ThrottleStore is the locale \<open>throttle_store\<close>, whose laws
  are the promises the interface's comments make; its interpretation is the in-memory store.
\<close>

section \<open>The in-memory store\<close>

type_synonym store_key = string

record tries =
  tr_count :: nat
  tr_until :: instant

record memory_throttles =
  mt_keys :: "(store_key, tries) gomap"
  mt_sweep_at :: nat

definition mt_empty :: memory_throttles where
  "mt_empty = \<lparr>mt_keys = [], mt_sweep_at = 0\<rparr>"

text \<open>\<open>sweep\<close> drops the keys whose window is over, once the map has doubled since the last.\<close>

definition mt_sweep :: "instant \<Rightarrow> memory_throttles \<Rightarrow> memory_throttles" where
  "mt_sweep now m =
     (if length (mt_keys m) < max (mt_sweep_at m) 1024 then m
      else let ks = filter (\<lambda>(_, k). now < tr_until k) (mt_keys m)
           in m\<lparr>mt_keys := ks, mt_sweep_at := 2 * length ks\<rparr>)"

text \<open>
  \<open>Hit\<close> works on a pointer to the key's counts: \<open>k.count++\<close> after the sweep counts in the map
  when the sweep left the entry there, and in a counter no map holds when it did not.
\<close>

definition mt_hit ::
  "store_key \<Rightarrow> instant \<Rightarrow> duration \<Rightarrow> memory_throttles \<Rightarrow> (nat \<times> instant) \<times> memory_throttles" where
  "mt_hit key now window m =
     (let live = (case lookup (mt_keys m) key of
                    None \<Rightarrow> None
                  | Some k \<Rightarrow> if now < tr_until k then Some k else None);
          (k, m') =
            (case live of
               Some k \<Rightarrow> (k, m)
             | None \<Rightarrow>
                 let k = \<lparr>tr_count = 0, tr_until = now + window\<rparr>
                 in (k, mt_sweep now (m\<lparr>mt_keys := put key k (mt_keys m)\<rparr>)));
          k' = k\<lparr>tr_count := tr_count k + 1\<rparr>;
          m'' = (if lookup (mt_keys m') key = None then m'
                 else m'\<lparr>mt_keys := put key k' (mt_keys m')\<rparr>)
      in ((tr_count k', tr_until k'), m''))"

definition mt_tries :: "store_key \<Rightarrow> instant \<Rightarrow> memory_throttles \<Rightarrow> nat \<times> instant" where
  "mt_tries key now m =
     (case lookup (mt_keys m) key of
        None \<Rightarrow> (0, zero_time)
      | Some k \<Rightarrow> if now < tr_until k then (tr_count k, tr_until k) else (0, zero_time))"

definition mt_clear :: "store_key \<Rightarrow> memory_throttles \<Rightarrow> memory_throttles" where
  "mt_clear key m = m\<lparr>mt_keys := del key (mt_keys m)\<rparr>"

section \<open>The Throttle\<close>

record throttle =
  th_name :: string
  th_max :: int
  th_window :: duration

definition th_limit :: "throttle \<Rightarrow> int" where
  "th_limit t = (if th_max t \<le> 0 then 5 else th_max t)"

definition th_win :: "throttle \<Rightarrow> duration" where
  "th_win t = (if th_window t \<le> 0 then minute else th_window t)"

text \<open>What \<open>hash\<close> gives SHA-256: the throttle's name and the key, a NUL between them.\<close>

definition th_preimage :: "throttle \<Rightarrow> string \<Rightarrow> string" where
  "th_preimage t key = th_name t @ CHR 0x00 # key"

definition th_hash :: "(string \<Rightarrow> store_key) \<Rightarrow> throttle \<Rightarrow> string \<Rightarrow> store_key" where
  "th_hash sha t key = sha (th_preimage t key)"

text \<open>
  \<open>Try\<close>, \<open>Wait\<close> and \<open>Clear\<close>, over any store: \<open>hit\<close>, \<open>tries\<close> and \<open>clear\<close> are its methods, each of
  which can fail, and \<open>now\<close> is the throttle's clock. The result is an error of the store's, or
  how long to wait, 0 for not at all.
\<close>

definition th_try ::
  "(store_key \<Rightarrow> instant \<Rightarrow> duration \<Rightarrow> 's \<Rightarrow> ('e + nat \<times> instant) \<times> 's) \<Rightarrow>
   (string \<Rightarrow> store_key) \<Rightarrow> throttle \<Rightarrow> instant \<Rightarrow> string \<Rightarrow> 's \<Rightarrow> ('e + duration) \<times> 's" where
  "th_try hit sha t now key s =
     (case hit (th_hash sha t key) now (th_win t) s of
        (Inl e, s') \<Rightarrow> (Inl e, s')
      | (Inr (n, ends), s') \<Rightarrow>
          if int n \<le> th_limit t then (Inr 0, s') else (Inr (ends - now), s'))"

definition th_wait ::
  "(store_key \<Rightarrow> instant \<Rightarrow> 's \<Rightarrow> 'e + nat \<times> instant) \<Rightarrow>
   (string \<Rightarrow> store_key) \<Rightarrow> throttle \<Rightarrow> instant \<Rightarrow> string \<Rightarrow> 's \<Rightarrow> 'e + duration" where
  "th_wait tries sha t now key s =
     (case tries (th_hash sha t key) now s of
        Inl e \<Rightarrow> Inl e
      | Inr (n, ends) \<Rightarrow>
          if int n < th_limit t \<or> \<not> now < ends then Inr 0 else Inr (ends - now))"

definition th_clear ::
  "(store_key \<Rightarrow> 's \<Rightarrow> ('e + unit) \<times> 's) \<Rightarrow>
   (string \<Rightarrow> store_key) \<Rightarrow> throttle \<Rightarrow> string \<Rightarrow> 's \<Rightarrow> ('e + unit) \<times> 's" where
  "th_clear clear sha t key s = clear (th_hash sha t key) s"

text \<open>The methods of memoryThrottles as a ThrottleStore has them: they never fail.\<close>

definition mt_Hit ::
  "store_key \<Rightarrow> instant \<Rightarrow> duration \<Rightarrow> memory_throttles \<Rightarrow>
   (string + nat \<times> instant) \<times> memory_throttles" where
  "mt_Hit key now window m = (let (r, m') = mt_hit key now window m in (Inr r, m'))"

definition mt_Tries :: "store_key \<Rightarrow> instant \<Rightarrow> memory_throttles \<Rightarrow> string + nat \<times> instant" where
  "mt_Tries key now m = Inr (mt_tries key now m)"

definition mt_Clear :: "store_key \<Rightarrow> memory_throttles \<Rightarrow> (string + unit) \<times> memory_throttles" where
  "mt_Clear key m = (Inr (), mt_clear key m)"

text \<open>A key tried at each of a list of times, in order, and what each try returned.\<close>

fun th_tries ::
  "(store_key \<Rightarrow> instant \<Rightarrow> duration \<Rightarrow> 's \<Rightarrow> ('e + nat \<times> instant) \<times> 's) \<Rightarrow>
   (string \<Rightarrow> store_key) \<Rightarrow> throttle \<Rightarrow> string \<Rightarrow> instant list \<Rightarrow> 's \<Rightarrow> ('e + duration) list \<times> 's" where
  "th_tries hit sha t key [] s = ([], s)"
| "th_tries hit sha t key (now # ts) s =
     (let (r, s') = th_try hit sha t now key s; (rs, s'') = th_tries hit sha t key ts s'
      in (r # rs, s''))"

section \<open>The promises of a ThrottleStore\<close>

text \<open>
  A store is seen through \<open>view s key now\<close>: the tries counted in the key's window at \<open>now\<close> and when
  the window ends, or None when it has none. The laws are the promises of the interface, for the
  calls that do not fail; \<open>ok\<close> is what the store keeps of itself.
\<close>

locale throttle_store =
  fixes hit :: "store_key \<Rightarrow> instant \<Rightarrow> duration \<Rightarrow> 's \<Rightarrow> ('e + nat \<times> instant) \<times> 's"
    and tries :: "store_key \<Rightarrow> instant \<Rightarrow> 's \<Rightarrow> 'e + nat \<times> instant"
    and clear :: "store_key \<Rightarrow> 's \<Rightarrow> ('e + unit) \<times> 's"
    and view :: "'s \<Rightarrow> store_key \<Rightarrow> instant \<Rightarrow> (nat \<times> instant) option"
    and ok :: "'s \<Rightarrow> bool"
  assumes hit_ok: "ok s \<Longrightarrow> hit k now w s = (r, s') \<Longrightarrow> ok s'"
    and hit_fresh:
      "ok s \<Longrightarrow> hit k now w s = (Inr (n, ends), s') \<Longrightarrow> view s k now = None \<Longrightarrow>
         n = 1 \<and> ends = now + w"
    and hit_live:
      "ok s \<Longrightarrow> hit k now w s = (Inr (n, ends), s') \<Longrightarrow> view s k now = Some (c, u) \<Longrightarrow>
         n = c + 1 \<and> ends = u"
    and hit_view:
      "ok s \<Longrightarrow> hit k now w s = (Inr (n, ends), s') \<Longrightarrow> now \<le> at \<Longrightarrow>
         view s' k at = (if at < ends then Some (n, ends) else None)"
    and hit_other:
      "ok s \<Longrightarrow> hit k now w s = (r, s') \<Longrightarrow> k' \<noteq> k \<Longrightarrow> now \<le> at \<Longrightarrow>
         view s' k' at = view s k' at"
    and clear_ok: "ok s \<Longrightarrow> clear k s = (q, s') \<Longrightarrow> ok s'"
    and clear_view: "ok s \<Longrightarrow> clear k s = (Inr (), s') \<Longrightarrow> view s' k at = None"
    and clear_other: "ok s \<Longrightarrow> clear k s = (q, s') \<Longrightarrow> k' \<noteq> k \<Longrightarrow> view s' k' at = view s k' at"
    and tries_view:
      "ok s \<Longrightarrow> tries k now s = Inr (n, ends) \<Longrightarrow>
         (case view s k now of None \<Rightarrow> n = 0 | Some (c, u) \<Rightarrow> n = c \<and> ends = u)"
    and view_live: "ok s \<Longrightarrow> view s k now = Some (c, u) \<Longrightarrow> now < u \<and> 0 < c"
    and view_stays: "ok s \<Longrightarrow> view s k now = Some (c, u) \<Longrightarrow> now \<le> at \<Longrightarrow>
         view s k at = (if at < u then Some (c, u) else None)"
begin

lemma try_within:
  assumes "ok s" "th_try hit sha t now key s = (Inr d, s')"
    and "view s (th_hash sha t key) now = Some (c, u)"
  shows "ok s' \<and> d = (if int c < th_limit t then 0 else u - now) \<and>
    (\<forall>at \<ge> now. view s' (th_hash sha t key) at = (if at < u then Some (c + 1, u) else None))"
proof -
  obtain r where r: "hit (th_hash sha t key) now (th_win t) s = (r, s')"
    using assms(2) by (auto simp: th_try_def split: prod.splits sum.splits if_splits)
  then obtain n ends where h: "hit (th_hash sha t key) now (th_win t) s = (Inr (n, ends), s')"
    and d: "d = (if int n \<le> th_limit t then 0 else ends - now)"
    using assms(2) by (cases r) (auto simp: th_try_def split: if_splits)
  have "n = c + 1" "ends = u" using hit_live [OF assms(1) h assms(3)] by auto
  with d hit_ok [OF assms(1) h] hit_view [OF assms(1) h] show ?thesis by auto
qed

lemma try_first:
  assumes "ok s" "th_try hit sha t now key s = (Inr d, s')"
    and "view s (th_hash sha t key) now = None"
  shows "ok s' \<and> d = 0 \<and>
    (\<forall>at \<ge> now. view s' (th_hash sha t key) at =
      (if at < now + th_win t then Some (1, now + th_win t) else None))"
proof -
  have lim: "1 \<le> th_limit t" by (simp add: th_limit_def)
  obtain r where r: "hit (th_hash sha t key) now (th_win t) s = (r, s')"
    using assms(2) by (auto simp: th_try_def split: prod.splits sum.splits if_splits)
  then obtain n ends where h: "hit (th_hash sha t key) now (th_win t) s = (Inr (n, ends), s')"
    and d: "d = (if int n \<le> th_limit t then 0 else ends - now)"
    using assms(2) by (cases r) (auto simp: th_try_def split: if_splits)
  have "n = 1" "ends = now + th_win t" using hit_fresh [OF assms(1) h assms(3)] by auto
  with d lim hit_ok [OF assms(1) h] hit_view [OF assms(1) h] show ?thesis by auto
qed

text \<open>The tries of a key inside a window that already counts \<open>c\<close> of them.\<close>

lemma tries_in_window:
  assumes "ok s" "th_tries hit sha t key ts s = (map Inr ds, s')"
    and "view s (th_hash sha t key) now = Some (c, u)"
    and "sorted (now # ts)" "\<forall>x \<in> set ts. x < u"
  shows "ds = map (\<lambda>i. if int (c + i) < th_limit t then 0 else u - ts ! i) [0..<length ts]"
  using assms
proof (induction ts arbitrary: s now c ds)
  case Nil
  then show ?case by simp
next
  case (Cons x ts)
  obtain d ds' s1 where one: "th_try hit sha t x key s = (Inr d, s1)"
    and rest: "th_tries hit sha t key ts s1 = (map Inr ds', s')" and ds: "ds = d # ds'"
    using Cons.prems(2) by (cases ds) (auto split: prod.splits)
  have vx: "view s (th_hash sha t key) x = Some (c, u)"
    using view_stays [OF Cons.prems(1,3), of x] Cons.prems(4,5) by auto
  note step = try_within [OF Cons.prems(1) one vx]
  have v1: "view s1 (th_hash sha t key) x = Some (c + 1, u)"
    using step Cons.prems(5) by auto
  have "ds' = map (\<lambda>i. if int (c + 1 + i) < th_limit t then 0 else u - ts ! i) [0..<length ts]"
    using Cons.IH [OF _ rest v1] step Cons.prems(4,5) by auto
  with step ds show ?case
    by (simp add: upt_conv_Cons map_Suc_upt [symmetric] comp_def del: upt_Suc)
qed

lemma tries_from_first:
  assumes "ok s" "th_tries hit sha t key (now # ts) s = (map Inr ds, s')"
    and "view s (th_hash sha t key) now = None"
    and "sorted (now # ts)" "\<forall>x \<in> set ts. x < now + th_win t"
  shows "ds = 0 # map (\<lambda>i. if int (Suc i) < th_limit t then 0 else now + th_win t - ts ! i)
                      [0..<length ts]"
proof -
  obtain d ds' s1 where one: "th_try hit sha t now key s = (Inr d, s1)"
    and rest: "th_tries hit sha t key ts s1 = (map Inr ds', s')" and ds: "ds = d # ds'"
    using assms(2) by (cases ds) (auto split: prod.splits)
  have win: "0 < th_win t" by (simp add: th_win_def)
  note step = try_first [OF assms(1) one assms(3)]
  have v1: "view s1 (th_hash sha t key) now = Some (1, now + th_win t)"
    using step win by auto
  show ?thesis
    using tries_in_window [OF _ rest v1] step assms(4,5) ds by simp
qed

lemma wait_agrees_with_try:
  assumes "ok s" "th_wait tries sha t now key s = Inr w"
    and "th_try hit sha t now key s = (Inr d, s')"
  shows "d = w"
proof -
  obtain n ends where tr: "tries (th_hash sha t key) now s = Inr (n, ends)"
    and w: "w = (if int n < th_limit t \<or> \<not> now < ends then 0 else ends - now)"
    using assms(2) by (auto simp: th_wait_def split: sum.splits if_splits)
  show ?thesis
  proof (cases "view s (th_hash sha t key) now")
    case None
    with tries_view [OF assms(1) tr] have "n = 0" by simp
    then show ?thesis
      using w try_first [OF assms(1,3) None] by (simp add: th_limit_def split: if_splits)
  next
    case (Some p)
    obtain c u where p: "p = (c, u)" by fastforce
    with tries_view [OF assms(1) tr] Some have "n = c" "ends = u" by auto
    moreover have "now < u" using view_live [OF assms(1)] Some p by auto
    ultimately show ?thesis using w try_within [OF assms(1,3), of c u] Some p by auto
  qed
qed

end

section \<open>The in-memory store keeps them\<close>

definition mt_ok :: "memory_throttles \<Rightarrow> bool" where
  "mt_ok m \<longleftrightarrow> gomap_ok (mt_keys m) \<and> list_all (\<lambda>(_, k). 0 < tr_count k) (mt_keys m)"

definition mt_view :: "memory_throttles \<Rightarrow> store_key \<Rightarrow> instant \<Rightarrow> (nat \<times> instant) option" where
  "mt_view m key now =
     (case lookup (mt_keys m) key of
        None \<Rightarrow> None
      | Some k \<Rightarrow> if now < tr_until k then Some (tr_count k, tr_until k) else None)"

lemma mt_sweep_lookup [store_simps]:
  "gomap_ok (mt_keys m) \<Longrightarrow>
     lookup (mt_keys (mt_sweep now m)) key =
       (case lookup (mt_keys m) key of
          None \<Rightarrow> None
        | Some k \<Rightarrow> if length (mt_keys m) < max (mt_sweep_at m) 1024 \<or> now < tr_until k
                   then Some k else None)"
  by (auto simp: mt_sweep_def Let_def lookup_filter split: option.splits)

lemma mt_sweep_keys_ok [inv_intros]: "gomap_ok (mt_keys m) \<Longrightarrow> gomap_ok (mt_keys (mt_sweep now m))"
  by (auto simp: mt_sweep_def Let_def)

lemma mt_ok_lookup: "mt_ok m \<Longrightarrow> lookup (mt_keys m) key = Some k \<Longrightarrow> 0 < tr_count k"
  by (auto simp: mt_ok_def list_all_iff dest!: map_of_SomeD)

text \<open>
  The two branches of \<open>Hit\<close>: a key in its window counts one more in place, and any other starts
  a window, which only the sweep of a window already over can leave out of the map.
\<close>

lemma tries_set_count: "k\<lparr>tr_count := n\<rparr> = \<lparr>tr_count = n, tr_until = tr_until k\<rparr>"
  by (cases k) simp

lemma mt_hit_live:
  "mt_view m key now = Some (c, u) \<Longrightarrow>
     mt_hit key now w m =
       ((c + 1, u), m\<lparr>mt_keys := put key \<lparr>tr_count = c + 1, tr_until = u\<rparr> (mt_keys m)\<rparr>)"
  by (auto simp: mt_view_def mt_hit_def Let_def tries_set_count split: option.splits if_splits)

lemma mt_hit_fresh:
  assumes "mt_view m key now = None"
  shows "mt_hit key now w m =
    ((1, now + w),
     let m' = mt_sweep now (m\<lparr>mt_keys := put key \<lparr>tr_count = 0, tr_until = now + w\<rparr> (mt_keys m)\<rparr>)
     in if lookup (mt_keys m') key = None then m'
        else m'\<lparr>mt_keys := put key \<lparr>tr_count = 1, tr_until = now + w\<rparr> (mt_keys m')\<rparr>)"
  using assms by (auto simp: mt_view_def mt_hit_def Let_def split: option.splits if_splits)

lemma mt_ok_iff:
  "mt_ok m \<longleftrightarrow> gomap_ok (mt_keys m) \<and>
     (\<forall>key k. lookup (mt_keys m) key = Some k \<longrightarrow> 0 < tr_count k)"
  by (auto simp: mt_ok_def gomap_list_all)

lemma mt_hit_ok [inv_intros]: "mt_ok m \<Longrightarrow> mt_ok (snd (mt_hit key now w m))"
proof (cases "mt_view m key now")
  case None
  assume "mt_ok m"
  then show ?thesis
    unfolding mt_hit_fresh [OF None] mt_ok_iff Let_def
    by (auto simp: store_simps inv_intros split: option.splits if_splits)
next
  case (Some p)
  assume "mt_ok m"
  then show ?thesis
    using Some by (cases p) (auto simp: mt_hit_live mt_ok_iff split: if_splits)
qed

lemma mt_hit_view [store_simps]:
  assumes "mt_ok m" "mt_hit key now w m = ((n, ends), m')" "now \<le> at"
  shows "mt_view m' key at = (if at < ends then Some (n, ends) else None)"
proof (cases "mt_view m key now")
  case None
  with assms show ?thesis
    by (auto simp: mt_hit_fresh Let_def mt_view_def store_simps mt_ok_def split: option.splits if_splits)
next
  case (Some p)
  with assms show ?thesis by (cases p) (auto simp: mt_hit_live mt_view_def)
qed

lemma mt_hit_other [store_simps]:
  assumes "mt_ok m" "mt_hit key now w m = (r, m')" "key' \<noteq> key" "now \<le> at"
  shows "mt_view m' key' at = mt_view m key' at"
proof (cases "mt_view m key now")
  case None
  with assms show ?thesis
    by (auto simp: mt_hit_fresh Let_def mt_view_def store_simps mt_ok_def split: option.splits if_splits)
next
  case (Some p)
  with assms show ?thesis by (cases p) (auto simp: mt_hit_live mt_view_def)
qed

interpretation mem_throttles: throttle_store mt_Hit mt_Tries mt_Clear mt_view mt_ok
proof (unfold_locales, goal_cases)
  case 1
  then show ?case
    by (metis (no_types, lifting) mt_Hit_def mt_hit_ok prod.collapse prod.inject case_prod_beta)
next
  case 2
  then show ?case by (auto simp: mt_Hit_def mt_hit_fresh Let_def split: prod.splits)
next
  case 3
  then show ?case by (auto simp: mt_Hit_def mt_hit_live split: prod.splits)
next
  case 4
  then show ?case by (auto simp: mt_Hit_def mt_hit_view split: prod.splits)
next
  case 5
  then show ?case by (auto simp: mt_Hit_def mt_hit_other split: prod.splits)
next
  case 6
  then show ?case by (auto simp: mt_Clear_def mt_clear_def mt_ok_iff split: if_splits)
next
  case 7
  then show ?case by (auto simp: mt_Clear_def mt_clear_def mt_view_def)
next
  case 8
  then show ?case by (auto simp: mt_Clear_def mt_clear_def mt_view_def)
next
  case 9
  then show ?case
    by (auto simp: mt_Tries_def mt_tries_def mt_view_def split: option.splits if_splits)
next
  case 10
  then show ?case by (auto simp: mt_view_def mt_ok_iff split: option.splits if_splits)
next
  case 11
  then show ?case by (auto simp: mt_view_def split: option.splits if_splits)
qed

lemma mt_Hit_total: "\<exists>n ends m'. mt_Hit k now w m = (Inr (n, ends), m')"
  by (auto simp: mt_Hit_def split: prod.splits)

lemma th_try_mem: "\<exists>d m'. th_try mt_Hit sha t now key m = (Inr d, m')"
  using mt_Hit_total [of "th_hash sha t key" now "th_win t" m]
  by (auto simp: th_try_def split: if_splits)

lemma th_tries_mem: "\<exists>ds m'. th_tries mt_Hit sha t key ts m = (map Inr ds, m')"
proof (induction ts arbitrary: m)
  case Nil
  then show ?case by (auto intro: exI [where x = "[]"])
next
  case (Cons x ts)
  obtain d m1 where "th_try mt_Hit sha t x key m = (Inr d, m1)" using th_try_mem by blast
  moreover obtain ds m2 where "th_tries mt_Hit sha t key ts m1 = (map Inr ds, m2)"
    using Cons.IH by blast
  ultimately have "th_tries mt_Hit sha t key (x # ts) m = (map Inr (d # ds), m2)" by simp
  then show ?case by blast
qed

text \<open>
  C25. A Throttle in memory lets exactly its Max tries of a key through in a window. From a key with
  no window, the first try starts one; of the tries after it inside the window, those up to Max
  return 0, and each later one returns the time left until the window ends, whatever the number of
  tries and however they are spaced.
\<close>

theorem throttle_lets_max_through:
  assumes "mt_ok m" "mt_view m (th_hash sha t key) now = None"
    and "sorted (now # ts)" "\<forall>x \<in> set ts. x < now + th_win t"
  shows "fst (th_tries mt_Hit sha t key (now # ts) m) =
    map Inr (0 # map (\<lambda>i. if int (Suc i) < th_limit t then 0 else now + th_win t - ts ! i)
                     [0..<length ts])"
proof -
  obtain ds m' where r: "th_tries mt_Hit sha t key (now # ts) m = (map Inr ds, m')"
    using th_tries_mem by blast
  show ?thesis
    using mem_throttles.tries_from_first [OF assms(1) r assms(2-4)] r by simp
qed

theorem throttle_lets_max_through_witness:
  "fst (th_tries mt_Hit (\<lambda>x. x) \<lparr>th_name = ''logins'', th_max = 2, th_window = minute\<rparr> ''ann''
         (1000 # [1001, 1001, 1005]) mt_empty)
   = [Inr 0, Inr 0, Inr (minute - 1), Inr (minute - 5)]"
  by (subst throttle_lets_max_through)
    (simp_all add: mt_ok_def mt_empty_def mt_view_def th_win_def th_limit_def minute_def
      second_def upt_rec)

text \<open>
  Asking how long to wait, which counts nothing, says what the next try at that moment would be
  told: Wait is 0 exactly when Try would return 0, and otherwise the two say the same time.
\<close>

theorem wait_foretells_try:
  assumes "mt_ok m"
  shows "th_wait mt_Tries sha t now key m = fst (th_try mt_Hit sha t now key m)"
proof -
  obtain d m' where d: "th_try mt_Hit sha t now key m = (Inr d, m')" using th_try_mem by blast
  have "\<exists>w. th_wait mt_Tries sha t now key m = Inr w"
    by (auto simp: th_wait_def mt_Tries_def split: prod.splits)
  then obtain w where w: "th_wait mt_Tries sha t now key m = Inr w" by blast
  from mem_throttles.wait_agrees_with_try [OF assms w d] d w show ?thesis by simp
qed

theorem wait_foretells_try_witness:
  "th_wait mt_Tries (\<lambda>x. x) \<lparr>th_name = [], th_max = 1, th_window = 60\<rparr> 20 ''k''
     (snd (th_try mt_Hit (\<lambda>x. x) \<lparr>th_name = [], th_max = 1, th_window = 60\<rparr> 10 ''k'' mt_empty))
   = Inr 50"
  by (subst wait_foretells_try)
    (auto simp: mt_ok_def mt_empty_def th_try_def mt_Hit_def mt_hit_def mt_sweep_def th_hash_def
      th_preimage_def th_win_def th_limit_def Let_def)

lemma th_preimage_inj:
  assumes "CHR 0x00 \<notin> set (th_name t)" "CHR 0x00 \<notin> set (th_name t')"
    and "th_preimage t k = th_preimage t' k'"
  shows "th_name t = th_name t' \<and> k = k'"
proof -
  have "cut (CHR 0x00) (th_preimage t k) = (th_name t, k, True)"
    using assms(1) by (simp add: th_preimage_def cut_found)
  moreover have "cut (CHR 0x00) (th_preimage t' k') = (th_name t', k', True)"
    using assms(2) by (simp add: th_preimage_def cut_found)
  ultimately show ?thesis using assms(3) by simp
qed

text \<open>
  Throttles that share a store count apart: where neither name has a NUL and SHA-256 does not
  collide on the two keys' bytes, a try of one throttle's key leaves the wait of another throttle's
  key, or of another key of the same throttle, as it was, even when the try sweeps the store.
\<close>

theorem throttles_count_apart:
  assumes "mt_ok m" "CHR 0x00 \<notin> set (th_name t)" "CHR 0x00 \<notin> set (th_name t')"
    and "th_name t \<noteq> th_name t' \<or> key \<noteq> key'"
    and no_collision: "sha (th_preimage t key) = sha (th_preimage t' key') \<Longrightarrow>
           th_preimage t key = th_preimage t' key'"
    and "now \<le> at"
  shows "th_wait mt_Tries sha t' at key' (snd (th_try mt_Hit sha t now key m)) =
         th_wait mt_Tries sha t' at key' m"
proof -
  have ne: "th_hash sha t' key' \<noteq> th_hash sha t key"
    using th_preimage_inj [OF assms(2,3)] assms(4) no_collision by (auto simp: th_hash_def)
  obtain n ends m' where h: "mt_Hit (th_hash sha t key) now (th_win t) m = (Inr (n, ends), m')"
    using mt_Hit_total by blast
  have "mt_view m' (th_hash sha t' key') at = mt_view m (th_hash sha t' key') at"
    using mem_throttles.hit_other [OF assms(1) h ne assms(6)] .
  then show ?thesis
    using h by (auto simp: th_try_def th_wait_def mt_Tries_def mt_tries_def mt_view_def
      zero_time_def split: option.splits if_splits)
qed

theorem throttles_count_apart_witness:
  "th_wait mt_Tries (\<lambda>x. x) \<lparr>th_name = ''b'', th_max = 1, th_window = 60\<rparr> 20 ''k''
     (snd (th_try mt_Hit (\<lambda>x. x) \<lparr>th_name = ''a'', th_max = 1, th_window = 60\<rparr> 10 ''k'' mt_empty))
   = Inr 0"
  by (subst throttles_count_apart)
    (auto simp: mt_ok_def mt_empty_def th_wait_def mt_Tries_def mt_tries_def th_limit_def)

section \<open>tug.Limit\<close>

text \<open>
  A handler takes the request, the response's headers and the app's state, and returns the error
  the app's ErrorHandler answers, if any. Limit's response to a request over its limit is the error
  of a 429, its message said by the request's language (\<open>choice\<close>), with Retry-After in whole
  seconds, rounded up; the rounding of \<open>Duration.Seconds\<close> to a float64, which waits of over a month
  could meet, is not modelled.
\<close>

type_synonym headers = "(string, string) gomap"

datatype 'e handler_error = Failed 'e | HTTPError nat string

type_synonym ('q, 's, 'e) handler =
  "'q \<Rightarrow> headers \<Rightarrow> 's \<Rightarrow> 'e handler_error option \<times> headers \<times> 's"

definition ceil_seconds :: "duration \<Rightarrow> int" where
  "ceil_seconds d = - ((- d) div second)"

definition too_many_requests :: string where
  "too_many_requests =
     ''too many requests: wait :count second, and try again|too many requests: wait :count seconds, and try again''"

definition tug_limit ::
  "(string \<Rightarrow> 's \<Rightarrow> ('e + duration) \<times> 's) \<Rightarrow> ('q \<Rightarrow> string) \<Rightarrow> ('q \<Rightarrow> string \<Rightarrow> int \<Rightarrow> string) \<Rightarrow>
   ('q, 's, 'e) handler \<Rightarrow> ('q, 's, 'e) handler" where
  "tug_limit attempt key choice h c hs s =
     (case attempt (key c) s of
        (Inl e, s') \<Rightarrow> (Some (Failed e), hs, s')
      | (Inr w, s') \<Rightarrow>
          if w \<le> 0 then h c hs s'
          else let seconds = ceil_seconds w
               in (Some (HTTPError 429 (choice c too_many_requests seconds)),
                   put ''Retry-After'' (itoa seconds) hs, s'))"

lemma ceil_seconds_bounds: "d \<le> ceil_seconds d * second \<and> ceil_seconds d * second < d + second"
proof -
  have "(- d) div second * second + (- d) mod second = - d" by (rule div_mult_mod_eq)
  moreover have "0 \<le> (- d) mod second" "(- d) mod second < second" by simp_all
  ultimately show ?thesis unfolding ceil_seconds_def minus_mult_left [symmetric] by linarith
qed

text \<open>
  A request over its limit never reaches the handler behind Limit, and is told to come back once
  the window has ended and no more than a second later: the Retry-After it gets, in seconds, covers
  the throttle's wait and overshoots it by less than a second, and a request sent then is let
  through, while the handler's own response and state are what they were.
\<close>

theorem limit_tells_when_to_retry:
  assumes "mt_ok m" "mt_view m (th_hash sha t (key c)) now = Some (n, ends)" "th_limit t \<le> int n"
    and "tug_limit (th_try mt_Hit sha t now) key choice h c hs m = (res, hs_out, m')"
  shows "\<exists>secs. res = Some (HTTPError 429 (choice c too_many_requests secs)) \<and>
      lookup hs_out ''Retry-After'' = Some (itoa secs) \<and> 1 \<le> secs \<and>
      ends \<le> now + secs * second \<and> now + secs * second < ends + second \<and>
      fst (th_try mt_Hit sha t (now + secs * second) (key c) m') = Inr 0"
proof -
  obtain d m1 where tr: "th_try mt_Hit sha t now (key c) m = (Inr d, m1)" using th_try_mem by blast
  note step = mem_throttles.try_within [OF assms(1) tr assms(2)]
  have live: "now < ends" using mem_throttles.view_live [OF assms(1,2)] by simp
  have d: "d = ends - now" using step assms(3) by simp
  define secs where "secs = ceil_seconds d"
  have b: "d \<le> secs * second" "secs * second < d + second"
    using ceil_seconds_bounds by (auto simp: secs_def)
  have pos: "1 \<le> secs"
  proof (rule ccontr)
    assume "\<not> 1 \<le> secs"
    then have "secs * second \<le> 0" by (intro mult_nonpos_nonneg) (simp_all add: less_imp_le)
    with b(1) d live show False by simp
  qed
  have m': "m' = m1" and res: "res = Some (HTTPError 429 (choice c too_many_requests secs))"
    and hs_out: "hs_out = put ''Retry-After'' (itoa secs) hs"
    using assms(4) tr d live by (auto simp: tug_limit_def secs_def Let_def)
  have "now \<le> now + secs * second" and over: "\<not> now + secs * second < ends"
    using b d live by linarith+
  with step have "mt_view m1 (th_hash sha t (key c)) (now + secs * second) =
      (if now + secs * second < ends then Some (n + 1, ends) else None)" by blast
  with over have "mt_view m1 (th_hash sha t (key c)) (now + secs * second) = None" by simp
  moreover obtain d2 m2 where t2: "th_try mt_Hit sha t (now + secs * second) (key c) m1 = (Inr d2, m2)"
    using th_try_mem by blast
  ultimately have "d2 = 0" using mem_throttles.try_first step by blast
  with t2 b d pos res hs_out m' show ?thesis by (intro exI [where x = secs]) auto
qed

theorem limit_tells_when_to_retry_witness:
  "\<exists>secs. fst (tug_limit (th_try mt_Hit (\<lambda>x. x) \<lparr>th_name = [], th_max = 1, th_window = 3 * second\<rparr> 5)
       (\<lambda>c. c) (\<lambda>c text n. text) (\<lambda>c hs s. (None, hs, s)) ''k'' []
       \<lparr>mt_keys = [(CHR 0x00 # ''k'', \<lparr>tr_count = 1, tr_until = 2 * second\<rparr>)], mt_sweep_at = 0\<rparr>)
     = Some (HTTPError 429 too_many_requests) \<and> 1 \<le> secs \<and> 2 * second \<le> 5 + secs * second"
proof -
  let ?m = "\<lparr>mt_keys = [(CHR 0x00 # ''k'', \<lparr>tr_count = 1, tr_until = 2 * second\<rparr>)], mt_sweep_at = 0\<rparr>"
  let ?t = "\<lparr>th_name = [], th_max = 1, th_window = 3 * second\<rparr>"
  obtain res hs_out m' where r: "tug_limit (th_try mt_Hit (\<lambda>x. x) ?t 5) (\<lambda>c. c) (\<lambda>c text n. text)
      (\<lambda>c hs s. (None, hs, s)) ''k'' [] ?m = (res, hs_out, m')"
    by (metis prod_cases3)
  have "mt_ok ?m" "mt_view ?m (th_hash (\<lambda>x. x) ?t ''k'') 5 = Some (1, 2 * second)" "th_limit ?t \<le> int 1"
    by (simp_all add: mt_ok_def mt_view_def th_hash_def th_preimage_def th_limit_def second_def)
  from limit_tells_when_to_retry [OF this(1) _ _ r] this(2,3) r show ?thesis by auto
qed

end
