(* ===== verification/Job_Store.thy ===== *)
theory Job_Store
  imports Go_Prelude
begin

text \<open>
  The jobs of package queue (queue/store.go) and the Store that keeps them in memory
  (queue/queuetest/queuetest.go), which has every extra a Store may have: schedules, unique keys,
  the latest push's time, one at a time, so many at once, holding a kind back, and failed jobs.
  A Store's promises to the queue are the locale \<open>job_store\<close>, which Memory interprets. The methods
  lock the store for their length, so a run of the store is a sequence of them (\<open>mem_run\<close>).
\<close>

section \<open>Jobs\<close>

record job =
  j_id :: string
  j_kind :: string
  j_payload :: string
  j_key :: string
  j_run_at :: instant
  j_attempts :: int
  j_error :: string
  j_one_at_a_time :: bool
  j_at_once :: int
  j_failed_at :: instant
  j_carried :: "(string, string) gomap"

text \<open>A job as Memory keeps it embeds the Job, as the Go struct does.\<close>

record memory_job = job +
  mj_held_until :: instant
  mj_failed :: bool
  mj_alone :: string

record memory =
  mem_last :: nat
  mem_jobs :: "memory_job list"
  mem_schedules :: "(string, instant) gomap"
  mem_held :: "(string, instant) gomap"

definition mem_empty :: memory where
  "mem_empty = \<lparr>mem_last = 0, mem_jobs = [], mem_schedules = [], mem_held = []\<rparr>"

definition job_of :: "memory_job \<Rightarrow> job" where
  "job_of mj = job.truncate mj"

definition keep_job :: "job \<Rightarrow> memory_job" where
  "keep_job j =
     job.extend j
       (memory_job.fields zero_time False (if j_one_at_a_time j then j_key j else []))"

lemmas job_defs = job_of_def keep_job_def job.defs memory_job.defs

section \<open>The methods of Memory\<close>

text \<open>\<open>claimedBy\<close>: the job is as its latest claim returned it.\<close>

definition claimed_by :: "memory_job \<Rightarrow> job \<Rightarrow> bool" where
  "claimed_by mj j \<longleftrightarrow> j_id mj = j_id j \<and> j_attempts mj = j_attempts j \<and> \<not> mj_failed mj"

definition same_key :: "job \<Rightarrow> memory_job \<Rightarrow> bool" where
  "same_key j mj \<longleftrightarrow> j_kind mj = j_kind j \<and> j_key mj = j_key j"

definition waiting_in :: "job \<Rightarrow> memory_job list \<Rightarrow> bool" where
  "waiting_in j jobs \<longleftrightarrow> j_key j \<noteq> [] \<and> list_ex (same_key j) jobs"

definition mem_waiting :: "job \<Rightarrow> memory \<Rightarrow> bool" where
  "mem_waiting j m = waiting_in j (mem_jobs m)"

text \<open>\<open>push\<close> also sets the job's ID, which its caller sees: it returns the job so named.\<close>

definition mem_push :: "job \<Rightarrow> memory \<Rightarrow> job \<times> memory" where
  "mem_push j m =
     (let n = mem_last m + 1; j' = j\<lparr>j_id := itoa (int n)\<rparr>
      in (j', m\<lparr>mem_last := n, mem_jobs := mem_jobs m @ [keep_job j']\<rparr>))"

definition mem_push_scheduled :: "string \<Rightarrow> job \<Rightarrow> memory \<Rightarrow> bool \<times> memory" where
  "mem_push_scheduled schedule j m =
     (if (case lookup (mem_schedules m) schedule of
            None \<Rightarrow> False | Some prev \<Rightarrow> \<not> prev < j_run_at j)
      then (False, m)
      else let m' = m\<lparr>mem_schedules := put schedule (j_run_at j) (mem_schedules m)\<rparr>
           in (True, if mem_waiting j m' then m' else snd (mem_push j m')))"

definition mem_push_unique :: "job \<Rightarrow> memory \<Rightarrow> bool \<times> memory" where
  "mem_push_unique j m =
     (if mem_waiting j m then (False, m) else (True, snd (mem_push j m)))"

text \<open>\<open>PushLatest\<close>: the first job that waits with the key takes the push's time.\<close>

fun move_waiting :: "job \<Rightarrow> memory_job list \<Rightarrow> (string \<times> memory_job list) option" where
  "move_waiting j [] = None"
| "move_waiting j (mj # rest) =
     (if j_key j \<noteq> [] \<and> same_key j mj then Some (j_id mj, mj\<lparr>j_run_at := j_run_at j\<rparr> # rest)
      else map_option (\<lambda>(jid, rest'). (jid, mj # rest')) (move_waiting j rest))"

definition mem_push_latest :: "job \<Rightarrow> memory \<Rightarrow> job \<times> memory" where
  "mem_push_latest j m =
     (case move_waiting j (mem_jobs m) of
        Some (jid, jobs) \<Rightarrow> (j\<lparr>j_id := jid\<rparr>, m\<lparr>mem_jobs := jobs\<rparr>)
      | None \<Rightarrow> mem_push j m)"

text \<open>
  \<open>HoldBack\<close>: the loop over the jobs asks, for each it puts back, whether a job waits with the key
  among all the jobs as they are by then.
\<close>

fun hold_back_loop :: "job \<Rightarrow> memory_job list \<Rightarrow> memory_job list \<Rightarrow> memory_job list" where
  "hold_back_loop j before [] = before"
| "hold_back_loop j before (mj # rest) =
     (if claimed_by mj j then
        let mj' = mj\<lparr>j_attempts := j_attempts mj - 1, mj_held_until := zero_time\<rparr>;
            mj'' = (if waiting_in j (before @ mj' # rest) then mj' else mj'\<lparr>j_key := j_key j\<rparr>)
        in hold_back_loop j (before @ [mj'']) rest
      else hold_back_loop j (before @ [mj]) rest)"

definition kind_held :: "memory \<Rightarrow> string \<Rightarrow> instant" where
  "kind_held m k = (case lookup (mem_held m) k of None \<Rightarrow> zero_time | Some t \<Rightarrow> t)"

definition mem_hold_back :: "job \<Rightarrow> instant \<Rightarrow> memory \<Rightarrow> memory" where
  "mem_hold_back j until m =
     (let m' = (if kind_held m (j_kind j) < until
                then m\<lparr>mem_held := put (j_kind j) until (mem_held m)\<rparr> else m)
      in m'\<lparr>mem_jobs := hold_back_loop j [] (mem_jobs m')\<rparr>)"

text \<open>\<open>running\<close> compares pointers; a job's ID tells it from the others, as no two share one.\<close>

definition mem_running :: "memory \<Rightarrow> memory_job \<Rightarrow> instant \<Rightarrow> bool" where
  "mem_running m mj now \<longleftrightarrow>
     mj_alone mj \<noteq> [] \<and>
     list_ex (\<lambda>other. j_id other \<noteq> j_id mj \<and> j_kind other = j_kind mj \<and>
                mj_alone other = mj_alone mj \<and> now < mj_held_until other) (mem_jobs m)"

definition mem_at_limit :: "memory \<Rightarrow> memory_job \<Rightarrow> instant \<Rightarrow> bool" where
  "mem_at_limit m mj now \<longleftrightarrow>
     j_at_once mj \<noteq> 0 \<and>
     j_at_once mj \<le> int (length (filter (\<lambda>other. j_kind other = j_kind mj \<and>
                                    now < mj_held_until other) (mem_jobs m)))"

definition claimable :: "memory \<Rightarrow> instant \<Rightarrow> memory_job \<Rightarrow> bool" where
  "claimable m now mj \<longleftrightarrow>
     \<not> (mj_failed mj \<or> now < j_run_at mj \<or> now < mj_held_until mj \<or>
        now < kind_held m (j_kind mj) \<or> mem_running m mj now \<or> mem_at_limit m mj now)"

definition pick_soonest :: "memory_job option \<Rightarrow> memory_job \<Rightarrow> memory_job option" where
  "pick_soonest next mj =
     (case next of None \<Rightarrow> Some mj
      | Some n \<Rightarrow> if j_run_at mj < j_run_at n then Some mj else Some n)"

definition next_job :: "memory \<Rightarrow> instant \<Rightarrow> memory_job option" where
  "next_job m now =
     foldl (\<lambda>next mj. if claimable m now mj then pick_soonest next mj else next) None (mem_jobs m)"

definition take_job :: "instant \<Rightarrow> memory_job \<Rightarrow> memory_job" where
  "take_job until mj = mj\<lparr>mj_held_until := until, j_attempts := j_attempts mj + 1, j_key := []\<rparr>"

definition mem_claim :: "instant \<Rightarrow> instant \<Rightarrow> memory \<Rightarrow> job option \<times> memory" where
  "mem_claim now until m =
     (case next_job m now of
        None \<Rightarrow> (None, m)
      | Some mj \<Rightarrow>
          (Some (job_of (take_job until mj)),
           m\<lparr>mem_jobs := map (\<lambda>x. if j_id x = j_id mj then take_job until x else x) (mem_jobs m)\<rparr>))"

definition mem_done :: "job \<Rightarrow> memory \<Rightarrow> memory" where
  "mem_done j m = m\<lparr>mem_jobs := filter (\<lambda>mj. \<not> claimed_by mj j) (mem_jobs m)\<rparr>"

definition on_claimed :: "job \<Rightarrow> (memory_job \<Rightarrow> memory_job) \<Rightarrow> memory \<Rightarrow> memory" where
  "on_claimed j f m = m\<lparr>mem_jobs := map (\<lambda>mj. if claimed_by mj j then f mj else mj) (mem_jobs m)\<rparr>"

definition retry_job :: "job \<Rightarrow> memory_job \<Rightarrow> memory_job" where
  "retry_job j mj = mj\<lparr>j_run_at := j_run_at j, j_error := j_error j, mj_held_until := zero_time\<rparr>"

definition mem_retry :: "job \<Rightarrow> memory \<Rightarrow> memory" where
  "mem_retry j m = on_claimed j (retry_job j) m"

text \<open>\<open>Fail\<close> takes the wall clock's time for a job that has no FailedAt: \<open>wall\<close>.\<close>

definition fail_job :: "instant \<Rightarrow> job \<Rightarrow> memory_job \<Rightarrow> memory_job" where
  "fail_job wall j mj =
     mj\<lparr>j_error := j_error j,
        j_failed_at := (if j_failed_at j = zero_time then wall else j_failed_at j),
        mj_failed := True, mj_held_until := zero_time\<rparr>"

definition mem_fail :: "instant \<Rightarrow> job \<Rightarrow> memory \<Rightarrow> memory" where
  "mem_fail wall j m = on_claimed j (fail_job wall j) m"

definition mem_failed :: "memory \<Rightarrow> job list" where
  "mem_failed m =
     sort_key (\<lambda>j. - j_failed_at j) (map job_of (filter mj_failed (rev (mem_jobs m))))"

fun run_again_in :: "string \<Rightarrow> instant \<Rightarrow> memory_job list \<Rightarrow> memory_job list option" where
  "run_again_in jid at [] = None"
| "run_again_in jid at (mj # rest) =
     (if j_id mj = jid \<and> mj_failed mj
      then Some (mj\<lparr>mj_failed := False, j_attempts := 0, j_run_at := at,
                   mj_held_until := zero_time, j_failed_at := zero_time\<rparr> # rest)
      else map_option ((#) mj) (run_again_in jid at rest))"

definition mem_run_again :: "string \<Rightarrow> instant \<Rightarrow> memory \<Rightarrow> bool \<times> memory" where
  "mem_run_again jid at m =
     (case run_again_in jid at (mem_jobs m) of
        None \<Rightarrow> (False, m) | Some jobs \<Rightarrow> (True, m\<lparr>mem_jobs := jobs\<rparr>))"

section \<open>Runs of the store\<close>

datatype mem_op =
  OPush job
| OPushScheduled string job
| OPushUnique job
| OPushLatest job
| OHoldBack job instant
| OClaim instant instant
| ODone job
| ORetry job
| OFail instant job
| ORunAgain string instant

fun mem_apply :: "mem_op \<Rightarrow> memory \<Rightarrow> memory" where
  "mem_apply (OPush j) m = snd (mem_push j m)"
| "mem_apply (OPushScheduled s j) m = snd (mem_push_scheduled s j m)"
| "mem_apply (OPushUnique j) m = snd (mem_push_unique j m)"
| "mem_apply (OPushLatest j) m = snd (mem_push_latest j m)"
| "mem_apply (OHoldBack j until) m = mem_hold_back j until m"
| "mem_apply (OClaim now until) m = snd (mem_claim now until m)"
| "mem_apply (ODone j) m = mem_done j m"
| "mem_apply (ORetry j) m = mem_retry j m"
| "mem_apply (OFail wall j) m = mem_fail wall j m"
| "mem_apply (ORunAgain jid at) m = snd (mem_run_again jid at m)"

definition mem_run :: "mem_op list \<Rightarrow> memory \<Rightarrow> memory" where
  "mem_run ops m = foldl (\<lambda>m op. mem_apply op m) m ops"


section \<open>What every method keeps of the jobs\<close>

text \<open>
  A job's ID, kind, key of its own and limit never change once it is pushed; and but for the claim
  that holds it, a method leaves the end of a job's hold as it was, or ends the hold.
\<close>

definition stays :: "memory_job \<Rightarrow> memory_job \<Rightarrow> bool" where
  "stays x y \<longleftrightarrow> j_id y = j_id x \<and> j_kind y = j_kind x \<and> mj_alone y = mj_alone x \<and>
     j_at_once y = j_at_once x \<and>
     (mj_held_until y = mj_held_until x \<or> mj_held_until y = zero_time)"

lemma stays_refl [simp, intro]: "stays x x"
  by (simp add: stays_def)

lemma list_all2_stays_refl [simp, intro]: "list_all2 stays xs xs"
  by (rule list.rel_refl) simp

lemma list_all2_stays_map:
  "(\<And>x. x \<in> set xs \<Longrightarrow> stays x (f x)) \<Longrightarrow> list_all2 stays xs (map f xs)"
  by (simp add: list.rel_map list.rel_refl_strong)

lemma hold_back_loop_stays:
  "list_all2 stays xs before \<Longrightarrow> list_all2 stays (xs @ rest) (hold_back_loop j before rest)"
proof (induction rest arbitrary: xs before)
  case Nil
  then show ?case by simp
next
  case (Cons mj rest)
  have snoc: "list_all2 stays (xs @ [mj]) (before @ [y])" if "stays mj y" for y
    using Cons.prems that by (simp add: list_all2_appendI)
  show ?case
    using Cons.IH [OF snoc] by (auto simp: Let_def stays_def)
qed

lemma move_waiting_stays:
  "move_waiting j xs = Some (i, ys) \<Longrightarrow> list_all2 stays xs ys"
  by (induction xs arbitrary: ys) (auto simp: stays_def split: if_splits)

lemma run_again_stays: "run_again_in i at xs = Some ys \<Longrightarrow> list_all2 stays xs ys"
  by (induction xs arbitrary: ys) (auto simp: stays_def split: if_splits)

lemma on_claimed_stays:
  "(\<And>x. stays x (f x)) \<Longrightarrow> list_all2 stays (mem_jobs m) (mem_jobs (on_claimed j f m))"
  by (auto simp: on_claimed_def intro: list_all2_stays_map)

text \<open>The ways a method other than a claim changes the jobs.\<close>

lemma mem_push_scheduled_shape:
  "mem_push_scheduled s j m =
     (if (case lookup (mem_schedules m) s of None \<Rightarrow> False | Some prev \<Rightarrow> \<not> prev < j_run_at j)
      then (False, m)
      else (True, if mem_waiting j m then m\<lparr>mem_schedules := put s (j_run_at j) (mem_schedules m)\<rparr>
                  else (snd (mem_push j m))\<lparr>mem_schedules := put s (j_run_at j) (mem_schedules m)\<rparr>))"
  by (simp add: mem_push_scheduled_def mem_waiting_def mem_push_def Let_def)

text \<open>The job a method may push.\<close>

fun pushed_job :: "mem_op \<Rightarrow> job option" where
  "pushed_job (OPush j) = Some j"
| "pushed_job (OPushScheduled s j) = Some j"
| "pushed_job (OPushUnique j) = Some j"
| "pushed_job (OPushLatest j) = Some j"
| "pushed_job _ = None"

definition jobs_change :: "job option \<Rightarrow> memory \<Rightarrow> memory \<Rightarrow> bool" where
  "jobs_change pj m m' \<longleftrightarrow>
     list_all2 stays (mem_jobs m) (mem_jobs m') \<and> mem_last m' = mem_last m \<or>
     (\<exists>j. pj = Some j \<and> mem_last m' = mem_last m + 1 \<and>
          mem_jobs m' = mem_jobs m @ [keep_job (j\<lparr>j_id := itoa (int (mem_last m + 1))\<rparr>)]) \<or>
     (\<exists>P. mem_jobs m' = filter P (mem_jobs m) \<and> mem_last m' = mem_last m)"

lemma push_change: "jobs_change (Some j) m (snd (mem_push j m))"
  by (simp add: jobs_change_def mem_push_def Let_def)

lemma mem_apply_change:
  assumes "\<forall>now until. op \<noteq> OClaim now until"
  shows "jobs_change (pushed_job op) m (mem_apply op m)"
proof (cases op)
  case (OPushScheduled s j)
  then show ?thesis
    using push_change [of j m] by (auto simp: mem_push_scheduled_shape jobs_change_def)
next
  case (OPushUnique j)
  then show ?thesis
    using push_change [of j m] by (auto simp: mem_push_unique_def jobs_change_def)
next
  case (OPushLatest j)
  then show ?thesis
    using push_change [of j m]
    by (auto simp: mem_push_latest_def jobs_change_def dest: move_waiting_stays split: option.splits)
next
  case (OHoldBack j until)
  then show ?thesis
    using hold_back_loop_stays [of "[]" "[]" "mem_jobs m" j]
    by (auto simp: mem_hold_back_def jobs_change_def Let_def)
next
  case (ODone j)
  then show ?thesis by (auto simp: mem_done_def jobs_change_def)
next
  case (ORetry j)
  then show ?thesis
    using on_claimed_stays [of "retry_job j" m j]
    by (simp add: mem_retry_def retry_job_def stays_def on_claimed_def jobs_change_def)
next
  case (OFail wall j)
  then show ?thesis
    using on_claimed_stays [of "fail_job wall j" m j]
    by (simp add: mem_fail_def fail_job_def stays_def on_claimed_def jobs_change_def)
next
  case (ORunAgain i at)
  then show ?thesis
    by (auto simp: mem_run_again_def jobs_change_def dest: run_again_stays split: option.splits)
qed (use assms push_change in auto)

lemma mem_apply_cases [case_names claim kept pushed dropped]:
  obtains (claim) now until where "op = OClaim now until"
    | (kept) "list_all2 stays (mem_jobs m) (mem_jobs (mem_apply op m))"
      "mem_last (mem_apply op m) = mem_last m"
    | (pushed) j where "pushed_job op = Some j" "mem_last (mem_apply op m) = mem_last m + 1"
      "mem_jobs (mem_apply op m) = mem_jobs m @ [keep_job (j\<lparr>j_id := itoa (int (mem_last m + 1))\<rparr>)]"
    | (dropped) P where "mem_jobs (mem_apply op m) = filter P (mem_jobs m)"
      "mem_last (mem_apply op m) = mem_last m"
  using mem_apply_change [of op m] unfolding jobs_change_def by blast

section \<open>Claims\<close>

text \<open>
  What the loop of \<open>Claim\<close> finds: of the jobs that can be claimed, the one due soonest, and of
  those due at one time, the one pushed first.
\<close>

lemma pick_soonest_fold:
  "case foldl (\<lambda>next mj. if P mj then pick_soonest next mj else next) None xs of
     None \<Rightarrow> list_all (\<lambda>x. \<not> P x) xs
   | Some y \<Rightarrow> P y \<and> (\<exists>ys zs. xs = ys @ y # zs \<and>
       (\<forall>x \<in> set ys. P x \<longrightarrow> j_run_at y < j_run_at x) \<and>
       (\<forall>x \<in> set zs. P x \<longrightarrow> j_run_at y \<le> j_run_at x))"
proof (induction xs rule: rev_induct)
  case Nil
  then show ?case by simp
next
  case (snoc a xs)
  let ?f = "\<lambda>next mj. if P mj then pick_soonest next mj else next"
  show ?case
  proof (cases "foldl ?f None xs")
    case None
    with snoc have "\<forall>x \<in> set xs. \<not> P x" by (simp add: list_all_iff)
    with None show ?thesis
      by (auto simp: pick_soonest_def list_all_iff intro: exI [where x = xs] exI [where x = "[]"])
  next
    case (Some y)
    with snoc obtain ys zs where y: "P y" "xs = ys @ y # zs"
      "\<forall>x \<in> set ys. P x \<longrightarrow> j_run_at y < j_run_at x" "\<forall>x \<in> set zs. P x \<longrightarrow> j_run_at y \<le> j_run_at x"
      by auto
    show ?thesis
    proof (cases "P a \<and> j_run_at a < j_run_at y")
      case True
      with y have "\<forall>x \<in> set xs. P x \<longrightarrow> j_run_at a < j_run_at x" by force
      with True Some show ?thesis by (auto simp: pick_soonest_def intro: exI [where x = xs] exI [where x = "[]"])
    next
      case False
      then have r: "foldl ?f None (xs @ [a]) = Some y" using Some by (auto simp: pick_soonest_def)
      have "xs @ [a] = ys @ y # (zs @ [a])" "\<forall>x \<in> set (zs @ [a]). P x \<longrightarrow> j_run_at y \<le> j_run_at x"
        using y False by auto
      with y(1,3) show ?thesis unfolding r option.case by blast
    qed
  qed
qed

lemma next_job_Some:
  assumes "next_job m now = Some y"
  shows "claimable m now y" "y \<in> set (mem_jobs m)"
    "\<forall>x \<in> set (mem_jobs m). claimable m now x \<longrightarrow> j_run_at y \<le> j_run_at x"
proof -
  from assms obtain ys zs where "claimable m now y" "mem_jobs m = ys @ y # zs"
    "\<forall>x \<in> set ys. claimable m now x \<longrightarrow> j_run_at y < j_run_at x"
    "\<forall>x \<in> set zs. claimable m now x \<longrightarrow> j_run_at y \<le> j_run_at x"
    using pick_soonest_fold [of "claimable m now" "mem_jobs m"]
    by (auto simp: next_job_def)
  then show "claimable m now y" "y \<in> set (mem_jobs m)"
    "\<forall>x \<in> set (mem_jobs m). claimable m now x \<longrightarrow> j_run_at y \<le> j_run_at x"
    by (auto intro: less_imp_le)
qed

lemma next_job_None:
  "next_job m now = None \<Longrightarrow> x \<in> set (mem_jobs m) \<Longrightarrow> \<not> claimable m now x"
  using pick_soonest_fold [of "claimable m now" "mem_jobs m"]
  by (auto simp: next_job_def list_all_iff)

lemma mem_claim_Some:
  assumes "mem_claim now until m = (Some j, m')"
  obtains mj where "next_job m now = Some mj" "j = job_of (take_job until mj)"
    "m' = m\<lparr>mem_jobs := map (\<lambda>x. if j_id x = j_id mj then take_job until x else x) (mem_jobs m)\<rparr>"
  using assms by (auto simp: mem_claim_def split: option.splits)

lemma job_of_simps [simp]:
  "j_id (job_of x) = j_id x" "j_kind (job_of x) = j_kind x" "j_attempts (job_of x) = j_attempts x"
  "j_payload (job_of x) = j_payload x" "j_key (job_of x) = j_key x" "j_run_at (job_of x) = j_run_at x"
  "j_failed_at (job_of x) = j_failed_at x" "j_error (job_of x) = j_error x"
  "j_at_once (job_of x) = j_at_once x" "j_one_at_a_time (job_of x) = j_one_at_a_time x"
  "j_carried (job_of x) = j_carried x"
  by (simp_all add: job_defs)

lemma keep_job_simps [simp]:
  "j_id (keep_job j) = j_id j" "j_kind (keep_job j) = j_kind j" "j_key (keep_job j) = j_key j"
  "j_attempts (keep_job j) = j_attempts j" "j_run_at (keep_job j) = j_run_at j"
  "j_at_once (keep_job j) = j_at_once j" "mj_failed (keep_job j) = False"
  "mj_held_until (keep_job j) = zero_time"
  "mj_alone (keep_job j) = (if j_one_at_a_time j then j_key j else [])"
  by (simp_all add: job_defs)

lemma take_job_simps [simp]:
  "j_id (take_job u x) = j_id x" "j_kind (take_job u x) = j_kind x"
  "mj_alone (take_job u x) = mj_alone x" "j_at_once (take_job u x) = j_at_once x"
  "mj_held_until (take_job u x) = u" "j_attempts (take_job u x) = j_attempts x + 1"
  "j_key (take_job u x) = []" "mj_failed (take_job u x) = mj_failed x"
  "j_run_at (take_job u x) = j_run_at x"
  by (simp_all add: take_job_def)

section \<open>The store's own invariant\<close>

text \<open>No two jobs share an ID: the IDs are numbers in the order of the pushes.\<close>

definition mem_ok :: "memory \<Rightarrow> bool" where
  "mem_ok m \<longleftrightarrow> distinct (map j_id (mem_jobs m)) \<and>
     (\<forall>mj \<in> set (mem_jobs m). \<exists>k \<in> {1..mem_last m}. j_id mj = itoa (int k))"

lemma mem_ok_empty [simp]: "mem_ok mem_empty"
  by (simp add: mem_ok_def mem_empty_def)

lemma stays_ids: "list_all2 stays xs ys \<Longrightarrow> map j_id ys = map j_id xs"
  by (induction rule: list_all2_induct) (auto simp: stays_def)

lemma mem_ok_same_ids:
  "mem_ok m \<Longrightarrow> map j_id (mem_jobs m') = map j_id (mem_jobs m) \<Longrightarrow> mem_last m' = mem_last m \<Longrightarrow> mem_ok m'"
  unfolding mem_ok_def by (metis (no_types, lifting) image_iff list.set_map)

lemma claim_ids: "map j_id (mem_jobs (snd (mem_claim now until m))) = map j_id (mem_jobs m)"
  by (auto simp: mem_claim_def split: option.splits)

lemma claim_last [simp]: "mem_last (snd (mem_claim now until m)) = mem_last m"
  by (auto simp: mem_claim_def split: option.splits)

lemma mem_apply_ok [inv_intros]:
  assumes ok: "mem_ok m"
  shows "mem_ok (mem_apply op m)"
proof (cases rule: mem_apply_cases [where op = op and m = m])
  case (claim now until)
  with ok show ?thesis by (auto intro: mem_ok_same_ids simp: claim_ids)
next
  case kept
  with ok show ?thesis by (auto intro: mem_ok_same_ids simp: stays_ids)
next
  case (pushed j)
  have "itoa (int (mem_last m + 1)) \<notin> j_id ` set (mem_jobs m)"
    using ok by (auto simp: mem_ok_def simp del: of_nat_Suc of_nat_add)
  with ok pushed show ?thesis
    by (auto simp: mem_ok_def simp del: of_nat_Suc of_nat_add intro: le_SucI)
next
  case (dropped P)
  with ok show ?thesis by (auto simp: mem_ok_def distinct_map_filter)
qed

lemma mem_run_snoc [simp]: "mem_run (ops @ [op]) m = mem_apply op (mem_run ops m)"
  by (simp add: mem_run_def)

lemma mem_run_Nil [simp]: "mem_run [] m = m"
  by (simp add: mem_run_def)

lemma mem_run_Cons: "mem_run (op # ops) m = mem_run ops (mem_apply op m)"
  by (simp add: mem_run_def)

lemma mem_run_ok [inv_intros]: "mem_ok m \<Longrightarrow> mem_ok (mem_run ops m)"
  by (induction ops rule: rev_induct) (auto intro: mem_apply_ok)

lemma mem_ok_id_inj:
  "mem_ok m \<Longrightarrow> x \<in> set (mem_jobs m) \<Longrightarrow> y \<in> set (mem_jobs m) \<Longrightarrow> j_id x = j_id y \<Longrightarrow> x = y"
  by (auto simp: mem_ok_def distinct_map dest: inj_onD)


section \<open>What a queue needs of a store\<close>

text \<open>
  The Store interface (queue/store.go), with the extras a Store may have: each method may fail, with
  an error. A type of Go has an extra when it has its methods; here the store says which it has.
\<close>

datatype store_extra =
  Keeps_schedules | Keeps_keys | Keeps_latest | Keeps_one_at_a_time | Keeps_at_once | Keeps_carried |
  Holds_back | Keeps_failed

record 's store_ops =
  so_extras :: "store_extra list"
  so_push :: "job \<Rightarrow> 's \<Rightarrow> (string + job) \<times> 's"
  so_claim :: "instant \<Rightarrow> instant \<Rightarrow> 's \<Rightarrow> (string + job option) \<times> 's"
  so_done :: "job \<Rightarrow> 's \<Rightarrow> string option \<times> 's"
  so_retry :: "job \<Rightarrow> 's \<Rightarrow> string option \<times> 's"
  so_fail :: "job \<Rightarrow> 's \<Rightarrow> string option \<times> 's"
  so_push_scheduled :: "string \<Rightarrow> job \<Rightarrow> 's \<Rightarrow> (string + bool) \<times> 's"
  so_push_unique :: "job \<Rightarrow> 's \<Rightarrow> (string + bool) \<times> 's"
  so_push_latest :: "job \<Rightarrow> 's \<Rightarrow> (string + job) \<times> 's"
  so_hold_back :: "job \<Rightarrow> instant \<Rightarrow> 's \<Rightarrow> string option \<times> 's"

text \<open>Memory has every extra, and no method of it fails; \<open>wall\<close> is its own clock's time.\<close>

definition memory_store :: "instant \<Rightarrow> memory store_ops" where
  "memory_store wall =
     \<lparr>so_extras = [Keeps_schedules, Keeps_keys, Keeps_latest, Keeps_one_at_a_time, Keeps_at_once,
        Keeps_carried, Holds_back, Keeps_failed],
      so_push = (\<lambda>j m. apfst Inr (mem_push j m)),
      so_claim = (\<lambda>now until m. apfst Inr (mem_claim now until m)),
      so_done = (\<lambda>j m. (None, mem_done j m)),
      so_retry = (\<lambda>j m. (None, mem_retry j m)),
      so_fail = (\<lambda>j m. (None, mem_fail wall j m)),
      so_push_scheduled = (\<lambda>s j m. apfst Inr (mem_push_scheduled s j m)),
      so_push_unique = (\<lambda>j m. apfst Inr (mem_push_unique j m)),
      so_push_latest = (\<lambda>j m. apfst Inr (mem_push_latest j m)),
      so_hold_back = (\<lambda>j until m. (None, mem_hold_back j until m))\<rparr>"

lemma memory_store_simps [simp]:
  "so_push (memory_store wall) j m = apfst Inr (mem_push j m)"
  "so_claim (memory_store wall) now until m = apfst Inr (mem_claim now until m)"
  "so_done (memory_store wall) j m = (None, mem_done j m)"
  "so_retry (memory_store wall) j m = (None, mem_retry j m)"
  "so_fail (memory_store wall) j m = (None, mem_fail wall j m)"
  "so_push_scheduled (memory_store wall) sc j m = apfst Inr (mem_push_scheduled sc j m)"
  "so_push_unique (memory_store wall) j m = apfst Inr (mem_push_unique j m)"
  "so_push_latest (memory_store wall) j m = apfst Inr (mem_push_latest j m)"
  "so_hold_back (memory_store wall) j until m = (None, mem_hold_back j until m)"
  by (simp_all add: memory_store_def)

text \<open>
  The promises, over the list of the jobs the store keeps: a claim takes one of them that is due and
  that no claim holds, and Done, Retry and Fail change the job they are given, as its latest claim
  left it, and no other. After an error the jobs may be as they were or as the call made them.
\<close>

locale job_store =
  fixes ops :: "'s store_ops"
    and kept :: "'s \<Rightarrow> memory_job list"
    and ok :: "'s \<Rightarrow> bool"
  assumes kept_ids: "ok s \<Longrightarrow> distinct (map j_id (kept s))"
    and claim_ok: "ok s \<Longrightarrow> so_claim ops now until s = (r, s') \<Longrightarrow> ok s'"
    and claim_none: "ok s \<Longrightarrow> so_claim ops now until s = (Inr None, s') \<Longrightarrow> kept s' = kept s"
    and claim_some: "ok s \<Longrightarrow> so_claim ops now until s = (Inr (Some j), s') \<Longrightarrow>
      \<exists>ys mj zs. kept s = ys @ mj # zs \<and> \<not> mj_failed mj \<and> j_run_at mj \<le> now \<and>
        mj_held_until mj \<le> now \<and> j = job_of (take_job until mj) \<and>
        kept s' = ys @ take_job until mj # zs"
    and done_ok: "ok s \<Longrightarrow> so_done ops j s = (e, s') \<Longrightarrow> ok s'"
    and done_kept: "ok s \<Longrightarrow> so_done ops j s = (e, s') \<Longrightarrow>
      kept s' = filter (\<lambda>mj. \<not> claimed_by mj j) (kept s) \<or> e \<noteq> None \<and> kept s' = kept s"
    and retry_ok: "ok s \<Longrightarrow> so_retry ops j s = (e, s') \<Longrightarrow> ok s'"
    and retry_kept: "ok s \<Longrightarrow> so_retry ops j s = (e, s') \<Longrightarrow>
      kept s' = map (\<lambda>mj. if claimed_by mj j then retry_job j mj else mj) (kept s) \<or>
      e \<noteq> None \<and> kept s' = kept s"
    and fail_ok: "ok s \<Longrightarrow> so_fail ops j s = (e, s') \<Longrightarrow> ok s'"
    and fail_kept: "ok s \<Longrightarrow> so_fail ops j s = (e, s') \<Longrightarrow>
      (\<exists>wall. kept s' = map (\<lambda>mj. if claimed_by mj j then fail_job wall j mj else mj) (kept s)) \<or>
      e \<noteq> None \<and> kept s' = kept s"

locale hold_back_store = job_store +
  assumes hold_back_ok: "ok s \<Longrightarrow> so_hold_back ops j until s = (e, s') \<Longrightarrow> ok s'"
    and hold_back_kept: "ok s \<Longrightarrow> so_hold_back ops j until s = (e, s') \<Longrightarrow>
      kept s' = hold_back_loop j [] (kept s) \<or> e \<noteq> None \<and> kept s' = kept s"

lemma claim_shape:
  assumes "mem_ok m" "next_job m now = Some mj"
  obtains ys zs where "claimable m now mj" "mem_jobs m = ys @ mj # zs"
    "\<forall>x \<in> set ys. claimable m now x \<longrightarrow> j_run_at mj < j_run_at x"
    "\<forall>x \<in> set zs. claimable m now x \<longrightarrow> j_run_at mj \<le> j_run_at x"
    "mem_claim now until m =
       (Some (job_of (take_job until mj)), m\<lparr>mem_jobs := ys @ take_job until mj # zs\<rparr>)"
proof -
  from assms obtain ys zs where mj: "claimable m now mj" "mem_jobs m = ys @ mj # zs"
    "\<forall>x \<in> set ys. claimable m now x \<longrightarrow> j_run_at mj < j_run_at x"
    "\<forall>x \<in> set zs. claimable m now x \<longrightarrow> j_run_at mj \<le> j_run_at x"
    using pick_soonest_fold [of "claimable m now" "mem_jobs m"] by (auto simp: next_job_def)
  have "distinct (map j_id (ys @ mj # zs))" using assms mj(2) by (simp add: mem_ok_def)
  then have "\<forall>x \<in> set ys \<union> set zs. j_id x \<noteq> j_id mj" by (force simp: image_iff)
  then have "map (\<lambda>x. if j_id x = j_id mj then take_job until x else x) (mem_jobs m) =
      ys @ take_job until mj # zs"
    using mj(2) by (auto intro!: map_idI)
  with that mj assms(2) show ?thesis by (simp add: mem_claim_def)
qed

interpretation mem_store: hold_back_store "memory_store wall" mem_jobs mem_ok
proof unfold_locales
  fix m now until and j :: job and m'
  assume ok: "mem_ok m" and "so_claim (memory_store wall) now until m = (Inr (Some j), m')"
  then have c: "mem_claim now until m = (Some j, m')" by (cases "mem_claim now until m") simp
  then obtain mj where mj: "next_job m now = Some mj" by (rule mem_claim_Some)
  show "\<exists>ys mj zs. mem_jobs m = ys @ mj # zs \<and> \<not> mj_failed mj \<and> j_run_at mj \<le> now \<and>
        mj_held_until mj \<le> now \<and> j = job_of (take_job until mj) \<and>
        mem_jobs m' = ys @ take_job until mj # zs"
    by (rule claim_shape [OF ok mj, of until]) (use c in \<open>force simp: claimable_def not_less\<close>)
next
  fix m now until r m'
  assume "mem_ok m" "so_claim (memory_store wall) now until m = (r, m')"
  then show "mem_ok m'"
    using mem_apply_ok [of m "OClaim now until"] by (cases "mem_claim now until m") auto
next
  fix m now until m'
  assume "mem_ok m" "so_claim (memory_store wall) now until m = (Inr None, m')"
  then show "mem_jobs m' = mem_jobs m"
    by (cases "mem_claim now until m") (auto simp: mem_claim_def split: option.splits)
next
  fix m j and e :: "string option" and m'
  assume ok: "mem_ok m"
  show "so_done (memory_store wall) j m = (e, m') \<Longrightarrow> mem_ok m'"
    using mem_apply_ok [OF ok, of "ODone j"] by auto
  show "so_retry (memory_store wall) j m = (e, m') \<Longrightarrow> mem_ok m'"
    using mem_apply_ok [OF ok, of "ORetry j"] by auto
  show "so_fail (memory_store wall) j m = (e, m') \<Longrightarrow> mem_ok m'"
    using mem_apply_ok [OF ok, of "OFail wall j"] by auto
  show "so_hold_back (memory_store wall) j until m = (e, m') \<Longrightarrow> mem_ok m'" for until
    using mem_apply_ok [OF ok, of "OHoldBack j until"] by auto
qed (auto simp: mem_ok_def mem_done_def mem_retry_def mem_fail_def on_claimed_def mem_hold_back_def Let_def)

end
