(* ===== verification/Job_Claims.thy ===== *)
theory Job_Claims
  imports Job_Store
begin

text \<open>
  What Memory promises of its claims (queue/queuetest/queuetest.go): which job a claim returns, that
  a claimed job is its worker's alone while the hold lasts, that a kind's limit and a key's one at a
  time are kept over every run of the store, that one job of a key waits, and that a schedule's runs
  are pushed once each.
\<close>

definition plain_job :: "instant \<Rightarrow> job" where
  "plain_job at = \<lparr>j_id = [], j_kind = ''mail'', j_payload = ''{}'', j_key = [], j_run_at = at,
     j_attempts = 0, j_error = [], j_one_at_a_time = False, j_at_once = 0, j_failed_at = zero_time,
     j_carried = []\<rparr>"

definition lone_job :: "instant \<Rightarrow> job" where
  "lone_job at = (plain_job at)\<lparr>j_key := ''key'', j_one_at_a_time := True\<rparr>"

lemma job_examples [simp]:
  "j_key (plain_job t) = []" "j_kind (plain_job t) = ''mail''" "j_run_at (plain_job t) = t"
  "j_attempts (plain_job t) = 0" "j_at_once (plain_job t) = 0" "j_one_at_a_time (plain_job t) = False"
  "j_key (lone_job t) = ''key''" "j_kind (lone_job t) = ''mail''" "j_run_at (lone_job t) = t"
  "j_attempts (lone_job t) = 0" "j_at_once (lone_job t) = 0" "j_one_at_a_time (lone_job t) = True"
  by (simp_all add: plain_job_def lone_job_def)

lemmas run_evals =
  mem_run_def mem_empty_def mem_push_def mem_push_unique_def mem_push_latest_def mem_claim_def
  mem_push_scheduled_def mem_waiting_def waiting_in_def same_key_def
  next_job_def claimable_def pick_soonest_def mem_running_def mem_at_limit_def kind_held_def
  mem_done_def claimed_by_def zero_time_def itoa_def nat_digits_small Let_def

section \<open>What a claim returns\<close>

lemma claim_jobs:
  assumes "mem_ok m" "next_job m now = Some mj"
  obtains ys zs where "claimable m now mj" "mem_jobs m = ys @ mj # zs"
    "mem_jobs (mem_apply (OClaim now until) m) = ys @ take_job until mj # zs"
  by (rule claim_shape [OF assms, of until]) (use that in auto)

text \<open>
  C3. Claim returns the job due soonest of those that may run now, and of those due at one moment the
  one pushed first, held until the time it was given with one attempt more and its key let go; it
  changes no other job, and it returns nothing exactly when no job may run.
\<close>

theorem claim_takes_the_soonest:
  assumes "mem_ok m"
  shows "case mem_claim now until m of
      (None, m') \<Rightarrow> m' = m \<and> (\<nexists>mj. mj \<in> set (mem_jobs m) \<and> claimable m now mj)
    | (Some j, m') \<Rightarrow> (\<exists>ys mj zs. mem_jobs m = ys @ mj # zs \<and> claimable m now mj \<and>
        filter (\<lambda>x. claimable m now x \<and> j_run_at x \<le> j_run_at mj) ys = [] \<and>
        filter (\<lambda>x. claimable m now x \<and> j_run_at x < j_run_at mj) zs = [] \<and>
        j = job_of (take_job until mj) \<and>
        m' = m\<lparr>mem_jobs := ys @ take_job until mj # zs\<rparr>)"
proof (cases "next_job m now")
  case None
  then show ?thesis using next_job_None [OF None] by (auto simp: mem_claim_def)
next
  case (Some mj)
  obtain ys zs where *: "claimable m now mj" "mem_jobs m = ys @ mj # zs"
    "\<forall>x \<in> set ys. claimable m now x \<longrightarrow> j_run_at mj < j_run_at x"
    "\<forall>x \<in> set zs. claimable m now x \<longrightarrow> j_run_at mj \<le> j_run_at x"
    "mem_claim now until m =
       (Some (job_of (take_job until mj)), m\<lparr>mem_jobs := ys @ take_job until mj # zs\<rparr>)"
    using claim_shape [OF assms Some] .
  moreover from *(3,4) have "filter (\<lambda>x. claimable m now x \<and> j_run_at x \<le> j_run_at mj) ys = []"
    "filter (\<lambda>x. claimable m now x \<and> j_run_at x < j_run_at mj) zs = []"
    by (auto simp: filter_empty_conv)
  ultimately show ?thesis by auto
qed

theorem claim_takes_the_soonest_witness:
  "\<exists>j m'. mem_claim 5 65 (mem_run [OPush (plain_job 3), OPush (plain_job 2)] mem_empty) = (Some j, m') \<and>
     j_id j = ''2''"
  using claim_takes_the_soonest [OF mem_run_ok [OF mem_ok_empty],
      of "[OPush (plain_job 3), OPush (plain_job 2)]" 5 65]
  by (auto simp: run_evals)

section \<open>The jobs that are held\<close>

definition held_jobs :: "memory \<Rightarrow> instant \<Rightarrow> (string \<times> string \<times> string) set" where
  "held_jobs m at =
     (\<lambda>x. (j_id x, j_kind x, mj_alone x)) ` {x \<in> set (mem_jobs m). at < mj_held_until x}"

lemma held_jobs_later: "now \<le> at \<Longrightarrow> held_jobs m at \<subseteq> held_jobs m now"
  by (auto simp: held_jobs_def)

lemma stays_held:
  assumes "list_all2 stays xs ys" "y \<in> set ys" "0 \<le> at" "at < mj_held_until y"
  shows "\<exists>x \<in> set xs. stays x y \<and> at < mj_held_until x"
proof -
  from assms(1,2) obtain x where "x \<in> set xs" "stays x y"
    by (metis in_set_conv_nth list_all2_conv_all_nth)
  with assms(3,4) show ?thesis by (auto simp: stays_def zero_time_def intro!: bexI [of _ x])
qed

lemma held_jobs_apply:
  assumes "\<forall>now until. op \<noteq> OClaim now until" "0 \<le> at"
  shows "held_jobs (mem_apply op m) at \<subseteq> held_jobs m at"
proof (cases rule: mem_apply_cases [where op = op and m = m])
  case (claim now until)
  with assms show ?thesis by blast
next
  case kept
  then show ?thesis
    using stays_held [OF kept(1) _ assms(2)] by (fastforce simp: held_jobs_def stays_def)
next
  case (pushed j)
  then show ?thesis using assms(2) by (auto simp: held_jobs_def zero_time_def)
next
  case (dropped P)
  then show ?thesis by (auto simp: held_jobs_def)
qed

lemma held_jobs_claim:
  assumes "next_job m now = Some mj" "mem_ok m"
  shows "held_jobs (mem_apply (OClaim now until) m) at \<subseteq>
    insert (j_id mj, j_kind mj, mj_alone mj) (held_jobs m at)"
proof -
  have same: "x = mj" if "x \<in> set (mem_jobs m)" "j_id x = j_id mj" for x
    using mem_ok_id_inj [OF assms(2) that(1) next_job_Some(2) [OF assms(1)] that(2)] .
  show ?thesis using assms(1) by (auto simp: mem_claim_def held_jobs_def dest: same split: if_splits)
qed

lemma held_jobs_no_claim:
  "next_job m now = None \<Longrightarrow> mem_apply (OClaim now until) m = m"
  by (simp add: mem_claim_def)

text \<open>The times a run's claims are made at.\<close>

fun claim_time :: "mem_op \<Rightarrow> instant list" where
  "claim_time (OClaim now until) = [now]"
| "claim_time _ = []"

definition claim_times :: "mem_op list \<Rightarrow> instant list" where
  "claim_times ops = concat (map claim_time ops)"

lemma claim_times_simps [simp]:
  "claim_times [] = []" "claim_times (ops @ [op]) = claim_times ops @ claim_time op"
  "claim_times (op # ops) = claim_time op @ claim_times ops"
  by (simp_all add: claim_times_def)

lemma claim_time_Nil: "claim_time op = [] \<longleftrightarrow> (\<forall>now until. op \<noteq> OClaim now until)"
  by (cases op) auto

section \<open>One at a time\<close>

lemma alone_excluded:
  assumes "sorted (0 # claim_times ops)" "\<forall>t \<in> set (0 # claim_times ops). t \<le> at"
    and "(i, k, a) \<in> held_jobs (mem_run ops mem_empty) at" "a \<noteq> []"
    and "(i', k, a) \<in> held_jobs (mem_run ops mem_empty) at"
  shows "i = i'"
  using assms
proof (induction ops arbitrary: i i' rule: rev_induct)
  case Nil
  then show ?case by (simp add: held_jobs_def mem_empty_def)
next
  case (snoc op ops)
  let ?m = "mem_run ops mem_empty"
  have ok: "mem_ok ?m" by (rule mem_run_ok) simp
  have pre: "sorted (0 # claim_times ops)" "\<forall>t \<in> set (0 # claim_times ops). t \<le> at" "0 \<le> at"
    using snoc.prems(1,2) by (auto simp: sorted_append)
  show ?case
  proof (cases "next_job ?m (hd (claim_time op @ [0])) = None \<or> claim_time op = []")
    case True
    then have "held_jobs (mem_apply op ?m) at \<subseteq> held_jobs ?m at"
      using held_jobs_apply [OF _ pre(3)] held_jobs_no_claim
      by (cases op) (auto simp del: mem_apply.simps)
    with snoc pre show ?thesis by auto
  next
    case False
    then obtain now until mj where op: "op = OClaim now until" and mj: "next_job ?m now = Some mj"
      by (cases op) auto
    have "now \<le> at" using snoc.prems(2) op by simp
    have "\<not> mem_running ?m mj now" using next_job_Some(1) [OF mj] by (simp add: claimable_def)
    then have free: "(i, j_kind mj, mj_alone mj) \<in> held_jobs ?m at \<Longrightarrow> mj_alone mj \<noteq> [] \<Longrightarrow> i = j_id mj" for i
      using \<open>now \<le> at\<close> by (force simp: mem_running_def held_jobs_def list_ex_iff)
    note sub = held_jobs_claim [OF mj ok, of until at]
    have either: "i = j_id mj \<and> k = j_kind mj \<and> a = mj_alone mj \<or> (i, k, a) \<in> held_jobs ?m at"
      if "(i, k, a) \<in> held_jobs (mem_run (ops @ [op]) mem_empty) at" for i
      using that sub op by auto
    show ?thesis
      using either [OF snoc.prems(3)] either [OF snoc.prems(5)] free snoc.prems(4) snoc.IH [OF pre(1,2)]
      by metis
  qed
qed

text \<open>
  C7. No two jobs of one kind and value run at once where their kind is OneAtATime: in every state
  the store reaches from empty by any sequence of its methods, with claims made at times that do not
  go back, two jobs with one key of their own whose holds both last are the same job.
\<close>

theorem one_at_a_time:
  assumes "sorted (0 # claim_times ops)" "list_all (\<lambda>t. t \<le> at) (0 # claim_times ops)"
    and "x \<in> set (mem_jobs (mem_run ops mem_empty))" "y \<in> set (mem_jobs (mem_run ops mem_empty))"
    and "j_kind x = j_kind y" "mj_alone x = mj_alone y" "mj_alone x \<noteq> []"
    and "at < mj_held_until x" "at < mj_held_until y"
  shows "x = y"
proof -
  have "(j_id x, j_kind x, mj_alone x) \<in> held_jobs (mem_run ops mem_empty) at"
    "(j_id y, j_kind x, mj_alone x) \<in> held_jobs (mem_run ops mem_empty) at"
    using assms by (auto simp: held_jobs_def)
  with assms(1,2,7) have "j_id x = j_id y" by (intro alone_excluded) (auto simp: list_all_iff)
  with assms(3,4) show ?thesis using mem_ok_id_inj [OF mem_run_ok [OF mem_ok_empty]] by blast
qed


theorem one_at_a_time_witness:
  "mem_claim 6 66 (mem_run [OPush (lone_job 1), OPush (lone_job 2), OClaim 5 65] mem_empty) =
     (None, mem_run [OPush (lone_job 1), OPush (lone_job 2), OClaim 5 65] mem_empty) \<and>
   \<not> (\<exists>x y. x \<noteq> y \<and> {x, y} \<subseteq> set (mem_jobs (mem_run [OPush (lone_job 1), OPush (lone_job 2), OClaim 5 65, OClaim 6 66] mem_empty)) \<and>
     mj_alone x = ''key'' \<and> mj_alone y = ''key'' \<and> 7 < mj_held_until x \<and> 7 < mj_held_until y)"
proof
  show "mem_claim 6 66 (mem_run [OPush (lone_job 1), OPush (lone_job 2), OClaim 5 65] mem_empty) =
     (None, mem_run [OPush (lone_job 1), OPush (lone_job 2), OClaim 5 65] mem_empty)"
    by (simp add: run_evals)
  let ?ops = "[OPush (lone_job 1), OPush (lone_job 2), OClaim 5 65, OClaim 6 66]"
  have kinds: "\<forall>x \<in> set (mem_jobs (mem_run ?ops mem_empty)). j_kind x = ''mail''"
    by (simp add: run_evals)
  have "x = y" if "{x, y} \<subseteq> set (mem_jobs (mem_run ?ops mem_empty))" "mj_alone x = ''key''" "mj_alone y = ''key''"
      "7 < mj_held_until x" "7 < mj_held_until y" for x y
    by (rule one_at_a_time [of ?ops 7]) (use kinds that in auto)
  then show "\<not> (\<exists>x y. x \<noteq> y \<and> {x, y} \<subseteq> set (mem_jobs (mem_run ?ops mem_empty)) \<and>
     mj_alone x = ''key'' \<and> mj_alone y = ''key'' \<and> 7 < mj_held_until x \<and> 7 < mj_held_until y)"
    by blast
qed

section \<open>A kind's limit\<close>

definition held_count :: "string \<Rightarrow> instant \<Rightarrow> memory_job list \<Rightarrow> nat" where
  "held_count k at xs = length (filter (\<lambda>x. j_kind x = k \<and> at < mj_held_until x) xs)"

definition limited :: "string \<Rightarrow> int \<Rightarrow> mem_op \<Rightarrow> bool" where
  "limited k n op \<longleftrightarrow>
     (case pushed_job op of None \<Rightarrow> True | Some j \<Rightarrow> j_kind j = k \<longrightarrow> j_at_once j = n)"

lemma held_count_append [simp]: "held_count k at (xs @ ys) = held_count k at xs + held_count k at ys"
  by (simp add: held_count_def)

lemma held_count_Cons [simp]:
  "held_count k at (x # xs) = (if j_kind x = k \<and> at < mj_held_until x then 1 else 0) + held_count k at xs"
  by (simp add: held_count_def)

lemma held_count_later: "now \<le> at \<Longrightarrow> held_count k at xs \<le> held_count k now xs"
  by (induction xs) (auto simp: held_count_def)

lemma held_count_stays:
  "list_all2 stays xs ys \<Longrightarrow> 0 \<le> at \<Longrightarrow> held_count k at ys \<le> held_count k at xs"
  by (induction rule: list_all2_induct) (auto simp: stays_def held_count_def zero_time_def)

lemma held_count_filter: "held_count k at (filter P xs) \<le> held_count k at xs"
  by (induction xs) (auto simp: held_count_def)

lemma stays_at_once:
  "list_all2 stays xs ys \<Longrightarrow> \<forall>x \<in> set xs. j_kind x = k \<longrightarrow> j_at_once x = n \<Longrightarrow>
   \<forall>y \<in> set ys. j_kind y = k \<longrightarrow> j_at_once y = n"
  by (induction rule: list_all2_induct) (auto simp: stays_def)

lemma limits_agree_apply:
  assumes "limited k n op" "mem_ok m" "\<forall>x \<in> set (mem_jobs m). j_kind x = k \<longrightarrow> j_at_once x = n"
  shows "\<forall>x \<in> set (mem_jobs (mem_apply op m)). j_kind x = k \<longrightarrow> j_at_once x = n"
proof (cases rule: mem_apply_cases [where op = op and m = m])
  case (claim now until)
  then show ?thesis using assms(3) by (auto simp: mem_claim_def split: option.splits)
next
  case kept
  then show ?thesis using stays_at_once [OF kept(1) assms(3)] by simp
next
  case (pushed j)
  then show ?thesis using assms(1,3) by (auto simp: limited_def)
next
  case (dropped P)
  then show ?thesis using assms(3) by auto
qed

lemma held_count_apply:
  assumes "\<forall>now until. op \<noteq> OClaim now until" "0 \<le> at"
  shows "held_count k at (mem_jobs (mem_apply op m)) \<le> held_count k at (mem_jobs m)"
proof (cases rule: mem_apply_cases [where op = op and m = m])
  case (claim now until)
  with assms show ?thesis by blast
next
  case kept
  then show ?thesis using held_count_stays assms(2) by blast
next
  case (pushed j)
  then show ?thesis using assms(2) by (simp add: held_count_def zero_time_def)
next
  case (dropped P)
  then show ?thesis by (simp add: held_count_filter)
qed

lemma at_once_bound:
  assumes "sorted (0 # claim_times ops)" "\<forall>t \<in> set (0 # claim_times ops). t \<le> at"
    and "list_all (limited k n) ops" "0 < n"
  shows "int (held_count k at (mem_jobs (mem_run ops mem_empty))) \<le> n \<and>
    (\<forall>x \<in> set (mem_jobs (mem_run ops mem_empty)). j_kind x = k \<longrightarrow> j_at_once x = n)"
  using assms
proof (induction ops rule: rev_induct)
  case Nil
  then show ?case by (simp add: mem_empty_def held_count_def)
next
  case (snoc op ops)
  let ?m = "mem_run ops mem_empty"
  have ok: "mem_ok ?m" by (rule mem_run_ok) simp
  have at: "0 \<le> at" using snoc.prems by simp
  have IH: "int (held_count k at (mem_jobs ?m)) \<le> n"
    "\<forall>x \<in> set (mem_jobs ?m). j_kind x = k \<longrightarrow> j_at_once x = n"
    using snoc by (auto simp: sorted_append)
  have limits: "\<forall>x \<in> set (mem_jobs (mem_apply op ?m)). j_kind x = k \<longrightarrow> j_at_once x = n"
    using snoc.prems(3) by (intro limits_agree_apply [OF _ ok IH(2)]) simp
  have "int (held_count k at (mem_jobs (mem_apply op ?m))) \<le> n"
  proof (cases "\<exists>now until mj. op = OClaim now until \<and> next_job ?m now = Some mj")
    case False
    then have "held_count k at (mem_jobs (mem_apply op ?m)) \<le> held_count k at (mem_jobs ?m)"
      using held_count_apply [OF _ at, of op k ?m] by (cases op) (auto simp: mem_claim_def)
    with IH(1) show ?thesis by linarith
  next
    case True
    then obtain now until mj where op: "op = OClaim now until" and mj: "next_job ?m now = Some mj"
      by blast
    have now: "now \<le> at" using snoc.prems(2) op by simp
    obtain ys zs where c: "claimable ?m now mj" "mem_jobs ?m = ys @ mj # zs"
      "mem_jobs (mem_apply op ?m) = ys @ take_job until mj # zs"
      using claim_jobs [OF ok mj, of until] op by metis
    show ?thesis
    proof (cases "j_kind mj = k")
      case False
      with c IH(1) show ?thesis by simp
    next
      case True
      have "j_at_once mj = n" using True IH(2) c(2) by simp
      then have "int (held_count k now (mem_jobs ?m)) < n"
        using c(1) True snoc.prems(4) by (simp add: claimable_def mem_at_limit_def held_count_def)
      then have "int (held_count k at (mem_jobs ?m)) < n"
        using held_count_later [OF now, of k "mem_jobs ?m"] by linarith
      then show ?thesis unfolding c(2,3) by (simp split: if_splits)
    qed
  qed
  with limits show ?case by simp
qed

text \<open>
  A kind that says AtOnce n never runs more than n of its jobs at once: where each push of the kind
  has its limit, then after any sequence of the store's methods, with claims at times that do not go
  back, at most n of its jobs are held.
\<close>

theorem at_once_kept:
  assumes "sorted (0 # claim_times ops)" "list_all (\<lambda>t. t \<le> at) (0 # claim_times ops)"
    and "list_all (limited k n) ops" "0 < n"
  shows "int (length (filter (\<lambda>x. j_kind x = k \<and> at < mj_held_until x)
           (mem_jobs (mem_run ops mem_empty)))) \<le> n"
  using at_once_bound [of ops at k n] assms by (simp add: list_all_iff held_count_def)


theorem at_once_kept_witness:
  "int (length (filter (\<lambda>x. j_kind x = ''mail'' \<and> 7 < mj_held_until x)
     (mem_jobs (mem_run [OPush ((plain_job 1)\<lparr>j_at_once := 1\<rparr>), OPush ((plain_job 2)\<lparr>j_at_once := 1\<rparr>),
        OClaim 5 65, OClaim 6 66] mem_empty)))) \<le> 1"
  by (rule at_once_kept) (simp_all add: limited_def)

section \<open>One job of a key waits\<close>

text \<open>
  The queue pushes a job with a key through PushUnique, PushLatest or PushScheduled, and gives
  HoldBack the job a claim returned, whose kind is the kept job's: the steps it takes of a store.
\<close>

fun queue_op :: "mem_op \<Rightarrow> memory \<Rightarrow> bool" where
  "queue_op (OPush j) m = (j_key j = [])"
| "queue_op (OHoldBack j until) m =
     list_all (\<lambda>mj. claimed_by mj j \<longrightarrow> j_kind mj = j_kind j) (mem_jobs m)"
| "queue_op _ m = True"

inductive mem_reachable :: "memory \<Rightarrow> bool" where
  empty: "mem_reachable mem_empty"
| step: "mem_reachable m \<Longrightarrow> queue_op op m \<Longrightarrow> mem_reachable (mem_apply op m)"

definition waiting_keys :: "memory_job list \<Rightarrow> (string \<times> string) list" where
  "waiting_keys xs = map (\<lambda>x. (j_kind x, j_key x)) (filter (\<lambda>x. j_key x \<noteq> []) xs)"

lemma waiting_keys_simps [simp]:
  "waiting_keys [] = []"
  "waiting_keys (x # xs) =
     (if j_key x = [] then waiting_keys xs else (j_kind x, j_key x) # waiting_keys xs)"
  "waiting_keys (xs @ ys) = waiting_keys xs @ waiting_keys ys"
  by (simp_all add: waiting_keys_def)

lemma waiting_keys_same:
  "list_all2 (\<lambda>x y. j_kind y = j_kind x \<and> j_key y = j_key x) xs ys \<Longrightarrow> waiting_keys ys = waiting_keys xs"
  by (induction rule: list_all2_induct) auto

lemma waiting_in_keys: "waiting_in j xs \<longleftrightarrow> j_key j \<noteq> [] \<and> (j_kind j, j_key j) \<in> set (waiting_keys xs)"
  by (force simp: waiting_in_def waiting_keys_def same_key_def list_ex_iff)

lemma waiting_keys_map:
  "(\<And>x. j_kind (f x) = j_kind x \<and> j_key (f x) = j_key x) \<Longrightarrow> waiting_keys (map f xs) = waiting_keys xs"
  by (rule waiting_keys_same) (simp add: list.rel_map list.rel_refl)

lemma move_waiting_keys: "move_waiting j xs = Some (i, ys) \<Longrightarrow> waiting_keys ys = waiting_keys xs"
  by (induction xs arbitrary: ys) (auto split: if_splits)

lemma move_waiting_None: "move_waiting j xs = None \<longleftrightarrow> \<not> waiting_in j xs"
  by (induction xs) (auto simp: waiting_in_def)

lemma run_again_keys: "run_again_in i at xs = Some ys \<Longrightarrow> waiting_keys ys = waiting_keys xs"
  by (induction xs arbitrary: ys) (auto split: if_splits)

lemma distinct_push_key:
  assumes "distinct (waiting_keys (mem_jobs m))" "\<not> mem_waiting j m"
  shows "distinct (waiting_keys (mem_jobs (snd (mem_push j m))))"
  using assms by (auto simp: mem_push_def Let_def mem_waiting_def waiting_in_keys)

lemma waiting_keys_filter: "distinct (waiting_keys xs) \<Longrightarrow> distinct (waiting_keys (filter P xs))"
  by (induction xs) (auto simp: waiting_keys_def)

lemma hold_back_keys:
  assumes "distinct (waiting_keys (before @ rest))" "\<forall>x \<in> set rest. claimed_by x j \<longrightarrow> j_kind x = j_kind j"
  shows "distinct (waiting_keys (hold_back_loop j before rest))"
  using assms
proof (induction rest arbitrary: before)
  case Nil
  then show ?case by simp
next
  case (Cons x rest)
  let ?x = "x\<lparr>j_attempts := j_attempts x - 1, mj_held_until := zero_time\<rparr>"
  have "distinct (waiting_keys ((before @ [?x\<lparr>j_key := j_key j\<rparr>]) @ rest))"
    if "\<not> waiting_in j (before @ ?x # rest)" "claimed_by x j"
    using Cons.prems that by (cases "j_key x = []") (auto simp: waiting_in_keys)
  moreover have "distinct (waiting_keys ((before @ [?x]) @ rest))"
    using Cons.prems(1) by (simp split: if_splits)
  ultimately show ?case
    using Cons.IH [of "before @ [x]"] Cons.IH [of "before @ [?x]"] Cons.prems
      Cons.IH [of "before @ [?x\<lparr>j_key := j_key j\<rparr>]"]
    by (simp add: Let_def)
qed

lemma waiting_keys_apply:
  assumes "distinct (waiting_keys (mem_jobs m))" "queue_op op m" "mem_ok m"
  shows "distinct (waiting_keys (mem_jobs (mem_apply op m)))"
proof (cases op)
  case (OPush j)
  with assms show ?thesis by (simp add: distinct_push_key mem_waiting_def waiting_in_def)
next
  case (OPushScheduled s j)
  with assms distinct_push_key [of m j] show ?thesis by (auto simp: mem_push_scheduled_shape)
next
  case (OPushUnique j)
  with assms distinct_push_key [of m j] show ?thesis by (auto simp: mem_push_unique_def)
next
  case (OPushLatest j)
  with assms distinct_push_key [of m j] show ?thesis
    by (auto simp: mem_push_latest_def mem_waiting_def move_waiting_None dest: move_waiting_keys
      split: option.splits)
next
  case (OHoldBack j until)
  with assms hold_back_keys [of "[]" "mem_jobs m" j] show ?thesis
    by (simp add: mem_hold_back_def Let_def list_all_iff)
next
  case (OClaim now until)
  show ?thesis
  proof (cases "next_job m now")
    case None
    with assms OClaim show ?thesis by (simp add: mem_claim_def)
  next
    case (Some mj)
    obtain ys zs where "mem_jobs m = ys @ mj # zs"
      "mem_jobs (mem_apply op m) = ys @ take_job until mj # zs"
      using claim_jobs [OF assms(3) Some, of until] OClaim by metis
    with assms(1) show ?thesis by (auto split: if_splits)
  qed
next
  case (ODone j)
  with assms show ?thesis by (simp add: mem_done_def waiting_keys_filter)
next
  case (ORetry j)
  with assms(1) waiting_keys_map [of "\<lambda>mj. if claimed_by mj j then retry_job j mj else mj" "mem_jobs m"]
  show ?thesis by (simp add: mem_retry_def on_claimed_def retry_job_def)
next
  case (OFail wall j)
  with assms(1) waiting_keys_map [of "\<lambda>mj. if claimed_by mj j then fail_job wall j mj else mj" "mem_jobs m"]
  show ?thesis by (simp add: mem_fail_def on_claimed_def fail_job_def)
next
  case (ORunAgain i at)
  with assms(1) show ?thesis
    by (auto simp: mem_run_again_def dest: run_again_keys split: option.splits)
qed

lemma mem_reachable_ok: "mem_reachable m \<Longrightarrow> mem_ok m"
  by (induction rule: mem_reachable.induct) (auto intro: mem_apply_ok)

lemma mem_reachable_keys: "mem_reachable m \<Longrightarrow> distinct (waiting_keys (mem_jobs m))"
  by (induction rule: mem_reachable.induct)
    (auto simp: mem_empty_def intro: waiting_keys_apply mem_reachable_ok)

text \<open>
  C10. In every state the queue's calls bring the store to, at most one job of a kind waits with a key,
  whatever was pushed again, moved, held back, retried, failed or run again; and so PushUnique says it
  pushed exactly when none of the key waits.
\<close>

theorem one_job_waits_with_a_key:
  assumes "mem_reachable m"
  shows "distinct (map (\<lambda>x. (j_kind x, j_key x)) (filter (\<lambda>x. j_key x \<noteq> []) (mem_jobs m)))"
  using mem_reachable_keys [OF assms] by (simp add: waiting_keys_def)


theorem one_job_waits_with_a_key_witness:
  "distinct (map (\<lambda>x. (j_kind x, j_key x)) (filter (\<lambda>x. j_key x \<noteq> [])
     (mem_jobs (mem_apply (OPushLatest (lone_job 9)) (mem_apply (OPushUnique (lone_job 1)) mem_empty)))))"
  by (rule one_job_waits_with_a_key)
    (auto intro!: mem_reachable.intros simp del: mem_apply.simps)

section \<open>A claim's hold\<close>

text \<open>
  The job a worker's call is about: another worker's call never has both the ID and the attempts of a
  claim it did not make.
\<close>

fun told_of :: "mem_op \<Rightarrow> job list" where
  "told_of (OHoldBack j until) = [j]"
| "told_of (ODone j) = [j]"
| "told_of (ORetry j) = [j]"
| "told_of (OFail wall j) = [j]"
| "told_of _ = []"

definition of_others :: "job \<Rightarrow> mem_op \<Rightarrow> bool" where
  "of_others j op \<longleftrightarrow> list_all (\<lambda>j'. j_id j' \<noteq> j_id j \<or> j_attempts j' \<noteq> j_attempts j) (told_of op)"

definition holds_until :: "job \<Rightarrow> instant \<Rightarrow> memory_job list \<Rightarrow> bool" where
  "holds_until j until xs \<longleftrightarrow>
     list_ex (\<lambda>x. j_id x = j_id j \<and> j_attempts x = j_attempts j \<and> mj_held_until x = until \<and>
       \<not> mj_failed x) xs"

lemma holds_until_simps [simp]:
  "holds_until j u [] = False"
  "holds_until j u (x # xs) \<longleftrightarrow>
     j_id x = j_id j \<and> j_attempts x = j_attempts j \<and> mj_held_until x = u \<and> \<not> mj_failed x \<or>
     holds_until j u xs"
  "holds_until j u (xs @ ys) \<longleftrightarrow> holds_until j u xs \<or> holds_until j u ys"
  by (simp_all add: holds_until_def)

lemma move_waiting_holds:
  "move_waiting j' xs = Some (i, ys) \<Longrightarrow> holds_until j u xs \<Longrightarrow> holds_until j u ys"
  by (induction xs arbitrary: ys) (auto split: if_splits)

lemma run_again_holds:
  "run_again_in i at xs = Some ys \<Longrightarrow> holds_until j u xs \<Longrightarrow> holds_until j u ys"
  by (induction xs arbitrary: ys) (auto split: if_splits)

lemma hold_back_holds:
  "j_id j' \<noteq> j_id j \<or> j_attempts j' \<noteq> j_attempts j \<Longrightarrow> holds_until j u (before @ rest) \<Longrightarrow>
   holds_until j u (hold_back_loop j' before rest)"
proof (induction rest arbitrary: before)
  case (Cons x rest)
  have "holds_until j u ((before @ [y]) @ rest)" if "claimed_by x j' \<or> y = x" for y
    using Cons.prems that by (auto simp: claimed_by_def)
  with Cons show ?case by (simp add: Let_def)
qed simp

lemma on_claimed_holds:
  "j_id j' \<noteq> j_id j \<or> j_attempts j' \<noteq> j_attempts j \<Longrightarrow> holds_until j u (mem_jobs m) \<Longrightarrow>
   holds_until j u (mem_jobs (on_claimed j' f m))"
  by (force simp: holds_until_def on_claimed_def claimed_by_def list_ex_iff)

lemma done_holds:
  "j_id j' \<noteq> j_id j \<or> j_attempts j' \<noteq> j_attempts j \<Longrightarrow> holds_until j u (mem_jobs m) \<Longrightarrow>
   holds_until j u (mem_jobs (mem_done j' m))"
  by (auto simp: holds_until_def mem_done_def claimed_by_def list_ex_iff)

lemma claim_other_holds:
  assumes "mem_ok m" "holds_until j u (mem_jobs m)" "now < u"
  shows "holds_until j u (mem_jobs (mem_apply (OClaim now until) m))"
    "next_job m now = Some mj \<Longrightarrow> j_id mj \<noteq> j_id j"
proof -
  have other: "j_id mj \<noteq> j_id j" if "next_job m now = Some mj" for mj
  proof
    assume same: "j_id mj = j_id j"
    obtain x where x: "x \<in> set (mem_jobs m)" "j_id x = j_id j" "mj_held_until x = u"
      using assms(2) by (auto simp: holds_until_def list_ex_iff)
    have "x = mj" using mem_ok_id_inj [OF assms(1) x(1) next_job_Some(2) [OF that]] x(2) same by simp
    with next_job_Some(1) [OF that] x(3) assms(3) show False by (simp add: claimable_def)
  qed
  then show "next_job m now = Some mj \<Longrightarrow> j_id mj \<noteq> j_id j" by blast
  show "holds_until j u (mem_jobs (mem_apply (OClaim now until) m))"
  proof (cases "next_job m now")
    case None
    with assms show ?thesis by (simp add: mem_claim_def)
  next
    case (Some mj)
    obtain ys zs where "mem_jobs m = ys @ mj # zs"
      "mem_jobs (mem_apply (OClaim now until) m) = ys @ take_job until mj # zs"
      using claim_jobs [OF assms(1) Some] by metis
    with assms(2) other [OF Some] show ?thesis by auto
  qed
qed

lemma holds_until_apply:
  assumes "mem_ok m" "holds_until j u (mem_jobs m)" "of_others j op" "\<forall>t \<in> set (claim_time op). t < u"
  shows "holds_until j u (mem_jobs (mem_apply op m))"
proof (cases op)
  case (OHoldBack j' until)
  with assms hold_back_holds [of j' j u "[]" "mem_jobs m"] show ?thesis
    by (auto simp: mem_hold_back_def Let_def of_others_def)
next
  case (OClaim now until)
  with assms claim_other_holds(1) show ?thesis by auto
next
  case (ODone j')
  with assms done_holds show ?thesis by (auto simp: of_others_def)
next
  case (ORetry j')
  with assms on_claimed_holds show ?thesis by (auto simp: of_others_def mem_retry_def)
next
  case (OFail wall j')
  with assms on_claimed_holds show ?thesis by (auto simp: of_others_def mem_fail_def)
qed (use assms in \<open>auto simp: mem_push_def Let_def mem_push_scheduled_shape mem_push_unique_def
      mem_push_latest_def mem_run_again_def dest: move_waiting_holds run_again_holds
      split: option.splits\<close>)

lemma holds_until_run:
  assumes "mem_ok m" "holds_until j u (mem_jobs m)" "list_all (of_others j) ops"
    "list_all (\<lambda>t. t < u) (claim_times ops)"
  shows "holds_until j u (mem_jobs (mem_run ops m))"
  using assms(3,4)
  by (induction ops rule: rev_induct)
    (auto intro!: holds_until_apply mem_run_ok assms(1,2) simp del: mem_apply.simps simp: list_all_iff)

text \<open>
  C1. A claimed job is its worker's alone while the hold lasts: after a claim held to until, whatever
  is pushed, claimed, run again by hand, or finished, retried, failed or held back by calls for other claims, every claim
  made before until returns some other job or none. A call for another claim is one whose job has another ID or another
  attempt number. Another worker's call can carry both the ID and the number only where the attempts have gone down since it
  claimed the job, as RunAgain and HoldBack make them; one that does may end the claim, as below after RunAgain.
\<close>

theorem a_claim_holds_its_job:
  assumes "mem_ok m" "mem_claim now until m = (Some j, m')"
    and "list_all (of_others j) ops" "list_all (\<lambda>t. t < until) (claim_times ops)"
    and "now' < until" "mem_claim now' until' (mem_run ops m') = (Some j', m'')"
  shows "j_id j' \<noteq> j_id j"
proof -
  obtain mj where mj: "next_job m now = Some mj" "j = job_of (take_job until mj)"
    by (rule mem_claim_Some [OF assms(2)])
  obtain ys zs where c: "claimable m now mj" "mem_claim now until m =
       (Some (job_of (take_job until mj)), m\<lparr>mem_jobs := ys @ take_job until mj # zs\<rparr>)"
    using claim_shape [OF assms(1) mj(1), of until] by metis
  have ok: "mem_ok m'" using mem_apply_ok [OF assms(1), of "OClaim now until"] assms(2) by simp
  have "holds_until j until (mem_jobs m')"
    using assms(2) c mj by (auto simp: claimable_def)
  then have h: "holds_until j until (mem_jobs (mem_run ops m'))"
    by (rule holds_until_run [OF ok _ assms(3,4)])
  from mem_claim_Some [OF assms(6)] obtain mj' where
    "next_job (mem_run ops m') now' = Some mj'" "j' = job_of (take_job until' mj')" by metis
  with claim_other_holds(2) [OF mem_run_ok [OF ok] h assms(5)] show ?thesis by simp
qed


theorem a_claim_holds_its_job_witness:
  "case mem_claim 5 65 (mem_run [OPush (plain_job 1), OPush (plain_job 2)] mem_empty) of (Some j, m') \<Rightarrow>
     case mem_claim 7 67 (mem_run [OClaim 6 66, ODone ((plain_job 2)\<lparr>j_id := ''2'', j_attempts := 1\<rparr>),
        OPush (plain_job 3)] m') of (Some j', m'') \<Rightarrow> j_id j' \<noteq> j_id j | _ \<Rightarrow> False | _ \<Rightarrow> False"
proof -
  let ?m = "mem_run [OPush (plain_job 1), OPush (plain_job 2)] mem_empty"
  let ?ops = "[OClaim 6 66, ODone ((plain_job 2)\<lparr>j_id := ''2'', j_attempts := 1\<rparr>), OPush (plain_job 3)]"
  obtain j m' where c: "mem_claim 5 65 ?m = (Some j, m')" "j_id j = ''1''"
    "\<exists>j' m''. mem_claim 7 67 (mem_run ?ops m') = (Some j', m'')"
    by (simp add: run_evals)
  then obtain j' m'' where d: "mem_claim 7 67 (mem_run ?ops m') = (Some j', m'')" by blast
  have "j_id j' \<noteq> j_id j"
    by (rule a_claim_holds_its_job [OF mem_run_ok [OF mem_ok_empty] c(1) _ _ _ d])
      (simp_all add: of_others_def c(2))
  with c d show ?thesis by simp
qed

section \<open>A late claim\<close>

text \<open>
  HoldBack gives a claim's attempt back and RunAgain starts the count again; the other methods only
  ever add to a job's attempts.
\<close>

fun counts_on :: "mem_op \<Rightarrow> bool" where
  "counts_on (OHoldBack j until) = False"
| "counts_on (ORunAgain jid at) = False"
| "counts_on _ = True"

definition claimed_past :: "job \<Rightarrow> memory \<Rightarrow> bool" where
  "claimed_past j m \<longleftrightarrow> (\<exists>k \<in> {1..mem_last m}. j_id j = itoa (int k)) \<and>
     (\<forall>x \<in> set (mem_jobs m). j_id x = j_id j \<longrightarrow> j_attempts j < j_attempts x)"

lemma move_waiting_attempts:
  "move_waiting j' xs = Some (i, ys) \<Longrightarrow>
   \<forall>x \<in> set xs. j_id x = t \<longrightarrow> (a::int) < j_attempts x \<Longrightarrow> \<forall>x \<in> set ys. j_id x = t \<longrightarrow> a < j_attempts x"
  by (induction xs arbitrary: ys) (auto split: if_splits)

lemma claimed_past_push:
  assumes "claimed_past j m"
  shows "claimed_past j (snd (mem_push j' m))"
proof -
  obtain k where k: "k \<in> {1..mem_last m}" "j_id j = itoa (int k)"
    using assms by (auto simp: claimed_past_def)
  then have "j_id j \<noteq> itoa (int (mem_last m + 1))" by (simp del: of_nat_Suc of_nat_add)
  with assms k show ?thesis
    by (auto simp: claimed_past_def mem_push_def Let_def simp del: of_nat_Suc of_nat_add intro: le_SucI)
qed

lemma claimed_past_schedules: "claimed_past j (m\<lparr>mem_schedules := x\<rparr>) = claimed_past j m"
  by (simp add: claimed_past_def)

lemma claimed_past_apply:
  assumes "claimed_past j m" "counts_on op"
  shows "claimed_past j (mem_apply op m)"
proof (cases op)
  case (OClaim now until)
  with assms show ?thesis
    by (fastforce simp: claimed_past_def mem_claim_def split: option.splits)
next
  case (ODone j')
  with assms show ?thesis by (auto simp: claimed_past_def mem_done_def)
next
  case (ORetry j')
  with assms show ?thesis by (auto simp: claimed_past_def mem_retry_def on_claimed_def retry_job_def)
next
  case (OFail wall j')
  with assms show ?thesis by (auto simp: claimed_past_def mem_fail_def on_claimed_def fail_job_def)
next
  case (OPushScheduled s j')
  with assms claimed_past_push [OF assms(1), of j'] show ?thesis
    by (auto simp: mem_push_scheduled_shape claimed_past_schedules)
next
  case (OPushLatest j')
  with assms claimed_past_push [OF assms(1), of j'] show ?thesis
    by (auto simp: mem_push_latest_def claimed_past_def dest: move_waiting_attempts split: option.splits)
qed (use assms claimed_past_push [OF assms(1)] in \<open>auto simp: mem_push_unique_def\<close>)

lemma claimed_past_run:
  "claimed_past j m \<Longrightarrow> list_all counts_on ops \<Longrightarrow> claimed_past j (mem_run ops m)"
  by (induction ops rule: rev_induct) (auto intro: claimed_past_apply simp del: mem_apply.simps)

lemma claimed_past_unclaimed:
  "claimed_past j m \<Longrightarrow> list_all (\<lambda>x. \<not> claimed_by x j) (mem_jobs m)"
  by (auto simp: claimed_past_def claimed_by_def list_all_iff)

lemma unclaimed_untouched:
  assumes "list_all (\<lambda>x. \<not> claimed_by x j) (mem_jobs m)"
  shows "mem_done j m = m" "mem_retry j m = m" "mem_fail wall j m = m"
proof -
  have "filter (\<lambda>x. \<not> claimed_by x j) (mem_jobs m) = mem_jobs m"
    using assms by (simp add: list_all_iff filter_id_conv)
  then show "mem_done j m = m" by (simp add: mem_done_def)
  have "map (\<lambda>x. if claimed_by x j then f x else x) (mem_jobs m) = mem_jobs m" for f
    using assms by (auto simp: list_all_iff intro: map_idI)
  then show "mem_retry j m = m" "mem_fail wall j m = m"
    by (simp_all add: mem_retry_def mem_fail_def on_claimed_def)
qed

text \<open>
  Attempts of the jobs with an ID are at least so many, where a claim of the ID gave so many: what a
  run of the store keeps until the next claim of it.
\<close>

definition claimed_to :: "job \<Rightarrow> memory \<Rightarrow> bool" where
  "claimed_to j m = claimed_past (j\<lparr>j_attempts := j_attempts j - 1\<rparr>) m"

text \<open>
  C13. A worker that is back after its hold ran out changes nothing: once a later claim took its job,
  and with no job held back or run again by hand in between, its Done, its Retry and its Fail leave
  the store exactly as it is.
\<close>

theorem a_late_claim_changes_nothing:
  assumes "mem_ok m" "mem_claim now until m = (Some j, m1)" "list_all counts_on ops1"
    and "mem_claim now' until' (mem_run ops1 m1) = (Some j', m2)" "j_id j' = j_id j"
    and "list_all counts_on ops2"
    and late: "j_id l = j_id j" "j_attempts l = j_attempts j"
  shows "mem_done l (mem_run ops2 m2) = mem_run ops2 m2 \<and> mem_retry l (mem_run ops2 m2) = mem_run ops2 m2 \<and>
    mem_fail wall l (mem_run ops2 m2) = mem_run ops2 m2"
proof -
  obtain mj where mj: "next_job m now = Some mj" "j = job_of (take_job until mj)"
    "m1 = m\<lparr>mem_jobs := map (\<lambda>x. if j_id x = j_id mj then take_job until x else x) (mem_jobs m)\<rparr>"
    by (rule mem_claim_Some [OF assms(2)])
  have "\<forall>x \<in> set (mem_jobs m). j_id x = j_id mj \<longrightarrow> x = mj"
    using mem_ok_id_inj [OF assms(1) _ next_job_Some(2) [OF mj(1)]] by blast
  moreover have "\<exists>k \<in> {1..mem_last m}. j_id mj = itoa (int k)"
    using assms(1) next_job_Some(2) [OF mj(1)] by (auto simp: mem_ok_def)
  ultimately have "claimed_to j m1"
    using mj(2,3) by (auto simp: claimed_to_def claimed_past_def)
  then have c1: "claimed_to j (mem_run ops1 m1)"
    unfolding claimed_to_def by (rule claimed_past_run [OF _ assms(3)])
  obtain mj' where mj': "next_job (mem_run ops1 m1) now' = Some mj'" "j' = job_of (take_job until' mj')"
    "m2 = (mem_run ops1 m1)\<lparr>mem_jobs := map (\<lambda>x. if j_id x = j_id mj' then take_job until' x else x)
       (mem_jobs (mem_run ops1 m1))\<rparr>"
    by (rule mem_claim_Some [OF assms(4)])
  have "claimed_past j m2"
    using c1 mj' assms(5) by (force simp: claimed_to_def claimed_past_def)
  then have "claimed_past l m2" using late by (simp add: claimed_past_def)
  from unclaimed_untouched [OF claimed_past_unclaimed [OF claimed_past_run [OF this assms(6)]]]
  show ?thesis by blast
qed

theorem a_late_claim_changes_nothing_witness:
  "case mem_claim 5 65 (mem_run [OPush (plain_job 1)] mem_empty) of (Some j, m1) \<Rightarrow>
     case mem_claim 65 125 (mem_run [] m1) of (Some j', m2) \<Rightarrow> mem_done j (mem_run [] m2) = m2
     | _ \<Rightarrow> False | _ \<Rightarrow> False"
proof -
  obtain j m1 j' m2 where c: "mem_claim 5 65 (mem_run [OPush (plain_job 1)] mem_empty) = (Some j, m1)"
    "mem_claim 65 125 (mem_run [] m1) = (Some j', m2)" "j_id j' = j_id j"
    by (simp add: run_evals)
  have "mem_done j (mem_run [] m2) = mem_run [] m2"
    using a_late_claim_changes_nothing [OF mem_run_ok [OF mem_ok_empty] c(1) _ c(2,3) _ refl refl, of "[]"]
    by simp
  with c show ?thesis by simp
qed

text \<open>
  With a job run again by hand in between, a late Done does change something: RunAgain starts the
  attempts again, so a new claim's number can be an old one's. Here the first worker of a job loses
  its hold, the second fails it for good, someone runs it again, and a third worker has it, with one
  attempt, when the first worker's Done arrives and takes the job away.
\<close>

lemma a_late_done_after_run_again:
  "let m1 = mem_run [OPush (plain_job 1)] mem_empty;
       (j1, m2) = mem_claim 5 65 m1; (j2, m3) = mem_claim 65 125 m2;
       m4 = mem_run [OFail 70 (the j2), ORunAgain ''1'' 80] m3; (j3, m5) = mem_claim 80 140 m4
   in j_id (the j3) = ''1'' \<and> mem_jobs m5 \<noteq> [] \<and> mem_jobs (mem_done (the j1) m5) = []"
  by (simp add: run_evals mem_fail_def on_claimed_def fail_job_def mem_run_again_def)

section \<open>The runs of a schedule\<close>

definition pushed_to :: "string \<Rightarrow> instant \<Rightarrow> memory \<Rightarrow> bool" where
  "pushed_to s t m \<longleftrightarrow> (case lookup (mem_schedules m) s of None \<Rightarrow> False | Some t' \<Rightarrow> t \<le> t')"

lemma pushed_to_apply: "pushed_to s t m \<Longrightarrow> pushed_to s t (mem_apply op m)"
  by (cases op)
    (auto simp: pushed_to_def mem_push_def Let_def mem_push_scheduled_shape mem_push_unique_def
      mem_push_latest_def mem_hold_back_def mem_claim_def mem_done_def mem_retry_def mem_fail_def
      on_claimed_def mem_run_again_def split: option.splits)

lemma pushed_to_run: "pushed_to s t m \<Longrightarrow> pushed_to s t (mem_run ops m)"
  by (induction ops rule: rev_induct) (auto intro: pushed_to_apply simp del: mem_apply.simps)

lemma pushed_to_refuses:
  "pushed_to s t m \<Longrightarrow> j_run_at j \<le> t \<Longrightarrow> mem_push_scheduled s j m = (False, m)"
  by (auto simp: pushed_to_def mem_push_scheduled_shape split: option.splits)

text \<open>
  Of the instances that push the same run of a schedule, one wins, once and for all: after a push
  of a run of it has won, whatever the store does then, a push of a run due then or before says it did
  not push, and changes nothing.
\<close>

theorem a_schedules_run_is_pushed_once:
  assumes "fst (mem_push_scheduled s j m)" "j_run_at j' \<le> j_run_at j"
  shows "mem_push_scheduled s j' (mem_run ops (snd (mem_push_scheduled s j m))) =
    (False, mem_run ops (snd (mem_push_scheduled s j m)))"
proof -
  have "pushed_to s (j_run_at j) (snd (mem_push_scheduled s j m))"
    using assms(1) by (auto simp: pushed_to_def mem_push_scheduled_shape split: if_splits)
  from pushed_to_refuses [OF pushed_to_run [OF this] assms(2)] show ?thesis .
qed

theorem a_schedules_run_is_pushed_once_witness:
  "fst (mem_push_scheduled ''s'' (plain_job 4) (mem_run [OClaim 5 65]
     (snd (mem_push_scheduled ''s'' (plain_job 4) mem_empty)))) = False"
  by (subst a_schedules_run_is_pushed_once) (simp_all add: run_evals)

end
