(* ===== verification/Job_Queue.thy ===== *)
theory Job_Queue
  imports Job_Claims
begin

text \<open>
  The queue itself (queue/queue.go, kind.go, carry.go, observe.go), on any store: how a claimed job is
  run and what the store is told of it, the rate that holds a kind back, Drain, the pushing of
  schedules' runs, and the kinds that push jobs.

  The handlers, the clock and the contexts are the app's. A run of the queue passes a world: the
  store, whether the queue was woken, what Observe was told, and the rest (\<open>'r\<close>), which the clock and
  the contexts are read from and which a handler may change in any way, as it may the store.
\<close>

section \<open>The world, the handlers and the queue\<close>

datatype outcome = Outcome_done | Outcome_retried | Outcome_failed | Outcome_held_back

text \<open>\<open>permanentError\<close> is a mark on an error, which \<open>errors.As\<close> finds however it is wrapped.\<close>

record failure =
  f_text :: string
  f_permanent :: bool

record ran =
  ran_kind :: string
  ran_attempt :: int
  ran_outcome :: outcome
  ran_err :: "failure option"
  ran_took :: duration
  ran_waited :: duration

record ('s, 'r) world =
  w_store :: 's
  w_wake :: bool
  w_told :: "ran list"
  w_rest :: 'r

datatype fn_result = Returned "failure option" | Panicked string

record ('s, 'r, 'c) handler =
  h_run :: "(duration \<Rightarrow> 'c \<Rightarrow> string \<Rightarrow> ('s, 'r) world \<Rightarrow> fn_result \<times> ('s, 'r) world) option"
  h_attempts :: int
  h_timeout :: duration
  h_backoff :: "int \<Rightarrow> 'r \<Rightarrow> duration \<times> 'r"
  h_unique :: bool
  h_latest :: bool
  h_one_at_a_time :: bool
  h_at_once :: int
  h_rate :: "(string \<Rightarrow> ('s, 'r) world \<Rightarrow> (string + duration) \<times> ('s, 'r) world) option"
  h_on_fail :: "(duration \<Rightarrow> 'c \<Rightarrow> string \<Rightarrow> failure \<Rightarrow> ('s, 'r) world \<Rightarrow> fn_result \<times> ('s, 'r) world) option"

text \<open>A Carrier, which takes values from a context and gives them back to one.\<close>

record 'c carrier =
  cr_carry :: "'c \<Rightarrow> (string, string) gomap \<Rightarrow> (string, string) gomap"
  cr_restore :: "'c \<Rightarrow> (string, string) gomap \<Rightarrow> 'c"

record scheduled =
  sc_kind :: string
  sc_next :: "instant \<Rightarrow> instant"
  sc_payload :: string
  sc_key :: string
  sc_one_at_a_time :: bool
  sc_at_once :: int

text \<open>
  \<open>q_now\<close> reads the clock, \<open>q_stopped\<close> says whether the context the workers run in is done, and
  \<open>q_rand n\<close> draws a number from 0 to n - 1.
\<close>

record ('s, 'r, 'c) queue =
  q_store :: "'s store_ops"
  q_workers :: int
  q_poll :: duration
  q_grace :: duration
  q_observe :: bool
  q_carry :: "'c carrier list"
  q_now :: "'r \<Rightarrow> instant \<times> 'r"
  q_stopped :: "'r \<Rightarrow> bool"
  q_rand :: "int \<Rightarrow> 'r \<Rightarrow> int \<times> 'r"
  q_handlers :: "(string, ('s, 'r, 'c) handler) gomap"
  q_scheduled :: "scheduled list"
  q_started :: bool

definition default_attempts :: int where "default_attempts = 10"
definition default_timeout :: duration where "default_timeout = minute"
definition hold_margin :: duration where "hold_margin = minute"
definition held_on_error :: duration where "held_on_error = 10 * second"

text \<open>\<open>New\<close>, whose configuration is a queue's fields with their defaults not yet filled in.\<close>

definition new_queue :: "('s, 'r, 'c) queue \<Rightarrow> ('s, 'r, 'c) queue" where
  "new_queue cfg =
     cfg\<lparr>q_workers := (if q_workers cfg \<le> 0 then 4 else q_workers cfg),
         q_poll := (if q_poll cfg \<le> 0 then second else q_poll cfg),
         q_grace := (if q_grace cfg \<le> 0 then 10 * second else q_grace cfg),
         q_handlers := [], q_scheduled := [], q_started := False\<rparr>"

definition permanent :: "failure option \<Rightarrow> failure option" where
  "permanent err = (case err of None \<Rightarrow> None | Some e \<Rightarrow> Some (e\<lparr>f_permanent := True\<rparr>))"

definition backoff :: "(int \<Rightarrow> 'r \<Rightarrow> int \<times> 'r) \<Rightarrow> int \<Rightarrow> 'r \<Rightarrow> duration \<times> 'r" where
  "backoff draw attempt r =
     (let a = (if attempt > 19 then 19 else attempt);
          d = a * a * a * a * second;
          (x, r') = draw (go_div d 10 + 1) r
      in (min (d + x) (24 * hour), r'))"

definition err_no_handler :: "string \<Rightarrow> failure" where
  "err_no_handler kind = \<lparr>f_text = ''no handler for jobs of kind '' @ kind @ '' here'', f_permanent = False\<rparr>"

definition restore :: "('s, 'r, 'c) queue \<Rightarrow> 'c \<Rightarrow> job \<Rightarrow> 'c" where
  "restore q ctx j =
     (if j_carried j = [] then ctx
      else foldl (\<lambda>ctx c. cr_restore c ctx (j_carried j)) ctx (q_carry q))"

text \<open>The handler's function as Handle wraps it: a payload that does not fit fails for good.\<close>

definition handle_run ::
  "(string \<Rightarrow> string + 'v) \<Rightarrow> (duration \<Rightarrow> 'c \<Rightarrow> 'v \<Rightarrow> 'w \<Rightarrow> fn_result \<times> 'w) \<Rightarrow>
   duration \<Rightarrow> 'c \<Rightarrow> string \<Rightarrow> 'w \<Rightarrow> fn_result \<times> 'w" where
  "handle_run unmarshal fn timeout ctx payload w =
     (case unmarshal payload of
        Inl e \<Rightarrow> (Returned (permanent (Some \<lparr>f_text = ''its payload does not fit: '' @ e, f_permanent = False\<rparr>)), w)
      | Inr v \<Rightarrow> fn timeout ctx v w)"

definition h_call :: "('s, 'r, 'c) handler \<Rightarrow> 'c \<Rightarrow> job \<Rightarrow> ('s, 'r) world \<Rightarrow> failure option \<times> ('s, 'r) world" where
  "h_call h ctx j w =
     (case h_run h of
        None \<Rightarrow> (Some (err_no_handler (j_kind j)), w)
      | Some run \<Rightarrow>
          (case run (h_timeout h) ctx (j_payload j) w of
             (Returned e, w') \<Rightarrow> (e, w')
           | (Panicked v, w') \<Rightarrow> (Some \<lparr>f_text = ''panic: '' @ v, f_permanent = False\<rparr>, w')))"

text \<open>OnFail's error and panic go to the log alone.\<close>

definition h_failed :: "('s, 'r, 'c) handler \<Rightarrow> 'c \<Rightarrow> job \<Rightarrow> failure \<Rightarrow> ('s, 'r) world \<Rightarrow> ('s, 'r) world" where
  "h_failed h ctx j err w =
     (case h_on_fail h of
        None \<Rightarrow> w
      | Some f \<Rightarrow> snd (f (h_timeout h) ctx (j_payload j) err w))"

definition poke :: "('s, 'r) world \<Rightarrow> ('s, 'r) world" where
  "poke w = w\<lparr>w_wake := True\<rparr>"

definition tell ::
  "('s, 'r, 'c) queue \<Rightarrow> job \<Rightarrow> outcome \<Rightarrow> failure option \<Rightarrow> duration \<Rightarrow> duration \<Rightarrow>
   ('s, 'r) world \<Rightarrow> ('s, 'r) world" where
  "tell q j out err took waited w =
     (if \<not> q_observe q then w
      else w\<lparr>w_told := w_told w @
        [\<lparr>ran_kind = j_kind j, ran_attempt = j_attempts j, ran_outcome = out, ran_err = err,
          ran_took = took, ran_waited = waited\<rparr>]\<rparr>)"

definition read_clock :: "('s, 'r, 'c) queue \<Rightarrow> ('s, 'r) world \<Rightarrow> instant \<times> ('s, 'r) world" where
  "read_clock q w = (case q_now q (w_rest w) of (t, r) \<Rightarrow> (t, w\<lparr>w_rest := r\<rparr>))"

definition to_store :: "('s \<Rightarrow> 'x \<times> 's) \<Rightarrow> ('s, 'r) world \<Rightarrow> 'x \<times> ('s, 'r) world" where
  "to_store f w = (case f (w_store w) of (x, s) \<Rightarrow> (x, w\<lparr>w_store := s\<rparr>))"

definition hold :: "('s, 'r, 'c) queue \<Rightarrow> duration" where
  "hold q = foldl (\<lambda>longest h. max longest (h_timeout h)) default_timeout (map snd (q_handlers q)) + hold_margin"

definition q_claim :: "('s, 'r, 'c) queue \<Rightarrow> duration \<Rightarrow> ('s, 'r) world \<Rightarrow> (string + job option) \<times> ('s, 'r) world" where
  "q_claim q held_for w =
     (let (now, w1) = read_clock q w in to_store (so_claim (q_store q) now (now + held_for)) w1)"

section \<open>Running a job\<close>

text \<open>
  \<open>held\<close>: whether the kind's rate holds the job back, and the store's error. SHA-256, in hexadecimal,
  is the parameter \<open>key_of\<close>.
\<close>

definition q_held ::
  "('s, 'r, 'c) queue \<Rightarrow> (string \<Rightarrow> string) \<Rightarrow> ('s, 'r, 'c) handler \<Rightarrow>
   (string \<Rightarrow> ('s, 'r) world \<Rightarrow> (string + duration) \<times> ('s, 'r) world) \<Rightarrow> job \<Rightarrow> ('s, 'r) world \<Rightarrow>
   bool \<times> string option \<times> ('s, 'r) world" where
  "q_held q key_of h limiter j w =
     (let (tried, w1) = limiter (j_kind j) w;
          wait = (if q_stopped q (w_rest w1) then Some 0
                  else case tried of
                         Inl e \<Rightarrow> Some held_on_error
                       | Inr d \<Rightarrow> if d \<le> 0 then None else Some d)
      in case wait of
           None \<Rightarrow> (False, None, w1)
         | Some d \<Rightarrow>
             let j' = (if h_unique h then j\<lparr>j_key := key_of (j_payload j)\<rparr> else j);
                 (now, w2) = read_clock q w1;
                 (e, w3) = to_store (so_hold_back (q_store q) j' (now + d)) w2
             in (True, e, w3))"

text \<open>What a run tells the store, by what the handler returned, and then Observe.\<close>

definition run_done where
  "run_done q j took waited w =
     (let (e, w1) = to_store (so_done (q_store q) j) w
      in if e \<noteq> None then (e, w1) else (None, tell q j Outcome_done None took waited w1))"

definition run_stopped where
  "run_stopped q j err took waited w =
     (let (now, w1) = read_clock q w;
          j' = j\<lparr>j_run_at := now, j_error := f_text err\<rparr>;
          (e, w2) = to_store (so_retry (q_store q) j') w1
      in if e \<noteq> None then (e, w2) else (None, tell q j' Outcome_retried (Some err) took waited w2))"

definition run_failed where
  "run_failed q h ctx j err took waited w =
     (let (now, w1) = read_clock q w;
          j' = j\<lparr>j_error := f_text err, j_failed_at := now\<rparr>;
          (e, w2) = to_store (so_fail (q_store q) j') w1
      in if e \<noteq> None then (e, w2)
         else (None, h_failed h ctx j' err (tell q j' Outcome_failed (Some err) took waited w2)))"

definition run_retried where
  "run_retried q h j err took waited w =
     (let (now, w1) = read_clock q w;
          (wait, r) = h_backoff h (j_attempts j) (w_rest w1);
          j' = j\<lparr>j_run_at := now + wait, j_error := f_text err\<rparr>;
          (e, w2) = to_store (so_retry (q_store q) j') (w1\<lparr>w_rest := r\<rparr>)
      in if e \<noteq> None then (e, w2)
         else let (now', w3) = read_clock q (tell q j' Outcome_retried (Some err) took waited w2)
              in (None, if j_run_at j' \<le> now' then poke w3 else w3))"

definition run_end ::
  "('s, 'r, 'c) queue \<Rightarrow> ('s, 'r, 'c) handler \<Rightarrow> 'c \<Rightarrow> job \<Rightarrow> failure option \<Rightarrow> duration \<Rightarrow> duration \<Rightarrow>
   ('s, 'r) world \<Rightarrow> string option \<times> ('s, 'r) world" where
  "run_end q h ctx j result took waited w =
     (case result of
        None \<Rightarrow> run_done q j took waited w
      | Some err \<Rightarrow>
          if q_stopped q (w_rest w) then run_stopped q j err took waited w
          else if f_permanent err \<or> h_attempts h \<le> j_attempts j then
            run_failed q h ctx j err took waited w
          else run_retried q h j err took waited w)"

definition unknown_handler :: "('s, 'r, 'c) queue \<Rightarrow> ('s, 'r, 'c) handler" where
  "unknown_handler q =
     \<lparr>h_run = None, h_attempts = default_attempts, h_timeout = default_timeout,
      h_backoff = backoff (q_rand q), h_unique = False, h_latest = False, h_one_at_a_time = False,
      h_at_once = 0, h_rate = None, h_on_fail = None\<rparr>"

definition handler_of :: "('s, 'r, 'c) queue \<Rightarrow> string \<Rightarrow> ('s, 'r, 'c) handler" where
  "handler_of q kind =
     (case lookup (q_handlers q) kind of Some h \<Rightarrow> h | None \<Rightarrow> unknown_handler q)"

definition run_started ::
  "('s, 'r, 'c) queue \<Rightarrow> ('s, 'r, 'c) handler \<Rightarrow> 'c \<Rightarrow> job \<Rightarrow> duration \<Rightarrow> ('s, 'r) world \<Rightarrow>
   string option \<times> ('s, 'r) world" where
  "run_started q h ctx j waited w =
     (let (began, w1) = read_clock q w;
          (result, w2) = h_call h ctx j w1;
          (ended, w3) = read_clock q w2;
          (e, w4) = run_end q h ctx j result (ended - began) waited w3
      in (e, if 0 < h_at_once h \<or> h_one_at_a_time h then poke w4 else w4))"

definition q_run ::
  "('s, 'r, 'c) queue \<Rightarrow> (string \<Rightarrow> string) \<Rightarrow> 'c \<Rightarrow> job \<Rightarrow> ('s, 'r) world \<Rightarrow>
   string option \<times> ('s, 'r) world" where
  "q_run q key_of ctx j w =
     (let h = handler_of q (j_kind j);
          ctx' = restore q ctx j;
          (now, w1) = read_clock q w;
          waited = max (now - j_run_at j) 0
      in case h_rate h of
           None \<Rightarrow> run_started q h ctx' j waited w1
         | Some limiter \<Rightarrow>
             (case q_held q key_of h limiter j w1 of
                (held, e, w2) \<Rightarrow>
                  if held \<or> e \<noteq> None then
                    (e, if e = None then tell q j Outcome_held_back None 0 waited w2 else w2)
                  else run_started q h ctx' j waited w2))"

section \<open>Drain\<close>

text \<open>
  Drain may not return, as when a handler pushes its own job again: it is the partial function whose
  value is then None. \<open>Drain_stopped\<close> is the context's error.
\<close>

datatype drain_end = Drained | Drain_stopped | Store_failed string

partial_function (option) drain_loop ::
  "('s, 'r, 'c) queue \<Rightarrow> (string \<Rightarrow> string) \<Rightarrow> 'c \<Rightarrow> duration \<Rightarrow> ('s, 'r) world \<Rightarrow>
   (drain_end \<times> ('s, 'r) world) option" where
  "drain_loop q key_of ctx held_for w =
     (if q_stopped q (w_rest w) then Some (Drain_stopped, w)
      else case q_claim q held_for w of
             (Inl e, w1) \<Rightarrow> Some (Store_failed e, w1)
           | (Inr None, w1) \<Rightarrow> Some (Drained, w1)
           | (Inr (Some j), w1) \<Rightarrow>
               (case q_run q key_of ctx j w1 of
                  (Some e, w2) \<Rightarrow> Some (Store_failed e, w2)
                | (None, w2) \<Rightarrow> drain_loop q key_of ctx held_for w2))"

definition drain where
  "drain q key_of ctx w = drain_loop q key_of ctx (hold q) w"

section \<open>The runs of the schedules\<close>

text \<open>
  \<open>pushScheduled\<close>, with the run of each schedule pushed last. It reads the clock once, and the
  context may be done before any schedule.
\<close>

definition scheduled_job :: "scheduled \<Rightarrow> instant \<Rightarrow> job" where
  "scheduled_job sc at =
     \<lparr>j_id = [], j_kind = sc_kind sc, j_payload = sc_payload sc, j_key = sc_key sc, j_run_at = at,
      j_attempts = 0, j_error = [], j_one_at_a_time = sc_one_at_a_time sc, j_at_once = sc_at_once sc,
      j_failed_at = zero_time, j_carried = []\<rparr>"

fun push_due ::
  "('s, 'r, 'c) queue \<Rightarrow> instant \<Rightarrow> (scheduled \<times> instant) list \<Rightarrow> ('s, 'r) world \<Rightarrow>
   (scheduled \<times> instant) list \<times> ('s, 'r) world" where
  "push_due q now [] w = ([], w)"
| "push_due q now ((sc, pushed) # rest) w =
     (if q_stopped q (w_rest w) then ((sc, pushed) # rest, w)
      else if now < pushed then apfst ((#) (sc, pushed)) (push_due q now rest w)
      else let at = sc_next sc now
           in if at = zero_time then apfst ((#) (sc, pushed)) (push_due q now rest w)
              else case to_store (so_push_scheduled (q_store q) (sc_kind sc) (scheduled_job sc at)) w of
                     (Inl e, w1) \<Rightarrow> apfst ((#) (sc, pushed)) (push_due q now rest w1)
                   | (Inr won, w1) \<Rightarrow> apfst ((#) (sc, at)) (push_due q now rest w1))"

definition push_scheduled where
  "push_scheduled q runs w = (let (now, w1) = read_clock q w in push_due q now runs w1)"

section \<open>Kinds\<close>

datatype queue_panic =
  No_name | Handler_twice string | Schedule_twice string | Started string | No_store string
| Store_lacks string store_extra

record ('s, 'r, 'c) kind =
  k_name :: string
  k_h :: "('s, 'r, 'c) handler"
  k_store :: "'s store_ops"
  k_in :: bool

definition needs :: "('s, 'r, 'c) handler \<Rightarrow> string \<Rightarrow> 's store_ops \<Rightarrow> queue_panic option" where
  "needs h name s =
     (if h_unique h \<and> Keeps_keys \<notin> set (so_extras s) then Some (Store_lacks name Keeps_keys)
      else if h_latest h \<and> Keeps_latest \<notin> set (so_extras s) then Some (Store_lacks name Keeps_latest)
      else if h_one_at_a_time h \<and> Keeps_one_at_a_time \<notin> set (so_extras s) then
        Some (Store_lacks name Keeps_one_at_a_time)
      else if 0 < h_at_once h \<and> Keeps_at_once \<notin> set (so_extras s) then Some (Store_lacks name Keeps_at_once)
      else None)"

text \<open>\<open>Handle\<close>, whose options have been applied to a handler with the defaults (\<open>h\<close>).\<close>

definition handle ::
  "('s, 'r, 'c) queue \<Rightarrow> string \<Rightarrow> ('s, 'r, 'c) handler \<Rightarrow>
   queue_panic + ('s, 'r, 'c) kind \<times> ('s, 'r, 'c) queue" where
  "handle q name h =
     (if name = [] then Inl No_name
      else case needs h name (q_store q) of
             Some p \<Rightarrow> Inl p
           | None \<Rightarrow>
               if h_rate h \<noteq> None \<and> Holds_back \<notin> set (so_extras (q_store q)) then
                 Inl (Store_lacks name Holds_back)
               else if q_started q then Inl (Started name)
               else if lookup (q_handlers q) name \<noteq> None then Inl (Handler_twice name)
               else Inr (\<lparr>k_name = name, k_h = h, k_store = q_store q, k_in = False\<rparr>,
                         q\<lparr>q_handlers := put name h (q_handlers q)\<rparr>))"

definition kind_in :: "('s, 'r, 'c) kind \<Rightarrow> 's store_ops option \<Rightarrow> queue_panic + ('s, 'r, 'c) kind" where
  "kind_in k s =
     (case s of
        None \<Rightarrow> Inl (No_store (k_name k))
      | Some ops \<Rightarrow>
          (case needs (k_h k) (k_name k) ops of
             Some p \<Rightarrow> Inl p
           | None \<Rightarrow> Inr (k\<lparr>k_store := ops, k_in := True\<rparr>)))"

definition kind_schedule ::
  "(string \<Rightarrow> string) \<Rightarrow> ('s, 'r, 'c) queue \<Rightarrow> ('s, 'r, 'c) kind \<Rightarrow> (instant \<Rightarrow> instant) \<Rightarrow> string \<Rightarrow>
   queue_panic + ('s, 'r, 'c) queue" where
  "kind_schedule key_of q k nxt payload =
     (if Keeps_schedules \<notin> set (so_extras (q_store q)) then Inl (Store_lacks (k_name k) Keeps_schedules)
      else if q_started q then Inl (Started (k_name k))
      else if list_ex (\<lambda>sc. sc_kind sc = k_name k) (q_scheduled q) then Inl (Schedule_twice (k_name k))
      else Inr (q\<lparr>q_scheduled := q_scheduled q @
        [\<lparr>sc_kind = k_name k, sc_next = nxt, sc_payload = payload,
          sc_key = (if h_unique (k_h k) then key_of payload else []),
          sc_one_at_a_time = h_one_at_a_time (k_h k), sc_at_once = h_at_once (k_h k)\<rparr>]\<rparr>))"

text \<open>\<open>carried\<close>: what the queue's Carriers take from a context; \<open>json_len\<close> is the length of a map
  as JSON, or none when it cannot be written.\<close>

definition max_carried :: nat where "max_carried = 4096"

definition carried ::
  "(((string, string) gomap) \<Rightarrow> nat option) \<Rightarrow> ('s, 'r, 'c) queue \<Rightarrow> 'c \<Rightarrow> 's store_ops \<Rightarrow>
   string + (string, string) gomap" where
  "carried json_len q ctx s =
     (if q_carry q = [] \<or> Keeps_carried \<notin> set (so_extras s) then Inr []
      else let into = foldl (\<lambda>m c. cr_carry c ctx m) [] (q_carry q)
           in if into = [] then Inr []
              else case json_len into of
                     None \<Rightarrow> Inl ''it carries more than a job may''
                   | Some n \<Rightarrow> if max_carried < n then Inl ''it carries more than a job may'' else Inr into)"

definition error_of :: "string + 'x \<Rightarrow> string option" where
  "error_of r = (case r of Inl e \<Rightarrow> Some e | Inr x \<Rightarrow> None)"

definition push_at ::
  "(string \<Rightarrow> string) \<Rightarrow> (((string, string) gomap) \<Rightarrow> nat option) \<Rightarrow> ('s, 'r, 'c) queue \<Rightarrow>
   ('s, 'r, 'c) kind \<Rightarrow> 'c \<Rightarrow> instant \<Rightarrow> string + string \<Rightarrow> ('s, 'r) world \<Rightarrow>
   string option \<times> ('s, 'r) world" where
  "push_at key_of json_len q k ctx at marshalled w =
     (case marshalled of
        Inl e \<Rightarrow> (Some e, w)
      | Inr payload \<Rightarrow>
          (case carried json_len q ctx (k_store k) of
             Inl e \<Rightarrow> (Some e, w)
           | Inr carry \<Rightarrow>
               let j = \<lparr>j_id = [], j_kind = k_name k, j_payload = payload, j_key = [], j_run_at = at,
                        j_attempts = 0, j_error = [], j_one_at_a_time = h_one_at_a_time (k_h k),
                        j_at_once = h_at_once (k_h k), j_failed_at = zero_time, j_carried = carry\<rparr>;
                   (e, w1) =
                     (if h_latest (k_h k) then
                        apfst error_of (to_store (so_push_latest (k_store k) (j\<lparr>j_key := key_of payload\<rparr>)) w)
                      else if h_unique (k_h k) then
                        apfst error_of (to_store (so_push_unique (k_store k) (j\<lparr>j_key := key_of payload\<rparr>)) w)
                      else apfst error_of (to_store (so_push (k_store k) j) w))
               in if e \<noteq> None \<or> k_in k then (e, w1)
                  else let (now, w2) = read_clock q w1
                       in (None, if at \<le> now then poke w2 else w2)))"

end
