(* ===== verification/Job_Runs.thy ===== *)
theory Job_Runs
  imports Job_Queue
begin

text \<open>
  What the queue makes of its runs, on any store that keeps its promises (\<open>job_store\<close>) and so on
  Memory: a job leaves the store only once its handler returned no error, one that fails goes back
  or is kept as failed by its attempts, Drain returns with nothing due, a rate's refusal undoes the
  claim, and the wait between two attempts grows and is bounded.
\<close>

section \<open>The waits between attempts\<close>

definition fair_draw :: "(int \<Rightarrow> 'r \<Rightarrow> int \<times> 'r) \<Rightarrow> bool" where
  "fair_draw draw \<longleftrightarrow> (\<forall>n r. 0 < n \<longrightarrow> 0 \<le> fst (draw n r) \<and> fst (draw n r) < n)"

definition capped :: "int \<Rightarrow> int" where
  "capped a = (if a > 19 then 19 else a)"

lemma fst_backoff:
  "fst (backoff draw a r) =
     min (capped a ^ 4 * second + fst (draw (go_div (capped a ^ 4 * second) 10 + 1) r)) (24 * hour)"
  by (simp add: backoff_def capped_def Let_def case_prod_beta power4_eq_xxxx)

lemma backoff_between:
  assumes "fair_draw draw" "1 \<le> a"
  shows "min (capped a ^ 4 * second) (24 * hour) \<le> fst (backoff draw a r)"
    "fst (backoff draw a r) \<le> min (capped a ^ 4 * second + capped a ^ 4 * second div 10) (24 * hour)"
proof -
  have pos: "0 \<le> capped a ^ 4 * second" using assms(2) by (simp add: capped_def less_imp_le)
  then have "0 < capped a ^ 4 * second div 10 + 1" by (simp add: pos_imp_zdiv_nonneg_iff add_nonneg_pos)
  with assms(1) have "0 \<le> fst (draw (capped a ^ 4 * second div 10 + 1) r)"
    "fst (draw (capped a ^ 4 * second div 10 + 1) r) \<le> capped a ^ 4 * second div 10"
    unfolding fair_draw_def using zle_add1_eq_le by blast+
  with pos show "min (capped a ^ 4 * second) (24 * hour) \<le> fst (backoff draw a r)"
    "fst (backoff draw a r) \<le> min (capped a ^ 4 * second + capped a ^ 4 * second div 10) (24 * hour)"
    by (auto simp: fst_backoff)
qed

lemma tenth_more_is_less_than_next:
  assumes "1 \<le> a" "a < (b::int)" "b \<le> 19"
  shows "a ^ 4 * second + a ^ 4 * second div 10 \<le> b ^ 4 * second"
proof -
  have "10 * (a + 1) ^ 4 = 10 * a ^ 4 + 40 * (a * a * a) + 60 * (a * a) + 40 * a + 10"
    by (simp add: power4_eq_xxxx algebra_simps)
  moreover have "a ^ 4 \<le> 19 * (a * a * a)"
    using assms by (simp add: power4_eq_xxxx mult_right_mono)
  moreover have "0 \<le> a * a * a" "0 \<le> a * a" using assms(1) by simp_all
  ultimately have "11 * a ^ 4 \<le> 10 * (a + 1) ^ 4" using assms(1) by linarith
  also have "\<dots> \<le> 10 * b ^ 4" using assms by (simp add: power_mono)
  finally show ?thesis unfolding second_def by linarith
qed

lemma backoff_late:
  assumes "fair_draw draw" "19 \<le> a"
  shows "fst (backoff draw a r) = 24 * hour"
proof -
  have "capped a = 19" using assms(2) by (simp add: capped_def)
  with backoff_between [OF assms(1), of a r] assms(2) show ?thesis
    by (simp add: hour_def minute_def second_def)
qed

text \<open>
  The wait before a failed job runs again is its attempt to the fourth power in seconds, with a
  tenth more at most and never over a day; and whatever is drawn for either, the wait after a later
  attempt is no shorter than the wait after an earlier one.
\<close>

theorem backoff_grows_within_a_day:
  assumes "fair_draw draw" "1 \<le> a" "a < b"
  shows "min (a ^ 4 * second) (24 * hour) \<le> fst (backoff draw a r) \<and>
    10 * fst (backoff draw a r) \<le> 11 * (a ^ 4 * second) \<and>
    fst (backoff draw a r) \<le> fst (backoff draw b r') \<and> fst (backoff draw b r') \<le> 24 * hour"
proof (cases "a \<le> 19")
  case True
  then have ca: "capped a = a" by (simp add: capped_def)
  note A = backoff_between [OF assms(1,2), of r, unfolded ca]
  have "1 \<le> b" using assms by simp
  note B = backoff_between [OF assms(1) this, of r']
  have "10 * fst (backoff draw a r) \<le> 11 * (a ^ 4 * second)" using A(2) by linarith
  moreover have "fst (backoff draw a r) \<le> fst (backoff draw b r')"
  proof (cases "b \<le> 19")
    case True
    then have "capped b = b" by (simp add: capped_def)
    with A B tenth_more_is_less_than_next [OF assms(2,3) True] show ?thesis
      by (simp add: min_def split: if_splits)
  next
    case False
    with A backoff_late [OF assms(1), of b r'] show ?thesis by simp
  qed
  ultimately show ?thesis using A B by simp
next
  case False
  then have "19 ^ 4 \<le> a ^ 4" by (intro power_mono) simp_all
  then have "24 * hour \<le> a ^ 4 * second" unfolding hour_def minute_def second_def by simp
  moreover have "24 * hour \<ge> 0" by (simp add: less_imp_le)
  ultimately show ?thesis
    using False assms backoff_late [OF assms(1), of a r] backoff_late [OF assms(1), of b r'] by simp
qed

theorem backoff_grows_within_a_day_witness:
  "fst (backoff (\<lambda>n r. (0, r)) 1 ()) \<le> fst (backoff (\<lambda>n r. (0, r)) 17 ())"
  using backoff_grows_within_a_day [of "\<lambda>n r. (0, r)" 1 17 "()" "()"]
  by (simp add: fair_draw_def)


section \<open>The claimed job among the others\<close>

lemma claimed_split:
  assumes "distinct (map j_id (ys @ mj # zs))" "\<not> mj_failed mj" "j_id j = j_id mj" "j_attempts j = j_attempts mj"
  shows "filter (\<lambda>x. \<not> claimed_by x j) (ys @ mj # zs) = ys @ zs"
    "map (\<lambda>x. if claimed_by x j then f x else x) (ys @ mj # zs) = ys @ f mj # zs"
proof -
  have others: "\<forall>x \<in> set ys \<union> set zs. \<not> claimed_by x j"
    using assms(1,3) by (force simp: claimed_by_def image_iff)
  have "claimed_by mj j" using assms(2-4) by (simp add: claimed_by_def)
  moreover from others have "filter (\<lambda>x. \<not> claimed_by x j) ys = ys" "filter (\<lambda>x. \<not> claimed_by x j) zs = zs"
    by (simp_all add: filter_id_conv)
  moreover from others have "map (\<lambda>x. if claimed_by x j then f x else x) ys = ys"
    "map (\<lambda>x. if claimed_by x j then f x else x) zs = zs"
    by (auto intro: map_idI)
  ultimately show "filter (\<lambda>x. \<not> claimed_by x j) (ys @ mj # zs) = ys @ zs"
    "map (\<lambda>x. if claimed_by x j then f x else x) (ys @ mj # zs) = ys @ f mj # zs" by simp_all
qed

lemma world_steps [simp]:
  "w_store (snd (read_clock q w)) = w_store w" "w_wake (snd (read_clock q w)) = w_wake w"
  "w_told (snd (read_clock q w)) = w_told w"
  "w_rest (snd (read_clock q w)) = snd (q_now q (w_rest w))"
  "w_store (tell q j out err took waited w) = w_store w"
  "w_rest (tell q j out err took waited w) = w_rest w"
  "w_store (poke w) = w_store w" "w_rest (poke w) = w_rest w"
  "w_store (snd (to_store f w)) = snd (f (w_store w))" "fst (to_store f w) = fst (f (w_store w))"
  "w_rest (snd (to_store f w)) = w_rest w"
  by (simp_all add: read_clock_def tell_def poke_def to_store_def split: prod.splits)

lemma to_store_eq: "to_store f w = (x, w1) \<longleftrightarrow> f (w_store w) = (x, w_store w1) \<and> w1 = w\<lparr>w_store := w_store w1\<rparr>"
  by (auto simp: to_store_def split: prod.splits)

lemma read_clock_eq: "read_clock q w = (t, w1) \<Longrightarrow> w_store w1 = w_store w \<and> w_rest w1 = snd (q_now q (w_rest w))"
  by (auto simp: read_clock_def split: prod.splits)

text \<open>What a run that ended makes of the claimed job, where OnFail leaves the store alone.\<close>

definition quiet_handler :: "('s, 'r, 'c) handler \<Rightarrow> bool" where
  "quiet_handler h \<longleftrightarrow> h_rate h = None \<and>
     (\<forall>run t ctx p w. h_run h = Some run \<longrightarrow> w_store (snd (run t ctx p w)) = w_store w) \<and>
     (\<forall>f t ctx p e w. h_on_fail h = Some f \<longrightarrow> w_store (snd (f t ctx p e w)) = w_store w)"

lemma h_failed_store: "quiet_handler h \<Longrightarrow> w_store (h_failed h ctx j err w) = w_store w"
  by (auto simp: h_failed_def quiet_handler_def split: option.splits)

lemma h_call_store:
  assumes "quiet_handler h" "h_call h ctx j w = (r, w1)"
  shows "w_store w1 = w_store w"
proof (cases "h_run h")
  case None
  with assms(2) show ?thesis by (simp add: h_call_def)
next
  case (Some run)
  with assms(1) have "w_store (snd (run (h_timeout h) ctx (j_payload j) w)) = w_store w"
    by (simp add: quiet_handler_def)
  with assms(2) Some show ?thesis
    by (auto simp: h_call_def split: prod.splits fn_result.splits)
qed

context job_store
begin

lemma run_end_kept:
  assumes ok: "ok (w_store w)" and k: "kept (w_store w) = ys @ mj # zs"
    and mj: "\<not> mj_failed mj" "j_id j = j_id mj" "j_attempts j = j_attempts mj"
    and q: "q_store q = ops" and quiet: "quiet_handler h"
    and r: "run_end q h ctx j result took waited w = (None, w')"
  shows "ok (w_store w') \<and>
    (case result of
       None \<Rightarrow> kept (w_store w') = ys @ zs
     | Some err \<Rightarrow>
         if q_stopped q (w_rest w) then
           kept (w_store w') = ys @ retry_job (j\<lparr>j_run_at := fst (q_now q (w_rest w)), j_error := f_text err\<rparr>) mj # zs \<and>
           w_rest w' = snd (q_now q (w_rest w))
         else if f_permanent err \<or> h_attempts h \<le> j_attempts j then
           \<exists>wall. kept (w_store w') =
             ys @ fail_job wall (j\<lparr>j_error := f_text err, j_failed_at := fst (q_now q (w_rest w))\<rparr>) mj # zs
         else kept (w_store w') =
           ys @ retry_job (j\<lparr>j_run_at := fst (q_now q (w_rest w)) +
               fst (h_backoff h (j_attempts j) (snd (q_now q (w_rest w)))), j_error := f_text err\<rparr>) mj # zs)"
proof -
  have ids: "distinct (map j_id (ys @ mj # zs))" using kept_ids [OF ok] k by simp
  note split = claimed_split [OF ids mj(1)]
  have retry: "ok (w_store w') \<and> kept (w_store w') = ys @ retry_job jj mj # zs"
    if "so_retry ops jj (w_store w) = (None, w_store w')" "j_id jj = j_id mj" "j_attempts jj = j_attempts mj" for jj
    using retry_ok [OF ok that(1)] retry_kept [OF ok that(1)] split(2) [OF that(2,3), of "retry_job jj"] k by simp
  show ?thesis
  proof (cases result)
    case None
    with r have "so_done ops j (w_store w) = (None, w_store w')"
      by (auto simp: run_end_def run_done_def q to_store_eq Let_def split: prod.splits if_splits)
    with done_ok [OF ok] done_kept [OF ok] None split(1) mj k show ?thesis by fastforce
  next
    case (Some err)
    consider (stopped) "q_stopped q (w_rest w)"
      | (failed) "\<not> q_stopped q (w_rest w)" "f_permanent err \<or> h_attempts h \<le> j_attempts j"
      | (retried) "\<not> q_stopped q (w_rest w)" "\<not> (f_permanent err \<or> h_attempts h \<le> j_attempts j)" by blast
    then show ?thesis
    proof cases
      case stopped
      let ?j = "j\<lparr>j_run_at := fst (q_now q (w_rest w)), j_error := f_text err\<rparr>"
      from r Some stopped have "so_retry ops ?j (w_store w) = (None, w_store w')"
        "w_rest w' = snd (q_now q (w_rest w))"
        by (auto simp: run_end_def run_stopped_def q to_store_def read_clock_def Let_def
          split: prod.splits if_splits)
      with retry [of ?j] mj Some stopped show ?thesis by simp
    next
      case failed
      let ?j = "j\<lparr>j_error := f_text err, j_failed_at := fst (q_now q (w_rest w))\<rparr>"
      from r Some failed have "so_fail ops ?j (w_store w) = (None, w_store w')"
        by (auto simp: run_end_def run_failed_def q to_store_def read_clock_def Let_def h_failed_store [OF quiet]
          split: prod.splits if_splits)
      note f = fail_ok [OF ok this] fail_kept [OF ok this]
      from f(2) obtain wall where
        "kept (w_store w') = map (\<lambda>x. if claimed_by x ?j then fail_job wall ?j x else x) (ys @ mj # zs)"
        using k by auto
      moreover have "j_id ?j = j_id mj" "j_attempts ?j = j_attempts mj" using mj by simp_all
      ultimately have "kept (w_store w') = ys @ fail_job wall ?j mj # zs" using split(2) [of ?j] by metis
      with f(1) Some failed show ?thesis by auto
    next
      case retried
      let ?j = "j\<lparr>j_run_at := fst (q_now q (w_rest w)) +
        fst (h_backoff h (j_attempts j) (snd (q_now q (w_rest w)))), j_error := f_text err\<rparr>"
      from r Some retried have "so_retry ops ?j (w_store w) = (None, w_store w')"
        by (auto simp: run_end_def run_retried_def q to_store_def read_clock_def Let_def poke_def tell_def
          split: prod.splits if_splits)
      with retry [of ?j] mj Some retried show ?thesis by simp
    qed
  qed
qed

end

text \<open>
  The work left: a job that waits has its remaining attempts, and one more, as a job whose worker was
  lost at its last attempt is claimed again.
\<close>

definition work :: "('s, 'r, 'c) queue \<Rightarrow> memory_job list \<Rightarrow> nat" where
  "work q xs = sum_list (map (\<lambda>x. if mj_failed x then 0
     else Suc (nat (h_attempts (handler_of q (j_kind x)) - j_attempts x))) xs)"

lemma work_simps [simp]:
  "work q [] = 0" "work q (xs @ ys) = work q xs + work q ys"
  "work q (x # xs) = (if mj_failed x then 0
     else Suc (nat (h_attempts (handler_of q (j_kind x)) - j_attempts x))) + work q xs"
  by (simp_all add: work_def)

definition quiet_queue :: "('s, 'r, 'c) queue \<Rightarrow> bool" where
  "quiet_queue q \<longleftrightarrow> (\<forall>k. quiet_handler (handler_of q k)) \<and>
     (\<forall>r. q_stopped q r \<longrightarrow> q_stopped q (snd (q_now q r)))"

context job_store
begin

lemma run_started_work:
  assumes ok: "ok (w_store w)" and k: "kept (w_store w) = ys @ take_job until mj # zs"
    and mj: "\<not> mj_failed mj" "j = job_of (take_job until mj)"
    and q: "q_store q = ops" and quiet: "quiet_queue q" and h: "h = handler_of q (j_kind mj)"
    and r: "run_started q h ctx j waited w = (None, w')"
  shows "ok (w_store w') \<and>
    (q_stopped q (w_rest w') \<or> work q (kept (w_store w')) < work q (ys @ mj # zs))"
proof -
  have quiet_h: "quiet_handler h" using quiet h by (simp add: quiet_queue_def)
  obtain t1 w1 result w2 t2 w3 w4 where w1: "read_clock q w = (t1, w1)"
    and w2: "h_call h ctx j w1 = (result, w2)" and w3: "read_clock q w2 = (t2, w3)"
    and w4: "run_end q h ctx j result (t2 - t1) waited w3 = (None, w4)"
    and w': "w_store w' = w_store w4" "w_rest w' = w_rest w4"
    using r by (auto simp: run_started_def Let_def split: prod.splits if_splits)
  have s3: "w_store w3 = w_store w"
    using read_clock_eq [OF w1] h_call_store [OF quiet_h w2] read_clock_eq [OF w3] by simp
  have end_ok: "\<not> mj_failed (take_job until mj)" "j_id j = j_id (take_job until mj)"
    "j_attempts j = j_attempts (take_job until mj)"
    using mj by simp_all
  note e = run_end_kept [OF _ _ end_ok q quiet_h w4, unfolded s3, OF ok k]
  show ?thesis
  proof (cases result)
    case None
    with e mj show ?thesis by (simp add: w')
  next
    case (Some err)
    with e mj h w' quiet show ?thesis
      by (auto simp: quiet_queue_def retry_job_def fail_job_def split: if_splits)
  qed
qed

lemma run_work:
  assumes ok: "ok (w_store w0)" and c: "so_claim ops now until (w_store w0) = (Inr (Some j), w_store w)"
    and q: "q_store q = ops" and quiet: "quiet_queue q"
    and r: "q_run q key_of ctx j w = (None, w')"
  shows "ok (w_store w') \<and>
    (q_stopped q (w_rest w') \<or> work q (kept (w_store w')) < work q (kept (w_store w0)))"
proof -
  obtain ys mj zs where k: "kept (w_store w0) = ys @ mj # zs" "\<not> mj_failed mj"
    "j = job_of (take_job until mj)" "kept (w_store w) = ys @ take_job until mj # zs"
    using claim_some [OF ok c] by blast
  obtain t w1 where w1: "read_clock q w = (t, w1)" by fastforce
  have "h_rate (handler_of q (j_kind j)) = None" using quiet by (simp add: quiet_queue_def quiet_handler_def)
  with r w1 have r': "run_started q (handler_of q (j_kind mj)) (restore q ctx j) j (max (t - j_run_at j) 0) w1
      = (None, w')"
    by (simp add: q_run_def k(3))
  have "ok (w_store w1)" "kept (w_store w1) = ys @ take_job until mj # zs"
    using claim_ok [OF ok c] read_clock_eq [OF w1] k(4) by simp_all
  from run_started_work [OF this k(2,3) q quiet refl r'] k(1) show ?thesis by simp
qed

lemma drain_loop_ends:
  assumes "q_store q = ops" "quiet_queue q"
  shows "ok (w_store w) \<Longrightarrow> \<exists>e w'. drain_loop q key_of ctx h w = Some (e, w') \<and>
    (e = Drained \<longrightarrow> (\<exists>w0. ok (w_store w0) \<and> q_claim q h w0 = (Inr None, w')))"
proof (induction "work q (kept (w_store w))" arbitrary: w rule: less_induct)
  case less
  show ?case
  proof (cases "q_stopped q (w_rest w)")
    case True
    then show ?thesis by (subst drain_loop.simps) simp
  next
    case False
    obtain r w1 where c: "q_claim q h w = (r, w1)" by fastforce
    obtain now wc where wc: "read_clock q w = (now, wc)" by fastforce
    have cs: "so_claim ops now (now + h) (w_store w) = (r, w_store w1)"
      using c wc read_clock_eq [OF wc] by (simp add: q_claim_def assms(1) to_store_eq)
    consider (error) e where "r = Inl e" | (none) "r = Inr None" | (job) j where "r = Inr (Some j)"
      by (cases r) auto
    then show ?thesis
    proof cases
      case error
      with False c show ?thesis by (subst drain_loop.simps) simp
    next
      case none
      with False c less.prems show ?thesis by (subst drain_loop.simps) auto
    next
      case (job j)
      obtain e w2 where r2: "q_run q key_of ctx j w1 = (e, w2)" by fastforce
      show ?thesis
      proof (cases e)
        case None
        have step: "ok (w_store w2)" "q_stopped q (w_rest w2) \<or>
            work q (kept (w_store w2)) < work q (kept (w_store w))"
          using run_work [OF less.prems cs [unfolded job] assms] r2 None by blast+
        have again: "drain_loop q key_of ctx h w = drain_loop q key_of ctx h w2"
          using False c job r2 None by (subst drain_loop.simps) simp
        show ?thesis
        proof (cases "q_stopped q (w_rest w2)")
          case True
          then show ?thesis unfolding again by (subst drain_loop.simps) simp
        next
          case False
          with step less.hyps [of w2] again show ?thesis by simp
        qed
      next
        case (Some x)
        with False c job r2 show ?thesis by (subst drain_loop.simps) simp
      qed
    qed
  qed
qed

end

text \<open>
  C5. Drain returns, and when it says nothing is due, nothing was: on Memory, where no kind has a rate, no handler and no OnFail
  touches the store and a stop is for good, whatever the handlers return, whenever they do and whatever the
  clock reads, Drain comes to an end, and where no error and no stop ended it, no job could run at the time the clock was
  last read, by the claim Drain made last, in the store as it left it.
\<close>

theorem drain_ends_with_nothing_due:
  assumes "mem_ok (w_store w)" "q_store q = memory_store wall" "quiet_queue q"
  shows "\<exists>e w'. drain q key_of ctx w = Some (e, w') \<and>
    (e = Drained \<longrightarrow> (\<exists>r. w_rest w' = snd (q_now q r) \<and> next_job (w_store w') (fst (q_now q r)) = None))"
proof -
  obtain e w' where d: "drain q key_of ctx w = Some (e, w')"
    "e = Drained \<longrightarrow> (\<exists>w0. mem_ok (w_store w0) \<and> q_claim q (hold q) w0 = (Inr None, w'))"
    using mem_store.drain_loop_ends [OF assms(2,3,1)] unfolding drain_def by metis
  have "\<exists>r. w_rest w' = snd (q_now q r) \<and> next_job (w_store w') (fst (q_now q r)) = None" if c: "q_claim q (hold q) w0 = (Inr None, w')" for w0
  proof (intro exI [of _ "w_rest w0"] conjI)
    show "w_rest w' = snd (q_now q (w_rest w0))"
      using c by (auto simp: q_claim_def to_store_def read_clock_def split: prod.splits)
    show "next_job (w_store w') (fst (q_now q (w_rest w0))) = None"
      using c assms(2) by (auto simp: q_claim_def to_store_eq read_clock_def mem_claim_def split: prod.splits option.splits)
  qed
  with d show ?thesis by blast
qed


definition stub_queue :: "fn_result \<Rightarrow> (memory, unit, unit) queue" where
  "stub_queue res =
     \<lparr>q_store = memory_store 0, q_workers = 4, q_poll = second, q_grace = second, q_observe = True,
      q_carry = [], q_now = (\<lambda>r. (5, r)), q_stopped = (\<lambda>r. False), q_rand = (\<lambda>n r. (0, r)),
      q_handlers = [(''mail'', \<lparr>h_run = Some (\<lambda>t ctx p w. (res, w)), h_attempts = 2,
        h_timeout = minute, h_backoff = (\<lambda>a r. (0, r)), h_unique = False, h_latest = False,
        h_one_at_a_time = False, h_at_once = 0, h_rate = None, h_on_fail = None\<rparr>)],
      q_scheduled = [], q_started = True\<rparr>"

definition stub_world :: "memory \<Rightarrow> (memory, unit) world" where
  "stub_world m = \<lparr>w_store = m, w_wake = False, w_told = [], w_rest = ()\<rparr>"

lemma stub_quiet: "quiet_queue (stub_queue res)"
  by (auto simp: quiet_queue_def quiet_handler_def handler_of_def stub_queue_def unknown_handler_def)

lemma stub_simps [simp]:
  "q_store (stub_queue res) = memory_store 0" "w_store (stub_world m) = m"
  "q_now (stub_queue res) r = (5, r)" "q_stopped (stub_queue res) r = False"
  by (simp_all add: stub_queue_def stub_world_def)

theorem drain_ends_with_nothing_due_witness:
  "\<exists>e w'. drain (stub_queue (Panicked ''x'')) (\<lambda>p. p) () (stub_world (mem_run [OPush (plain_job 1)] mem_empty))
      = Some (e, w') \<and> (e = Drained \<longrightarrow> next_job (w_store w') 5 = None)"
  using drain_ends_with_nothing_due [of "stub_world (mem_run [OPush (plain_job 1)] mem_empty)"
      "stub_queue (Panicked ''x'')" 0 "\<lambda>p. p" "()"]
  by (simp add: stub_quiet mem_run_ok)

section \<open>What becomes of a job that ran\<close>

definition call_of :: "('s, 'r, 'c) queue \<Rightarrow> 'c \<Rightarrow> job \<Rightarrow> ('s, 'r) world \<Rightarrow> failure option" where
  "call_of q ctx j w =
     fst (h_call (handler_of q (j_kind j)) (restore q ctx j) j
       (snd (read_clock q (snd (read_clock q w)))))"

text \<open>Whether the queue was told to stop by the time the handler had returned.\<close>

definition stopped_by_end :: "('s, 'r, 'c) queue \<Rightarrow> 'c \<Rightarrow> job \<Rightarrow> ('s, 'r) world \<Rightarrow> bool" where
  "stopped_by_end q ctx j w =
     q_stopped q (w_rest (snd (read_clock q (snd
       (h_call (handler_of q (j_kind j)) (restore q ctx j) j (snd (read_clock q (snd (read_clock q w)))))))))"

text \<open>
  C4. A claimed job leaves the store only once its handler returned no error. After a run on Memory that ended
  in an error, of a kind with no rate whose handler and OnFail leave the store alone, the store has every job it had, and
  this one, with its error and let go, is kept as failed exactly when the queue was not told to stop and the error is permanent
  or the attempts are up, and else waits to run again.
\<close>

theorem a_job_goes_only_once_it_worked:
  assumes "mem_ok m" "mem_claim now until m = (Some j, w_store w)" "q_store q = memory_store wall"
    and quiet: "quiet_handler (handler_of q (j_kind j))"
    and r: "q_run q key_of ctx j w = (None, w')"
  shows "case call_of q ctx j w of
      None \<Rightarrow> map j_id (mem_jobs (w_store w')) = filter (\<lambda>i. i \<noteq> j_id j) (map j_id (mem_jobs m))
    | Some err \<Rightarrow> map j_id (mem_jobs (w_store w')) = map j_id (mem_jobs m) \<and>
        list_ex (\<lambda>x. j_id x = j_id j \<and> j_attempts x = j_attempts j \<and> j_error x = f_text err \<and>
          mj_held_until x = zero_time \<and>
          mj_failed x = (\<not> stopped_by_end q ctx j w \<and>
            (f_permanent err \<or> h_attempts (handler_of q (j_kind j)) \<le> j_attempts j)))
          (mem_jobs (w_store w'))"
proof -
  have "so_claim (memory_store wall) now until m = (Inr (Some j), w_store w)" using assms(2) by simp
  from mem_store.claim_some [OF assms(1) this] obtain ys mj zs where k: "mem_jobs m = ys @ mj # zs"
    "\<not> mj_failed mj" "j = job_of (take_job until mj)" "mem_jobs (w_store w) = ys @ take_job until mj # zs"
    by blast
  have ok: "mem_ok (w_store w)" using mem_apply_ok [OF assms(1), of "OClaim now until"] assms(2) by simp
  let ?h = "handler_of q (j_kind j)"
  let ?w2 = "snd (read_clock q (snd (read_clock q w)))"
  obtain result w3 where c: "h_call ?h (restore q ctx j) j ?w2 = (result, w3)" by fastforce
  have res: "call_of q ctx j w = result" by (simp add: call_of_def c)
  have stopped: "stopped_by_end q ctx j w = q_stopped q (w_rest (snd (read_clock q w3)))" by (simp add: stopped_by_end_def c)
  have "h_rate ?h = None" using quiet by (simp add: quiet_handler_def)
  then obtain took waited w4 where e: "run_end q ?h (restore q ctx j) j result took waited
      (snd (read_clock q w3)) = (None, w4)" "w_store w' = w_store w4"
    using r c by (auto simp: q_run_def run_started_def Let_def split: prod.splits if_splits)
  have s3: "w_store (snd (read_clock q w3)) = w_store w"
    using h_call_store [OF quiet c] by simp
  have j: "\<not> mj_failed (take_job until mj)" "j_id j = j_id (take_job until mj)"
    "j_attempts j = j_attempts (take_job until mj)" using k by simp_all
  note R = mem_store.run_end_kept [OF _ _ j assms(3) quiet e(1), unfolded s3, OF ok k(4)]
  have "distinct (map j_id (ys @ mj # zs))" using assms(1) k(1) by (simp add: mem_ok_def)
  then have "\<forall>i \<in> set (map j_id ys) \<union> set (map j_id zs). i \<noteq> j_id mj" by auto
  then have ids: "filter (\<lambda>i. i \<noteq> j_id mj) (map j_id ys) = map j_id ys"
    "filter (\<lambda>i. i \<noteq> j_id mj) (map j_id zs) = map j_id zs"
    by (simp_all add: filter_id_conv)
  have j': "j_id j = j_id mj" "j_attempts j = j_attempts mj + 1" using k(3) by simp_all
  show ?thesis
  proof (cases result)
    case None
    with res R k(1) e(2) ids j'(1) show ?thesis by (simp del: filter_map)
  next
    case (Some err)
    with R have "\<exists>x. mem_jobs (w_store w') = ys @ x # zs \<and> j_id x = j_id j \<and>
        j_attempts x = j_attempts j \<and> j_error x = f_text err \<and> mj_held_until x = zero_time \<and>
        mj_failed x = (\<not> stopped_by_end q ctx j w \<and> (f_permanent err \<or> h_attempts ?h \<le> j_attempts j))"
      using j' k(2) e(2) stopped by (auto simp: retry_job_def fail_job_def split: if_splits)
    with res Some k(1) j'(1) show ?thesis by auto
  qed
qed

theorem a_job_goes_only_once_it_worked_witness:
  "\<exists>w'. q_run (stub_queue (Returned (Some \<lparr>f_text = ''no'', f_permanent = False\<rparr>))) (\<lambda>p. p) ()
       (the (fst (mem_claim 5 65 (mem_run [OPush (plain_job 1)] mem_empty))))
       (stub_world (snd (mem_claim 5 65 (mem_run [OPush (plain_job 1)] mem_empty)))) = (None, w') \<and>
     map j_id (mem_jobs (w_store w')) = [''1'']"
proof -
  let ?q = "stub_queue (Returned (Some \<lparr>f_text = ''no'', f_permanent = False\<rparr>))"
  let ?m = "mem_run [OPush (plain_job 1)] mem_empty"
  obtain j m' where c: "mem_claim 5 65 ?m = (Some j, m')" "j_kind j = ''mail''" "j_attempts j = 1"
    by (simp add: run_evals)
  have h: "h_attempts (handler_of ?q ''mail'') = 2" "quiet_handler (handler_of ?q (j_kind j))"
    using stub_quiet by (simp_all add: handler_of_def stub_queue_def quiet_queue_def)
  have "fst (q_run ?q (\<lambda>p. p) () j (stub_world m')) = None"
    by (simp add: q_run_def c handler_of_def stub_queue_def run_started_def h_call_def run_end_def
      run_retried_def read_clock_def to_store_def stub_world_def tell_def Let_def)
  then obtain w' where r: "q_run ?q (\<lambda>p. p) () j (stub_world m') = (None, w')"
    by (metis prod.collapse)
  have res: "call_of ?q () j (stub_world m') = Some \<lparr>f_text = ''no'', f_permanent = False\<rparr>"
    by (simp add: call_of_def c handler_of_def stub_queue_def h_call_def)
  have "map j_id (mem_jobs ?m) = [''1'']" by (simp add: run_evals)
  with a_job_goes_only_once_it_worked [OF mem_run_ok [OF mem_ok_empty], of 5 65 _ j "stub_world m'" ?q 0 "\<lambda>p. p" "()" w']
    c r res h show ?thesis by simp
qed

section \<open>A rate's refusal\<close>

text \<open>
  A job its kind's rate refuses goes back as if it had never been claimed: its attempts, its key
  and its place are as they were, for a unique kind as for any other, and no claim before the time
  the rate gave returns a job of the kind.
\<close>

theorem a_refused_job_is_as_it_was:
  assumes "mem_reachable m" "mem_claim now until m = (Some j, m')"
    and "mj \<in> set (mem_jobs m)" "j_id mj = j_id j" "mj_held_until mj = zero_time"
    and "m'' = mem_hold_back (j\<lparr>j_key := j_key mj\<rparr>) till m'"
  shows "mem_jobs m'' = mem_jobs m \<and>
    (t < till \<longrightarrow> mem_claim t u m'' = (Some j', m3) \<longrightarrow> j_kind j' \<noteq> j_kind j)"
proof -
  have ok: "mem_ok m" by (rule mem_reachable_ok [OF assms(1)])
  obtain mj' where n: "next_job m now = Some mj'" "j = job_of (take_job until mj')"
    by (rule mem_claim_Some [OF assms(2)])
  have "mj' = mj"
    using mem_ok_id_inj [OF ok next_job_Some(2) [OF n(1)] assms(3)] assms(4) n(2) by simp
  with n have n: "next_job m now = Some mj" "j = job_of (take_job until mj)" by simp_all
  obtain ys zs where k: "claimable m now mj" "mem_jobs m = ys @ mj # zs"
    "mem_jobs m' = ys @ take_job until mj # zs" "mem_held m' = mem_held m"
    by (rule claim_shape [OF ok n(1), of until]) (use assms(2) n that in auto)
  let ?j = "j\<lparr>j_key := j_key mj\<rparr>"
  have others: "\<forall>x \<in> set ys \<union> set zs. \<not> claimed_by x ?j"
    using ok k(2) n(2) by (force simp: claimed_by_def mem_ok_def image_iff)
  have pass: "hold_back_loop ?j b (xs @ rest) = hold_back_loop ?j (b @ xs) rest"
    if "\<forall>x \<in> set xs. \<not> claimed_by x ?j" for b xs rest
    using that by (induction xs arbitrary: b) auto
  let ?mj = "mj\<lparr>j_key := [], mj_held_until := zero_time\<rparr>"
  have "distinct (waiting_keys (ys @ mj # zs))" using mem_reachable_keys [OF assms(1)] k(2) by simp
  then have w: "\<not> waiting_in ?j (ys @ ?mj # zs)"
    using n(2) by (auto simp: waiting_in_keys split: if_splits)
  have undone: "take_job until mj\<lparr>j_attempts := j_attempts mj, mj_held_until := zero_time\<rparr> = ?mj"
    by (simp add: take_job_def)
  have "claimed_by (take_job until mj) ?j" using k(1) n(2) by (simp add: claimed_by_def claimable_def)
  then have "hold_back_loop ?j [] (mem_jobs m') = ys @ (?mj\<lparr>j_key := j_key mj\<rparr>) # zs"
    using others w pass [of ys "[]"] pass [of zs _ "[]"] by (simp add: k(3) undone Let_def)
  moreover have "?mj\<lparr>j_key := j_key mj\<rparr> = mj" using assms(5) by simp
  ultimately have jobs: "mem_jobs m'' = mem_jobs m" using k(2) by (simp add: assms(6) mem_hold_back_def Let_def)
  have held: "till \<le> kind_held m'' (j_kind j)"
    by (auto simp: assms(6) mem_hold_back_def kind_held_def Let_def)
  have "j_kind j' \<noteq> j_kind j" if early: "t < till" and c: "mem_claim t u m'' = (Some j', m3)"
  proof -
    obtain x where x: "next_job m'' t = Some x" "j' = job_of (take_job u x)"
      by (rule mem_claim_Some [OF c])
    have "\<not> t < kind_held m'' (j_kind x)" using next_job_Some(1) [OF x(1)] by (simp add: claimable_def)
    with held early x(2) show ?thesis by auto
  qed
  with jobs show ?thesis by blast
qed

theorem a_refused_job_is_as_it_was_witness:
  "case mem_claim 5 65 (mem_apply (OPushUnique (lone_job 1)) mem_empty) of
     (Some j, m') \<Rightarrow> mem_jobs (mem_hold_back (j\<lparr>j_key := ''key''\<rparr>) 9 m') =
       mem_jobs (mem_apply (OPushUnique (lone_job 1)) mem_empty) | _ \<Rightarrow> False"
proof -
  let ?m = "mem_apply (OPushUnique (lone_job 1)) mem_empty"
  let ?mj = "keep_job ((lone_job 1)\<lparr>j_id := ''1''\<rparr>)"
  obtain j m' where c: "mem_claim 5 65 ?m = (Some j, m')" "j_id j = ''1''"
    by (simp add: run_evals)
  have "mem_reachable ?m" by (rule mem_reachable.step [OF mem_reachable.empty]) simp
  moreover have "?mj \<in> set (mem_jobs ?m)" by (simp add: run_evals)
  ultimately have "mem_jobs (mem_hold_back (j\<lparr>j_key := j_key ?mj\<rparr>) 9 m') = mem_jobs ?m"
    using a_refused_job_is_as_it_was [OF _ c(1) _ _ _ refl, of ?mj] c(2) by simp
  with c show ?thesis by simp
qed

end
