(* ===== verification/Cache.thy ===== *)
theory Cache
  imports Go_Prelude
begin

text \<open>
  Package cache: the cache's values and locks on any store (cache/cache.go, lock.go), the store in
  memory (memory.go), and the flights Remember has callers wait for. A store's promises are the
  locales \<open>lock_store\<close>, what a lock needs, and \<open>cache_store\<close>, which the store in memory interprets.
  A store's key is the SHA-256 of a kind and a name, a parameter (\<open>sha\<close>); so are the JSON encoder and
  decoder of a type (\<open>enc\<close>, \<open>dec\<close>).
\<close>

section \<open>The store in memory\<close>

record memory_value =
  mv_value :: string
  mv_expires :: instant

record cache_memory =
  ms_values :: "(string, memory_value) gomap"
  ms_now :: instant
  ms_sweep_at :: int

definition ms_empty :: cache_memory where
  "ms_empty = \<lparr>ms_values = [], ms_now = zero_time, ms_sweep_at = 0\<rparr>"

definition ms_saw :: "instant \<Rightarrow> cache_memory \<Rightarrow> cache_memory" where
  "ms_saw now m = (if ms_now m < now then m\<lparr>ms_now := now\<rparr> else m)"

definition ms_sweep :: "cache_memory \<Rightarrow> cache_memory" where
  "ms_sweep m =
     (if int (length (ms_values m)) < max (ms_sweep_at m) 1024 then m
      else let vs = filter (\<lambda>(_, v). ms_now m < mv_expires v) (ms_values m)
           in m\<lparr>ms_values := vs, ms_sweep_at := 2 * int (length vs)\<rparr>)"

definition ms_set :: "string \<Rightarrow> string \<Rightarrow> instant \<Rightarrow> cache_memory \<Rightarrow> cache_memory" where
  "ms_set key v expires m =
     ms_sweep (m\<lparr>ms_values := put key \<lparr>mv_value = v, mv_expires = expires\<rparr> (ms_values m)\<rparr>)"

definition ms_get :: "string \<Rightarrow> instant \<Rightarrow> cache_memory \<Rightarrow> string option \<times> cache_memory" where
  "ms_get key now m =
     (let m1 = ms_saw now m
      in (case lookup (ms_values m1) key of
            None \<Rightarrow> None
          | Some v \<Rightarrow> if \<not> now < mv_expires v then None else Some (mv_value v), m1))"

definition ms_add :: "string \<Rightarrow> string \<Rightarrow> instant \<Rightarrow> instant \<Rightarrow> cache_memory \<Rightarrow> bool \<times> cache_memory" where
  "ms_add key v expires now m =
     (let m1 = ms_saw now m
      in if (case lookup (ms_values m1) key of None \<Rightarrow> False | Some v \<Rightarrow> now < mv_expires v)
         then (False, m1) else (True, ms_set key v expires m1))"

definition ms_delete :: "string \<Rightarrow> cache_memory \<Rightarrow> cache_memory" where
  "ms_delete key m = m\<lparr>ms_values := del key (ms_values m)\<rparr>"

definition ms_delete_if :: "string \<Rightarrow> string \<Rightarrow> cache_memory \<Rightarrow> bool \<times> cache_memory" where
  "ms_delete_if key v m =
     (if (case lookup (ms_values m) key of None \<Rightarrow> True | Some w \<Rightarrow> mv_value w \<noteq> v)
      then (False, m) else (True, m\<lparr>ms_values := del key (ms_values m)\<rparr>))"

section \<open>What a cache needs of a store\<close>

text \<open>
  The Store interface: every method may fail. \<open>Get\<close>'s value and its ok are an option.
\<close>

record 's cache_ops =
  co_get :: "string \<Rightarrow> instant \<Rightarrow> 's \<Rightarrow> (string + string option) \<times> 's"
  co_set :: "string \<Rightarrow> string \<Rightarrow> instant \<Rightarrow> 's \<Rightarrow> string option \<times> 's"
  co_add :: "string \<Rightarrow> string \<Rightarrow> instant \<Rightarrow> instant \<Rightarrow> 's \<Rightarrow> (string + bool) \<times> 's"
  co_delete :: "string \<Rightarrow> 's \<Rightarrow> string option \<times> 's"
  co_delete_if :: "string \<Rightarrow> string \<Rightarrow> 's \<Rightarrow> (string + bool) \<times> 's"

definition cache_memory_ops :: "cache_memory cache_ops" where
  "cache_memory_ops =
     \<lparr>co_get = (\<lambda>k now m. apfst Inr (ms_get k now m)),
      co_set = (\<lambda>k v e m. (None, ms_set k v e m)),
      co_add = (\<lambda>k v e now m. apfst Inr (ms_add k v e now m)),
      co_delete = (\<lambda>k m. (None, ms_delete k m)),
      co_delete_if = (\<lambda>k v m. apfst Inr (ms_delete_if k v m))\<rparr>"

lemma cache_memory_ops_simps [simp]:
  "co_get cache_memory_ops k now m = apfst Inr (ms_get k now m)"
  "co_set cache_memory_ops k v e m = (None, ms_set k v e m)"
  "co_add cache_memory_ops k v e now m = apfst Inr (ms_add k v e now m)"
  "co_delete cache_memory_ops k m = (None, ms_delete k m)"
  "co_delete_if cache_memory_ops k v m = apfst Inr (ms_delete_if k v m)"
  by (simp_all add: cache_memory_ops_def)

text \<open>
  \<open>view s k t\<close> is the value a Get of the key at the time finds, and \<open>seen s\<close> the latest time the
  store was given: the promises are of times no earlier. After an error the store may be as it was or
  as the call made it, so they say nothing of a call that failed.
\<close>

locale lock_store =
  fixes ops :: "'s cache_ops"
    and view :: "'s \<Rightarrow> string \<Rightarrow> instant \<Rightarrow> string option"
    and seen :: "'s \<Rightarrow> instant"
    and ok :: "'s \<Rightarrow> bool"
  assumes view_lasts: "ok s \<Longrightarrow> seen s \<le> t \<Longrightarrow> t \<le> t' \<Longrightarrow> view s k t' = Some v \<Longrightarrow> view s k t = Some v"
    and add_taken: "ok s \<Longrightarrow> seen s \<le> now \<Longrightarrow> view s k now = Some w \<Longrightarrow>
      co_add ops k v e now s = (Inr b, s') \<Longrightarrow>
      \<not> b \<and> ok s' \<and> seen s' = now \<and> (\<forall>k t. now \<le> t \<longrightarrow> view s' k t = view s k t)"
    and add_free: "ok s \<Longrightarrow> seen s \<le> now \<Longrightarrow> view s k now = None \<Longrightarrow>
      co_add ops k v e now s = (Inr b, s') \<Longrightarrow>
      b \<and> ok s' \<and> seen s' = now \<and> (\<forall>k' t. now \<le> t \<longrightarrow>
        view s' k' t = (if k' = k then if t < e then Some v else None else view s k' t))"
    and delete_if_other: "ok s \<Longrightarrow> seen s \<le> t \<Longrightarrow> view s k t = Some w \<Longrightarrow> w \<noteq> v \<Longrightarrow>
      co_delete_if ops k v s = (Inr b, s') \<Longrightarrow> \<not> b \<and> s' = s"
    and delete_if_own: "ok s \<Longrightarrow> seen s \<le> t \<Longrightarrow> view s k t = Some v \<Longrightarrow>
      co_delete_if ops k v s = (Inr b, s') \<Longrightarrow>
      b \<and> ok s' \<and> seen s' = seen s \<and> (\<forall>t. view s' k t = None)"
    and delete_if_keeps: "ok s \<Longrightarrow> co_delete_if ops k v s = (Inr b, s') \<Longrightarrow>
      ok s' \<and> seen s' = seen s \<and> (k' \<noteq> k \<longrightarrow> view s' k' t = view s k' t)"

locale cache_store = lock_store ops view seen ok
  for ops :: "'s cache_ops" and view seen ok +
  assumes get_view: "ok s \<Longrightarrow> seen s \<le> now \<Longrightarrow> co_get ops k now s = (Inr r, s') \<Longrightarrow>
      r = view s k now \<and> ok s' \<and> seen s' = now \<and> (\<forall>k t. now \<le> t \<longrightarrow> view s' k t = view s k t)"
    and set_view: "ok s \<Longrightarrow> co_set ops k v e s = (None, s') \<Longrightarrow>
      ok s' \<and> seen s' = seen s \<and> (\<forall>k' t. seen s \<le> t \<longrightarrow>
        view s' k' t = (if k' = k then if t < e then Some v else None else view s k' t))"
    and delete_view: "ok s \<Longrightarrow> co_delete ops k s = (None, s') \<Longrightarrow>
      ok s' \<and> seen s' = seen s \<and> (\<forall>k' t. view s' k' t = (if k' = k then None else view s k' t))"

definition ms_view :: "cache_memory \<Rightarrow> string \<Rightarrow> instant \<Rightarrow> string option" where
  "ms_view m k t =
     (case lookup (ms_values m) k of
        None \<Rightarrow> None | Some v \<Rightarrow> if t < mv_expires v then Some (mv_value v) else None)"

definition ms_ok :: "cache_memory \<Rightarrow> bool" where
  "ms_ok m = gomap_ok (ms_values m)"

lemma ms_saw_simps [simp]:
  "ms_values (ms_saw now m) = ms_values m" "ms_ok (ms_saw now m) = ms_ok m"
  "ms_view (ms_saw now m) = ms_view m" "ms_now m \<le> now \<Longrightarrow> ms_now (ms_saw now m) = now"
  by (auto simp: ms_saw_def ms_ok_def ms_view_def fun_eq_iff)

lemma ms_sweep_keeps [store_simps]:
  "ms_ok m \<Longrightarrow> ms_ok (ms_sweep m)" "ms_now (ms_sweep m) = ms_now m"
  "ms_ok m \<Longrightarrow> ms_now m \<le> t \<Longrightarrow> ms_view (ms_sweep m) k t = ms_view m k t"
  by (auto simp: ms_sweep_def ms_ok_def ms_view_def Let_def lookup_filter split: option.splits)

lemma ms_set_keeps [store_simps]:
  assumes "ms_ok m"
  shows "ms_ok (ms_set k v e m)" "ms_now (ms_set k v e m) = ms_now m"
    "ms_now m \<le> t \<Longrightarrow> ms_view (ms_set k v e m) k' t =
       (if k' = k then if t < e then Some v else None else ms_view m k' t)"
proof -
  let ?m = "m\<lparr>ms_values := put k \<lparr>mv_value = v, mv_expires = e\<rparr> (ms_values m)\<rparr>"
  have ok: "ms_ok ?m" using assms by (simp add: ms_ok_def)
  then show "ms_ok (ms_set k v e m)" "ms_now (ms_set k v e m) = ms_now m"
    by (simp_all add: ms_set_def ms_sweep_keeps)
  show "ms_view (ms_set k v e m) k' t = (if k' = k then if t < e then Some v else None else ms_view m k' t)"
    if "ms_now m \<le> t"
    using that ms_sweep_keeps(3) [OF ok, of t k'] by (simp add: ms_set_def ms_view_def)
qed

interpretation mem_cache: cache_store cache_memory_ops ms_view ms_now ms_ok
proof unfold_locales
  fix m k now and w v :: string and e b m'
  assume m: "ms_ok m" "ms_now m \<le> now" and a: "co_add cache_memory_ops k v e now m = (Inr b, m')"
  show "ms_view m k now = Some w \<Longrightarrow>
      \<not> b \<and> ms_ok m' \<and> ms_now m' = now \<and> (\<forall>k t. now \<le> t \<longrightarrow> ms_view m' k t = ms_view m k t)"
    using m a by (auto simp: ms_add_def ms_view_def Let_def split: option.splits if_splits)
  show "ms_view m k now = None \<Longrightarrow>
      b \<and> ms_ok m' \<and> ms_now m' = now \<and> (\<forall>k' t. now \<le> t \<longrightarrow>
        ms_view m' k' t = (if k' = k then if t < e then Some v else None else ms_view m k' t))"
    using m a ms_set_keeps [where m = "ms_saw now m"]
    by (auto simp: ms_add_def ms_view_def [of m k] Let_def split: option.splits if_splits)
next
  fix m k v e m'
  assume "ms_ok m" "co_set cache_memory_ops k v e m = (None, m')"
  then show "ms_ok m' \<and> ms_now m' = ms_now m \<and> (\<forall>k' t. ms_now m \<le> t \<longrightarrow>
      ms_view m' k' t = (if k' = k then if t < e then Some v else None else ms_view m k' t))"
    by (auto simp: ms_set_keeps)
qed (auto simp: ms_view_def ms_get_def ms_delete_def ms_delete_if_def ms_ok_def Let_def
    split: option.splits if_splits)

section \<open>The cache\<close>

text \<open>
  \<open>hash\<close>: what a store keeps a name under. A ttl of 0 or less panics, which is None.
\<close>

datatype cache_error = Panic_ttl | Not_json string | Store_error string | Worked_out_error string | Ctx_done

definition cache_preimage :: "string \<Rightarrow> string \<Rightarrow> string" where
  "cache_preimage kind name = kind @ CHR 0x00 # name"

definition cache_hash :: "(string \<Rightarrow> string) \<Rightarrow> string \<Rightarrow> string \<Rightarrow> string" where
  "cache_hash sha kind name = sha (cache_preimage kind name)"

definition cache_set ::
  "'s cache_ops \<Rightarrow> (string \<Rightarrow> string) \<Rightarrow> ('v \<Rightarrow> string + string) \<Rightarrow> string \<Rightarrow> 'v \<Rightarrow> duration \<Rightarrow> instant \<Rightarrow>
   's \<Rightarrow> cache_error option \<times> 's" where
  "cache_set ops sha enc key v ttl now s =
     (if ttl \<le> 0 then (Some Panic_ttl, s)
      else case enc v of
             Inl e \<Rightarrow> (Some (Not_json e), s)
           | Inr b \<Rightarrow> apfst (map_option Store_error)
               (co_set ops (cache_hash sha ''value'' key) b (now + ttl) s))"

definition cache_get ::
  "'s cache_ops \<Rightarrow> (string \<Rightarrow> string) \<Rightarrow> (string \<Rightarrow> 'v option) \<Rightarrow> string \<Rightarrow> instant \<Rightarrow> 's \<Rightarrow>
   (cache_error + 'v option) \<times> 's" where
  "cache_get ops sha dec key now s =
     (case co_get ops (cache_hash sha ''value'' key) now s of
        (Inl e, s') \<Rightarrow> (Inl (Store_error e), s')
      | (Inr None, s') \<Rightarrow> (Inr None, s')
      | (Inr (Some b), s') \<Rightarrow> (Inr (dec b), s'))"

definition cache_delete :: "'s cache_ops \<Rightarrow> (string \<Rightarrow> string) \<Rightarrow> string \<Rightarrow> 's \<Rightarrow> cache_error option \<times> 's" where
  "cache_delete ops sha key s =
     apfst (map_option Store_error) (co_delete ops (cache_hash sha ''value'' key) s)"

text \<open>
  \<open>remember\<close>, which the callers of one flight share: the value, or the error, and the JSON it gives
  the flight. The clock is read before the Get and after \<open>fn\<close>; \<open>fn\<close> may change the store.
\<close>

definition remember ::
  "'s cache_ops \<Rightarrow> (string \<Rightarrow> string) \<Rightarrow> ('v \<Rightarrow> string + string) \<Rightarrow> (string \<Rightarrow> 'v option) \<Rightarrow> string \<Rightarrow>
   duration \<Rightarrow> ('s \<Rightarrow> (string + 'v) \<times> 's) \<Rightarrow> instant \<Rightarrow> instant \<Rightarrow> 's \<Rightarrow>
   (cache_error + 'v) \<times> string option \<times> 's" where
  "remember ops sha enc dec key ttl fn before after s =
     (let h = cache_hash sha ''value'' key; (r, s1) = co_get ops h before s
      in case (case r of Inr (Some b) \<Rightarrow> map_option (\<lambda>v. (b, v)) (dec b) | _ \<Rightarrow> None) of
           Some (b, v) \<Rightarrow> (Inr v, Some b, s1)
         | None \<Rightarrow>
             (case fn s1 of
                (Inl e, s2) \<Rightarrow> (Inl (Worked_out_error e), None, s2)
              | (Inr v, s2) \<Rightarrow>
                  (case enc v of
                     Inl e \<Rightarrow> (Inl (Not_json e), None, s2)
                   | Inr b \<Rightarrow> let (failed, s3) = co_set ops h b (after + ttl) s2 in (Inr v, Some b, s3))))"

section \<open>Locks\<close>

record lock =
  l_key :: string
  l_ttl :: duration
  l_owner :: string

text \<open>\<open>Lock\<close>: \<open>owner\<close> is the 16 bytes drawn for it.\<close>

definition cache_lock :: "(string \<Rightarrow> string) \<Rightarrow> string \<Rightarrow> string \<Rightarrow> duration \<Rightarrow> lock option" where
  "cache_lock sha owner name ttl =
     (if ttl \<le> 0 then None else Some \<lparr>l_key = cache_hash sha ''lock'' name, l_ttl = ttl, l_owner = owner\<rparr>)"

definition lock_try :: "'s cache_ops \<Rightarrow> lock \<Rightarrow> instant \<Rightarrow> 's \<Rightarrow> (string + bool) \<times> 's" where
  "lock_try ops l now s = co_add ops (l_key l) (l_owner l) (now + l_ttl l) now s"

definition lock_release :: "'s cache_ops \<Rightarrow> lock \<Rightarrow> 's \<Rightarrow> string option \<times> 's" where
  "lock_release ops l s =
     (case co_delete_if ops (l_key l) (l_owner l) s of (Inl e, s') \<Rightarrow> (Some e, s') | (Inr b, s') \<Rightarrow> (None, s'))"

text \<open>
  \<open>Wait\<close> asks until the lock is taken, the store fails or the context is done: the world steps from one
  try to the next by what others do meanwhile (\<open>others\<close>), which gives the time of the next try, or none
  once the context is done.
\<close>

partial_function (option) lock_wait ::
  "'s cache_ops \<Rightarrow> lock \<Rightarrow> ('s \<Rightarrow> instant option \<times> 's) \<Rightarrow> instant \<Rightarrow> 's \<Rightarrow> (cache_error option \<times> 's) option" where
  "lock_wait ops l others now s =
     (case lock_try ops l now s of
        (Inl e, s1) \<Rightarrow> Some (Some (Store_error e), s1)
      | (Inr taken, s1) \<Rightarrow>
          if taken then Some (None, s1)
          else (case others s1 of
                  (None, s2) \<Rightarrow> Some (Some Ctx_done, s2)
                | (Some t, s2) \<Rightarrow> lock_wait ops l others t s2))"

text \<open>The calls of a cache's users, and a sequence of them, which ends at the first store error.\<close>

datatype cache_op =
  Try_lock lock instant | Release_lock lock | Set_key string string instant | Get_key string instant | Delete_key string

fun cache_step :: "'s cache_ops \<Rightarrow> cache_op \<Rightarrow> 's \<Rightarrow> 's option" where
  "cache_step ops (Try_lock l now) s = (case lock_try ops l now s of (Inr b, s') \<Rightarrow> Some s' | _ \<Rightarrow> None)"
| "cache_step ops (Release_lock l) s = (case lock_release ops l s of (None, s') \<Rightarrow> Some s' | _ \<Rightarrow> None)"
| "cache_step ops (Set_key k v e) s = (case co_set ops k v e s of (None, s') \<Rightarrow> Some s' | _ \<Rightarrow> None)"
| "cache_step ops (Get_key k now) s = (case co_get ops k now s of (Inr r, s') \<Rightarrow> Some s' | _ \<Rightarrow> None)"
| "cache_step ops (Delete_key k) s = (case co_delete ops k s of (None, s') \<Rightarrow> Some s' | _ \<Rightarrow> None)"

fun cache_steps :: "'s cache_ops \<Rightarrow> cache_op list \<Rightarrow> 's \<Rightarrow> 's option" where
  "cache_steps ops [] s = Some s"
| "cache_steps ops (op # rest) s = (case cache_step ops op s of None \<Rightarrow> None | Some s' \<Rightarrow> cache_steps ops rest s')"

fun step_time :: "cache_op \<Rightarrow> instant list" where
  "step_time (Try_lock l now) = [now]"
| "step_time (Get_key k now) = [now]"
| "step_time _ = []"

text \<open>A call that is not the holder's own, and that sets or deletes no value under the lock's key.\<close>

fun not_the_holders :: "lock \<Rightarrow> cache_op \<Rightarrow> bool" where
  "not_the_holders l (Release_lock l') = (l_owner l' \<noteq> l_owner l)"
| "not_the_holders l (Set_key k v e) = (k \<noteq> l_key l)"
| "not_the_holders l (Delete_key k) = (k \<noteq> l_key l)"
| "not_the_holders l _ = True"

fun times_in_order :: "instant \<Rightarrow> cache_op list \<Rightarrow> instant \<Rightarrow> bool" where
  "times_in_order from [] till = (from < till)"
| "times_in_order from (op # rest) till =
     (case step_time op of [] \<Rightarrow> times_in_order from rest till
      | t # _ \<Rightarrow> from \<le> t \<and> times_in_order t rest till)"

context cache_store
begin

definition held_by :: "lock \<Rightarrow> instant \<Rightarrow> 's \<Rightarrow> bool" where
  "held_by l till s \<longleftrightarrow> ok s \<and> (\<forall>t. seen s \<le> t \<longrightarrow> t < till \<longrightarrow> view s (l_key l) t = Some (l_owner l))"

lemma try_takes:
  assumes "ok s" "seen s \<le> now" "lock_try ops l now s = (Inr True, s')"
  shows "held_by l (now + l_ttl l) s' \<and> seen s' = now"
proof (cases "view s (l_key l) now")
  case None
  with add_free [OF assms(1,2)] assms(3) show ?thesis by (auto simp: lock_try_def held_by_def)
next
  case (Some w)
  from add_taken [OF assms(1,2) this] assms(3) show ?thesis unfolding lock_try_def by blast
qed

lemma held_refuses:
  assumes "held_by l till s" "seen s \<le> now" "now < till" "l_key l' = l_key l"
    "lock_try ops l' now s = (Inr b, s')"
  shows "\<not> b"
proof -
  have "view s (l_key l') now = Some (l_owner l)" "ok s"
    using assms(1-4) by (simp_all add: held_by_def)
  from add_taken [OF this(2) assms(2) this(1)] assms(5) show ?thesis unfolding lock_try_def by blast
qed

lemma held_step:
  assumes h: "held_by l till s" and o: "not_the_holders l op" and st: "cache_step ops op s = Some s'"
    and t: "\<forall>t \<in> set (step_time op). seen s \<le> t \<and> t < till" and live: "seen s < till"
  shows "held_by l till s' \<and> seen s' = (case step_time op of [] \<Rightarrow> seen s | t # _ \<Rightarrow> t)"
proof -
  have ok: "ok s" and v: "\<And>t. seen s \<le> t \<Longrightarrow> t < till \<Longrightarrow> view s (l_key l) t = Some (l_owner l)"
    using h by (simp_all add: held_by_def)
  show ?thesis
  proof (cases op)
    case (Try_lock l' now)
    with st obtain b where a: "co_add ops (l_key l') (l_owner l') (now + l_ttl l') now s = (Inr b, s')"
      by (auto simp: lock_try_def split: prod.splits sum.splits)
    have now: "seen s \<le> now" "now < till" using t Try_lock by auto
    show ?thesis
    proof (cases "view s (l_key l') now")
      case None
      with v [OF now] have "l_key l' \<noteq> l_key l" by auto
      with add_free [OF ok now(1) None a] now v Try_lock show ?thesis by (auto simp: held_by_def)
    next
      case (Some w)
      with add_taken [OF ok now(1) Some a] now v Try_lock show ?thesis by (auto simp: held_by_def)
    qed
  next
    case (Release_lock l')
    with st obtain b where d: "co_delete_if ops (l_key l') (l_owner l') s = (Inr b, s')"
      by (auto simp: lock_release_def split: prod.splits sum.splits option.splits)
    show ?thesis
    proof (cases "l_key l' = l_key l")
      case True
      have "l_owner l \<noteq> l_owner l'" using o Release_lock by auto
      with delete_if_other [OF ok order_refl v [OF order_refl live]] d True have "s' = s" by metis
      with h Release_lock show ?thesis by simp
    next
      case False
      with delete_if_keeps [OF ok d, of "l_key l"] v Release_lock show ?thesis by (auto simp: held_by_def)
    qed
  next
    case (Set_key k x e)
    with st have c: "co_set ops k x e s = (None, s')" by (auto split: prod.splits option.splits)
    with set_view [OF ok c] v o Set_key show ?thesis by (auto simp: held_by_def)
  next
    case (Get_key k now)
    with st obtain r where c: "co_get ops k now s = (Inr r, s')" by (auto split: prod.splits sum.splits)
    have now: "seen s \<le> now" using t Get_key by auto
    with get_view [OF ok now c] v Get_key show ?thesis by (auto simp: held_by_def)
  next
    case (Delete_key k)
    with st have c: "co_delete ops k s = (None, s')" by (auto split: prod.splits option.splits)
    with delete_view [OF ok c] v o Delete_key show ?thesis by (auto simp: held_by_def)
  qed
qed

lemma times_in_order_le: "times_in_order from xs till \<Longrightarrow> from < till"
  by (induction xs arbitrary: "from") (force split: list.splits)+

lemma held_steps:
  assumes "held_by l till s" "list_all (not_the_holders l) xs" "cache_steps ops xs s = Some s'"
    "times_in_order (seen s) xs till"
  shows "held_by l till s' \<and> seen s' < till"
  using assms
proof (induction xs arbitrary: s)
  case (Cons op rest)
  then obtain s1 where s1: "cache_step ops op s = Some s1" "cache_steps ops rest s1 = Some s'"
    by (auto split: option.splits)
  have live: "seen s < till" using times_in_order_le [OF Cons.prems(4)] .
  have t: "\<forall>t \<in> set (step_time op). seen s \<le> t \<and> t < till"
    using Cons.prems(4) by (cases op) (auto dest: times_in_order_le)
  have o: "not_the_holders l op" using Cons.prems(2) by simp
  have n: "times_in_order (seen s1) rest till"
    using held_step [OF Cons.prems(1) o s1(1) t live] Cons.prems(4) by (auto split: list.splits)
  show ?case
    using Cons.IH [OF _ _ s1(2) n] held_step [OF Cons.prems(1) o s1(1) t live] Cons.prems(2) by simp
qed simp

lemma release_frees:
  assumes "held_by l till s" "seen s < till" "lock_release ops l s = (None, s')" "l_key l' = l_key l"
    "seen s \<le> now" "lock_try ops l' now s' = (Inr b, s'')"
  shows b
proof -
  obtain b' where d: "co_delete_if ops (l_key l) (l_owner l) s = (Inr b', s')"
    using assms(3) by (auto simp: lock_release_def split: prod.splits sum.splits)
  have "view s (l_key l) (seen s) = Some (l_owner l)" "ok s" using assms(1,2) by (simp_all add: held_by_def)
  from delete_if_own [OF this(2) order_refl this(1) d] add_free [of s' now "l_key l'"] assms(4-6)
  show ?thesis by (auto simp: lock_try_def)
qed

end


lemma cache_hash_apart:
  assumes "CHR 0x00 \<notin> set kind" "CHR 0x00 \<notin> set kind'" "kind \<noteq> kind' \<or> name \<noteq> name'"
    and "sha (cache_preimage kind name) = sha (cache_preimage kind' name') \<Longrightarrow>
           cache_preimage kind name = cache_preimage kind' name'"
  shows "cache_hash sha kind name \<noteq> cache_hash sha kind' name'"
proof
  assume "cache_hash sha kind name = cache_hash sha kind' name'"
  then have "cut (CHR 0x00) (cache_preimage kind name) = cut (CHR 0x00) (cache_preimage kind' name')"
    using assms(4) by (simp add: cache_hash_def)
  with assms(1-3) show False by (auto simp: cache_preimage_def cut_found)
qed

text \<open>
  C16. A lock has one holder: once one of its holders' Try has taken it, no other Try of it is true
  before the time it was taken for is up, whatever values and locks are tried, released, set, read and
  dropped meanwhile, a late Release by an earlier holder included; and the holder's own Release frees
  it, so that the next Try is true.
\<close>

theorem a_lock_has_one_holder:
  assumes "ms_ok s" "ms_now s \<le> now" "lock_try cache_memory_ops l now s = (Inr True, s1)"
    and "list_all (not_the_holders l) xs" "cache_steps cache_memory_ops xs s1 = Some s2"
    and "times_in_order now xs (now + l_ttl l)"
    and "l_key l' = l_key l" "ms_now s2 \<le> at"
  shows "(at < now + l_ttl l \<longrightarrow> fst (lock_try cache_memory_ops l' at s2) = Inr False) \<and>
    fst (lock_try cache_memory_ops l' at (snd (lock_release cache_memory_ops l s2))) = Inr True"
proof -
  note t = mem_cache.try_takes [OF assms(1-3)]
  have h: "mem_cache.held_by l (now + l_ttl l) s2" "ms_now s2 < now + l_ttl l"
    using mem_cache.held_steps [OF _ assms(4,5)] t assms(6) by simp_all
  obtain b s3 where b: "lock_try cache_memory_ops l' at s2 = (Inr b, s3)"
    by (cases "ms_add (l_key l') (l_owner l') (at + l_ttl l') at s2") (simp add: lock_try_def)
  obtain s4 where r: "lock_release cache_memory_ops l s2 = (None, s4)"
    by (cases "ms_delete_if (l_key l) (l_owner l) s2") (simp add: lock_release_def)
  obtain b' s5 where b': "lock_try cache_memory_ops l' at s4 = (Inr b', s5)"
    by (cases "ms_add (l_key l') (l_owner l') (at + l_ttl l') at s4") (simp add: lock_try_def)
  have "at < now + l_ttl l \<Longrightarrow> \<not> b"
    using mem_cache.held_refuses [OF h(1) assms(8) _ assms(7) b] by simp
  moreover have b' using mem_cache.release_frees [OF h r assms(7,8) b'] .
  ultimately show ?thesis using b r b' by simp
qed

theorem a_lock_has_one_holder_witness:
  "\<exists>s1 s2. lock_try cache_memory_ops \<lparr>l_key = ''k'', l_ttl = 10, l_owner = ''a''\<rparr> 5 ms_empty = (Inr True, s1) \<and>
     cache_steps cache_memory_ops [Try_lock \<lparr>l_key = ''k'', l_ttl = 10, l_owner = ''b''\<rparr> 6, Set_key ''v'' ''x'' 9,
       Release_lock \<lparr>l_key = ''k'', l_ttl = 10, l_owner = ''b''\<rparr>] s1 = Some s2 \<and>
     fst (lock_try cache_memory_ops \<lparr>l_key = ''k'', l_ttl = 10, l_owner = ''b''\<rparr> 14 s2) = Inr False"
proof -
  let ?a = "\<lparr>l_key = ''k'', l_ttl = 10, l_owner = ''a''\<rparr>"
  let ?b = "\<lparr>l_key = ''k'', l_ttl = 10, l_owner = ''b''\<rparr>"
  let ?xs = "[Try_lock ?b 6, Set_key ''v'' ''x'' 9, Release_lock ?b]"
  obtain s1 where s1: "lock_try cache_memory_ops ?a 5 ms_empty = (Inr True, s1)"
    and "s1 = \<lparr>ms_values = [(''k'', \<lparr>mv_value = ''a'', mv_expires = 15\<rparr>)], ms_now = 5, ms_sweep_at = 0\<rparr>"
    by (simp add: lock_try_def ms_add_def ms_set_def ms_sweep_def ms_saw_def ms_empty_def zero_time_def)
  then obtain s2 where s2: "cache_steps cache_memory_ops ?xs s1 = Some s2" "ms_now s2 = 6"
    by (simp add: lock_try_def lock_release_def ms_add_def ms_set_def ms_sweep_def ms_saw_def
      ms_delete_if_def)
  have "ms_ok ms_empty" "ms_now ms_empty \<le> 5" by (simp_all add: ms_ok_def ms_empty_def zero_time_def)
  from a_lock_has_one_holder [OF this s1 _ s2(1), of ?b 14] s1 s2 show ?thesis by simp
qed

text \<open>
  What Remember works out it keeps, and gives again: with no value kept, Remember returns what fn
  returns, and from then until its time to live, which starts once fn is done, a Get returns it and a
  Remember returns it too, whatever its own fn would have, where the value comes back from its JSON.
\<close>

theorem remember_works_it_out_once:
  assumes "ms_ok s" "ms_now s \<le> before" "fst (cache_get cache_memory_ops sha dec key before s) = Inr None"
    and "fn (snd (ms_get (cache_hash sha ''value'' key) before s)) = (Inr v, s2)" "ms_ok s2" "ms_now s2 \<le> after"
    and "enc v = Inr b" "dec b = Some v"
    and "remember cache_memory_ops sha enc dec key ttl fn before after s = (r, given, s3)"
    and "after \<le> t" "t < after + ttl"
  shows "r = Inr v \<and> given = Some b \<and> fst (cache_get cache_memory_ops sha dec key t s3) = Inr (Some v) \<and>
    fst (remember cache_memory_ops sha enc dec key ttl' fn' t after' s3) = Inr v"
proof -
  let ?h = "cache_hash sha ''value'' key"
  obtain g s1 where g: "ms_get ?h before s = (g, s1)" by fastforce
  have none: "g = None \<or> (\<exists>b. g = Some b \<and> dec b = None)"
    using assms(3) g by (cases g) (simp_all add: cache_get_def)
  have "remember cache_memory_ops sha enc dec key ttl fn before after s = (Inr v, Some b, ms_set ?h b (after + ttl) s2)"
    using none assms(4,7) g by (auto simp: remember_def Let_def)
  then have r: "r = Inr v" "given = Some b" "s3 = ms_set ?h b (after + ttl) s2"
    using assms(9) by simp_all
  have ok: "ms_ok s3" "ms_now s3 \<le> t" using assms(5,6,10) r(3) by (simp_all add: ms_set_keeps)
  have "ms_view s3 ?h t = Some b" using assms(5,6,10,11) r(3) by (simp add: ms_set_keeps)
  then obtain s4 where "ms_get ?h t s3 = (Some b, s4)"
    by (auto simp: ms_get_def ms_view_def Let_def split: option.splits if_splits)
  then show ?thesis
    using r(1,2) assms(8) by (simp add: cache_get_def remember_def Let_def)
qed

theorem remember_works_it_out_once_witness:
  "fst (cache_get cache_memory_ops (\<lambda>x. x) (\<lambda>b. Some (length b)) ''n'' 9
     (snd (snd (remember cache_memory_ops (\<lambda>x. x) (\<lambda>n. Inr (replicate n CHR ''1'')) (\<lambda>b. Some (length b)) ''n'' 5
        (\<lambda>s. (Inr 3, s)) 1 6 ms_empty)))) = Inr (Some 3)"
proof -
  let ?h = "cache_hash (\<lambda>x. x) ''value'' ''n''"
  have ok: "ms_ok ms_empty" "ms_now ms_empty \<le> 1" by (simp_all add: ms_ok_def ms_empty_def zero_time_def)
  have get: "ms_get ?h 1 ms_empty = (None, ms_saw 1 ms_empty)" by (simp add: ms_get_def ms_empty_def ms_saw_def)
  obtain r given s3 where r: "remember cache_memory_ops (\<lambda>x. x) (\<lambda>n. Inr (replicate n CHR ''1''))
      (\<lambda>b. Some (length b)) ''n'' 5 (\<lambda>s. (Inr 3, s)) 1 6 ms_empty = (r, given, s3)" by (metis prod_cases3)
  have "ms_now (ms_saw 1 ms_empty) \<le> 6" by (simp add: ms_saw_def ms_empty_def zero_time_def)
  then have "fst (cache_get cache_memory_ops (\<lambda>x. x) (\<lambda>b. Some (length b)) ''n'' 9 s3) = Inr (Some 3)"
    using remember_works_it_out_once [OF ok _ _ _ _ _ _ r, where t = 9] ok
    by (simp add: get cache_get_def)
  with r show ?thesis by simp
qed

end
