(* ===== verification/Cache_Flights.thy ===== *)
theory Cache_Flights
  imports Cache
begin

text \<open>
  The flights of cache.Remember (cache/cache.go): the callers that want a key while another works it
  out wait for that one's value. A flight is shared by pointer, so it lives in a heap, found by the
  cache's map while it is worked out, and by its waiters after. The steps interleave as the mutex and
  the channel let them: entering, which is one critical section, the owner's end, and a waiter's waking
  up or leaving.
\<close>

text \<open>\<open>fl_done\<close>: the channel is closed.\<close>

record flight =
  fl_done :: bool
  fl_value :: "string option"

datatype caller = Asking string | Waiting nat string | Working "nat option" string | Gone_with "string option"

record flights =
  fs_open :: "(string, nat) gomap"
  fs_heap :: "flight list"
  fs_callers :: "caller list"

definition no_flights :: flights where
  "no_flights = \<lparr>fs_open = [], fs_heap = [], fs_callers = []\<rparr>"

text \<open>Entering Remember: wait on the key's flight, or start one.\<close>

definition enter :: "nat \<Rightarrow> string \<Rightarrow> flights \<Rightarrow> flights" where
  "enter i k s =
     (case lookup (fs_open s) k of
        Some f \<Rightarrow> s\<lparr>fs_callers := (fs_callers s)[i := Waiting f k]\<rparr>
      | None \<Rightarrow>
          let f = length (fs_heap s)
          in s\<lparr>fs_open := put k f (fs_open s), fs_heap := fs_heap s @ [\<lparr>fl_done = False, fl_value = None\<rparr>],
               fs_callers := (fs_callers s)[i := Working (Some f) k]\<rparr>)"

text \<open>
  The owner's end: \<open>remember\<close> gave the flight its JSON (\<open>give\<close>), or failed or panicked and gave it
  none, and the deferred function takes the flight from the map and lets the waiters go. A caller with
  no flight of its own has none to give.
\<close>

definition land :: "nat \<Rightarrow> string \<Rightarrow> nat option \<Rightarrow> string option \<Rightarrow> flights \<Rightarrow> flights" where
  "land i k own given s =
     (let s1 = s\<lparr>fs_callers := (fs_callers s)[i := Gone_with given]\<rparr>
      in case own of
           None \<Rightarrow> s1
         | Some f \<Rightarrow> s1\<lparr>fs_open := del k (fs_open s), fs_heap := (fs_heap s)[f := \<lparr>fl_done = True, fl_value = given\<rparr>]\<rparr>)"

text \<open>A waiter whose flight is done takes its value, where it is a T's, or works it out on its own.\<close>

definition wake :: "(string \<Rightarrow> bool) \<Rightarrow> nat \<Rightarrow> nat \<Rightarrow> string \<Rightarrow> flights \<Rightarrow> flights" where
  "wake decodes i f k s =
     s\<lparr>fs_callers := (fs_callers s)[i :=
        (case fl_value (fs_heap s ! f) of
           Some b \<Rightarrow> if decodes b then Gone_with (Some b) else Working None k
         | None \<Rightarrow> Working None k)]\<rparr>"

inductive remember_step :: "flights \<Rightarrow> flights \<Rightarrow> bool" where
  call: "remember_step s (s\<lparr>fs_callers := fs_callers s @ [Asking k]\<rparr>)"
| enters: "i < length (fs_callers s) \<Longrightarrow> fs_callers s ! i = Asking k \<Longrightarrow> remember_step s (enter i k s)"
| lands: "i < length (fs_callers s) \<Longrightarrow> fs_callers s ! i = Working own k \<Longrightarrow>
    remember_step s (land i k own given s)"
| wakes: "i < length (fs_callers s) \<Longrightarrow> fs_callers s ! i = Waiting f k \<Longrightarrow> fl_done (fs_heap s ! f) \<Longrightarrow>
    remember_step s (wake decodes i f k s)"
| leaves: "i < length (fs_callers s) \<Longrightarrow> fs_callers s ! i = Waiting f k \<Longrightarrow>
    remember_step s (s\<lparr>fs_callers := (fs_callers s)[i := Gone_with None]\<rparr>)"

inductive remember_reach :: "flights \<Rightarrow> bool" where
  start: "remember_reach no_flights"
| step: "remember_reach s \<Longrightarrow> remember_step s s' \<Longrightarrow> remember_reach s'"

definition caller_at :: "flights \<Rightarrow> nat \<Rightarrow> caller option" where
  "caller_at s i = (if i < length (fs_callers s) then Some (fs_callers s ! i) else None)"

definition flights_ok :: "flights \<Rightarrow> bool" where
  "flights_ok s \<longleftrightarrow>
     (\<forall>k f. lookup (fs_open s) k = Some f \<longrightarrow> f < length (fs_heap s) \<and> \<not> fl_done (fs_heap s ! f) \<and>
       (\<exists>i. caller_at s i = Some (Working (Some f) k))) \<and>
     (\<forall>i f k. caller_at s i = Some (Working (Some f) k) \<longrightarrow> lookup (fs_open s) k = Some f) \<and>
     (\<forall>i j f k k'. caller_at s i = Some (Working (Some f) k) \<longrightarrow>
        caller_at s j = Some (Working (Some f) k') \<longrightarrow> i = j) \<and>
     (\<forall>i f k. caller_at s i = Some (Waiting f k) \<longrightarrow>
        f < length (fs_heap s) \<and> (fl_done (fs_heap s ! f) \<or> lookup (fs_open s) k = Some f))"

lemma flights_okD:
  assumes "flights_ok s"
  shows "lookup (fs_open s) k = Some f \<Longrightarrow> f < length (fs_heap s)"
    "lookup (fs_open s) k = Some f \<Longrightarrow> \<not> fl_done (fs_heap s ! f)"
    "lookup (fs_open s) k = Some f \<Longrightarrow> \<exists>i. caller_at s i = Some (Working (Some f) k)"
    "caller_at s i = Some (Working (Some f) k) \<Longrightarrow> lookup (fs_open s) k = Some f"
    "caller_at s i = Some (Working (Some f) k) \<Longrightarrow> caller_at s j = Some (Working (Some f) k') \<Longrightarrow> i = j"
    "caller_at s i = Some (Waiting f k) \<Longrightarrow> f < length (fs_heap s)"
    "caller_at s i = Some (Waiting f k) \<Longrightarrow> fl_done (fs_heap s ! f) \<or> lookup (fs_open s) k = Some f"
  using assms unfolding flights_ok_def by blast+

lemma flights_okI:
  assumes "\<And>k f. lookup (fs_open s) k = Some f \<Longrightarrow> f < length (fs_heap s)"
    "\<And>k f. lookup (fs_open s) k = Some f \<Longrightarrow> \<not> fl_done (fs_heap s ! f)"
    "\<And>k f. lookup (fs_open s) k = Some f \<Longrightarrow> \<exists>i. caller_at s i = Some (Working (Some f) k)"
    "\<And>i f k. caller_at s i = Some (Working (Some f) k) \<Longrightarrow> lookup (fs_open s) k = Some f"
    "\<And>i j f k k'. caller_at s i = Some (Working (Some f) k) \<Longrightarrow>
       caller_at s j = Some (Working (Some f) k') \<Longrightarrow> i = j"
    "\<And>i f k. caller_at s i = Some (Waiting f k) \<Longrightarrow> f < length (fs_heap s)"
    "\<And>i f k. caller_at s i = Some (Waiting f k) \<Longrightarrow> fl_done (fs_heap s ! f) \<or> lookup (fs_open s) k = Some f"
  shows "flights_ok s"
  using assms unfolding flights_ok_def by blast

lemma caller_at_update [simp]:
  "caller_at s i = Some c0 \<Longrightarrow>
     caller_at (s\<lparr>fs_callers := (fs_callers s)[i := c]\<rparr>) n = (if n = i then Some c else caller_at s n)"
  by (auto simp: caller_at_def split: if_splits)

lemma caller_at_other [simp]:
  "caller_at (s\<lparr>fs_open := a\<rparr>) = caller_at s" "caller_at (s\<lparr>fs_heap := b\<rparr>) = caller_at s"
  by (auto simp: caller_at_def)

lemma caller_at_append [simp]:
  "caller_at (s\<lparr>fs_callers := fs_callers s @ [c]\<rparr>) n =
     (if n = length (fs_callers s) then Some c else caller_at s n)"
  by (auto simp: caller_at_def nth_append)

lemma caller_at_end [simp]: "caller_at s (length (fs_callers s)) = None"
  by (simp add: caller_at_def)

text \<open>A step that changes one caller, to or from no work of a flight's own.\<close>

lemma flights_ok_caller:
  assumes "flights_ok s" "caller_at s i = Some c0"
    and "\<And>f k. c0 \<noteq> Working (Some f) k" "\<And>f k. c \<noteq> Working (Some f) k"
    and "\<And>f k. c = Waiting f k \<Longrightarrow> f < length (fs_heap s) \<and> lookup (fs_open s) k = Some f"
  shows "flights_ok (s\<lparr>fs_callers := (fs_callers s)[i := c]\<rparr>)"
proof (rule flights_okI, goal_cases)
  case (3 k f)
  then obtain n where n: "caller_at s n = Some (Working (Some f) k)" using flights_okD(3) [OF assms(1)] by auto
  with assms(2) assms(3) [of f k] have "n \<noteq> i" by auto
  with n assms(2) show ?case by (intro exI [of _ n]) simp
next
  case (5 m n f k k')
  with assms(2,4) flights_okD(5) [OF assms(1)] show ?case by (auto split: if_splits)
qed (use assms flights_okD [OF assms(1)] in \<open>auto split: if_splits\<close>)

lemma enter_ok:
  assumes "flights_ok s" "caller_at s i = Some (Asking k)"
  shows "flights_ok (enter i k s)"
proof (cases "lookup (fs_open s) k")
  case (Some f)
  with assms flights_okD(1) [OF assms(1) Some] show ?thesis
    by (auto simp: enter_def intro: flights_ok_caller)
next
  case None
  note D = flights_okD [OF assms(1)]
  define s1 where "s1 = s\<lparr>fs_callers := (fs_callers s)[i := Working (Some (length (fs_heap s))) k]\<rparr>"
  let ?h = "fs_heap s @ [\<lparr>fl_done = False, fl_value = None\<rparr>]"
  have e: "enter i k s = s1\<lparr>fs_open := put k (length (fs_heap s)) (fs_open s), fs_heap := ?h\<rparr>"
    using None by (simp add: enter_def s1_def Let_def)
  have at: "caller_at s1 n = (if n = i then Some (Working (Some (length (fs_heap s))) k) else caller_at s n)" for n
    using assms(2) by (simp add: s1_def)
  have fresh: "caller_at s j \<noteq> Some (Working (Some (length (fs_heap s))) k')" for j k'
    using D(1) D(4) by blast
  show ?thesis
    unfolding e
  proof (rule flights_okI, goal_cases)
    case (1 k' f)
    then show ?case using D(1) [of k' f] by (auto split: if_splits)
  next
    case (2 k' f)
    then show ?case using D(1,2) [of k' f] by (auto simp: nth_append split: if_splits)
  next
    case (3 k' f)
    show ?case
    proof (cases "k' = k")
      case True
      with 3 show ?thesis by (intro exI [of _ i]) (simp add: at)
    next
      case False
      with 3 obtain n where "caller_at s n = Some (Working (Some f) k')" using D(3) [of k' f] by auto
      with assms(2) show ?thesis by (intro exI [of _ n]) (auto simp: at)
    qed
  next
    case (4 n f k')
    then show ?case using None D(4) [of n f k'] by (auto simp: at split: if_splits)
  next
    case (5 m n f k' k2)
    then show ?case using fresh D(5) [of m f k' n k2] by (auto simp: at split: if_splits)
  next
    case (6 n f k')
    then show ?case using D(6) [of n f k'] by (auto simp: at split: if_splits)
  next
    case (7 n f k')
    then have "caller_at s n = Some (Waiting f k')" by (auto simp: at split: if_splits)
    with D(6,7) [OF this] None show ?case by (auto simp: nth_append)
  qed
qed

lemma land_ok:
  assumes "flights_ok s" "caller_at s i = Some (Working own k)"
  shows "flights_ok (land i k own given s)"
proof (cases own)
  case None
  with assms show ?thesis by (auto simp: land_def intro: flights_ok_caller)
next
  case (Some f)
  note D = flights_okD [OF assms(1)]
  have f: "lookup (fs_open s) k = Some f" using D(4) assms Some by blast
  have lf: "f < length (fs_heap s)" using D(1) [OF f] .
  have only: "k' = k" if "lookup (fs_open s) k' = Some f" for k'
    using D(3) [OF that] D(5) [of i f k] assms(2) Some by force
  define s1 where "s1 = s\<lparr>fs_callers := (fs_callers s)[i := Gone_with given]\<rparr>"
  let ?h = "(fs_heap s)[f := \<lparr>fl_done = True, fl_value = given\<rparr>]"
  have e: "land i k own given s = s1\<lparr>fs_open := del k (fs_open s), fs_heap := ?h\<rparr>"
    using Some by (simp add: land_def s1_def Let_def)
  have at: "caller_at s1 n = (if n = i then Some (Gone_with given) else caller_at s n)" for n
    using assms(2) by (simp add: s1_def)
  have others: "g \<noteq> f" if "caller_at s n = Some (Working (Some g) k')" "n \<noteq> i" for n g k'
    using D(5) [of n f k' i k] that assms(2) Some by auto
  show ?thesis
    unfolding e
  proof (rule flights_okI, goal_cases)
    case (1 k' g)
    then show ?case using D(1) [of k' g] by (auto split: if_splits)
  next
    case (2 k' g)
    then have "lookup (fs_open s) k' = Some g" "k' \<noteq> k" by (auto split: if_splits)
    moreover from this only have "g \<noteq> f" by blast
    ultimately show ?case using D(2) [of k' g] by simp
  next
    case (3 k' g)
    then have g: "lookup (fs_open s) k' = Some g" "k' \<noteq> k" by (auto split: if_splits)
    then obtain n where "caller_at s n = Some (Working (Some g) k')" using D(3) by blast
    with assms(2) g(2) show ?case by (intro exI [of _ n]) (auto simp: at)
  next
    case (4 n g k')
    then have n: "caller_at s n = Some (Working (Some g) k')" "n \<noteq> i" by (auto simp: at split: if_splits)
    with others [OF n] D(4) [OF n(1)] f show ?case by auto
  next
    case (5 m n g k' k2)
    then show ?case using D(5) [of m g k' n k2] by (auto simp: at split: if_splits)
  next
    case (6 n g k')
    then show ?case using D(6) [of n g k'] by (auto simp: at split: if_splits)
  next
    case (7 n g k')
    then have n: "caller_at s n = Some (Waiting g k')" by (auto simp: at split: if_splits)
    with D(7) [OF n] f lf show ?case by (auto simp: nth_list_update)
  qed
qed

lemma call_ok:
  assumes "flights_ok s"
  shows "flights_ok (s\<lparr>fs_callers := fs_callers s @ [Asking k]\<rparr>)"
proof (rule flights_okI, goal_cases)
  case (3 k' f)
  then obtain n where "caller_at s n = Some (Working (Some f) k')" using flights_okD(3) [OF assms] by auto
  then show ?case by (intro exI [of _ n]) auto
next
  case (5 m n f k k')
  with flights_okD(5) [OF assms] show ?case by (auto split: if_splits)
qed (use flights_okD [OF assms] in \<open>auto split: if_splits\<close>)

lemma remember_step_ok [inv_intros]:
  assumes "remember_step s s'" "flights_ok s"
  shows "flights_ok s'"
  using assms
proof cases
  case (call k)
  then show ?thesis using call_ok assms(2) by simp
next
  case (enters i k)
  then show ?thesis using enter_ok [OF assms(2)] by (simp add: caller_at_def)
next
  case (lands i own k given)
  then show ?thesis using land_ok [OF assms(2)] by (simp add: caller_at_def)
next
  case (wakes i f k decodes)
  then have "caller_at s i = Some (Waiting f k)" by (simp add: caller_at_def)
  from flights_ok_caller [OF assms(2) this] show ?thesis
    unfolding wakes(1) wake_def by (auto split: option.splits)
next
  case (leaves i f k)
  then have "caller_at s i = Some (Waiting f k)" by (simp add: caller_at_def)
  then show ?thesis unfolding leaves(1) by (intro flights_ok_caller [OF assms(2)]) auto
qed

text \<open>
  C32. Remember works a key out once at a time and strands no one: in every interleaving of its callers,
  no two of them work out one key for the callers that wait, and each caller that waits is on a flight
  that is done, so that it can go on at once, or that another caller is working out at that moment.
\<close>

theorem remember_flies_once_and_strands_no_one:
  assumes "remember_reach s"
  shows "(\<forall>i j f g k. caller_at s i = Some (Working (Some f) k) \<longrightarrow>
        caller_at s j = Some (Working (Some g) k) \<longrightarrow> i = j) \<and>
    (\<forall>i f k. caller_at s i = Some (Waiting f k) \<longrightarrow>
        fl_done (fs_heap s ! f) \<or> Working (Some f) k \<in> set (fs_callers s))"
proof -
  have "flights_ok s"
    using assms
  proof (induction rule: remember_reach.induct)
    case start
    show ?case by (simp add: flights_ok_def no_flights_def caller_at_def)
  qed (rule remember_step_ok)
  note D = flights_okD [OF this]
  have "fl_done (fs_heap s ! f) \<or> Working (Some f) k \<in> set (fs_callers s)"
    if w: "caller_at s i = Some (Waiting f k)" for i f k
  proof (cases "fl_done (fs_heap s ! f)")
    case False
    then obtain n where "caller_at s n = Some (Working (Some f) k)" using D(3) D(7) [OF w] by blast
    then have "Working (Some f) k \<in> set (fs_callers s)"
      by (auto simp: caller_at_def split: if_splits) (metis nth_mem)
    then show ?thesis by blast
  qed simp
  moreover have "i = j" if "caller_at s i = Some (Working (Some f) k)"
    "caller_at s j = Some (Working (Some g) k)" for i j f g k
    using D(4) [OF that(1)] D(4) [OF that(2)] D(5) [OF that(1), of j k] that(2) by simp
  ultimately show ?thesis by blast
qed

theorem remember_flies_once_and_strands_no_one_witness:
  "let s = enter 1 ''k'' (enter 0 ''k'' (no_flights\<lparr>fs_callers := [Asking ''k'', Asking ''k'']\<rparr>))
   in caller_at s 0 = Some (Working (Some 0) ''k'') \<and> caller_at s 1 = Some (Waiting 0 ''k'') \<and>
      (fl_done (fs_heap s ! 0) \<or> Working (Some 0) ''k'' \<in> set (fs_callers s))"
proof -
  let ?one = "no_flights\<lparr>fs_callers := [Asking ''k'']\<rparr>"
  let ?two = "no_flights\<lparr>fs_callers := [Asking ''k'', Asking ''k'']\<rparr>"
  let ?s = "enter 1 ''k'' (enter 0 ''k'' ?two)"
  have at: "caller_at ?s 0 = Some (Working (Some 0) ''k'')" "caller_at ?s 1 = Some (Waiting 0 ''k'')"
    by (simp_all add: enter_def no_flights_def caller_at_def)
  have c0: "remember_step no_flights ?one"
    using remember_step.call [of no_flights "''k''"] by (simp add: no_flights_def)
  have c1: "remember_step ?one ?two" using remember_step.call [of ?one "''k''"] by simp
  have s1: "remember_reach ?two" by (rule remember_reach.step [OF remember_reach.step [OF remember_reach.start c0] c1])
  have "remember_step ?two (enter 0 ''k'' ?two)" by (rule remember_step.enters) simp_all
  from remember_reach.step [OF s1 this] have s2: "remember_reach (enter 0 ''k'' ?two)" .
  have "remember_step (enter 0 ''k'' ?two) ?s"
    by (rule remember_step.enters) (simp_all add: enter_def no_flights_def)
  from remember_reach.step [OF s2 this] have "remember_reach ?s" .
  from remember_flies_once_and_strands_no_one [OF this] at show ?thesis by (simp add: Let_def)
qed

end
