(* ===== verification/Session.thy ===== *)
theory Session
  imports Base64 Cache "HOL-Library.Countable"
begin

text \<open>
  Package session (session/session.go): a visitor's session for the length of a request, the store
  that loads it from a cookie, or from where its keeper keeps it, and saves it as the response starts.
  A keeper's promises are the locale \<open>session_keeper\<close>, which every \<open>cache_store\<close> gives. The sealing
  (AES-GCM), JSON and SHA-256 are parameters of the store.
\<close>

section \<open>A request's session\<close>

record 'v session =
  s_values :: "(string, 'v) gomap"
  s_now :: "(string, 'v) gomap"
  s_next :: "(string, 'v) gomap"
  s_had :: bool
  s_lifetime :: duration
  s_base :: duration
  s_id :: string
  s_wrote :: instant
  s_rotated :: bool
  s_lost :: bool
  s_changed :: bool
  s_passed :: bool

definition session_get :: "string \<Rightarrow> 'v session \<Rightarrow> 'v option" where
  "session_get key s = lookup (s_values s) key"

definition session_set :: "string \<Rightarrow> 'v \<Rightarrow> 'v session \<Rightarrow> 'v session" where
  "session_set key v s = s\<lparr>s_values := put key v (s_values s), s_changed := True\<rparr>"

definition session_delete :: "string \<Rightarrow> 'v session \<Rightarrow> 'v session" where
  "session_delete key s = s\<lparr>s_values := del key (s_values s), s_changed := True\<rparr>"

definition session_clear :: "'v session \<Rightarrow> 'v session" where
  "session_clear s =
     s\<lparr>s_values := [], s_now := [], s_next := [], s_lifetime := 0, s_changed := True, s_rotated := True\<rparr>"

definition set_lifetime :: "duration \<Rightarrow> 'v session \<Rightarrow> 'v session" where
  "set_lifetime d s = s\<lparr>s_lifetime := max (go_div d second * second) 0, s_changed := True\<rparr>"

definition lifetime_of :: "'v session \<Rightarrow> duration" where
  "lifetime_of s = (if 0 < s_lifetime s then s_lifetime s else s_base s)"

definition flash_set :: "string \<Rightarrow> 'v \<Rightarrow> 'v session \<Rightarrow> 'v session" where
  "flash_set key v s = s\<lparr>s_next := put key v (s_next s)\<rparr>"

definition flashed :: "string \<Rightarrow> 'v session \<Rightarrow> 'v option" where
  "flashed key s = lookup (s_now s) key"

definition unflash :: "string \<Rightarrow> 'v session \<Rightarrow> 'v session" where
  "unflash key s = s\<lparr>s_next := del key (s_next s)\<rparr>"

definition session_pass :: "'v session \<Rightarrow> 'v session" where
  "session_pass s = s\<lparr>s_passed := True\<rparr>"

definition reflash :: "'v session \<Rightarrow> 'v session" where
  "reflash s = s\<lparr>s_next := foldl (\<lambda>m (k, v). if lookup m k = None then put k v m else m) (s_next s) (s_now s)\<rparr>"

definition rotate_id :: "'v session \<Rightarrow> 'v session" where
  "rotate_id s = s\<lparr>s_rotated := True, s_changed := True\<rparr>"

text \<open>What a handler does with its session.\<close>

datatype 'v session_op =
  Set_value string 'v | Delete_value string | Clear_all | Set_lifetime duration |
  Flash_value string 'v | Unflash string | Pass_on | Keep_flash | Rotate_id

fun session_do :: "'v session_op \<Rightarrow> 'v session \<Rightarrow> 'v session" where
  "session_do (Set_value k v) = session_set k v"
| "session_do (Delete_value k) = session_delete k"
| "session_do Clear_all = session_clear"
| "session_do (Set_lifetime d) = set_lifetime d"
| "session_do (Flash_value k v) = flash_set k v"
| "session_do (Unflash k) = unflash k"
| "session_do Pass_on = session_pass"
| "session_do Keep_flash = reflash"
| "session_do Rotate_id = rotate_id"

definition session_run :: "'v session_op list \<Rightarrow> 'v session \<Rightarrow> 'v session" where
  "session_run ops s = foldl (\<lambda>s op. session_do op s) s ops"

section \<open>The store\<close>

record 'v payload =
  p_id :: string
  p_values :: "(string, 'v) gomap"
  p_flash :: "(string, 'v) gomap"
  p_expires :: int
  p_lifetime :: int
  p_wrote :: int

text \<open>
  A \<open>cipher.AEAD\<close>: opening and sealing under a nonce with additional data.
\<close>

record aead =
  ae_open :: "string \<Rightarrow> string \<Rightarrow> string \<Rightarrow> string option"
  ae_seal :: "string \<Rightarrow> string \<Rightarrow> string \<Rightarrow> string"

record ('v, 'k) store =
  st_aeads :: "aead list"
  st_cookie :: string
  st_lifetime :: duration
  st_secure :: bool
  st_keeper :: "'k cache_ops option"
  st_marshal :: "'v payload \<Rightarrow> string option"
  st_unmarshal :: "string \<Rightarrow> 'v payload option"
  st_sha :: "string \<Rightarrow> string"

definition nonce_size :: nat where "nonce_size = 12"

text \<open>\<open>New\<close>: a configuration is a store whose defaults are not yet filled in, and its keys.\<close>

datatype config_error = No_keys | Negative_lifetime | Key_length nat | Key_error string

fun derive_all :: "(string \<Rightarrow> string + aead) \<Rightarrow> string list \<Rightarrow> config_error + aead list" where
  "derive_all derive [] = Inr []"
| "derive_all derive (k # ks) =
     (if length k \<noteq> 32 then Inl (Key_length (length k))
      else case derive k of
             Inl e \<Rightarrow> Inl (Key_error e)
           | Inr a \<Rightarrow> (case derive_all derive ks of Inl e \<Rightarrow> Inl e | Inr as \<Rightarrow> Inr (a # as)))"

definition new_store ::
  "(string \<Rightarrow> string + aead) \<Rightarrow> string list \<Rightarrow> ('v, 'k) store \<Rightarrow> config_error + ('v, 'k) store" where
  "new_store derive keys cfg =
     (if keys = [] then Inl No_keys
      else if st_lifetime cfg < 0 then Inl Negative_lifetime
      else case derive_all derive keys of
             Inl e \<Rightarrow> Inl e
           | Inr as \<Rightarrow> Inr (cfg\<lparr>
               st_cookie := (if st_cookie cfg = [] then ''tug_session'' else st_cookie cfg),
               st_lifetime := (if st_lifetime cfg = 0 then 2 * hour else st_lifetime cfg),
               st_aeads := as\<rparr>))"

definition key_of :: "('v, 'k) store \<Rightarrow> string \<Rightarrow> string" where
  "key_of st sid = st_sha st sid"

definition additional :: "string \<Rightarrow> string \<Rightarrow> string" where
  "additional cookie sid =
     itoa (int (length cookie)) @ CHR '':'' # cookie @ itoa (int (length sid)) @ CHR '':'' # sid"

definition refresh :: duration where "refresh = minute"
definition max_cookie :: nat where "max_cookie = 4000"

text \<open>\<open>time.Time.Unix\<close> and \<open>time.Unix\<close>.\<close>

definition unix_epoch :: instant where "unix_epoch = 62135596800 * second"

definition unix :: "instant \<Rightarrow> int" where
  "unix t = (t - unix_epoch) div second"

definition of_unix :: "int \<Rightarrow> instant" where
  "of_unix n = unix_epoch + n * second"

fun open_with :: "aead list \<Rightarrow> (string \<Rightarrow> 'v payload option) \<Rightarrow> string \<Rightarrow> string \<Rightarrow> 'v payload option" where
  "open_with [] unmarshal sealed ad = None"
| "open_with (a # as) unmarshal sealed ad =
     (if length sealed < nonce_size then None
      else case ae_open a (take nonce_size sealed) (drop nonce_size sealed) ad of
             None \<Rightarrow> open_with as unmarshal sealed ad
           | Some plain \<Rightarrow> unmarshal plain)"

definition st_open :: "('v, 'k) store \<Rightarrow> string \<Rightarrow> string \<Rightarrow> 'v payload option" where
  "st_open st sealed ad = open_with (st_aeads st) (st_unmarshal st) sealed ad"

definition st_seal :: "('v, 'k) store \<Rightarrow> string \<Rightarrow> 'v payload \<Rightarrow> string \<Rightarrow> string option" where
  "st_seal st nonce p ad =
     (case st_marshal st p of
        None \<Rightarrow> None
      | Some plain \<Rightarrow> Some (nonce @ ae_seal (st_aeads st ! 0) nonce plain ad))"

definition new_session :: "('v, 'k) store \<Rightarrow> 'v session" where
  "new_session st =
     \<lparr>s_values = [], s_now = [], s_next = [], s_had = False, s_lifetime = 0, s_base = st_lifetime st,
      s_id = [], s_wrote = zero_time, s_rotated = False, s_lost = False, s_changed = False, s_passed = False\<rparr>"

definition st_read ::
  "('v, 'k) store \<Rightarrow> 'k cache_ops \<Rightarrow> instant \<Rightarrow> 'v session \<Rightarrow> string \<Rightarrow> 'k \<Rightarrow> 'v session \<times> 'k" where
  "st_read st keeper now s sid k =
     (case co_get keeper (key_of st sid) now k of
        (Inl e, k') \<Rightarrow> (s\<lparr>s_lost := True\<rparr>, k')
      | (Inr None, k') \<Rightarrow> (s, k')
      | (Inr (Some row), k') \<Rightarrow>
          (case st_open st row (additional (st_cookie st) sid) of
             None \<Rightarrow> (s, k')
           | Some p \<Rightarrow>
               if p_expires p < unix now then (s, k')
               else (s\<lparr>s_id := sid, s_wrote := of_unix (p_wrote p), s_values := p_values p,
                       s_now := p_flash p\<rparr>, k')))"

definition st_load :: "('v, 'k) store \<Rightarrow> instant \<Rightarrow> string option \<Rightarrow> 'k \<Rightarrow> 'v session \<times> 'k" where
  "st_load st now cookie k =
     (case cookie of
        None \<Rightarrow> (new_session st, k)
      | Some text \<Rightarrow>
          let s = (new_session st)\<lparr>s_had := True\<rparr>
          in (case b64_decode text of
                None \<Rightarrow> (s, k)
              | Some sealed \<Rightarrow>
                  (case st_open st sealed (st_cookie st) of
                     None \<Rightarrow> (s, k)
                   | Some p \<Rightarrow>
                       if p_expires p < unix now then (s, k)
                       else let s1 = s\<lparr>s_lifetime := max (p_lifetime p) 0 * second\<rparr>
                            in (case st_keeper st of
                                  Some keeper \<Rightarrow>
                                    if p_id p \<noteq> [] then st_read st keeper now s1 (p_id p) k
                                    else (s1\<lparr>s_values := p_values p, s_now := p_flash p\<rparr>, k)
                                | None \<Rightarrow> (s1\<lparr>s_values := p_values p, s_now := p_flash p\<rparr>, k)))))"

section \<open>Saving\<close>

text \<open>
  What the response says of the cookie, and what is drawn as it is saved: a new ID, and the nonces of
  the keeper's row and of the cookie. \<open>tls\<close> is whether the request came over TLS.
\<close>

record cookie =
  ck_value :: string
  ck_max_age :: int
  ck_secure :: bool

datatype cookie_out = Not_written | Dropped | Written cookie

record draws =
  dr_id :: string
  dr_row :: string
  dr_cookie :: string

definition st_forget :: "('v, 'k) store \<Rightarrow> 'v session \<Rightarrow> 'k \<Rightarrow> 'k" where
  "st_forget st s k =
     (case st_keeper st of
        None \<Rightarrow> k
      | Some keeper \<Rightarrow> if s_id s = [] then k else snd (co_delete keeper (key_of st (s_id s)) k))"

definition st_keep ::
  "('v, 'k) store \<Rightarrow> 'k cache_ops \<Rightarrow> draws \<Rightarrow> instant \<Rightarrow> 'v session \<Rightarrow> 'v payload \<Rightarrow> instant \<Rightarrow> 'k \<Rightarrow>
   bool \<times> 'v session \<times> 'k" where
  "st_keep st keeper dr now s p expires k =
     (let old = s_id s;
          s1 = (if s_id s = [] \<or> s_rotated s then s\<lparr>s_id := dr_id dr\<rparr> else s);
          fresh = (s_wrote s \<noteq> zero_time \<and> now - s_wrote s < refresh)
      in if s_id s1 = old \<and> \<not> s_changed s \<and> s_next s = [] \<and> s_now s = [] \<and> fresh then (True, s1, k)
         else case st_seal st (dr_row dr) (p\<lparr>p_wrote := unix now\<rparr>) (additional (st_cookie st) (s_id s1)) of
                None \<Rightarrow> (False, s1, k)
              | Some sealed \<Rightarrow>
                  (case co_set keeper (key_of st (s_id s1)) sealed (expires + refresh) k of
                     (Some e, k1) \<Rightarrow> (False, s1, k1)
                   | (None, k1) \<Rightarrow>
                       (True, s1,
                        if old \<noteq> [] \<and> old \<noteq> s_id s1 then snd (co_delete keeper (key_of st old) k1) else k1)))"

definition write_cookie ::
  "('v, 'k) store \<Rightarrow> bool \<Rightarrow> string \<Rightarrow> 'v payload \<Rightarrow> duration \<Rightarrow> cookie_out" where
  "write_cookie st tls nonce p lifetime =
     (case st_seal st nonce p (st_cookie st) of
        None \<Rightarrow> Not_written
      | Some sealed \<Rightarrow>
          if max_cookie < length (b64_encode sealed) then Not_written
          else Written \<lparr>ck_value = b64_encode sealed, ck_max_age = go_div lifetime second,
                        ck_secure = st_secure st \<or> tls\<rparr>)"

definition payload_of :: "'v session \<Rightarrow> instant \<Rightarrow> 'v payload" where
  "payload_of s expires =
     \<lparr>p_id = [], p_values = s_values s, p_flash = s_next s, p_expires = unix expires,
      p_lifetime = go_div (s_lifetime s) second, p_wrote = 0\<rparr>"

definition st_save ::
  "('v, 'k) store \<Rightarrow> bool \<Rightarrow> draws \<Rightarrow> instant \<Rightarrow> 'v session \<Rightarrow> 'k \<Rightarrow> cookie_out \<times> 'k" where
  "st_save st tls dr now s0 k =
     (if s_passed s0 \<and> \<not> s_changed s0 \<and> s_next s0 = [] then (Not_written, k)
      else let s = (if s_passed s0 then reflash s0 else s0)
           in if s_lost s then (Not_written, k)
              else if s_values s = [] \<and> s_next s = [] then
                if s_had s then (Dropped, st_forget st s k) else (Not_written, k)
              else let lifetime = (if 0 < s_lifetime s then s_lifetime s else st_lifetime st);
                       expires = now + lifetime;
                       p = payload_of s expires
                   in (case st_keeper st of
                         None \<Rightarrow> (write_cookie st tls (dr_cookie dr) p lifetime, k)
                       | Some keeper \<Rightarrow>
                           (case st_keep st keeper dr now s p expires k of
                              (False, s1, k1) \<Rightarrow> (Not_written, k1)
                            | (True, s1, k1) \<Rightarrow>
                                (write_cookie st tls (dr_cookie dr)
                                   \<lparr>p_id = s_id s1, p_values = [], p_flash = [], p_expires = p_expires p,
                                    p_lifetime = p_lifetime p, p_wrote = 0\<rparr> lifetime, k1))))"

text \<open>A request, from the browser's cookie and the keeper as it is to both as they are after it.\<close>

definition browser_takes :: "cookie_out \<Rightarrow> string option \<Rightarrow> string option" where
  "browser_takes out had =
     (case out of Not_written \<Rightarrow> had | Dropped \<Rightarrow> None | Written c \<Rightarrow> Some (ck_value c))"

definition visit ::
  "('v, 'k) store \<Rightarrow> bool \<Rightarrow> draws \<Rightarrow> instant \<Rightarrow> ('v session \<Rightarrow> 'v session) \<Rightarrow> string option \<times> 'k \<Rightarrow>
   'v session \<times> string option \<times> 'k" where
  "visit st tls dr now h w =
     (case w of (cookie, k) \<Rightarrow>
        let (s, k1) = st_load st now cookie k; (out, k2) = st_save st tls dr now (h s) k1
        in (s, browser_takes out cookie, k2))"


section \<open>What a session needs of its keeper\<close>

locale session_keeper =
  fixes ops :: "'k cache_ops"
    and view :: "'k \<Rightarrow> string \<Rightarrow> instant \<Rightarrow> string option"
    and seen :: "'k \<Rightarrow> instant"
    and ok :: "'k \<Rightarrow> bool"
  assumes get_view: "ok s \<Longrightarrow> seen s \<le> now \<Longrightarrow> co_get ops k now s = (Inr r, s') \<Longrightarrow>
      r = view s k now \<and> ok s' \<and> seen s' = now \<and> (\<forall>k t. now \<le> t \<longrightarrow> view s' k t = view s k t)"
    and set_view: "ok s \<Longrightarrow> co_set ops k v e s = (None, s') \<Longrightarrow>
      ok s' \<and> seen s' = seen s \<and> (\<forall>k' t. seen s \<le> t \<longrightarrow>
        view s' k' t = (if k' = k then if t < e then Some v else None else view s k' t))"
    and delete_view: "ok s \<Longrightarrow> co_delete ops k s = (None, s') \<Longrightarrow>
      ok s' \<and> seen s' = seen s \<and> (\<forall>k' t. view s' k' t = (if k' = k then None else view s k' t))"

text \<open>A cache's store keeps sessions, as the package says one can.\<close>

sublocale cache_store \<subseteq> keeper: session_keeper ops view seen ok
  by unfold_locales (use get_view set_view delete_view in blast)+

section \<open>Sealing\<close>

text \<open>
  What a store relies on: what its first key seals under a nonce of the right size it opens, with the
  same additional data, and a payload comes back from the JSON it was written as.
\<close>

definition sealing :: "('v, 'k) store \<Rightarrow> bool" where
  "sealing st \<longleftrightarrow> st_aeads st \<noteq> [] \<and>
     (\<forall>n p ad. length n = nonce_size \<longrightarrow>
        ae_open (st_aeads st ! 0) n (ae_seal (st_aeads st ! 0) n p ad) ad = Some p) \<and>
     (\<forall>p text. st_marshal st p = Some text \<longrightarrow> st_unmarshal st text = Some p)"

lemma open_seal:
  assumes "sealing st" "st_seal st n p ad = Some sealed" "length n = nonce_size"
  shows "st_open st sealed ad = Some p"
proof (cases "st_aeads st")
  case Nil
  with assms(1) show ?thesis by (simp add: sealing_def)
next
  case (Cons a as)
  with assms show ?thesis
    by (auto simp: sealing_def st_seal_def st_open_def split: option.splits)
qed

lemma written_cookie:
  assumes "sealing st" "length n = nonce_size" "write_cookie st tls n p l = Written c"
  shows "\<exists>sealed. b64_decode (ck_value c) = Some sealed \<and> st_open st sealed (st_cookie st) = Some p"
  using assms open_seal [OF assms(1) _ assms(2)]
  by (auto simp: write_cookie_def split: option.splits if_splits)

definition draws_ok :: "draws \<Rightarrow> bool" where
  "draws_ok dr \<longleftrightarrow> dr_id dr \<noteq> [] \<and> length (dr_row dr) = nonce_size \<and> length (dr_cookie dr) = nonce_size"

lemma unix_mono: "t \<le> t' \<Longrightarrow> unix t \<le> unix t'"
  by (simp add: unix_def zdiv_mono1 less_imp_le)

text \<open>The session a save leaves for the next request, where it writes it.\<close>

definition left_by :: "('v, 'k) store \<Rightarrow> 'v session \<Rightarrow> 'v session \<Rightarrow> bool" where
  "left_by st s s' \<longleftrightarrow> s_values s' = s_values s \<and> s_now s' = s_next s \<and> s_next s' = [] \<and>
     s_lifetime s' = max (go_div (s_lifetime s) second) 0 * second \<and> \<not> s_lost s' \<and> \<not> s_changed s' \<and> \<not> s_passed s'"

lemma load_left:
  assumes "sealing st" "st_keeper st = None" "draws_ok dr" "\<not> s_passed s"
    and "st_save st tls dr t s k = (Written c, k')" "t' \<le> t + lifetime_of s" "s_base s = st_lifetime st"
  shows "\<exists>s' k''. st_load st t' (Some (ck_value c)) k' = (s', k'') \<and> left_by st s s'"
proof -
  let ?l = "if 0 < s_lifetime s then s_lifetime s else st_lifetime st"
  have "write_cookie st tls (dr_cookie dr) (payload_of s (t + ?l)) ?l = Written c"
    using assms(2,4,5) by (auto simp: st_save_def Let_def split: if_splits)
  from written_cookie [OF assms(1) _ this] assms(3) obtain sealed where
    o: "b64_decode (ck_value c) = Some sealed" "st_open st sealed (st_cookie st) = Some (payload_of s (t + ?l))"
    by (auto simp: draws_ok_def)
  have "unix t' \<le> unix (t + ?l)" using assms(6,7) by (intro unix_mono) (simp add: lifetime_of_def split: if_splits)
  with o assms(2) show ?thesis
    by (simp add: st_load_def payload_of_def left_by_def new_session_def Let_def)
qed

lemma st_keep_row:
  assumes row: "s_changed s \<or> s_next s \<noteq> [] \<or> s_now s \<noteq> []"
    and keep: "st_keep st keeper dr now s p expires k = (True, s1, k')"
  shows "\<exists>sealed k1. st_seal st (dr_row dr) (p\<lparr>p_wrote := unix now\<rparr>) (additional (st_cookie st)
        (if s_id s = [] \<or> s_rotated s then dr_id dr else s_id s)) = Some sealed \<and>
    co_set keeper (key_of st (if s_id s = [] \<or> s_rotated s then dr_id dr else s_id s)) sealed (expires + refresh) k =
      (None, k1) \<and> s_id s1 = (if s_id s = [] \<or> s_rotated s then dr_id dr else s_id s) \<and>
    k' = (if s_id s \<noteq> [] \<and> s_id s \<noteq> (if s_id s = [] \<or> s_rotated s then dr_id dr else s_id s)
          then snd (co_delete keeper (key_of st (s_id s)) k1) else k1)"
proof -
  let ?s1 = "if s_id s = [] \<or> s_rotated s then s\<lparr>s_id := dr_id dr\<rparr> else s"
  have sid: "s_id ?s1 = (if s_id s = [] \<or> s_rotated s then dr_id dr else s_id s)" by simp
  have "st_keep st keeper dr now s p expires k =
      (case st_seal st (dr_row dr) (p\<lparr>p_wrote := unix now\<rparr>) (additional (st_cookie st) (s_id ?s1)) of
         None \<Rightarrow> (False, ?s1, k)
       | Some sealed \<Rightarrow>
           (case co_set keeper (key_of st (s_id ?s1)) sealed (expires + refresh) k of
              (Some e, k1) \<Rightarrow> (False, ?s1, k1)
            | (None, k1) \<Rightarrow> (True, ?s1, if s_id s \<noteq> [] \<and> s_id s \<noteq> s_id ?s1
                then snd (co_delete keeper (key_of st (s_id s)) k1) else k1)))"
    unfolding st_keep_def Let_def using row by (elim disjE) (simp_all split del: if_split)
  with keep show ?thesis
    unfolding sid [symmetric] by (auto split: option.splits prod.splits split del: if_split)
qed

context session_keeper
begin

lemma load_left_kept:
  assumes seal: "sealing st" and keeper: "st_keeper st = Some ops" and dr: "draws_ok dr"
    and s: "\<not> s_passed s" "s_base s = st_lifetime st"
    and row: "s_changed s \<or> s_next s \<noteq> [] \<or> s_now s \<noteq> []"
    and k: "ok k" "seen k \<le> t'"
    and save: "st_save st tls dr t s k = (Written c, k')" and t': "t' \<le> t + lifetime_of s"
    and no_error: "\<And>key e k1. fst (co_get ops key t' k1) \<noteq> Inl e"
      "\<And>key k1. fst (co_delete ops key k1) = None"
    and apart: "s_id s \<noteq> [] \<Longrightarrow> dr_id dr \<noteq> s_id s \<Longrightarrow> key_of st (dr_id dr) \<noteq> key_of st (s_id s)"
  shows "\<exists>s' k'' sealed p. st_load st t' (Some (ck_value c)) k' = (s', k'') \<and> left_by st s s' \<and>
    s_id s' \<noteq> [] \<and> s_wrote s' = of_unix (unix t) \<and> \<not> s_rotated s' \<and> s_base s' = st_lifetime st \<and>
    ok k'' \<and> seen k'' = t' \<and> (\<forall>u. t' \<le> u \<longrightarrow> u < t + lifetime_of s + refresh \<longrightarrow> view k'' (key_of st (s_id s')) u = Some sealed) \<and>
    st_open st sealed (additional (st_cookie st) (s_id s')) = Some p \<and> p_expires p = unix (t + lifetime_of s)"
proof -
  let ?l = "if 0 < s_lifetime s then s_lifetime s else st_lifetime st"
  let ?p = "payload_of s (t + ?l)"
  let ?sid = "if s_id s = [] \<or> s_rotated s then dr_id dr else s_id s"
  have not_empty: "\<not> (s_values s = [] \<and> s_next s = [])" and lost: "\<not> s_lost s"
    using save s(1) by (auto simp: st_save_def Let_def split: if_splits)
  obtain s1 where keep: "st_keep st ops dr t s ?p (t + ?l) k = (True, s1, k')"
    and c: "write_cookie st tls (dr_cookie dr)
      \<lparr>p_id = s_id s1, p_values = [], p_flash = [], p_expires = p_expires ?p, p_lifetime = p_lifetime ?p,
       p_wrote = 0\<rparr> ?l = Written c"
  proof -
    obtain b s1 k1 where k: "st_keep st ops dr t s ?p (t + ?l) k = (b, s1, k1)" by (metis prod_cases3)
    with save s(1) not_empty lost keeper show ?thesis
      by (cases b) (auto intro!: that [of s1] simp: st_save_def Let_def)
  qed
  obtain sealed k1 where w: "st_seal st (dr_row dr) (?p\<lparr>p_wrote := unix t\<rparr>) (additional (st_cookie st) ?sid) = Some sealed"
    "co_set ops (key_of st ?sid) sealed (t + ?l + refresh) k = (None, k1)" "s_id s1 = ?sid"
    "k' = (if s_id s \<noteq> [] \<and> s_id s \<noteq> ?sid then snd (co_delete ops (key_of st (s_id s)) k1) else k1)"
    using st_keep_row [OF row keep] by blast
  have live: "t' < t + ?l + refresh" using t' s(2) by (auto simp: lifetime_of_def refresh_def intro: le_less_trans split: if_splits)
  note set = set_view [OF k(1) w(2)]
  obtain r k2 where d: "co_delete ops (key_of st (s_id s)) k1 = (None, k2)"
    using no_error(2) [of "key_of st (s_id s)" k1] by (metis prod.collapse)
  have l: "?l = lifetime_of s" using s(2) by (simp add: lifetime_of_def)
  have v: "ok k'" "seen k' \<le> t'"
    "\<And>u. t' \<le> u \<Longrightarrow> u < t + ?l + refresh \<Longrightarrow> view k' (key_of st ?sid) u = Some sealed"
    using set live k(2) w(4) d delete_view [OF _ d] apart by (auto split: if_splits)
  obtain r k3 where g: "co_get ops (key_of st ?sid) t' k' = (Inr r, k3)"
    using no_error(1) by (metis prod.collapse sum.exhaust_sel)
  have r: "r = Some sealed" using get_view [OF v(1,2) g] v(3) live by simp
  have o: "st_open st sealed (additional (st_cookie st) ?sid) = Some (?p\<lparr>p_wrote := unix t\<rparr>)"
    using open_seal [OF seal w(1)] dr by (simp add: draws_ok_def)
  obtain sealed' where oc: "b64_decode (ck_value c) = Some sealed'"
    "st_open st sealed' (st_cookie st) = Some \<lparr>p_id = ?sid, p_values = [], p_flash = [], p_expires = p_expires ?p,
       p_lifetime = p_lifetime ?p, p_wrote = 0\<rparr>"
    using written_cookie [OF seal _ c] dr w(3) by (auto simp: draws_ok_def)
  have "?sid \<noteq> []" using dr by (auto simp: draws_ok_def)
  moreover have "unix t' \<le> unix (t + ?l)" using t' s(2) by (intro unix_mono) (simp add: lifetime_of_def split: if_splits)
  ultimately have load: "st_load st t' (Some (ck_value c)) k' =
      ((new_session st)\<lparr>s_had := True, s_lifetime := max (go_div (s_lifetime s) second) 0 * second, s_id := ?sid,
         s_wrote := of_unix (unix t), s_values := s_values s, s_now := s_next s\<rparr>, k3)"
    using oc g r o keeper
    by (simp add: st_load_def st_read_def payload_of_def Let_def split del: if_split)
  have view3: "\<forall>u. t' \<le> u \<longrightarrow> u < t + lifetime_of s + refresh \<longrightarrow> view k3 (key_of st ?sid) u = Some sealed"
    using get_view [OF v(1,2) g] v(3) l by simp
  let ?s' = "(new_session st)\<lparr>s_had := True, s_lifetime := max (go_div (s_lifetime s) second) 0 * second,
      s_id := ?sid, s_wrote := of_unix (unix t), s_values := s_values s, s_now := s_next s\<rparr>"
  have p: "p_expires (?p\<lparr>p_wrote := unix t\<rparr>) = unix (t + lifetime_of s)" using l by (simp add: payload_of_def)
  have left: "left_by st s ?s'" "s_id ?s' = ?sid" "s_wrote ?s' = of_unix (unix t)" "\<not> s_rotated ?s'"
    "s_base ?s' = st_lifetime st"
    by (simp_all add: left_by_def new_session_def split del: if_split)
  have k3: "ok k3" "seen k3 = t'" using get_view [OF v(1,2) g] by simp_all
  show ?thesis
    by (rule exI [of _ ?s'], rule exI [of _ k3], rule exI [of _ sealed],
        rule exI [of _ "?p\<lparr>p_wrote := unix t\<rparr>"], unfold left(2,3))
      (intro conjI load left(1,4,5) k3 p o view3 \<open>?sid \<noteq> []\<close> refl)
qed

end

end
