(* ===== verification/Session_Visits.thy ===== *)
theory Session_Visits
  imports Session
begin

text \<open>
  What the sessions of package session promise from one request of a browser to the next, without a
  keeper and with one, the cache's store in memory: what a request left the next finds, flash data is
  there for one request, a session's old ID opens nothing once it was given a new one, and a row opens
  under its own ID alone.
\<close>

section \<open>A store to apply it to\<close>

definition demo_payload :: "(string, nat) gomap \<Rightarrow> int \<Rightarrow> nat payload" where
  "demo_payload flash expires =
     \<lparr>p_id = [], p_values = [(''u'', 1)], p_flash = flash, p_expires = expires, p_lifetime = 0, p_wrote = 0\<rparr>"

definition demo_store :: "(nat, cache_memory) store" where
  "demo_store =
     \<lparr>st_aeads = [\<lparr>ae_open = (\<lambda>n box ad. Some box), ae_seal = (\<lambda>n plain ad. plain)\<rparr>],
      st_cookie = ''c'', st_lifetime = minute, st_secure = False, st_keeper = None,
      st_marshal = (\<lambda>p. if p = demo_payload [(''f'', 7)] 60 then Some ''1''
                         else if p = demo_payload [] 61 then Some ''2'' else None),
      st_unmarshal = (\<lambda>t. if t = ''1'' then Some (demo_payload [(''f'', 7)] 60)
                           else if t = ''2'' then Some (demo_payload [] 61) else None),
      st_sha = (\<lambda>x. x)\<rparr>"

definition demo_draws :: draws where
  "demo_draws = \<lparr>dr_id = ''new'', dr_row = replicate 12 CHR ''r'', dr_cookie = replicate 12 CHR ''c''\<rparr>"

definition demo_session :: "nat session" where
  "demo_session = (new_session demo_store)\<lparr>s_values := [(''u'', 1)], s_next := [(''f'', 7)], s_changed := True\<rparr>"

lemma demo_ok: "sealing demo_store" "draws_ok demo_draws" "st_keeper demo_store = None"
  "st_lifetime demo_store = minute"
  by (auto simp: sealing_def demo_store_def draws_ok_def demo_draws_def nonce_size_def)

lemma demo_times: "unix (unix_epoch + minute) = 60" "unix (unix_epoch + second + minute) = 61"
  by (simp_all add: unix_def minute_def second_def)

lemma demo_save:
  assumes "s_values s = [(''u'', 1)]" "s_next s = flash" "s_lifetime s = 0" "\<not> s_passed s" "\<not> s_lost s"
    and "flash = [(''f'', 7)] \<and> t = unix_epoch \<or> flash = [] \<and> t = unix_epoch + second"
  shows "\<exists>c. st_save demo_store False demo_draws t s k = (Written c, k)"
proof -
  have "payload_of s (t + minute) = demo_payload flash (if flash = [] then 61 else 60)"
    using assms demo_times by (auto simp: payload_of_def demo_payload_def)
  then show ?thesis
    using assms demo_ok
    by (auto simp: st_save_def Let_def write_cookie_def st_seal_def demo_store_def demo_draws_def max_cookie_def
      b64_length)
qed

lemma demo_session_simps [simp]:
  "s_values demo_session = [(''u'', 1)]" "s_next demo_session = [(''f'', 7)]" "s_lifetime demo_session = 0"
  "\<not> s_passed demo_session" "\<not> s_lost demo_session" "s_base demo_session = minute" "s_id demo_session = []"
  "s_changed demo_session"
  by (simp_all add: demo_session_def new_session_def demo_ok)

section \<open>One visit after another\<close>

definition keeper_ready :: "('v, cache_memory) store \<Rightarrow> cache_memory \<Rightarrow> instant \<Rightarrow> bool" where
  "keeper_ready st k t \<longleftrightarrow>
     (st_keeper st = None \<or> st_keeper st = Some cache_memory_ops) \<and> ms_ok k \<and> ms_now k \<le> t"

text \<open>SHA-256 does not collide on the ID a session had and the one drawn for it.\<close>

definition ids_apart :: "('v, 'k) store \<Rightarrow> draws \<Rightarrow> 'v session \<Rightarrow> bool" where
  "ids_apart st dr s \<longleftrightarrow> s_id s = [] \<or> key_of st (dr_id dr) \<noteq> key_of st (s_id s)"

definition left_something :: "'v session \<Rightarrow> bool" where
  "left_something s \<longleftrightarrow> s_changed s \<or> s_next s \<noteq> [] \<or> s_now s \<noteq> []"

lemma memory_never_fails:
  "fst (co_get cache_memory_ops key t k) \<noteq> Inl e" "fst (co_delete cache_memory_ops key k) = None"
  by simp_all

lemma next_load:
  assumes "sealing st" "keeper_ready st k t'" "draws_ok dr" "ids_apart st dr s"
    and "\<not> s_passed s" "s_base s = st_lifetime st" "left_something s"
    and "st_save st tls dr t s k = (Written c, k')" "t' \<le> t + lifetime_of s"
  shows "\<exists>s' k''. st_load st t' (Some (ck_value c)) k' = (s', k'') \<and> left_by st s s' \<and>
    s_base s' = st_lifetime st \<and> keeper_ready st k'' t' \<and> (s_id s' \<noteq> [] \<longrightarrow> st_keeper st \<noteq> None)"
proof (cases "st_keeper st")
  case None
  from load_left [OF assms(1) None assms(3,5,8,9,6)] obtain s' k'' where
    l: "st_load st t' (Some (ck_value c)) k' = (s', k'')" "left_by st s s'" by blast
  have "k' = k" using assms(8) None by (auto simp: st_save_def Let_def split: if_splits)
  moreover have "k'' = k'" "s_base s' = st_lifetime st" "s_id s' = []"
    using l(1) None by (auto simp: st_load_def new_session_def Let_def split: option.splits if_splits)
  ultimately show ?thesis using l assms(2) None by (auto simp: keeper_ready_def)
next
  case (Some ops)
  then have keeper: "st_keeper st = Some cache_memory_ops" using assms(2) by (auto simp: keeper_ready_def)
  have ready: "ms_ok k" "ms_now k \<le> t'" using assms(2) by (simp_all add: keeper_ready_def)
  have "\<exists>s' k'' sealed p. st_load st t' (Some (ck_value c)) k' = (s', k'') \<and> left_by st s s' \<and>
    s_id s' \<noteq> [] \<and> s_wrote s' = of_unix (unix t) \<and> \<not> s_rotated s' \<and> s_base s' = st_lifetime st \<and>
    ms_ok k'' \<and> ms_now k'' = t' \<and>
    (\<forall>u. t' \<le> u \<longrightarrow> u < t + lifetime_of s + refresh \<longrightarrow> ms_view k'' (key_of st (s_id s')) u = Some sealed) \<and>
    st_open st sealed (additional (st_cookie st) (s_id s')) = Some p \<and> p_expires p = unix (t + lifetime_of s)"
    using assms(4,7)
    by (intro mem_cache.keeper.load_left_kept [OF assms(1) keeper assms(3,5,6) _ ready assms(8,9)])
      (auto simp: ids_apart_def left_something_def memory_never_fails)
  then show ?thesis using keeper by (auto simp: keeper_ready_def)
qed

text \<open>
  What a request leaves in its session the next one finds: where a response writes the cookie, the
  next request that sends it before the session's lifetime is up has the same values, as its flash what
  the request flashed, and the same lifetime, whether the session travels in the cookie or is kept.
\<close>

theorem the_next_request_finds_what_was_left:
  assumes "sealing st" "keeper_ready st k t'" "draws_ok dr" "ids_apart st dr s"
    and "\<not> s_passed s" "s_base s = st_lifetime st" "left_something s"
    and "st_save st tls dr t s k = (Written c, k')" "t' \<le> t + lifetime_of s"
  shows "session_get key (fst (st_load st t' (Some (ck_value c)) k')) = session_get key s \<and>
    flashed key (fst (st_load st t' (Some (ck_value c)) k')) = lookup (s_next s) key \<and>
    s_lifetime (fst (st_load st t' (Some (ck_value c)) k')) = max (go_div (s_lifetime s) second) 0 * second"
  using next_load [OF assms] by (auto simp: left_by_def session_get_def flashed_def)

theorem the_next_request_finds_what_was_left_witness:
  "\<exists>c. st_save demo_store False demo_draws unix_epoch demo_session ms_empty = (Written c, ms_empty) \<and>
     session_get ''u'' (fst (st_load demo_store (unix_epoch + second) (Some (ck_value c)) ms_empty)) = Some 1"
proof -
  obtain c where c: "st_save demo_store False demo_draws unix_epoch demo_session ms_empty = (Written c, ms_empty)"
    using demo_save [of demo_session "[(''f'', 7)]"] by auto
  have "keeper_ready demo_store ms_empty (unix_epoch + second)" "ids_apart demo_store demo_draws demo_session"
    "left_something demo_session" "s_base demo_session = st_lifetime demo_store"
    "unix_epoch + second \<le> unix_epoch + lifetime_of demo_session"
    by (simp_all add: keeper_ready_def demo_ok ids_apart_def left_something_def lifetime_of_def ms_ok_def
      ms_empty_def zero_time_def unix_epoch_def second_def minute_def)
  from the_next_request_finds_what_was_left [OF demo_ok(1) this(1) demo_ok(2) this(2) _ this(4,3) c this(5), of "''u''"] c
  show ?thesis by (auto simp: session_get_def)
qed

text \<open>What a handler leaves of the flash data it was given, when it flashes and keeps nothing.\<close>

fun quiet_op :: "'v session_op \<Rightarrow> bool" where
  "quiet_op (Flash_value k v) = False"
| "quiet_op Keep_flash = False"
| "quiet_op Pass_on = False"
| "quiet_op Clear_all = False"
| "quiet_op _ = True"

lemma quiet_run:
  "list_all quiet_op ops \<Longrightarrow>
     s_now (session_run ops s) = s_now s \<and> (s_next s = [] \<longrightarrow> s_next (session_run ops s) = []) \<and>
     s_passed (session_run ops s) = s_passed s \<and> s_base (session_run ops s) = s_base s \<and>
     s_id (session_run ops s) = s_id s"
proof (induction ops arbitrary: s)
  case (Cons op ops)
  have "s_now (session_do op s) = s_now s \<and> (s_next s = [] \<longrightarrow> s_next (session_do op s) = []) \<and>
     s_passed (session_do op s) = s_passed s \<and> s_base (session_do op s) = s_base s \<and>
     s_id (session_do op s) = s_id s"
    using Cons.prems
    by (cases op) (simp_all add: session_set_def session_delete_def set_lifetime_def unflash_def rotate_id_def)
  with Cons show ?case by (simp add: session_run_def)
qed (simp add: session_run_def)

text \<open>
  Flash data is for one request: what a request flashes, the next reads; and where that one keeps
  none of it and flashes nothing itself, the request after it reads none, though nothing else of the
  session changed and its row was written a moment ago.
\<close>

theorem flash_is_for_one_request:
  assumes "sealing st" "keeper_ready st k t2" "draws_ok dr" "ids_apart st dr s"
    and "\<not> s_passed s" "s_base s = st_lifetime st" "lookup (s_next s) key = Some v"
    and save: "st_save st tls dr t1 s k = (Written c, k')" and t2: "t2 \<le> t1 + lifetime_of s"
    and visit2: "st_load st t2 (Some (ck_value c)) k' = (s2, k2)"
    and ops: "list_all quiet_op ops"
    and save2: "st_save st tls' dr' t2' (session_run ops s2) k2 = (Written c', k2')"
    and dr': "draws_ok dr'" "ids_apart st dr' s2"
    and t3: "t2 \<le> t3" "t3 \<le> t2' + lifetime_of (session_run ops s2)"
    and visit3: "st_load st t3 (Some (ck_value c')) k2' = (s3, k3)"
  shows "flashed key s2 = Some v \<and> (\<forall>key'. flashed key' s3 = None)"
proof -
  have something: "left_something s" using assms(7) by (auto simp: left_something_def)
  have s2: "left_by st s s2" "s_base s2 = st_lifetime st" "keeper_ready st k2 t2"
    using next_load [OF assms(1-6) something save t2] visit2 by auto
  then have f2: "s_now s2 = s_next s" "s_next s2 = []" "\<not> s_passed s2" by (simp_all add: left_by_def)
  note q = quiet_run [OF ops, of s2]
  have n: "s_now (session_run ops s2) = s_next s" "s_next (session_run ops s2) = []" using q f2 by simp_all
  have r3: "keeper_ready st k2 t3" using s2(3) t3(1) by (auto simp: keeper_ready_def)
  have "left_something (session_run ops s2)" using n(1) assms(7) by (auto simp: left_something_def)
  moreover have "ids_apart st dr' (session_run ops s2)" using dr'(2) q by (simp add: ids_apart_def)
  moreover have "\<not> s_passed (session_run ops s2)" "s_base (session_run ops s2) = st_lifetime st"
    using q f2 s2(2) by simp_all
  ultimately have "left_by st (session_run ops s2) s3"
    using next_load [OF assms(1) r3 dr'(1) _ _ _ _ save2 t3(2)] visit3 by auto
  then have "s_now s3 = []" using n(2) by (simp add: left_by_def)
  then show ?thesis using f2(1) assms(7) by (simp add: flashed_def)
qed

theorem flash_is_for_one_request_witness:
  "\<exists>c s2 k2 c' s3 k3. st_save demo_store False demo_draws unix_epoch demo_session ms_empty = (Written c, ms_empty) \<and>
     st_load demo_store (unix_epoch + second) (Some (ck_value c)) ms_empty = (s2, k2) \<and>
     st_save demo_store False demo_draws (unix_epoch + second) s2 k2 = (Written c', k2) \<and>
     st_load demo_store (unix_epoch + second) (Some (ck_value c')) k2 = (s3, k3) \<and>
     flashed ''f'' s2 = Some 7 \<and> flashed ''f'' s3 = None"
proof -
  obtain c where c: "st_save demo_store False demo_draws unix_epoch demo_session ms_empty = (Written c, ms_empty)"
    using demo_save [of demo_session "[(''f'', 7)]"] by auto
  have h: "keeper_ready demo_store ms_empty (unix_epoch + second)" "ids_apart demo_store demo_draws demo_session"
    "left_something demo_session" "s_base demo_session = st_lifetime demo_store"
    "unix_epoch + second \<le> unix_epoch + lifetime_of demo_session"
    by (simp_all add: keeper_ready_def demo_ok ids_apart_def left_something_def lifetime_of_def ms_ok_def
      ms_empty_def zero_time_def unix_epoch_def second_def minute_def)
  obtain s2 k2 where l: "st_load demo_store (unix_epoch + second) (Some (ck_value c)) ms_empty = (s2, k2)"
    "left_by demo_store demo_session s2" "s_base s2 = minute" "s_id s2 \<noteq> [] \<longrightarrow> False"
    using next_load [OF demo_ok(1) h(1) demo_ok(2) h(2) _ h(4,3) c h(5)] by (auto simp: demo_ok)
  then have s2: "s_values s2 = [(''u'', 1)]" "s_next s2 = []" "s_lifetime s2 = 0" "\<not> s_passed s2" "\<not> s_lost s2"
    by (simp_all add: left_by_def go_div_def)
  obtain c' where c': "st_save demo_store False demo_draws (unix_epoch + second) (session_run [] s2) k2 = (Written c', k2)"
    using demo_save [OF s2] by (auto simp: session_run_def)
  obtain s3 k3 where l3: "st_load demo_store (unix_epoch + second) (Some (ck_value c')) k2 = (s3, k3)" by fastforce
  have "lookup (s_next demo_session) ''f'' = Some 7" "ids_apart demo_store demo_draws s2"
    "unix_epoch + second \<le> unix_epoch + second + lifetime_of (session_run [] s2)"
    using l(3,4) s2(3) by (simp_all add: ids_apart_def session_run_def lifetime_of_def less_imp_le)
  from flash_is_for_one_request [OF demo_ok(1) h(1) demo_ok(2) h(2) _ h(4) this(1) c h(5) l(1) _ c' demo_ok(2)
      this(2) order_refl this(3) l3] c l(1) c' l3
  show ?thesis by (auto simp: session_run_def)
qed

section \<open>The ID a session had\<close>

lemma additional_inj: "additional c i = additional c' i' \<longleftrightarrow> c = c' \<and> i = i'"
proof
  assume eq: "additional c i = additional c' i'"
  have first: "cut CHR '':'' (additional d j) = (itoa (int (length d)), d @ itoa (int (length j)) @ CHR '':'' # j, True)"
    for d j unfolding additional_def by (rule cut_found) simp
  have "(itoa (int (length c)), c @ itoa (int (length i)) @ CHR '':'' # i, True) =
      (itoa (int (length c')), c' @ itoa (int (length i')) @ CHR '':'' # i', True)"
    using eq first [of c i] first [of c' i'] by metis
  then have n: "length c = length c'"
    "c @ itoa (int (length i)) @ CHR '':'' # i = c' @ itoa (int (length i')) @ CHR '':'' # i'" by simp_all
  then have "c = c'" and r: "itoa (int (length i)) @ CHR '':'' # i = itoa (int (length i')) @ CHR '':'' # i'"
    by simp_all
  have "cut CHR '':'' (itoa (int (length j)) @ CHR '':'' # j) = (itoa (int (length j)), j, True)" for j
    by (rule cut_found) simp
  then have "(itoa (int (length i)), i, True) = (itoa (int (length i')), i', True)"
    using r by metis
  with \<open>c = c'\<close> show "c = c' \<and> i = i'" by simp
qed simp

text \<open>
  Once a session was given a new ID, as a login and a logout do, its old one opens nothing: after
  the response, where the values can be written as JSON, a request whose cookie carries the old ID has
  a session with no values, no flash and no ID, whatever was set before and since.
\<close>

theorem the_old_id_opens_nothing:
  assumes "st_keeper st = Some cache_memory_ops" "ms_ok k" "ms_now k \<le> t'"
    and "s_rotated s" "s_changed s" "\<not> s_lost s" "s_had s" "s_id s \<noteq> []" "ids_apart st dr s" "dr_id dr \<noteq> []"
    and json: "\<forall>p. st_marshal st p \<noteq> None"
    and save: "st_save st tls dr t s k = (out, k')"
    and old: "b64_decode text = Some sealed" "st_open st sealed (st_cookie st) = Some p" "p_id p = s_id s"
  shows "s_values (fst (st_load st t' (Some text) k')) = [] \<and> s_now (fst (st_load st t' (Some text) k')) = [] \<and>
    s_id (fst (st_load st t' (Some text) k')) = []"
proof -
  let ?old = "key_of st (s_id s)"
  have gone: "fst (ms_get ?old t' k') = None" if "ms_view k' ?old t' = None"
    using that by (auto simp: ms_get_def ms_view_def Let_def split: option.splits if_splits)
  define s' where "s' = (if s_passed s then reflash s else s)"
  have s': "s_id s' = s_id s" "s_rotated s'" "s_changed s'" "\<not> s_lost s'" "s_had s'"
    using assms(4-7) by (simp_all add: s'_def reflash_def)
  have "ms_view k' ?old t' = None"
  proof (cases "s_values s' = [] \<and> s_next s' = []")
    case True
    then have "k' = ms_delete ?old k"
      using save assms(1,5,8) s' by (auto simp: st_save_def st_forget_def s'_def [symmetric] Let_def split: if_splits)
    then show ?thesis by (simp add: ms_view_def ms_delete_def)
  next
    case False
    let ?l = "if 0 < s_lifetime s' then s_lifetime s' else st_lifetime st"
    obtain b s1 k1 where keep: "st_keep st cache_memory_ops dr t s' (payload_of s' (t + ?l)) (t + ?l) k = (b, s1, k1)"
      by (metis prod_cases3)
    have k': "k' = k1"
      using save keep assms(1,5) s'(4) False
      by (cases b) (auto simp: st_save_def s'_def [symmetric] Let_def split: if_splits)
    have "dr_id dr \<noteq> s_id s" using assms(8,9) by (auto simp: ids_apart_def)
    moreover obtain sealed where "st_seal st (dr_row dr) ((payload_of s' (t + ?l))\<lparr>p_wrote := unix t\<rparr>)
        (additional (st_cookie st) (dr_id dr)) = Some sealed"
    proof -
      obtain plain where "st_marshal st ((payload_of s' (t + ?l))\<lparr>p_wrote := unix t\<rparr>) = Some plain"
        using json by blast
      then show ?thesis by (intro that) (simp add: st_seal_def)
    qed
    ultimately have "k1 = ms_delete ?old (ms_set (key_of st (dr_id dr)) sealed (t + ?l + refresh) k)"
      using keep s'(1,2,3) assms(8) by (auto simp: st_keep_def Let_def)
    then show ?thesis using k' by (simp add: ms_view_def ms_delete_def)
  qed
  then have "fst (st_read st cache_memory_ops t' s0 (s_id s) k') = s0" for s0
    using gone by (cases "ms_get ?old t' k'") (auto simp: st_read_def)
  then show ?thesis
    using old assms(1,8) by (simp add: st_load_def new_session_def Let_def)
qed

theorem the_old_id_opens_nothing_witness:
  "let st = demo_store\<lparr>st_keeper := Some cache_memory_ops, st_marshal := (\<lambda>p. Some ''x''),
         st_unmarshal := (\<lambda>t. Some \<lparr>p_id = ''old'', p_values = [], p_flash = [], p_expires = 0, p_lifetime = 0, p_wrote = 0\<rparr>)\<rparr>;
       s = (rotate_id demo_session)\<lparr>s_id := ''old'', s_had := True\<rparr>
   in s_values (fst (st_load st 0 (Some (b64_encode ''thirteen bytes'')) (snd (st_save st False demo_draws 0 s ms_empty)))) = []"
proof -
  let ?st = "demo_store\<lparr>st_keeper := Some cache_memory_ops, st_marshal := (\<lambda>p. Some ''x''),
         st_unmarshal := (\<lambda>t. Some \<lparr>p_id = ''old'', p_values = [], p_flash = [], p_expires = 0, p_lifetime = 0, p_wrote = 0\<rparr>)\<rparr>"
  let ?s = "(rotate_id demo_session)\<lparr>s_id := ''old'', s_had := True\<rparr>"
  obtain out k' where save: "st_save ?st False demo_draws 0 ?s ms_empty = (out, k')" by fastforce
  have "ms_ok ms_empty" "ms_now ms_empty \<le> 0" "ids_apart ?st demo_draws ?s" "dr_id demo_draws \<noteq> []"
    by (simp_all add: ms_ok_def ms_empty_def zero_time_def ids_apart_def key_of_def demo_store_def demo_draws_def)
  moreover have "st_open ?st ''thirteen bytes'' (st_cookie ?st) =
      Some \<lparr>p_id = ''old'', p_values = [], p_flash = [], p_expires = 0, p_lifetime = 0, p_wrote = 0\<rparr>"
    by (simp add: st_open_def demo_store_def nonce_size_def)
  ultimately have "s_values (fst (st_load ?st 0 (Some (b64_encode ''thirteen bytes'')) k')) = []"
    using the_old_id_opens_nothing [OF _ _ _ _ _ _ _ _ _ _ _ save b64_decode_encode]
    by (simp add: rotate_id_def)
  with save show ?thesis by (simp add: Let_def)
qed

section \<open>A session that ends before its cookie\<close>

text \<open>
  The row a keeper holds outlasts the cookie of the response that wrote it, but the payload sealed in
  the row says when that cookie expired, and a later response that left the row as it was, within the
  minute, gave the browser a cookie that lasts longer. In the time between the two, the browser's
  cookie is good, the keeper still holds the row, and the request is given an empty session.
\<close>

lemma a_kept_session_ends_before_its_cookie:
  assumes "sealing st" and keeper: "st_keeper st = Some cache_memory_ops" and "ms_ok k" "ms_now k \<le> t + 59 * second"
    and "draws_ok dr" "ids_apart st dr s" "\<not> s_passed s" "s_base s = st_lifetime st" "s_changed s" "s_next s = []"
    and "s_values s \<noteq> []" "t = of_unix n" "59 * second \<le> lifetime_of s"
    and save: "st_save st tls dr t s k = (Written c, k')"
    and load: "st_load st (t + 59 * second) (Some (ck_value c)) k' = (s1, k1)"
    and save1: "st_save st tls' dr' (t + 59 * second) s1 k1 = (Written c1, k2)" "draws_ok dr'"
    and u: "unix (t + lifetime_of s) < unix u" "u < t + 59 * second + lifetime_of s" and "0 < t"
  shows "s_values s1 \<noteq> [] \<and> fst (ms_get (key_of st (s_id s1)) u k2) \<noteq> None \<and>
    s_values (fst (st_load st u (Some (ck_value c1)) k2)) = []"
proof -
  let ?t1 = "t + 59 * second"
  have "\<exists>s' k'' sealed p. st_load st ?t1 (Some (ck_value c)) k' = (s', k'') \<and> left_by st s s' \<and>
    s_id s' \<noteq> [] \<and> s_wrote s' = of_unix (unix t) \<and> \<not> s_rotated s' \<and> s_base s' = st_lifetime st \<and>
    ms_ok k'' \<and> ms_now k'' = ?t1 \<and>
    (\<forall>u. ?t1 \<le> u \<longrightarrow> u < t + lifetime_of s + refresh \<longrightarrow> ms_view k'' (key_of st (s_id s')) u = Some sealed) \<and>
    st_open st sealed (additional (st_cookie st) (s_id s')) = Some p \<and> p_expires p = unix (t + lifetime_of s)"
    using assms(6,9,13)
    by (intro mem_cache.keeper.load_left_kept [OF assms(1) keeper assms(5,7,8) _ assms(3,4) save])
      (auto simp: ids_apart_def memory_never_fails)
  then obtain sealed p where s1: "left_by st s s1" "s_id s1 \<noteq> []" "s_wrote s1 = of_unix (unix t)" "\<not> s_rotated s1"
    "s_base s1 = st_lifetime st"
    and row: "\<forall>u. ?t1 \<le> u \<longrightarrow> u < t + lifetime_of s + refresh \<longrightarrow> ms_view k1 (key_of st (s_id s1)) u = Some sealed"
      "st_open st sealed (additional (st_cookie st) (s_id s1)) = Some p" "p_expires p = unix (t + lifetime_of s)"
    using load by auto
  have wrote: "s_wrote s1 = t" using s1(3) assms(12) by (simp add: of_unix_def unix_def)
  note L = s1(1) [unfolded left_by_def]
  have vals: "s_values s1 \<noteq> []" using L assms(11) by simp
  let ?l = "if 0 < s_lifetime s1 then s_lifetime s1 else st_lifetime st"
  have skip: "st_keep st cache_memory_ops dr' ?t1 s1 p' e k1 = (True, s1, k1)" for p' e
    using s1(2,4) L wrote assms(10,20) by (simp add: st_keep_def refresh_def minute_def second_def zero_time_def)
  have w: "write_cookie st tls' (dr_cookie dr') \<lparr>p_id = s_id s1, p_values = [], p_flash = [],
      p_expires = unix (?t1 + ?l), p_lifetime = go_div (s_lifetime s1) second, p_wrote = 0\<rparr> ?l = Written c1" "k2 = k1"
    using save1(1) vals L keeper by (simp_all add: st_save_def skip Let_def payload_of_def)
  obtain sealed' where o: "b64_decode (ck_value c1) = Some sealed'" "st_open st sealed' (st_cookie st) =
      Some \<lparr>p_id = s_id s1, p_values = [], p_flash = [], p_expires = unix (?t1 + ?l),
        p_lifetime = go_div (s_lifetime s1) second, p_wrote = 0\<rparr>"
    using written_cookie [OF assms(1) _ w(1)] save1(2) by (auto simp: draws_ok_def)
  have later: "?t1 \<le> u" "u < t + lifetime_of s + refresh"
  proof -
    have "t + lifetime_of s < u" using u(1) unix_mono [of u "t + lifetime_of s"] by linarith
    then show "?t1 \<le> u" using assms(13) by simp
    show "u < t + lifetime_of s + refresh" using u(2) by (simp add: refresh_def minute_def second_def)
  qed
  then have view: "ms_view k2 (key_of st (s_id s1)) u = Some sealed" using row(1) w(2) by simp
  then obtain k3 where g: "ms_get (key_of st (s_id s1)) u k2 = (Some sealed, k3)"
    by (auto simp: ms_get_def ms_view_def Let_def split: option.splits if_splits)
  have "fst (st_read st cache_memory_ops u s0 (s_id s1) k2) = s0" for s0
    using g row(2,3) u(1) by (simp add: st_read_def)
  then have "s_values (fst (st_load st u (Some (ck_value c1)) k2)) = []"
    using o keeper s1(2) by (simp add: st_load_def new_session_def Let_def)
  with vals g show ?thesis by simp
qed

end
