(* ===== verification/Cron.thy ===== *)
theory Cron
  imports Go_Prelude
begin

text \<open>
  The schedules of package queue (queue/schedule.go): the parsing of cron expressions, the search for
  the next minute one matches on a clock, Every, and the zones whose clocks go forward and back.

  A time on a clock is a \<open>clock\<close>: its date and its minute, in the Gregorian calendar, as package time
  reads one in UTC. The search moves from one to a later one as \<open>time.Date\<close>, which carries a 13th month
  or a 32nd day over, and \<open>Add\<close> do.
\<close>

unbundle bit_operations_syntax

section \<open>The calendar\<close>

record clock =
  c_year :: int
  c_month :: nat
  c_day :: nat
  c_hour :: nat
  c_minute :: nat

definition leap :: "int \<Rightarrow> bool" where
  "leap y \<longleftrightarrow> y mod 4 = 0 \<and> (y mod 100 \<noteq> 0 \<or> y mod 400 = 0)"

definition days_in :: "int \<Rightarrow> nat \<Rightarrow> nat" where
  "days_in y m = (if m = 2 then if leap y then 29 else 28 else if m \<in> {4, 6, 9, 11} then 30 else 31)"

definition clock_ok :: "clock \<Rightarrow> bool" where
  "clock_ok t \<longleftrightarrow> 1 \<le> c_month t \<and> c_month t \<le> 12 \<and> 1 \<le> c_day t \<and>
     c_day t \<le> days_in (c_year t) (c_month t) \<and> c_hour t < 24 \<and> c_minute t < 60"

text \<open>The days from January 1 of year 1, a Monday, to the start of a year, and to a date.\<close>

definition days_before_year :: "int \<Rightarrow> int" where
  "days_before_year y = 365 * (y - 1) + (y - 1) div 4 - (y - 1) div 100 + (y - 1) div 400"

definition days_before_month :: "int \<Rightarrow> nat \<Rightarrow> int" where
  "days_before_month y m = int (sum_list (map (days_in y) [1..<m]))"

definition day_number :: "clock \<Rightarrow> int" where
  "day_number t = days_before_year (c_year t) + days_before_month (c_year t) (c_month t) + int (c_day t) - 1"

text \<open>\<open>Weekday\<close>: Sunday is 0.\<close>

definition weekday :: "clock \<Rightarrow> nat" where
  "weekday t = nat ((day_number t + 1) mod 7)"

definition next_month :: "clock \<Rightarrow> clock" where
  "next_month t =
     (if c_month t = 12 then \<lparr>c_year = c_year t + 1, c_month = 1, c_day = 1, c_hour = 0, c_minute = 0\<rparr>
      else \<lparr>c_year = c_year t, c_month = c_month t + 1, c_day = 1, c_hour = 0, c_minute = 0\<rparr>)"

definition next_day :: "clock \<Rightarrow> clock" where
  "next_day t =
     (if c_day t = days_in (c_year t) (c_month t) then next_month t
      else t\<lparr>c_day := c_day t + 1, c_hour := 0, c_minute := 0\<rparr>)"

definition next_hour :: "clock \<Rightarrow> clock" where
  "next_hour t = (if c_hour t = 23 then next_day t else t\<lparr>c_hour := c_hour t + 1, c_minute := 0\<rparr>)"

definition next_minute :: "clock \<Rightarrow> clock" where
  "next_minute t = (if c_minute t = 59 then next_hour t else t\<lparr>c_minute := c_minute t + 1\<rparr>)"

text \<open>Before, on a clock.\<close>

definition earlier :: "clock \<Rightarrow> clock \<Rightarrow> bool" where
  "earlier t u \<longleftrightarrow>
     c_year t < c_year u \<or> c_year t = c_year u \<and> (c_month t < c_month u \<or> c_month t = c_month u \<and>
       (c_day t < c_day u \<or> c_day t = c_day u \<and> (c_hour t < c_hour u \<or> c_hour t = c_hour u \<and>
          c_minute t < c_minute u)))"

lemma earlier_trans: "earlier t u \<Longrightarrow> earlier u v \<Longrightarrow> earlier t v"
  by (auto simp: earlier_def)

lemma earlier_irrefl [simp]: "\<not> earlier t t"
  by (simp add: earlier_def)

lemma earlier_linear: "\<not> earlier t u \<Longrightarrow> t \<noteq> u \<Longrightarrow> earlier u t"
  by (cases t; cases u) (auto simp: earlier_def)

lemma days_in_pos [simp]: "0 < days_in y m" "Suc 0 \<le> days_in y m"
  by (simp_all add: days_in_def Suc_le_eq)

lemma next_ok [simp]:
  "clock_ok t \<Longrightarrow> clock_ok (next_month t)" "clock_ok t \<Longrightarrow> clock_ok (next_day t)"
  "clock_ok t \<Longrightarrow> clock_ok (next_hour t)" "clock_ok t \<Longrightarrow> clock_ok (next_minute t)"
  by (auto simp: next_minute_def next_hour_def next_day_def next_month_def clock_ok_def)

lemma next_later [simp]:
  "clock_ok t \<Longrightarrow> earlier t (next_month t)" "clock_ok t \<Longrightarrow> earlier t (next_day t)"
  "clock_ok t \<Longrightarrow> earlier t (next_hour t)" "clock_ok t \<Longrightarrow> earlier t (next_minute t)"
  by (auto simp: next_minute_def next_hour_def next_day_def next_month_def earlier_def)

text \<open>What lies between a clock and the one it moves to.\<close>

lemma before_next_month:
  "clock_ok t \<Longrightarrow> clock_ok u \<Longrightarrow> \<not> earlier u t \<Longrightarrow> earlier u (next_month t) \<Longrightarrow>
   c_year u = c_year t \<and> c_month u = c_month t"
  by (auto simp: next_month_def earlier_def clock_ok_def split: if_splits)

lemma before_next_day:
  assumes "clock_ok t" "clock_ok u" "\<not> earlier u t" "earlier u (next_day t)"
  shows "c_year u = c_year t \<and> c_month u = c_month t \<and> c_day u = c_day t"
proof (cases "c_day t = days_in (c_year t) (c_month t)")
  case True
  then have "c_year u = c_year t \<and> c_month u = c_month t"
    using assms before_next_month [of t u] by (simp add: next_day_def)
  with True assms(2,3) show ?thesis by (auto simp: earlier_def clock_ok_def)
next
  case False
  with assms show ?thesis by (auto simp: next_day_def earlier_def)
qed

lemma before_next_hour:
  assumes "clock_ok t" "clock_ok u" "\<not> earlier u t" "earlier u (next_hour t)"
  shows "c_year u = c_year t \<and> c_month u = c_month t \<and> c_day u = c_day t \<and> c_hour u = c_hour t"
proof (cases "c_hour t = 23")
  case True
  then have "c_year u = c_year t \<and> c_month u = c_month t \<and> c_day u = c_day t"
    using assms before_next_day [of t u] by (simp add: next_hour_def)
  with True assms(2,3) show ?thesis by (auto simp: earlier_def clock_ok_def)
next
  case False
  with assms show ?thesis by (auto simp: next_hour_def earlier_def)
qed

lemma before_next_minute:
  assumes "clock_ok t" "clock_ok u" "\<not> earlier u t" "earlier u (next_minute t)"
  shows "u = t"
proof (cases "c_minute t = 59")
  case True
  then have "c_year u = c_year t \<and> c_month u = c_month t \<and> c_day u = c_day t \<and> c_hour u = c_hour t"
    using assms before_next_hour [of t u] by (simp add: next_minute_def)
  with True assms(2,3) show ?thesis by (auto simp: earlier_def clock_ok_def)
next
  case False
  with assms show ?thesis by (auto simp: next_minute_def earlier_def)
qed

section \<open>Expressions\<close>

record cron =
  cr_minute :: "64 word"
  cr_hour :: "64 word"
  cr_dom :: "64 word"
  cr_month :: "64 word"
  cr_dow :: "64 word"
  cr_dom_star :: bool
  cr_dow_star :: bool
  cr_minute_star :: bool
  cr_hour_star :: bool

record cron_field =
  cf_name :: string
  cf_min :: int
  cf_max :: int
  cf_names :: "string list"

datatype cron_error =
  Field_count nat | Backwards string string | Bad_step string string | Bad_value string string |
  Never_comes_round | Negative_shift

definition cron_fields :: "cron_field list" where
  "cron_fields =
     [\<lparr>cf_name = ''minute'', cf_min = 0, cf_max = 59, cf_names = []\<rparr>,
      \<lparr>cf_name = ''hour'', cf_min = 0, cf_max = 23, cf_names = []\<rparr>,
      \<lparr>cf_name = ''day of the month'', cf_min = 1, cf_max = 31, cf_names = []\<rparr>,
      \<lparr>cf_name = ''month'', cf_min = 1, cf_max = 12,
        cf_names = [''JAN'', ''FEB'', ''MAR'', ''APR'', ''MAY'', ''JUN'', ''JUL'', ''AUG'', ''SEP'', ''OCT'', ''NOV'', ''DEC'']\<rparr>,
      \<lparr>cf_name = ''day of the week'', cf_min = 0, cf_max = 7,
        cf_names = [''SUN'', ''MON'', ''TUE'', ''WED'', ''THU'', ''FRI'', ''SAT'']\<rparr>]"

definition cron_macros :: "(string, string) gomap" where
  "cron_macros =
     [(''@yearly'', ''0 0 1 1 *''), (''@annually'', ''0 0 1 1 *''), (''@monthly'', ''0 0 1 * *''),
      (''@weekly'', ''0 0 * * 0''), (''@daily'', ''0 0 * * *''), (''@midnight'', ''0 0 * * *''),
      (''@hourly'', ''0 * * * *'')]"

definition digits :: "string \<Rightarrow> bool" where
  "digits s \<longleftrightarrow> s \<noteq> [] \<and> list_all is_digit s"

fun name_index :: "string \<Rightarrow> string list \<Rightarrow> int \<Rightarrow> int option" where
  "name_index s [] i = None"
| "name_index s (n # ns) i = (if to_lower s = to_lower n then Some i else name_index s ns (i + 1))"

definition cf_value :: "cron_field \<Rightarrow> string \<Rightarrow> cron_error + int" where
  "cf_value f s =
     (case name_index s (cf_names f) (cf_min f) of
        Some v \<Rightarrow> Inr v
      | None \<Rightarrow>
          (case atoi s of
             None \<Rightarrow> Inl (Bad_value (cf_name f) s)
           | Some n \<Rightarrow>
               if \<not> digits s \<or> n < cf_min f \<or> cf_max f < n then Inl (Bad_value (cf_name f) s) else Inr n))"

text \<open>
  The loop that sets an item's bits. A step near the end of \<open>int\<close> takes \<open>v\<close> past it, to a negative
  number no greater than \<open>hi\<close>, and shifting by that panics.
\<close>

function set_bits :: "int \<Rightarrow> int \<Rightarrow> int \<Rightarrow> 64 word \<Rightarrow> cron_error + 64 word" where
  "set_bits v hi step bits =
     (if hi < v \<or> step < 1 then Inr bits
      else if v + step > max_int then Inl Negative_shift
      else set_bits (v + step) hi step (bits OR push_bit (nat v) 1))"
  by pat_completeness auto
termination
  by (relation "measure (\<lambda>(v, hi, step, bits). nat (hi + 1 - v))") auto

declare set_bits.simps [simp del]

text \<open>
  What an item of a list says: from where, to where and by what step, in its span and after its slash,
  if it has one. "5/15" is from 5 on.
\<close>

definition item_span :: "cron_field \<Rightarrow> string \<Rightarrow> bool \<Rightarrow> cron_error + int \<times> int" where
  "item_span f span stepped =
     (if span = ''*'' then Inr (cf_min f, cf_max f)
      else let (from, to, ranged) = cut CHR ''-'' span
           in case cf_value f from of
                Inl e \<Rightarrow> Inl e
              | Inr lo \<Rightarrow>
                  if ranged then
                    (case cf_value f to of
                       Inl e \<Rightarrow> Inl e
                     | Inr hi \<Rightarrow> if hi < lo then Inl (Backwards (cf_name f) span) else Inr (lo, hi))
                  else if \<not> stepped then Inr (lo, lo) else Inr (lo, cf_max f))"

definition item_range :: "cron_field \<Rightarrow> string \<Rightarrow> cron_error + int \<times> int \<times> int" where
  "item_range f item =
     (let (span, step, stepped) = cut CHR ''/'' item
      in case item_span f span stepped of
           Inl e \<Rightarrow> Inl e
         | Inr (lo, hi) \<Rightarrow>
             if \<not> stepped then Inr (lo, hi, 1)
             else (case atoi step of
                     None \<Rightarrow> Inl (Bad_step (cf_name f) step)
                   | Some n \<Rightarrow>
                       if n < 1 \<or> \<not> digits step then Inl (Bad_step (cf_name f) step) else Inr (lo, hi, n)))"

definition item_bits :: "cron_field \<Rightarrow> string \<Rightarrow> 64 word \<Rightarrow> cron_error + 64 word" where
  "item_bits f item bits =
     (case item_range f item of Inl e \<Rightarrow> Inl e | Inr (lo, hi, step) \<Rightarrow> set_bits lo hi step bits)"

fun items_bits :: "cron_field \<Rightarrow> string list \<Rightarrow> 64 word \<Rightarrow> cron_error + 64 word" where
  "items_bits f [] bits = Inr bits"
| "items_bits f (item # rest) bits =
     (case item_bits f item bits of Inl e \<Rightarrow> Inl e | Inr bits' \<Rightarrow> items_bits f rest bits')"

definition cf_parse :: "cron_field \<Rightarrow> string \<Rightarrow> cron_error + 64 word" where
  "cf_parse f s = items_bits f (split_on CHR '','' s) 0"

text \<open>\<open>strings.Fields\<close>.\<close>

function fields_from :: "string \<Rightarrow> string \<Rightarrow> string list" where
  "fields_from cur s =
     (if s = [] then (if cur = [] then [] else [rev cur])
      else if 0 < prefix_len white_space s then
        (if cur = [] then [] else [rev cur]) @ fields_from [] (drop (prefix_len white_space s) s)
      else fields_from (hd s # cur) (tl s))"
  by pat_completeness auto
termination
  by (relation "measure (\<lambda>(cur, s). length s)") auto

declare fields_from.simps [simp del]

definition bit_of :: "64 word \<Rightarrow> nat \<Rightarrow> bool" where
  "bit_of w n \<longleftrightarrow> w AND push_bit n 1 \<noteq> 0"

definition sunday :: "64 word \<Rightarrow> 64 word" where
  "sunday dow = (if bit_of dow 7 then dow AND NOT (push_bit 7 1) OR 1 else dow)"

definition cron_day :: "cron \<Rightarrow> clock \<Rightarrow> bool" where
  "cron_day c t =
     (let dm = bit_of (cr_dom c) (c_day t); dow = bit_of (cr_dow c) (weekday t)
      in if cr_dom_star c \<or> cr_dow_star c then dm \<and> dow else dm \<or> dow)"

definition cron_matches :: "cron \<Rightarrow> clock \<Rightarrow> bool" where
  "cron_matches c t \<longleftrightarrow> bit_of (cr_month c) (c_month t) \<and> cron_day c t \<and>
     bit_of (cr_hour c) (c_hour t) \<and> bit_of (cr_minute c) (c_minute t)"

section \<open>The search for the next time\<close>

definition clock_measures :: "((cron \<times> int \<times> clock) \<times> (cron \<times> int \<times> clock)) set" where
  "clock_measures = measures [\<lambda>(c, limit, t). nat (limit + 1 - c_year t), \<lambda>(c, limit, t). 13 - c_month t,
    \<lambda>(c, limit, t). 32 - c_day t, \<lambda>(c, limit, t). 24 - c_hour t, \<lambda>(c, limit, t). 60 - c_minute t]"

lemma days_in_most: "days_in y m \<le> 31"
  by (simp add: days_in_def)

lemma clock_later_measures:
  assumes "clock_ok t1" "earlier t t1" "clock_ok t" "c_year t \<le> limit"
  shows "((c, limit, t1), c, limit, t) \<in> clock_measures"
proof -
  have "c_day t \<le> 31" "c_day t1 \<le> 31"
    using assms(1,3) days_in_most le_trans unfolding clock_ok_def by blast+
  with assms show ?thesis by (auto simp: clock_measures_def earlier_def clock_ok_def)
qed

text \<open>The loop of \<open>clockAfter\<close>. It is over once the year is past \<open>limit\<close>.\<close>

function clock_loop :: "cron \<Rightarrow> int \<Rightarrow> clock \<Rightarrow> clock option" where
  "clock_loop c limit t =
     (if limit < c_year t \<or> \<not> clock_ok t then None
      else if \<not> bit_of (cr_month c) (c_month t) then clock_loop c limit (next_month t)
      else if \<not> cron_day c t then clock_loop c limit (next_day t)
      else if \<not> bit_of (cr_hour c) (c_hour t) then clock_loop c limit (next_hour t)
      else if \<not> bit_of (cr_minute c) (c_minute t) then clock_loop c limit (next_minute t)
      else Some t)"
  by pat_completeness auto
termination
proof (relation "clock_measures", goal_cases)
  case 1
  show ?case by (simp add: clock_measures_def)
qed (auto intro: clock_later_measures)

declare clock_loop.simps [simp del]

definition clock_after :: "cron \<Rightarrow> clock \<Rightarrow> clock option" where
  "clock_after c w = (let t = next_minute w in clock_loop c (c_year t + 8) t)"

definition parse_cron :: "string \<Rightarrow> cron_error + cron" where
  "parse_cron expr =
     (let trimmed = trim_space expr;
          parts = fields_from []
            (case lookup cron_macros (to_lower trimmed) of Some m \<Rightarrow> m | None \<Rightarrow> trimmed);
          field = (\<lambda>i. cf_parse (cron_fields ! i) (parts ! i))
      in if length parts \<noteq> 5 then Inl (Field_count (length parts))
         else case field 0 of Inl e \<Rightarrow> Inl e | Inr mi \<Rightarrow>
             (case field 1 of Inl e \<Rightarrow> Inl e | Inr ho \<Rightarrow>
             (case field 2 of Inl e \<Rightarrow> Inl e | Inr dm \<Rightarrow>
             (case field 3 of Inl e \<Rightarrow> Inl e | Inr mo \<Rightarrow>
             (case field 4 of Inl e \<Rightarrow> Inl e | Inr dow \<Rightarrow>
                let c = \<lparr>cr_minute = mi, cr_hour = ho, cr_dom = dm, cr_month = mo, cr_dow = sunday dow,
                          cr_dom_star = has_prefix (parts ! 2) ''*'', cr_dow_star = has_prefix (parts ! 4) ''*'',
                          cr_minute_star = has_prefix (parts ! 0) ''*'', cr_hour_star = has_prefix (parts ! 1) ''*''\<rparr>
                in if clock_after c \<lparr>c_year = 2024, c_month = 1, c_day = 1, c_hour = 0, c_minute = 0\<rparr> = None
                   then Inl Never_comes_round else Inr c)))))"

lemma clock_loop_first:
  assumes "clock_ok t"
  shows "case clock_loop c limit t of
      Some t' \<Rightarrow> clock_ok t' \<and> \<not> earlier t' t \<and> cron_matches c t' \<and> c_year t' \<le> limit \<and>
        (\<forall>u. clock_ok u \<longrightarrow> \<not> earlier u t \<longrightarrow> earlier u t' \<longrightarrow> \<not> cron_matches c u)
    | None \<Rightarrow> \<forall>u. clock_ok u \<longrightarrow> \<not> earlier u t \<longrightarrow> c_year u \<le> limit \<longrightarrow> \<not> cron_matches c u"
  using assms
proof (induction c limit t rule: clock_loop.induct)
  case (1 c limit t)
  note ok = 1(5)
  define skip where "skip = (if \<not> bit_of (cr_month c) (c_month t) then Some (next_month t)
     else if \<not> cron_day c t then Some (next_day t)
     else if \<not> bit_of (cr_hour c) (c_hour t) then Some (next_hour t)
     else if \<not> bit_of (cr_minute c) (c_minute t) then Some (next_minute t) else None)"
  show ?case
  proof (cases "limit < c_year t")
    case True
    then have "clock_loop c limit t = None" by (simp add: clock_loop.simps)
    moreover have "c_year u \<le> limit \<Longrightarrow> earlier u t" for u using True by (simp add: earlier_def)
    ultimately show ?thesis by auto
  next
    case False
    show ?thesis
    proof (cases skip)
      case None
      then have "cron_matches c t" by (auto simp: skip_def cron_matches_def split: if_splits)
      moreover have "clock_loop c limit t = Some t"
        using None False ok by (subst clock_loop.simps) (auto simp: skip_def split: if_splits)
      ultimately show ?thesis using ok False by auto
    next
      case (Some t1)
      have r: "clock_loop c limit t = clock_loop c limit t1"
        using Some False ok by (subst clock_loop.simps) (auto simp: skip_def split: if_splits)
      have t1: "clock_ok t1" "earlier t t1"
        using Some ok by (auto simp: skip_def split: if_splits)
      have gap: "\<not> cron_matches c u" if "clock_ok u" "\<not> earlier u t" "earlier u t1" for u
      proof
        assume m: "cron_matches c u"
        from Some consider "\<not> bit_of (cr_month c) (c_month t)" "t1 = next_month t"
          | "\<not> cron_day c t" "t1 = next_day t" | "\<not> bit_of (cr_hour c) (c_hour t)" "t1 = next_hour t"
          | "\<not> bit_of (cr_minute c) (c_minute t)" "t1 = next_minute t"
          by (auto simp: skip_def split: if_splits)
        then show False
        proof cases
          case 1
          with before_next_month [OF ok that(1,2)] that(3) m show ?thesis by (simp add: cron_matches_def)
        next
          case 2
          then have "c_year u = c_year t \<and> c_month u = c_month t \<and> c_day u = c_day t"
            using before_next_day [OF ok that(1,2)] that(3) by simp
          then have "cron_day c u = cron_day c t" by (simp add: cron_day_def weekday_def day_number_def)
          with 2 m show ?thesis by (simp add: cron_matches_def)
        next
          case 3
          with before_next_hour [OF ok that(1,2)] that(3) m show ?thesis by (simp add: cron_matches_def)
        next
          case 4
          with before_next_minute [OF ok that(1,2)] that(3) m show ?thesis by (simp add: cron_matches_def)
        qed
      qed
      have IH: "case clock_loop c limit t1 of
          Some t' \<Rightarrow> clock_ok t' \<and> \<not> earlier t' t1 \<and> cron_matches c t' \<and> c_year t' \<le> limit \<and>
            (\<forall>u. clock_ok u \<longrightarrow> \<not> earlier u t1 \<longrightarrow> earlier u t' \<longrightarrow> \<not> cron_matches c u)
        | None \<Rightarrow> \<forall>u. clock_ok u \<longrightarrow> \<not> earlier u t1 \<longrightarrow> c_year u \<le> limit \<longrightarrow> \<not> cron_matches c u"
        using Some False ok t1(1) 1(1-4) by (auto simp: skip_def split: if_splits)
      show ?thesis
      proof (cases "clock_loop c limit t1")
        case None
        with IH gap r show ?thesis by auto
      next
        case (Some t')
        then have t': "clock_ok t'" "\<not> earlier t' t1" "cron_matches c t'" "c_year t' \<le> limit"
          "\<forall>u. clock_ok u \<longrightarrow> \<not> earlier u t1 \<longrightarrow> earlier u t' \<longrightarrow> \<not> cron_matches c u"
          using IH by simp_all
        have "\<not> earlier t' t" using t1(2) t'(2) earlier_trans by blast
        with t' gap r Some show ?thesis by auto
      qed
    qed
  qed
qed

lemma not_earlier_next_minute:
  assumes "clock_ok w" "clock_ok u"
  shows "\<not> earlier u (next_minute w) \<longleftrightarrow> earlier w u"
  using before_next_minute [OF assms] next_later(4) [OF assms(1)] earlier_trans earlier_linear earlier_irrefl
  by metis

lemma clock_after_Some:
  assumes "clock_ok w" "clock_after c w = Some t"
  shows "clock_ok t \<and> earlier w t \<and> cron_matches c t"
proof -
  have ok: "clock_ok (next_minute w)" using assms(1) by simp
  have "clock_loop c (c_year (next_minute w) + 8) (next_minute w) = Some t"
    using assms(2) by (simp add: clock_after_def Let_def)
  with clock_loop_first [OF ok, where c = c and limit = "c_year (next_minute w) + 8"]
  have "clock_ok t \<and> \<not> earlier t (next_minute w) \<and> cron_matches c t" by simp
  with not_earlier_next_minute [OF assms(1)] show ?thesis by blast
qed

text \<open>
  C14. The search finds the first time an expression matches: of the minutes after a time on the clock,
  the one returned matches, none before it does, and where none is returned, none to the end of the
  eighth year after matches; so no run is missed, or made twice, by the months, days and hours the
  search skips.
\<close>

theorem cron_next_is_the_first_match:
  assumes "clock_ok w"
  shows "case clock_after c w of
      Some t \<Rightarrow> clock_ok t \<and> earlier w t \<and> cron_matches c t \<and>
        (\<forall>u. clock_ok u \<and> earlier w u \<and> earlier u t \<longrightarrow> \<not> cron_matches c u)
    | None \<Rightarrow> \<forall>u. clock_ok u \<and> earlier w u \<and> c_year u \<le> c_year (next_minute w) + 8 \<longrightarrow> \<not> cron_matches c u"
proof -
  have ok: "clock_ok (next_minute w)" using assms by simp
  note first = clock_loop_first [OF ok, where c = c and limit = "c_year (next_minute w) + 8"]
  have r: "clock_after c w = clock_loop c (c_year (next_minute w) + 8) (next_minute w)"
    by (simp add: clock_after_def Let_def)
  show ?thesis
    using first not_earlier_next_minute [OF assms] unfolding r by (auto split: option.splits)
qed


text \<open>One round of the search, for the runs of it that are worked out.\<close>

lemma bit_of_bit: "bit_of w n \<longleftrightarrow> bit w n"
  by (simp add: bit_of_def push_bit_of_1 and_exp_eq_0_iff_not_bit)

lemma clock_loop_moves:
  assumes "c_year t \<le> limit" "clock_ok t"
  shows "\<not> bit_of (cr_month c) (c_month t) \<Longrightarrow> clock_loop c limit t = clock_loop c limit (next_month t)"
    "bit_of (cr_month c) (c_month t) \<Longrightarrow> \<not> cron_day c t \<Longrightarrow> clock_loop c limit t = clock_loop c limit (next_day t)"
    "bit_of (cr_month c) (c_month t) \<Longrightarrow> cron_day c t \<Longrightarrow> \<not> bit_of (cr_hour c) (c_hour t) \<Longrightarrow>
      clock_loop c limit t = clock_loop c limit (next_hour t)"
    "bit_of (cr_month c) (c_month t) \<Longrightarrow> cron_day c t \<Longrightarrow> bit_of (cr_hour c) (c_hour t) \<Longrightarrow>
      \<not> bit_of (cr_minute c) (c_minute t) \<Longrightarrow> clock_loop c limit t = clock_loop c limit (next_minute t)"
    "cron_matches c t \<Longrightarrow> clock_loop c limit t = Some t"
  using assms by (subst clock_loop.simps; simp add: cron_matches_def)+

lemmas clock_evals = clock_loop_moves clock_after_def Let_def bit_of_bit clock_ok_def cron_matches_def cron_day_def weekday_def
  day_number_def days_before_year_def days_before_month_def days_in_def leap_def next_minute_def next_hour_def
  next_day_def next_month_def upt_rec

text \<open>2 2 * * *, at 2:02 each day.\<close>

definition demo_nightly :: cron where
  "demo_nightly = \<lparr>cr_minute = 4, cr_hour = 4, cr_dom = 4294967294, cr_month = 8190, cr_dow = 127,
     cr_dom_star = True, cr_dow_star = True, cr_minute_star = False, cr_hour_star = False\<rparr>"

theorem cron_next_is_the_first_match_witness:
  "clock_after demo_nightly \<lparr>c_year = 2024, c_month = 12, c_day = 31, c_hour = 23, c_minute = 57\<rparr> =
     Some \<lparr>c_year = 2025, c_month = 1, c_day = 1, c_hour = 2, c_minute = 2\<rparr> \<and>
   \<not> (\<exists>u. clock_ok u \<and> earlier \<lparr>c_year = 2024, c_month = 12, c_day = 31, c_hour = 23, c_minute = 57\<rparr> u \<and>
      earlier u \<lparr>c_year = 2025, c_month = 1, c_day = 1, c_hour = 2, c_minute = 2\<rparr> \<and> cron_matches demo_nightly u)"
proof -
  have r: "clock_after demo_nightly \<lparr>c_year = 2024, c_month = 12, c_day = 31, c_hour = 23, c_minute = 57\<rparr> =
     Some \<lparr>c_year = 2025, c_month = 1, c_day = 1, c_hour = 2, c_minute = 2\<rparr>"
    by (simp add: clock_evals demo_nightly_def)
  have "clock_ok \<lparr>c_year = 2024, c_month = 12, c_day = 31, c_hour = 23, c_minute = 57\<rparr>"
    by (simp add: clock_ok_def days_in_def)
  from cron_next_is_the_first_match [OF this, of demo_nightly] r show ?thesis by auto
qed

section \<open>What an expression says\<close>

lemma bit_of_or_push [simp]:
  "n < 64 \<Longrightarrow> m < 64 \<Longrightarrow> bit_of (w OR push_bit m 1) n \<longleftrightarrow> n = m \<or> bit_of w n"
  by (auto simp: bit_of_def bit_eq_iff bit_simps)

lemma bit_of_zero [simp]: "\<not> bit_of 0 n"
  by (simp add: bit_of_def)

lemma set_bits_says:
  assumes "set_bits v hi step bits = Inr bits'" "0 \<le> v" "hi < 64" "1 \<le> step" "n < 64"
  shows "bit_of bits' n \<longleftrightarrow> bit_of bits n \<or> v \<le> int n \<and> int n \<le> hi \<and> step dvd int n - v"
  using assms(1-4)
proof (induction v hi step bits rule: set_bits.induct)
  case (1 v hi step bits)
  show ?case
  proof (cases "hi < v")
    case True
    with 1(2) have "bits' = bits" by (simp add: set_bits.simps)
    with True show ?thesis by auto
  next
    case False
    with 1(2,5) have next_step: "set_bits (v + step) hi step (bits OR push_bit (nat v) 1) = Inr bits'"
      "\<not> v + step > max_int"
      by (simp_all add: set_bits.simps [of v] split: if_splits)
    have IH: "bit_of bits' n \<longleftrightarrow> bit_of (bits OR push_bit (nat v) 1) n \<or>
        v + step \<le> int n \<and> int n \<le> hi \<and> step dvd int n - (v + step)"
      using False 1(3-5) next_step by (intro 1(1)) auto
    have "nat v < 64" using False 1(3,4) by simp
    then have bits: "bit_of (bits OR push_bit (nat v) 1) n \<longleftrightarrow> int n = v \<or> bit_of bits n"
      using bit_of_or_push [OF assms(5) \<open>nat v < 64\<close>, of bits] 1(3) by (auto simp del: bit_of_or_push)
    have "step dvd int n - v \<longleftrightarrow> step dvd int n - (v + step)"
      by (metis diff_diff_eq dvd_diff_commute dvd_diff_right_iff dvd_refl)
    moreover have "step \<le> int n - v" if "v < int n" "step dvd int n - v"
      using that by (intro zdvd_imp_le) simp_all
    ultimately show ?thesis using IH bits False 1(5) by force
  qed
qed

lemma name_index_bounds:
  "name_index s ns i = Some v \<Longrightarrow> i \<le> v \<and> v < i + int (length ns)"
  by (induction ns arbitrary: i) (force split: if_splits)+

lemma cron_field_bounds:
  "f \<in> set cron_fields \<Longrightarrow> 0 \<le> cf_min f \<and> cf_max f < 64 \<and> cf_min f + int (length (cf_names f)) \<le> cf_max f + 1"
  by (auto simp: cron_fields_def)

lemma cf_value_bounds:
  assumes "f \<in> set cron_fields" "cf_value f s = Inr v"
  shows "cf_min f \<le> v \<and> v \<le> cf_max f"
  using assms(2) cron_field_bounds [OF assms(1)]
  by (auto simp: cf_value_def dest: name_index_bounds split: option.splits if_splits)

lemma item_range_bounds:
  assumes "f \<in> set cron_fields" "item_range f item = Inr (lo, hi, step)"
  shows "cf_min f \<le> lo \<and> hi \<le> cf_max f \<and> 1 \<le> step"
proof -
  obtain span st stepped where c: "cut CHR ''/'' item = (span, st, stepped)" by (metis prod_cases3)
  from assms(2) c have sp: "item_span f span stepped = Inr (lo, hi)" and step: "1 \<le> step"
    by (auto simp: item_range_def split: sum.splits prod.splits if_splits option.splits)
  obtain from' to ranged where d: "cut CHR ''-'' span = (from', to, ranged)" by (metis prod_cases3)
  have "cf_min f \<le> lo \<and> hi \<le> cf_max f"
    using sp d cf_value_bounds [OF assms(1)]
    by (auto simp: item_span_def split: if_splits sum.splits)
  with step show ?thesis by simp
qed

lemma items_bits_says:
  assumes "f \<in> set cron_fields" "items_bits f items bits = Inr bits'" "n < 64"
  shows "bit_of bits' n \<longleftrightarrow> bit_of bits n \<or> (\<exists>item \<in> set items. \<exists>lo hi step.
    item_range f item = Inr (lo, hi, step) \<and> lo \<le> int n \<and> int n \<le> hi \<and> step dvd int n - lo)"
  using assms(2)
proof (induction items arbitrary: bits)
  case (Cons item items)
  then obtain lo hi step b where r: "item_range f item = Inr (lo, hi, step)"
    and b: "set_bits lo hi step bits = Inr b" "items_bits f items b = Inr bits'"
    by (auto simp: item_bits_def split: sum.splits prod.splits)
  have "0 \<le> lo" "hi < 64" "1 \<le> step"
    using item_range_bounds [OF assms(1) r] cron_field_bounds [OF assms(1)] by auto
  from set_bits_says [OF b(1) this assms(3)] Cons.IH [OF b(2)] r show ?case by auto
qed simp

text \<open>
  A field of an expression means what it says: where it parses, a number is in the field exactly
  when some item of its list has it, between the item's first and last by its step, and every such
  number is one the field can have.
\<close>

theorem cron_field_says_its_numbers:
  assumes "f \<in> set cron_fields" "cf_parse f s = Inr bits" "n < 64"
  shows "(bit_of bits n \<longleftrightarrow> (\<exists>item \<in> set (split_on CHR '','' s). \<exists>lo hi step.
      item_range f item = Inr (lo, hi, step) \<and> lo \<le> int n \<and> int n \<le> hi \<and> step dvd int n - lo)) \<and>
    (bit_of bits n \<longrightarrow> cf_min f \<le> int n \<and> int n \<le> cf_max f)"
  using items_bits_says [OF assms(1) assms(2) [unfolded cf_parse_def] assms(3)]
    item_range_bounds [OF assms(1)] by fastforce

lemma weekdays_parse: "cf_parse (cron_fields ! 4) ''MON-5/2'' = Inr 42"
proof -
  have "item_range (cron_fields ! 4) ''MON-5/2'' = Inr (1, 5, 2)" by code_simp
  moreover have "split_on CHR '','' ''MON-5/2'' = [''MON-5/2'']" by code_simp
  ultimately show ?thesis by (simp add: cf_parse_def item_bits_def set_bits.simps max_int_def)
qed

theorem cron_field_says_its_numbers_witness:
  "cf_parse (cron_fields ! 4) ''MON-5/2'' = Inr 42 \<and> bit_of 42 3 \<and>
   (\<exists>item \<in> set (split_on CHR '','' ''MON-5/2''). \<exists>lo hi step.
      item_range (cron_fields ! 4) item = Inr (lo, hi, step) \<and> lo \<le> 3 \<and> 3 \<le> hi \<and> step dvd 3 - lo)"
  using cron_field_says_its_numbers [OF _ weekdays_parse, of 3] weekdays_parse
  by (simp add: cron_fields_def bit_of_bit)

text \<open>
  Finding: a step near the end of \<open>int\<close> is a whole number over 0, but adding it wraps around and the
  parse panics with a negative shift, not with what is wrong with the expression.
\<close>

lemma a_huge_step_overflows:
  "item_range (cron_fields ! 0) (''1/'' @ s) = Inr (1, 59, max_int) \<Longrightarrow>
   item_bits (cron_fields ! 0) (''1/'' @ s) 0 = Inl Negative_shift"
  by (simp add: item_bits_def set_bits.simps max_int_def)

end
