(* ===== verification/Cron_Zones.thy ===== *)
theory Cron_Zones
  imports Cron
begin

text \<open>
  A schedule on the clock of a zone, which goes forward and back (CronIn and nextIn of
  queue/schedule.go), and Every. Instants and clocks are turned into one another as package time does in
  UTC; the zone database is a parameter: the stretch of one offset an instant is in, with its start, its
  end and its offset, as \<open>ZoneBounds\<close> and \<open>Zone\<close> give them.
\<close>

section \<open>Clocks and instants\<close>

text \<open>Minutes since the start of year 1, as a clock counts them.\<close>

definition clock_number :: "clock \<Rightarrow> int" where
  "clock_number t = day_number t * 1440 + int (c_hour t) * 60 + int (c_minute t)"

definition year_at :: "int \<Rightarrow> int \<times> int" where
  "year_at n =
     (let n400 = n div 146097; r = n mod 146097; n100 = min 3 (r div 36524); r2 = r - n100 * 36524;
          n4 = r2 div 1461; r3 = r2 mod 1461; n1 = min 3 (r3 div 365)
      in (400 * n400 + 100 * n100 + 4 * n4 + n1 + 1, r3 - 365 * n1))"

fun month_at :: "int \<Rightarrow> nat \<Rightarrow> nat \<Rightarrow> nat \<Rightarrow> nat \<times> nat" where
  "month_at y m 0 d = (m, d + 1)"
| "month_at y m (Suc left) d = (if d < days_in y m then (m, d + 1) else month_at y (m + 1) left (d - days_in y m))"

definition clock_at :: "int \<Rightarrow> clock" where
  "clock_at n =
     (let (y, yday) = year_at (n div 1440); (m, d) = month_at y 1 11 (nat yday)
      in \<lparr>c_year = y, c_month = m, c_day = d, c_hour = nat (n mod 1440 div 60), c_minute = nat (n mod 60)\<rparr>)"

lemma days_before_year_cycles:
  assumes "0 \<le> b" "b \<le> 3" "0 \<le> c" "c \<le> 24" "0 \<le> d" "d \<le> 3"
  shows "days_before_year (400 * a + 100 * b + 4 * c + d + 1) = 146097 * a + 36524 * b + 1461 * c + 365 * d"
proof -
  let ?Y = "400 * a + 100 * b + 4 * c + d"
  have "?Y div 4 = 100 * a + 25 * b + c" using assms by (intro int_div_pos_eq [of _ _ _ d]) simp_all
  moreover have "?Y div 100 = 4 * a + b" using assms by (intro int_div_pos_eq [of _ _ _ "4 * c + d"]) simp_all
  moreover have "?Y div 400 = a" using assms by (intro int_div_pos_eq [of _ _ _ "100 * b + 4 * c + d"]) simp_all
  ultimately show ?thesis by (simp add: days_before_year_def)
qed

lemma year_at_ok:
  assumes "year_at n = (y, yday)"
  shows "n = days_before_year y + yday \<and> 0 \<le> yday \<and> yday < 365 + (if leap y then 1 else 0)"
proof -
  define a where "a = n div 146097"
  define r where "r = n mod 146097"
  define b where "b = min 3 (r div 36524)"
  define r2 where "r2 = r - b * 36524"
  define c where "c = r2 div 1461"
  define r3 where "r3 = r2 mod 1461"
  define d where "d = min 3 (r3 div 365)"
  have "year_at n = (400 * a + 100 * b + 4 * c + d + 1, r3 - 365 * d)"
    unfolding year_at_def Let_def a_def r_def b_def r2_def c_def r3_def d_def by (rule refl)
  with assms have y: "y = 400 * a + 100 * b + 4 * c + d + 1" "yday = r3 - 365 * d" by auto
  have r: "0 \<le> r" "r < 146097" by (simp_all add: r_def)
  then have b: "0 \<le> b" "b \<le> 3" by (simp_all add: b_def pos_imp_zdiv_nonneg_iff)
  have r2: "0 \<le> r2" "r2 < (if b = 3 then 36525 else 36524)"
  proof -
    define q where "q = r div 36524"
    define m where "m = r mod 36524"
    have q: "r = 36524 * q + m" "0 \<le> m" "m < 36524" by (simp_all add: q_def m_def)
    have b': "b = (if q \<le> 3 then q else 3)" by (simp add: b_def q_def)
    show "0 \<le> r2" "r2 < (if b = 3 then 36525 else 36524)"
    proof (atomize (full), cases "q \<le> 3")
      case True
      with q b' show "0 \<le> r2 \<and> r2 < (if b = 3 then 36525 else 36524)" by (simp add: r2_def)
    next
      case False
      then have "4 \<le> q" "b = 3" using b' by simp_all
      moreover from this(1) q r have "r \<le> 36524 * 4" by linarith
      ultimately show "0 \<le> r2 \<and> r2 < (if b = 3 then 36525 else 36524)" using q r by (simp add: r2_def)
    qed
  qed
  have c: "0 \<le> c" "c \<le> 24" using r2 unfolding c_def by (auto split: if_splits)
  have r3: "0 \<le> r3" "r3 < 1461" by (simp_all add: r3_def)
  then have d: "0 \<le> d" "d \<le> 3" by (simp_all add: d_def pos_imp_zdiv_nonneg_iff)
  have n: "n = 146097 * a + r" "r = 36524 * b + r2" "r2 = 1461 * c + r3"
    by (simp_all add: a_def r_def r2_def c_def r3_def)
  have first: "n = days_before_year y + yday"
    unfolding y days_before_year_cycles [OF b c d] n(1) using n(2,3) by simp
  have yd: "0 \<le> yday" "d < 3 \<Longrightarrow> yday < 365" "yday < 366"
    using r3 unfolding y(2) d_def by (auto simp: min_def)
  have "leap y" if "365 \<le> yday"
  proof -
    have d3: "d = 3" using yd(2) d that by linarith
    then have full: "r3 = 1460" using that r3 y(2) by simp
    have "y mod 4 = 0" using d3 y(1) by presburger
    moreover have "y mod 100 \<noteq> 0 \<or> y mod 400 = 0"
    proof (cases "c = 24")
      case True
      then have "r2 = 36524" using n(3) full by simp
      then have "b = 3" using r2 by (auto split: if_splits)
      with True d3 y(1) have "y = 400 * (a + 1)" by simp
      then show ?thesis by simp
    next
      case False
      then have "4 * c + 4 < 100" using c by simp
      moreover have "y = 100 * (4 * a + b) + (4 * c + 4)" using d3 y(1) by simp
      ultimately have "y mod 100 = 4 * c + 4" using c(1) by (intro int_mod_pos_eq [of _ _ "4 * a + b"]) simp_all
      with c(1) show ?thesis by simp
    qed
    ultimately show ?thesis by (simp add: leap_def)
  qed
  with first yd show ?thesis by (auto intro: ccontr)
qed

lemma sum_days_in_year: "int (sum_list (map (days_in y) [1..<13])) = 365 + (if leap y then 1 else 0)"
  by (simp add: days_in_def upt_rec)

lemma days_before_month_Suc: "1 \<le> m \<Longrightarrow> days_before_month y (Suc m) = days_before_month y m + int (days_in y m)"
  by (simp add: days_before_month_def)

lemma month_at_ok:
  assumes "month_at y m left d = (m', d')" "1 \<le> m" "m + left = 12"
    and "days_before_month y m + int d < days_before_month y 13"
  shows "m \<le> m' \<and> m' \<le> 12 \<and> 1 \<le> d' \<and> d' \<le> days_in y m' \<and>
    days_before_month y m' + int d' - 1 = days_before_month y m + int d"
  using assms
proof (induction left arbitrary: m d)
  case 0
  then have "days_before_month y 13 = days_before_month y 12 + int (days_in y 12)"
    using days_before_month_Suc [of 12 y] by simp
  with 0 show ?case by auto
next
  case (Suc left)
  show ?case
  proof (cases "d < days_in y m")
    case True
    with Suc.prems show ?thesis by auto
  next
    case False
    then have "days_before_month y (m + 1) + int (d - days_in y m) = days_before_month y m + int d"
      using days_before_month_Suc [of m y] Suc.prems(2) by simp
    with Suc.IH [of "m + 1" "d - days_in y m"] Suc.prems False show ?thesis by simp
  qed
qed

lemma clock_at_ok: "clock_ok (clock_at n)" and clock_number_at: "clock_number (clock_at n) = n"
proof -
  obtain y yday where y: "year_at (n div 1440) = (y, yday)" by fastforce
  obtain m d where m: "month_at y 1 11 (nat yday) = (m, d)" by fastforce
  note Y = year_at_ok [OF y]
  have "days_before_month y 13 = 365 + (if leap y then 1 else 0)"
    using sum_days_in_year [of y] by (simp add: days_before_month_def)
  then have "days_before_month y 1 + int (nat yday) < days_before_month y 13"
    using Y by (simp add: days_before_month_def)
  from month_at_ok [OF m _ _ this] have M: "1 \<le> m" "m \<le> 12" "1 \<le> d" "d \<le> days_in y m"
    "days_before_month y m + int d - 1 = yday"
    using Y by (simp_all add: days_before_month_def)
  have at: "clock_at n = \<lparr>c_year = y, c_month = m, c_day = d, c_hour = nat (n mod 1440 div 60), c_minute = nat (n mod 60)\<rparr>"
    using m by (simp add: clock_at_def y)
  have h: "0 \<le> n mod 1440 div 60" "n mod 1440 div 60 < 24" "0 \<le> n mod 60" "n mod 60 < 60"
    by (simp_all add: pos_imp_zdiv_nonneg_iff div_less_iff_less_mult)
  with M show "clock_ok (clock_at n)" by (auto simp: at clock_ok_def nat_less_iff)
  have "n mod 60 = n mod 1440 mod 60" by (rule mod_mod_cancel [symmetric]) simp
  then have "n div 1440 * 1440 + n mod 1440 div 60 * 60 + n mod 60 = n"
    using div_mult_mod_eq [of n 1440] div_mult_mod_eq [of "n mod 1440" 60] by linarith
  then show "clock_number (clock_at n) = n"
    using M(5) Y h by (simp add: clock_number_def day_number_def at)
qed

section \<open>Clocks in order\<close>

lemma days_before_month_mono:
  assumes "1 \<le> m" "m \<le> m'"
  shows "days_before_month y m \<le> days_before_month y m'"
  using assms(2)
proof (induction rule: dec_induct)
  case (step n)
  then show ?case using days_before_month_Suc [of n y] assms(1) by simp
qed simp

lemma leap_algebra:
  assumes "(Q \<Longrightarrow> P)" "(R \<Longrightarrow> Q)"
  shows "365 * y + (a + (if P then 1 else 0)) - (b + (if Q then 1 else 0)) + (c + (if R then 1 else 0)) =
    365 * (y - 1) + a - b + c + 365 + (if P \<and> (\<not> Q \<or> R) then 1 else (0::int))"
  using assms by auto

lemma days_before_year_Suc: "days_before_year (y + 1) = days_before_year y + 365 + (if leap y then 1 else 0)"
proof -
  have step: "y div k = (y - 1) div k + (if y mod k = 0 then 1 else 0)" if k: "0 < k" for k
  proof (cases "y mod k = 0")
    case True
    then have "y - 1 = k * (y div k - 1) + (k - 1)"
      using mult_div_mod_eq [of k y] by (simp add: algebra_simps)
    then have "(y - 1) div k = y div k - 1" by (rule int_div_pos_eq) (use k in simp_all)
    with True show ?thesis by simp
  next
    case False
    have "y - 1 = k * (y div k) + (y mod k - 1)" using mult_div_mod_eq [of k y] by simp
    moreover have "0 \<le> y mod k - 1" "y mod k - 1 < k"
      using False k pos_mod_sign [OF k, of y] pos_mod_bound [OF k, of y] by linarith+
    ultimately have "(y - 1) div k = y div k" by (rule int_div_pos_eq)
    with False show ?thesis by simp
  qed
  have "y mod 4 = y mod 100 mod 4" "y mod 100 = y mod 400 mod 100"
    by (rule mod_mod_cancel [symmetric]; simp)+
  then have "y mod 100 = 0 \<Longrightarrow> y mod 4 = 0" "y mod 400 = 0 \<Longrightarrow> y mod 100 = 0" by simp_all
  moreover have "y div 4 = (y - 1) div 4 + (if y mod 4 = 0 then 1 else 0)"
    "y div 100 = (y - 1) div 100 + (if y mod 100 = 0 then 1 else 0)"
    "y div 400 = (y - 1) div 400 + (if y mod 400 = 0 then 1 else 0)"
    by (rule step; simp)+
  moreover have "days_before_year (y + 1) = 365 * y + y div 4 - y div 100 + y div 400"
    by (simp add: days_before_year_def)
  ultimately show ?thesis
    unfolding leap_def by (simp only: leap_algebra days_before_year_def [of y])
qed


lemma days_before_year_mono: "y \<le> y' \<Longrightarrow> days_before_year y \<le> days_before_year y'"
proof (induction rule: int_ge_induct)
  case (step z)
  then show ?case using days_before_year_Suc [of z] by (simp split: if_splits)
qed simp

lemma year_length: "days_before_month y 13 = 365 + (if leap y then 1 else 0)"
  using sum_days_in_year [of y] by (simp add: days_before_month_def)

lemma day_number_bounds:
  assumes "clock_ok t"
  shows "days_before_year (c_year t) + days_before_month (c_year t) (c_month t) \<le> day_number t"
    "day_number t < days_before_year (c_year t) + days_before_month (c_year t) (Suc (c_month t))"
    "days_before_year (c_year t) \<le> day_number t" "day_number t < days_before_year (c_year t + 1)"
proof -
  have m: "1 \<le> c_month t" "Suc (c_month t) \<le> 13" "1 \<le> c_day t" "c_day t \<le> days_in (c_year t) (c_month t)"
    using assms by (simp_all add: clock_ok_def)
  show a: "days_before_year (c_year t) + days_before_month (c_year t) (c_month t) \<le> day_number t"
    using m by (simp add: day_number_def)
  show b: "day_number t < days_before_year (c_year t) + days_before_month (c_year t) (Suc (c_month t))"
    using m days_before_month_Suc [of "c_month t" "c_year t"] by (simp add: day_number_def)
  have "0 \<le> days_before_month (c_year t) (c_month t)" by (simp add: days_before_month_def)
  with a show "days_before_year (c_year t) \<le> day_number t" by simp
  have "days_before_month (c_year t) (Suc (c_month t)) \<le> days_before_month (c_year t) 13"
    using m by (intro days_before_month_mono) simp_all
  with b show "day_number t < days_before_year (c_year t + 1)"
    using days_before_year_Suc [of "c_year t"] year_length [of "c_year t"] by simp
qed

lemma clock_number_mono:
  assumes "clock_ok t" "clock_ok u" "earlier t u"
  shows "clock_number t < clock_number u"
proof -
  have hm: "c_hour t < 24" "c_minute t < 60" "c_hour u < 24" "c_minute u < 60"
    using assms by (simp_all add: clock_ok_def)
  have "day_number t < day_number u \<or> day_number t = day_number u \<and>
      (c_hour t < c_hour u \<or> c_hour t = c_hour u \<and> c_minute t < c_minute u)"
  proof (cases "c_year t = c_year u")
    case False
    then have "c_year t + 1 \<le> c_year u" using assms(3) by (auto simp: earlier_def)
    then show ?thesis
      using days_before_year_mono [of "c_year t + 1" "c_year u"] day_number_bounds(4) [OF assms(1)]
        day_number_bounds(3) [OF assms(2)] by linarith
  next
    case y: True
    show ?thesis
    proof (cases "c_month t = c_month u")
      case False
      then have "Suc (c_month t) \<le> c_month u" using assms(3) y by (auto simp: earlier_def)
      then have "days_before_month (c_year t) (Suc (c_month t)) \<le> days_before_month (c_year t) (c_month u)"
        by (intro days_before_month_mono) simp_all
      then show ?thesis
        using day_number_bounds(2) [OF assms(1)] day_number_bounds(1) [OF assms(2)] y by simp
    next
      case True
      with y assms(3) show ?thesis by (auto simp: earlier_def day_number_def)
    qed
  qed
  with hm show ?thesis by (auto simp: clock_number_def)
qed

lemma clock_at_number: "clock_ok t \<Longrightarrow> clock_at (clock_number t) = t"
  using clock_number_mono [of t "clock_at (clock_number t)"] clock_number_mono [of "clock_at (clock_number t)" t]
    clock_at_ok [of "clock_number t"] clock_number_at [of "clock_number t"] earlier_linear
  by (metis less_irrefl)

section \<open>The next time on a zone's clock\<close>

text \<open>\<open>clockAfter\<close> on instants: the minute a reading is in is cut off it, and the minute found starts.\<close>

definition reading_after :: "cron \<Rightarrow> instant \<Rightarrow> instant option" where
  "reading_after c w = map_option (\<lambda>t. clock_number t * minute) (clock_after c (clock_at (w div minute)))"

definition every_next :: "duration \<Rightarrow> instant \<Rightarrow> instant" where
  "every_next d after = after div d * d + d"

text \<open>
  The stretch an instant is in: the start and the end of it, unless it has none, and its offset. A
  search over more stretches than 64 has no answer.
\<close>

type_synonym zone = "instant \<Rightarrow> instant option \<times> instant option \<times> duration"

definition offset :: "zone \<Rightarrow> instant \<Rightarrow> duration" where
  "offset zone t = (case zone t of (start, fin, off) \<Rightarrow> off)"

definition search_from :: "cron \<Rightarrow> zone \<Rightarrow> instant \<Rightarrow> instant \<Rightarrow> instant + instant" where
  "search_from c zone after t =
     (let (start, fin, off) = zone t;
          from = (if t = after then t + off else t + off - 1)
      in if cr_minute_star c \<or> cr_hour_star c then Inr from
         else case start of
                None \<Rightarrow> Inr from
              | Some s \<Rightarrow>
                  let before = offset zone (s - 1)
                  in if off < before then Inr (max from (s + before - 1))
                     else if before < off \<and> after < s then
                       (case reading_after c (s + before - 1) of
                          None \<Rightarrow> Inr from
                        | Some w \<Rightarrow> if w < s + off then Inl s else Inr from)
                     else Inr from)"

fun next_in :: "nat \<Rightarrow> cron \<Rightarrow> zone \<Rightarrow> instant \<Rightarrow> instant \<Rightarrow> instant option" where
  "next_in 0 c zone after t = None"
| "next_in (Suc rounds) c zone after t =
     (let (start, fin, off) = zone t
      in case search_from c zone after t of
           Inl s \<Rightarrow> Some s
         | Inr from \<Rightarrow>
             (case reading_after c from of
                None \<Rightarrow> None
              | Some w \<Rightarrow>
                  (case fin of
                     None \<Rightarrow> Some (w - off)
                   | Some e \<Rightarrow> if w < e + off then Some (w - off) else next_in rounds c zone after e)))"

definition cron_next_in :: "cron \<Rightarrow> zone \<Rightarrow> instant \<Rightarrow> instant option" where
  "cron_next_in c zone after = next_in 64 c zone after after"

text \<open>A zone keeps one offset from the start of a stretch to its end.\<close>

definition zone_ok :: "zone \<Rightarrow> bool" where
  "zone_ok zone \<longleftrightarrow> (\<forall>t start fin off. zone t = (start, fin, off) \<longrightarrow>
     (\<forall>s. start = Some s \<longrightarrow> s \<le> t \<and> zone s = zone t) \<and> (\<forall>e. fin = Some e \<longrightarrow> t < e) \<and>
     (\<forall>u. t \<le> u \<longrightarrow> (\<forall>e. fin = Some e \<longrightarrow> u < e) \<longrightarrow> zone u = zone t))"

lemma reading_after_later:
  assumes "reading_after c w = Some r"
  shows "w < r" "cron_matches c (clock_at (r div minute))"
proof -
  obtain t where t: "clock_after c (clock_at (w div minute)) = Some t" "r = clock_number t * minute"
    using assms by (auto simp: reading_after_def)
  note T = clock_after_Some [OF clock_at_ok t(1)]
  have "w div minute < clock_number t"
    using clock_number_mono [OF clock_at_ok] T clock_number_at by metis
  then have "(w div minute + 1) * minute \<le> clock_number t * minute"
    by (intro mult_right_mono) (simp_all add: less_imp_le)
  moreover have "w < (w div minute + 1) * minute"
  proof -
    have "w mod minute < minute" by (rule pos_mod_bound) (rule minute_pos)
    moreover have "w = w div minute * minute + w mod minute" by (rule div_mult_mod_eq [symmetric])
    moreover have "(w div minute + 1) * minute = w div minute * minute + minute"
      by (simp only: distrib_right mult_1)
    ultimately show ?thesis by linarith
  qed
  ultimately show "w < r" unfolding t(2) by (rule less_le_trans [rotated])
  have "r div minute = clock_number t"
    unfolding t(2) by (rule nonzero_mult_div_cancel_right) (use minute_pos in linarith)
  with T show "cron_matches c (clock_at (r div minute))" by (simp add: clock_at_number)
qed

lemma search_from_later:
  assumes "search_from c zone after t = Inr from" "zone t = (start, fin, off)"
  shows "(if t = after then t + off else t + off - 1) \<le> from"
  using assms by (auto simp: search_from_def Let_def split: if_splits option.splits)

lemma search_from_start:
  assumes "search_from c zone after t = Inl s" "zone t = (start, fin, off)"
  shows "after < s \<and> start = Some s \<and> \<not> cr_minute_star c \<and> \<not> cr_hour_star c \<and> offset zone (s - 1) < off"
  using assms by (auto simp: search_from_def Let_def split: if_splits option.splits)

lemma next_in_later:
  assumes "zone_ok zone" "next_in n c zone after t = Some r" "after \<le> t"
  shows "after < r \<and> (cron_matches c (clock_at ((r + offset zone r) div minute)) \<or>
    \<not> cr_minute_star c \<and> \<not> cr_hour_star c \<and> offset zone (r - 1) < offset zone r)"
  using assms(2,3)
proof (induction n arbitrary: t)
  case (Suc n)
  obtain start fin off where z: "zone t = (start, fin, off)" by (metis prod_cases3)
  have stretch: "zone u = zone t" if "t \<le> u" "\<And>e. fin = Some e \<Longrightarrow> u < e" for u
    using assms(1) z that unfolding zone_ok_def by blast
  show ?case
  proof (cases "search_from c zone after t")
    case (Inl s)
    then have r: "r = s" using Suc.prems(1) z by simp
    note s = search_from_start [OF Inl z]
    have "zone s = zone t" using assms(1) z s unfolding zone_ok_def by blast
    then have "offset zone s = off" using z by (simp add: offset_def)
    with s r show ?thesis by simp
  next
    case (Inr from')
    obtain w where w: "reading_after c from' = Some w"
      using Suc.prems(1) z Inr by (auto split: option.splits)
    note later = reading_after_later [OF w]
    have ge: "t + off \<le> w" "after < w - off"
      using search_from_later [OF Inr z] later(1) Suc.prems(2) by (auto split: if_splits)
    show ?thesis
    proof (cases "\<forall>e. fin = Some e \<longrightarrow> w < e + off")
      case True
      then have r: "r = w - off" using Suc.prems(1) z Inr w by (auto split: option.splits)
      have "zone r = zone t" using ge(1) True by (intro stretch) (auto simp: r)
      then have "offset zone r = off" using z by (simp add: offset_def)
      with r ge(2) later(2) show ?thesis by simp
    next
      case False
      then obtain e where e: "fin = Some e" "\<not> w < e + off" by blast
      have "t < e" using assms(1) z e(1) unfolding zone_ok_def by blast
      moreover have "next_in n c zone after e = Some r" using Suc.prems(1) z Inr w e by simp
      ultimately show ?thesis using Suc.IH [of e] Suc.prems(2) by simp
    qed
  qed
qed simp

text \<open>
  On a zone's clock, the next time of a schedule is after the one asked about, so no run follows
  itself; and there either the zone's clock shows a minute the expression matches, or the expression is
  of a fixed time and the clock goes forward at that moment.
\<close>

theorem cron_in_a_zone_moves_on:
  assumes "zone_ok zone" "cron_next_in c zone after = Some r"
  shows "after < r \<and> (cron_matches c (clock_at ((r + offset zone r) div minute)) \<or>
    (\<not> cr_minute_star c \<and> \<not> cr_hour_star c \<and> offset zone (r - 1) < offset zone r))"
  using next_in_later [OF assms(1) assms(2) [unfolded cron_next_in_def]] by simp

text \<open>A zone whose clock goes from an hour ahead to two hours ahead, an hour into the first day of year 1.\<close>

definition demo_zone :: zone where
  "demo_zone t = (if t < 60 * minute then (None, Some (60 * minute), 60 * minute) else (Some (60 * minute), None, 120 * minute))"

theorem cron_in_a_zone_moves_on_witness:
  "zone_ok demo_zone \<and> cron_next_in demo_nightly demo_zone (59 * minute) = Some (60 * minute) \<and>
   \<not> cr_minute_star demo_nightly \<and> offset demo_zone (60 * minute - 1) < offset demo_zone (60 * minute)"
proof -
  have ok: "zone_ok demo_zone" by (auto simp: zone_ok_def demo_zone_def)
  have cl: "clock_at 119 = \<lparr>c_year = 1, c_month = 1, c_day = 1, c_hour = 1, c_minute = 59\<rparr>" by code_simp
  have af: "clock_after demo_nightly (clock_at 119) = Some \<lparr>c_year = 1, c_month = 1, c_day = 1, c_hour = 2, c_minute = 2\<rparr>"
    unfolding cl by (simp add: clock_evals demo_nightly_def)
  have "(59 * minute + 60 * minute) div minute = 119" "(120 * minute - 1) div minute = 119"
    by (simp_all add: minute_def second_def)
  with af have r1: "reading_after demo_nightly (59 * minute + 60 * minute) = Some (122 * minute)"
    and r2: "reading_after demo_nightly (120 * minute - 1) = Some (122 * minute)"
    by (simp_all add: reading_after_def clock_number_def day_number_def days_before_year_def days_before_month_def)
  have "cron_next_in demo_nightly demo_zone (59 * minute) = Some (60 * minute)"
    using r1 r2 by (simp add: cron_next_in_def eval_nat_numeral search_from_def demo_zone_def Let_def offset_def demo_nightly_def)
  with cron_in_a_zone_moves_on [OF ok this] show ?thesis
    using ok by (simp add: demo_nightly_def demo_zone_def offset_def)
qed

end
