(* ===== verification/Inertia_Empty.thy ===== *)
theory Inertia_Empty
  imports Go_Prelude
begin

text \<open>
  The values of a page's props, and what makes their nil slices and maps empty before they are written
  as JSON (inertia/empty.go). A value carries the types package reflect reads off it; a struct's fields
  are looked up by its name, so that a type can hold itself through a pointer.
\<close>

section \<open>Types and values\<close>

text \<open>\<open>T_self\<close> is a type that marshals itself, whatever it holds; \<open>T_plain\<close> is one that holds nothing.\<close>

datatype gtype =
  T_plain | T_self | T_slice gtype | T_array gtype | T_map gtype | T_pointer gtype | T_interface | T_struct string

text \<open>A struct's fields, in order, and whether JSON has each: exported, and not tagged away.\<close>

type_synonym gtypes = "(string, (bool \<times> gtype) list) gomap"

datatype gval =
  V_plain string | V_self string | V_slice gtype "gval list option" | V_array gtype "gval list"
  | V_map gtype "(string \<times> gval) list option" | V_pointer gtype "gval option" | V_interface "gval option"
  | V_struct string "gval list"

fun type_of :: "gval \<Rightarrow> gtype" where
  "type_of (V_plain _) = T_plain"
| "type_of (V_self _) = T_self"
| "type_of (V_slice t _) = T_slice t"
| "type_of (V_array t _) = T_array t"
| "type_of (V_map t _) = T_map t"
| "type_of (V_pointer t _) = T_pointer t"
| "type_of (V_interface _) = T_interface"
| "type_of (V_struct s _) = T_struct s"

definition fields_of :: "gtypes \<Rightarrow> string \<Rightarrow> (bool \<times> gtype) list" where
  "fields_of env s = (case lookup env s of None \<Rightarrow> [] | Some fs \<Rightarrow> fs)"

section \<open>Whether a type can hold a nil slice or map\<close>

text \<open>
  The walk over a type, with the structs it has visited. Fuel stands for the depth of structs in structs;
  None is that it ran out, which \<open>may_visit_enough\<close> rules out.
\<close>

fun may_visit :: "nat \<Rightarrow> gtypes \<Rightarrow> gtype \<Rightarrow> string list \<Rightarrow> (bool \<times> string list) option"
  and may_fields :: "nat \<Rightarrow> gtypes \<Rightarrow> (bool \<times> gtype) list \<Rightarrow> string list \<Rightarrow> (bool \<times> string list) option"
where
  "may_visit n env T_plain visiting = Some (False, visiting)"
| "may_visit n env T_self visiting = Some (False, visiting)"
| "may_visit n env (T_slice t) visiting = Some (True, visiting)"
| "may_visit n env (T_map t) visiting = Some (True, visiting)"
| "may_visit n env T_interface visiting = Some (True, visiting)"
| "may_visit n env (T_pointer t) visiting = may_visit n env t visiting"
| "may_visit n env (T_array t) visiting = may_visit n env t visiting"
| "may_visit n env (T_struct s) visiting =
     (if s \<in> set visiting then Some (False, visiting)
      else case n of 0 \<Rightarrow> None | Suc n' \<Rightarrow> may_fields n' env (fields_of env s) (s # visiting))"
| "may_fields n env [] visiting = Some (False, visiting)"
| "may_fields n env ((out, t) # fs) visiting =
     (if \<not> out then may_fields n env fs visiting
      else case may_visit n env t visiting of
             None \<Rightarrow> None
           | Some (True, visiting') \<Rightarrow> Some (True, visiting')
           | Some (False, visiting') \<Rightarrow> may_fields n env fs visiting')"

definition may_hold_nil :: "gtypes \<Rightarrow> gtype \<Rightarrow> bool" where
  "may_hold_nil env t =
     (case may_visit (Suc (Suc (length env))) env t [] of None \<Rightarrow> True | Some (may, _) \<Rightarrow> may)"

text \<open>The walk visits a struct that has fields once, so as much fuel as there are structs is enough.\<close>

definition unvisited :: "gtypes \<Rightarrow> string list \<Rightarrow> nat" where
  "unvisited env visiting = card (fst ` set env - set visiting)"

lemma unvisited_mono: "set v \<subseteq> set v' \<Longrightarrow> unvisited env v' \<le> unvisited env v"
  unfolding unvisited_def by (intro card_mono) auto

lemma unvisited_less:
  assumes "s \<in> fst ` set env" "s \<notin> set v"
  shows "unvisited env (s # v) < unvisited env v"
  unfolding unvisited_def using assms by (intro psubset_card_mono) auto

lemma fields_of_unknown: "s \<notin> fst ` set env \<Longrightarrow> fields_of env s = []"
  by (simp add: fields_of_def map_of_eq_None_iff [THEN iffD2])

lemma may_visit_grows:
  "may_visit n env t v = Some (b, v') \<Longrightarrow> set v \<subseteq> set v'"
  "may_fields n env fs v = Some (b, v') \<Longrightarrow> set v \<subseteq> set v'"
  by (induction n env t v and n env fs v arbitrary: b v' and b v' rule: may_visit_may_fields.induct)
    (force split: if_splits nat.splits option.splits bool.splits prod.splits)+

lemma may_visit_enough:
  "unvisited env v < n \<Longrightarrow> may_visit n env t v \<noteq> None"
  "unvisited env v < n \<Longrightarrow> may_fields n env fs v \<noteq> None"
proof (induction n env t v and n env fs v rule: may_visit_may_fields.induct)
  case (8 n env s v)
  show ?case
  proof (cases "s \<in> set v")
    case False
    then obtain n' where n: "n = Suc n'" using 8(2) by (cases n) auto
    show ?thesis
    proof (cases "s \<in> fst ` set env")
      case True
      have "unvisited env (s # v) < n'" using unvisited_less [OF True False] 8(2) n by simp
      with 8(1) [OF False n] n False show ?thesis by simp
    next
      case unknown: False
      with False n show ?thesis by (simp add: fields_of_unknown)
    qed
  qed simp
next
  case (10 n env out t fs v)
  show ?case
  proof (cases out)
    case True
    then obtain b v' where r: "may_visit n env t v = Some (b, v')" using 10(2,4) by auto
    have "unvisited env v' < n"
      using unvisited_mono [OF may_visit_grows(1) [OF r]] 10(4) by (rule le_less_trans)
    with True r 10(3) show ?thesis by (cases b) auto
  next
    case False
    with 10(1,4) show ?thesis by simp
  qed
qed auto

section \<open>Making nil slices and maps empty\<close>

definition max_depth :: nat where "max_depth = 64"

text \<open>
  What \<open>fixNils\<close> returns: the value as it is to be, and whether anything in it changed. The elements of a
  slice, an array, a map or a struct are each put in a copy where they changed.
\<close>

fun fix_nils :: "gtypes \<Rightarrow> nat \<Rightarrow> gval \<Rightarrow> gval \<times> bool"
  and fix_list :: "gtypes \<Rightarrow> nat \<Rightarrow> gval list \<Rightarrow> gval list \<times> bool"
  and fix_entries :: "gtypes \<Rightarrow> nat \<Rightarrow> (string \<times> gval) list \<Rightarrow> (string \<times> gval) list \<times> bool"
  and fix_fields :: "gtypes \<Rightarrow> nat \<Rightarrow> (bool \<times> gtype) list \<Rightarrow> gval list \<Rightarrow> gval list \<times> bool"
where
  "fix_nils env depth v =
     (if max_depth < depth \<or> \<not> may_hold_nil env (type_of v) then (v, False)
      else case v of
             V_slice t None \<Rightarrow> (V_slice t (Some []), True)
           | V_slice t (Some xs) \<Rightarrow> (let (ys, c) = fix_list env (depth + 1) xs in (V_slice t (Some ys), c))
           | V_array t xs \<Rightarrow> (let (ys, c) = fix_list env (depth + 1) xs in (V_array t ys, c))
           | V_map t None \<Rightarrow> (V_map t (Some []), True)
           | V_map t (Some m) \<Rightarrow> (let (m', c) = fix_entries env (depth + 1) m in (V_map t (Some m'), c))
           | V_pointer t None \<Rightarrow> (v, False)
           | V_pointer t (Some x) \<Rightarrow> (let (y, c) = fix_nils env (depth + 1) x in (V_pointer t (Some y), c))
           | V_interface None \<Rightarrow> (v, False)
           | V_interface (Some x) \<Rightarrow> (let (y, c) = fix_nils env (depth + 1) x in (V_interface (Some y), c))
           | V_struct s xs \<Rightarrow> (let (ys, c) = fix_fields env (depth + 1) (fields_of env s) xs in (V_struct s ys, c))
           | _ \<Rightarrow> (v, False))"
| "fix_list env depth [] = ([], False)"
| "fix_list env depth (x # xs) =
     (let (y, c) = fix_nils env depth x; (ys, cs) = fix_list env depth xs in ((if c then y else x) # ys, c \<or> cs))"
| "fix_entries env depth [] = ([], False)"
| "fix_entries env depth ((k, x) # m) =
     (let (y, c) = fix_nils env depth x; (m', cs) = fix_entries env depth m
      in ((k, if c then y else x) # m', c \<or> cs))"
| "fix_fields env depth ((out, t) # fs) (x # xs) =
     (let (y, c) = (if out then fix_nils env depth x else (x, False)); (ys, cs) = fix_fields env depth fs xs
      in ((if c then y else x) # ys, c \<or> cs))"
| "fix_fields env depth fs xs = (xs, False)"

declare fix_nils.simps [simp del]

definition empty_nils :: "gtypes \<Rightarrow> gval \<Rightarrow> gval" where
  "empty_nils env v =
     (if \<not> may_hold_nil env (type_of v) then v
      else let (fixed, changed) = fix_nils env 0 v in if changed then fixed else v)"

section \<open>What it promises\<close>

text \<open>A value whose parts are of the types it says.\<close>

fun typed :: "gtypes \<Rightarrow> gval \<Rightarrow> bool" where
  "typed env (V_slice t (Some xs)) = list_all (\<lambda>x. type_of x = t \<and> typed env x) xs"
| "typed env (V_array t xs) = list_all (\<lambda>x. type_of x = t \<and> typed env x) xs"
| "typed env (V_map t (Some m)) = list_all (\<lambda>(k, x). type_of x = t \<and> typed env x) m"
| "typed env (V_pointer t (Some x)) = (type_of x = t \<and> typed env x)"
| "typed env (V_interface (Some x)) = typed env x"
| "typed env (V_struct s xs) = (map type_of xs = map snd (fields_of env s) \<and> list_all (typed env) xs)"
| "typed env _ = True"

text \<open>No null goes out where a list or an object is promised, down to the depth the walk goes to.\<close>

fun no_nils :: "gtypes \<Rightarrow> nat \<Rightarrow> gval \<Rightarrow> bool"
  and no_field_nils :: "gtypes \<Rightarrow> nat \<Rightarrow> (bool \<times> gtype) list \<Rightarrow> gval list \<Rightarrow> bool"
where
  "no_nils env depth v =
     (max_depth < depth \<or>
      (case v of
         V_slice t None \<Rightarrow> False
       | V_slice t (Some xs) \<Rightarrow> list_all (no_nils env (depth + 1)) xs
       | V_array t xs \<Rightarrow> list_all (no_nils env (depth + 1)) xs
       | V_map t None \<Rightarrow> False
       | V_map t (Some m) \<Rightarrow> list_all (\<lambda>(k, x). no_nils env (depth + 1) x) m
       | V_pointer t (Some x) \<Rightarrow> no_nils env (depth + 1) x
       | V_interface (Some x) \<Rightarrow> no_nils env (depth + 1) x
       | V_struct s xs \<Rightarrow> no_field_nils env (depth + 1) (fields_of env s) xs
       | _ \<Rightarrow> True))"
| "no_field_nils env depth ((out, t) # fs) (x # xs) =
     ((out \<longrightarrow> no_nils env depth x) \<and> no_field_nils env depth fs xs)"
| "no_field_nils env depth fs xs = True"

declare no_nils.simps [simp del]

text \<open>A value with each nil slice and map in it as the empty one: what a reader of lists sees of it.\<close>

fun as_empty :: "gval \<Rightarrow> gval" where
  "as_empty (V_slice t None) = V_slice t (Some [])"
| "as_empty (V_slice t (Some xs)) = V_slice t (Some (map as_empty xs))"
| "as_empty (V_array t xs) = V_array t (map as_empty xs)"
| "as_empty (V_map t None) = V_map t (Some [])"
| "as_empty (V_map t (Some m)) = V_map t (Some (map (\<lambda>(k, x). (k, as_empty x)) m))"
| "as_empty (V_pointer t (Some x)) = V_pointer t (Some (as_empty x))"
| "as_empty (V_interface (Some x)) = V_interface (Some (as_empty x))"
| "as_empty (V_struct s xs) = V_struct s (map as_empty xs)"
| "as_empty v = v"

lemma fix_nils_same:
  "fix_nils env d v = (w, False) \<Longrightarrow> w = v"
  "fix_list env d xs = (ys, False) \<Longrightarrow> ys = xs"
  "fix_entries env d m = (m', False) \<Longrightarrow> m' = m"
  "fix_fields env d fs xs = (ys, False) \<Longrightarrow> ys = xs"
proof (induction env d v and env d xs and env d m and env d fs xs arbitrary: w and ys and m' and ys
    rule: fix_nils_fix_list_fix_entries_fix_fields.induct)
  case (1 env d v)
  then show ?case
    by (subst (asm) fix_nils.simps) (auto split: if_splits gval.splits option.splits prod.splits)
qed (auto split: if_splits prod.splits)

lemma fix_nils_as_empty:
  "as_empty (fst (fix_nils env d v)) = as_empty v"
  "map as_empty (fst (fix_list env d xs)) = map as_empty xs"
  "map (\<lambda>(k, x). (k, as_empty x)) (fst (fix_entries env d m)) = map (\<lambda>(k, x). (k, as_empty x)) m"
  "map as_empty (fst (fix_fields env d fs xs)) = map as_empty xs"
proof (induction env d v and env d xs and env d m and env d fs xs
    rule: fix_nils_fix_list_fix_entries_fix_fields.induct)
  case (1 env d v)
  then show ?case
    by (subst fix_nils.simps) (auto split: if_splits gval.splits option.splits prod.splits; metis fst_conv)
next
  case (6 env depth out t fs x xs)
  then show ?case by (cases out) (auto split: prod.splits)
qed (auto split: if_splits prod.splits)

text \<open>A type the walk found clean, given the structs it found clean.\<close>

fun clean :: "string set \<Rightarrow> gtype \<Rightarrow> bool" where
  "clean S (T_slice t) = False"
| "clean S (T_map t) = False"
| "clean S T_interface = False"
| "clean S (T_pointer t) = clean S t"
| "clean S (T_array t) = clean S t"
| "clean S (T_struct s) = (s \<in> S)"
| "clean S _ = True"

lemma clean_mono: "clean S t \<Longrightarrow> S \<subseteq> S' \<Longrightarrow> clean S' t"
  by (induction S t rule: clean.induct) auto

definition clean_fields :: "string set \<Rightarrow> (bool \<times> gtype) list \<Rightarrow> bool" where
  "clean_fields S fs = list_all (\<lambda>(out, t). out \<longrightarrow> clean S t) fs"

lemma clean_fields_simps [simp]:
  "clean_fields S []" "clean_fields S ((out, t) # fs) \<longleftrightarrow> (out \<longrightarrow> clean S t) \<and> clean_fields S fs"
  by (simp_all add: clean_fields_def)

lemma clean_fields_mono: "clean_fields S fs \<Longrightarrow> S \<subseteq> S' \<Longrightarrow> clean_fields S' fs"
  by (induction fs) (auto intro: clean_mono)

lemma may_visit_clean:
  "may_visit n env t v = Some (False, v') \<Longrightarrow>
     clean (set v') t \<and> (\<forall>s \<in> set v' - set v. clean_fields (set v') (fields_of env s))"
  "may_fields n env fs v = Some (False, v') \<Longrightarrow>
     clean_fields (set v') fs \<and>
     (\<forall>s \<in> set v' - set v. clean_fields (set v') (fields_of env s))"
proof (induction n env t v and n env fs v arbitrary: v' and v' rule: may_visit_may_fields.induct)
  case (8 n env s v)
  show ?case
  proof (cases "s \<in> set v")
    case False
    then obtain n' where n: "n = Suc n'" and r: "may_fields n' env (fields_of env s) (s # v) = Some (False, v')"
      using 8(2) by (auto split: nat.splits)
    from 8(1) [OF False n r] may_visit_grows(2) [OF r] show ?thesis by auto
  qed (use 8(2) in auto)
next
  case (10 n env out t fs v)
  show ?case
  proof (cases out)
    case True
    then obtain v1 where r: "may_visit n env t v = Some (False, v1)" "may_fields n env fs v1 = Some (False, v')"
      using 10(4) by (auto split: option.splits prod.splits bool.splits)
    have one: "clean (set v1) t" "\<forall>s \<in> set v1 - set v. clean_fields (set v1) (fields_of env s)"
      using 10(2) [OF _ r(1)] True by auto
    have rest: "clean_fields (set v') fs"
      "\<forall>s \<in> set v' - set v1. clean_fields (set v') (fields_of env s)"
      using 10(3) [of "(False, v1)" False v1 v'] True r by auto
    have "set v1 \<subseteq> set v'" using may_visit_grows(2) [OF r(2)] .
    with one rest True show ?thesis by (auto intro: clean_mono clean_fields_mono)
  qed (use 10 in auto)
qed auto

definition closed_under :: "gtypes \<Rightarrow> string set \<Rightarrow> bool" where
  "closed_under env S \<longleftrightarrow> (\<forall>s \<in> S. clean_fields S (fields_of env s))"

lemma clean_no_nils:
  "closed_under env S \<Longrightarrow> clean S (type_of v) \<Longrightarrow> typed env v \<Longrightarrow> no_nils env d v"
  "closed_under env S \<Longrightarrow> clean_fields S fs \<Longrightarrow> map type_of xs = map snd fs \<Longrightarrow> list_all (typed env) xs \<Longrightarrow>
     no_field_nils env d fs xs"
proof (induction env d v and env d fs xs rule: no_nils_no_field_nils.induct)
  case (1 env d v)
  show ?case
  proof (cases v)
    case (V_struct s xs)
    then have "clean_fields S (fields_of env s)" using 1 by (simp add: closed_under_def)
    with V_struct 1 show ?thesis by (subst no_nils.simps) simp
  qed (use 1 in \<open>subst no_nils.simps; auto simp: list_all_iff split: option.splits\<close>)+
qed auto

lemma may_hold_nil_sound:
  assumes "\<not> may_hold_nil env (type_of v)" "typed env v"
  shows "no_nils env d v"
proof -
  obtain S where r: "may_visit (Suc (Suc (length env))) env (type_of v) [] = Some (False, S)"
    using assms(1) by (auto simp: may_hold_nil_def split: option.splits)
  from may_visit_clean(1) [OF this] have "clean (set S) (type_of v)" "closed_under env (set S)"
    by (auto simp: closed_under_def)
  then show ?thesis using clean_no_nils(1) assms(2) by blast
qed

lemma type_of_fix_nils: "type_of (fst (fix_nils env d v)) = type_of v"
  by (subst fix_nils.simps) (auto split: gval.splits option.splits prod.splits)

lemma fix_nils_no_nils:
  "typed env v \<Longrightarrow> no_nils env d (fst (fix_nils env d v))"
  "list_all (typed env) xs \<Longrightarrow> list_all (no_nils env d) (fst (fix_list env d xs))"
  "list_all (\<lambda>(k, x). typed env x) m \<Longrightarrow> list_all (\<lambda>(k, x). no_nils env d x) (fst (fix_entries env d m))"
  "list_all (typed env) xs \<Longrightarrow> no_field_nils env d fs (fst (fix_fields env d fs xs))"
proof (induction env d v and env d xs and env d m and env d fs xs
    rule: fix_nils_fix_list_fix_entries_fix_fields.induct)
  case (1 env d v)
  note no = no_nils.simps [of env d] and fixed = fix_nils.simps [of env d v]
  consider "\<not> may_hold_nil env (type_of v)" | "max_depth < d" | "may_hold_nil env (type_of v)" "\<not> max_depth < d"
    by blast
  then show ?case
  proof cases
    case 1
    then have "fix_nils env d v = (v, False)" by (simp add: fix_nils.simps)
    with may_hold_nil_sound [OF 1 \<open>typed env v\<close>] show ?thesis by simp
  next
    case 2
    then show ?thesis by (simp add: no)
  next
    case 3
    then show ?thesis
    proof (cases v)
      case (V_struct s xs)
      with 1 3 fixed no show ?thesis by (auto split: prod.splits; metis fst_conv)
    qed (use 1 3 fixed no in \<open>auto simp: list_all_iff split: option.splits prod.splits\<close>)
  qed
next
  case (6 env depth out t fs x xs)
  then show ?case by (cases out) (auto dest: fix_nils_same(1) split: prod.splits)
qed (auto dest: fix_nils_same(1) split: prod.splits)

text \<open>
  What goes out holds no null where a list or an object is promised: every slice and map JSON has of
  it, down to the depth the walk goes to, is there, though it may be empty; and apart from its nil slices
  and maps, now empty, the value is as it was.
\<close>

theorem nil_lists_go_out_empty:
  assumes "typed env v"
  shows "no_nils env 0 (empty_nils env v) \<and> as_empty (empty_nils env v) = as_empty v"
proof -
  obtain w c where f: "fix_nils env 0 v = (w, c)" by fastforce
  show ?thesis
    using may_hold_nil_sound [OF _ assms] fix_nils_no_nils(1) [OF assms, of 0] fix_nils_as_empty(1) [of env 0 v]
      fix_nils_same(1) [of env 0 v w] f
    by (cases c) (auto simp: empty_nils_def)
qed

definition demo_types :: gtypes where
  "demo_types = [(''Post'', [(True, T_plain), (True, T_slice T_plain), (True, T_pointer (T_struct ''Post''))])]"

theorem nil_lists_go_out_empty_witness:
  "empty_nils demo_types (V_struct ''Post'' [V_plain ''1'', V_slice T_plain None, V_pointer (T_struct ''Post'') None]) =
     V_struct ''Post'' [V_plain ''1'', V_slice T_plain (Some []), V_pointer (T_struct ''Post'') None] \<and>
   no_nils demo_types 0 (empty_nils demo_types
     (V_struct ''Post'' [V_plain ''1'', V_slice T_plain None, V_pointer (T_struct ''Post'') None]))"
proof -
  have "typed demo_types (V_struct ''Post'' [V_plain ''1'', V_slice T_plain None, V_pointer (T_struct ''Post'') None])"
    by (simp add: demo_types_def fields_of_def)
  from nil_lists_go_out_empty [OF this] show ?thesis
    by (simp add: empty_nils_def fix_nils.simps demo_types_def fields_of_def may_hold_nil_def max_depth_def)
qed

end
