(* ===== verification/Inertia_Props.thy ===== *)
theory Inertia_Props
  imports Inertia_Empty
begin

text \<open>
  The props of a page (inertia/props.go): the types of prop, what each does besides hold a value, and the
  resolver, which works a page's props out for one request by the protocol's rules for partial reloads,
  first loads, merging and once props.

  The function a prop is made with is its outcome, the value it returns, its error or its panic, or None
  for a nil one: a resolver calls it at most once. The props of a level are worked out concurrently, each
  on its own, so their outcomes do not depend on the order.
\<close>

section \<open>What a prop does\<close>

datatype first_load = Sent | Optional | Deferred

record behavior =
  b_first_load :: first_load
  b_always :: bool
  b_group :: string
  b_rescue :: bool
  b_merge :: bool
  b_deep :: bool
  b_prepend :: bool
  b_append_at :: "string list"
  b_prepend_at :: "string list"
  b_match_on :: "string list"
  b_once :: bool
  b_once_key :: string
  b_expires :: instant
  b_fresh :: bool
  b_scroll :: bool

definition no_behavior :: behavior where
  "no_behavior =
     \<lparr>b_first_load = Sent, b_always = False, b_group = [], b_rescue = False, b_merge = False, b_deep = False,
      b_prepend = False, b_append_at = [], b_prepend_at = [], b_match_on = [], b_once = False, b_once_key = [],
      b_expires = zero_time, b_fresh = False, b_scroll = False\<rparr>"

datatype page_ref = No_page | Page_number int | Cursor string

record paging =
  pg_name :: string
  pg_previous :: page_ref
  pg_next :: page_ref
  pg_current :: page_ref

definition page_numbers :: "int \<Rightarrow> bool \<Rightarrow> paging" where
  "page_numbers n further =
     \<lparr>pg_name = [], pg_previous = (if 1 < n then Page_number (n - 1) else No_page),
      pg_next = (if further then Page_number (wrap64 (n + 1)) else No_page), pg_current = Page_number n\<rparr>"

datatype 'v outcome = Returns 'v | Fails string | Panics string

type_synonym 'v fn = "'v outcome option"

text \<open>The types of prop, whose values can be props again. A scroll prop's function returns its items.\<close>

datatype 'v page_prop =
  LazyProp "'v fn" | OptionalProp "'v fn" behavior | AlwaysProp 'v | DeferProp "'v fn" behavior
  | MergeProp "'v fn" behavior | OnceProp "'v fn" behavior | ScrollProp "(gval \<times> paging) fn" behavior

text \<open>
  A value among the props: nil, plain data, what props nest in, a map with string keys or a struct that
  holds props, as its entries in order, or a prop.
\<close>

datatype pvalue = Nil_value | Data gval | Children "(string \<times> pvalue) list" | A_prop "pvalue page_prop"

type_synonym entry = "string \<times> pvalue"

fun behave :: "'v page_prop \<Rightarrow> behavior" where
  "behave (LazyProp f) = no_behavior"
| "behave (OptionalProp f b) = b"
| "behave (AlwaysProp v) = no_behavior\<lparr>b_always := True\<rparr>"
| "behave (DeferProp f b) = b"
| "behave (MergeProp f b) = b"
| "behave (OnceProp f b) = b"
| "behave (ScrollProp f b) = b"

fun missing :: "'v page_prop \<Rightarrow> bool" where
  "missing (LazyProp f) = (f = None)"
| "missing (OptionalProp f b) = (f = None)"
| "missing (AlwaysProp v) = False"
| "missing (DeferProp f b) = (f = None)"
| "missing (MergeProp f b) = (f = None)"
| "missing (OnceProp f b) = (f = None)"
| "missing (ScrollProp f b) = (f = None)"

text \<open>What a prop resolves to: a value, or a page of a list, which goes out as \<open>{"data": items}\<close>.\<close>

datatype 'v resolved = Worked_out 'v | Scrolled gval paging

text \<open>A panic becomes the prop's error. Calling a nil function panics.\<close>

definition nil_call :: string where
  "nil_call = ''runtime error: invalid memory address or nil pointer dereference''"

definition panicked :: "string \<Rightarrow> string" where
  "panicked r = ''panicked: '' @ r"

fun call_fn :: "('v \<Rightarrow> 'r) \<Rightarrow> 'v fn \<Rightarrow> string + 'r" where
  "call_fn k None = Inl (panicked nil_call)"
| "call_fn k (Some (Returns v)) = Inr (k v)"
| "call_fn k (Some (Fails e)) = Inl e"
| "call_fn k (Some (Panics r)) = Inl (panicked r)"

fun resolve_one :: "'v page_prop \<Rightarrow> string + 'v resolved" where
  "resolve_one (LazyProp f) = call_fn Worked_out f"
| "resolve_one (OptionalProp f b) = call_fn Worked_out f"
| "resolve_one (AlwaysProp v) = Inr (Worked_out v)"
| "resolve_one (DeferProp f b) = call_fn Worked_out f"
| "resolve_one (MergeProp f b) = call_fn Worked_out f"
| "resolve_one (OnceProp f b) = call_fn Worked_out f"
| "resolve_one (ScrollProp f b) = call_fn (\<lambda>(items, paging). Scrolled items paging) f"

section \<open>Making props\<close>

datatype merge_option = Prepend | Deep_merge | Match_on "string list" | Append_at string | Prepend_at string

fun merge_opt :: "behavior \<Rightarrow> merge_option \<Rightarrow> behavior" where
  "merge_opt b Prepend = b\<lparr>b_prepend := True\<rparr>"
| "merge_opt b Deep_merge = b\<lparr>b_deep := True\<rparr>"
| "merge_opt b (Match_on keys) = b\<lparr>b_match_on := b_match_on b @ keys\<rparr>"
| "merge_opt b (Append_at path) = b\<lparr>b_append_at := b_append_at b @ [path]\<rparr>"
| "merge_opt b (Prepend_at path) = b\<lparr>b_prepend_at := b_prepend_at b @ [path]\<rparr>"

definition with_merge :: "behavior \<Rightarrow> merge_option list \<Rightarrow> behavior" where
  "with_merge b opts = foldl merge_opt (b\<lparr>b_merge := True\<rparr>) opts"

datatype once_option = As string | Until instant | Fresh bool

fun once_opt :: "behavior \<Rightarrow> once_option \<Rightarrow> behavior" where
  "once_opt b (As key) = b\<lparr>b_once_key := key\<rparr>"
| "once_opt b (Until t) = b\<lparr>b_expires := t\<rparr>"
| "once_opt b (Fresh when) = b\<lparr>b_fresh := when\<rparr>"

definition with_once :: "behavior \<Rightarrow> once_option list \<Rightarrow> behavior" where
  "with_once b opts = foldl once_opt (b\<lparr>b_once := True\<rparr>) opts"

definition group_of :: "string list \<Rightarrow> string" where
  "group_of gs = (case gs of g # _ \<Rightarrow> if g \<noteq> [] then g else ''default'' | [] \<Rightarrow> ''default'')"

definition lazy_prop :: "'v fn \<Rightarrow> 'v page_prop" where "lazy_prop f = LazyProp f"

definition lazy_merge :: "merge_option list \<Rightarrow> 'v fn \<Rightarrow> 'v page_prop" where
  "lazy_merge opts f = MergeProp f (with_merge no_behavior opts)"

definition optional_prop :: "'v fn \<Rightarrow> 'v page_prop" where
  "optional_prop f = OptionalProp f (no_behavior\<lparr>b_first_load := Optional\<rparr>)"

definition always_prop :: "'v \<Rightarrow> 'v page_prop" where "always_prop v = AlwaysProp v"

definition defer_prop :: "'v fn \<Rightarrow> string list \<Rightarrow> 'v page_prop" where
  "defer_prop f gs = DeferProp f (no_behavior\<lparr>b_first_load := Deferred, b_group := group_of gs\<rparr>)"

definition merge_prop :: "'v \<Rightarrow> merge_option list \<Rightarrow> 'v page_prop" where
  "merge_prop v opts = lazy_merge opts (Some (Returns v))"

definition once_prop :: "'v fn \<Rightarrow> once_option list \<Rightarrow> 'v page_prop" where
  "once_prop f opts = OnceProp f (with_once no_behavior opts)"

definition scroll_prop :: "(gval \<times> paging) fn \<Rightarrow> 'v page_prop" where
  "scroll_prop f = ScrollProp f (no_behavior\<lparr>b_merge := True, b_scroll := True\<rparr>)"

text \<open>The methods that make a prop another: \<open>Merge\<close>, \<open>Once\<close>, \<open>Rescue\<close>, and a scroll prop's \<open>Defer\<close> and \<open>MatchOn\<close>.\<close>

fun prop_merge :: "merge_option list \<Rightarrow> 'v page_prop \<Rightarrow> 'v page_prop" where
  "prop_merge opts (LazyProp f) = lazy_merge opts f"
| "prop_merge opts (DeferProp f b) = DeferProp f (with_merge b opts)"
| "prop_merge opts p = p"

fun prop_once :: "once_option list \<Rightarrow> 'v page_prop \<Rightarrow> 'v page_prop" where
  "prop_once opts (OptionalProp f b) = OptionalProp f (with_once b opts)"
| "prop_once opts (DeferProp f b) = DeferProp f (with_once b opts)"
| "prop_once opts (MergeProp f b) = MergeProp f (with_once b opts)"
| "prop_once opts p = p"

fun prop_rescue :: "'v page_prop \<Rightarrow> 'v page_prop" where
  "prop_rescue (DeferProp f b) = DeferProp f (b\<lparr>b_rescue := True\<rparr>)"
| "prop_rescue p = p"

fun scroll_defer :: "string list \<Rightarrow> 'v page_prop \<Rightarrow> 'v page_prop" where
  "scroll_defer gs (ScrollProp f b) = ScrollProp f (b\<lparr>b_first_load := Deferred, b_group := group_of gs\<rparr>)"
| "scroll_defer gs p = p"

fun scroll_match_on :: "string list \<Rightarrow> 'v page_prop \<Rightarrow> 'v page_prop" where
  "scroll_match_on keys (ScrollProp f b) =
     ScrollProp f (b\<lparr>b_match_on := b_match_on b @ map (\<lambda>field. ''data.'' @ field) keys\<rparr>)"
| "scroll_match_on keys p = p"

section \<open>The props in a struct\<close>

text \<open>
  A field of a struct: its name and json tag, whether it is exported, whether \<open>encoding/json\<close> holds it
  empty, and its value; or an embedded struct, with its fields too.
\<close>

datatype field =
  Field string string bool bool pvalue | Embedded string string bool bool pvalue "field list"

definition field_entry :: "string \<Rightarrow> string \<Rightarrow> bool \<Rightarrow> bool \<Rightarrow> pvalue \<Rightarrow> entry list" where
  "field_entry sf_name tag exported is_empty v =
     (let (name, opts, _) = cut CHR '','' tag
      in if \<not> exported then []
         else if ''omitempty'' \<in> set (split_on CHR '','' opts) \<and> is_empty then []
         else [(if name = [] then sf_name else name, v)])"

fun struct_entries :: "field list \<Rightarrow> entry list" where
  "struct_entries [] = []"
| "struct_entries (Field sf_name tag exported is_empty v # sfs) =
     (if tag = ''-'' then [] else field_entry sf_name tag exported is_empty v) @ struct_entries sfs"
| "struct_entries (Embedded sf_name tag exported is_empty v embedded # sfs) =
     (if tag = ''-'' then []
      else if fst (cut CHR '','' tag) = [] then struct_entries embedded
      else field_entry sf_name tag exported is_empty v) @ struct_entries sfs"

section \<open>The resolver\<close>

text \<open>What a request asks for. A header that is not there is an empty list, which \<open>headerList\<close> gives as nil.\<close>

record request =
  rs_partial :: bool
  rs_inertia :: bool
  rs_only :: "string list"
  rs_except :: "string list"
  rs_reset :: "string list"
  rs_loaded :: "string list"
  rs_prepend :: bool
  rs_deferred_fetch :: bool

record scroll_meta =
  sm_page_name :: string
  sm_previous :: page_ref
  sm_next :: page_ref
  sm_current :: page_ref
  sm_reset :: bool

record once_meta =
  om_prop :: string
  om_expires_at :: "instant option"

text \<open>
  What the resolver has noted for the client, and what it has told its two callbacks: \<open>failed\<close>, of a
  rescued prop's error, and \<open>saw\<close>, of a prop that went out or was rescued.
\<close>

record noted =
  n_deferred :: "(string, string list) gomap"
  n_rescued :: "string list"
  n_merge :: "string list"
  n_prepends :: "string list"
  n_deep_merge :: "string list"
  n_match_on :: "string list"
  n_scroll :: "(string, scroll_meta) gomap"
  n_once :: "(string, once_meta) gomap"
  n_failed :: "(string \<times> string) list"
  n_seen :: "(string \<times> behavior option \<times> bool) list"

definition nothing_noted :: noted where
  "nothing_noted =
     \<lparr>n_deferred = [], n_rescued = [], n_merge = [], n_prepends = [], n_deep_merge = [], n_match_on = [],
      n_scroll = [], n_once = [], n_failed = [], n_seen = []\<rparr>"

definition within :: "string \<Rightarrow> string list \<Rightarrow> bool" where
  "within path paths \<longleftrightarrow> list_ex (\<lambda>p. path = p \<or> has_prefix path (p @ ''.'')) paths"

definition leads_to :: "string \<Rightarrow> string list \<Rightarrow> bool" where
  "leads_to path paths \<longleftrightarrow> list_ex (\<lambda>p. has_prefix p (path @ ''.'')) paths"

definition path_wanted :: "request \<Rightarrow> string \<Rightarrow> bool" where
  "path_wanted rs path =
     (if rs_only rs \<noteq> [] \<and> \<not> within path (rs_only rs) \<and> \<not> leads_to path (rs_only rs) then False
      else rs_except rs = [] \<or> \<not> within path (rs_except rs))"

definition labeled :: "request \<Rightarrow> string \<Rightarrow> bool" where
  "labeled rs path =
     (if \<not> rs_partial rs then True
      else if rs_only rs \<noteq> [] \<and> \<not> within path (rs_only rs) then False
      else rs_except rs = [] \<or> \<not> within path (rs_except rs))"

definition once_name :: "behavior \<Rightarrow> string \<Rightarrow> string" where
  "once_name b path = (if b_once_key b \<noteq> [] then b_once_key b else path)"

definition client_has :: "request \<Rightarrow> behavior \<Rightarrow> string \<Rightarrow> bool" where
  "client_has rs b path \<longleftrightarrow> b_once b \<and> \<not> b_fresh b \<and> once_name b path \<in> set (rs_loaded rs)"

definition merge_paths :: "request \<Rightarrow> behavior \<Rightarrow> string list \<times> string list" where
  "merge_paths rs b =
     (if b_scroll b then if rs_prepend rs then (b_append_at b, [''data'']) else ([''data''], b_prepend_at b)
      else (b_append_at b, b_prepend_at b))"

definition collect_merge :: "request \<Rightarrow> behavior \<Rightarrow> string \<Rightarrow> noted \<Rightarrow> noted" where
  "collect_merge rs b path n =
     (if \<not> b_merge b \<or> path \<in> set (rs_reset rs) \<or> \<not> labeled rs path then n
      else
        let (append_at, prepend_at) = merge_paths rs b;
            n1 = (if b_deep b then n\<lparr>n_deep_merge := n_deep_merge n @ [path]\<rparr>
                  else if append_at = [] \<and> prepend_at = [] \<and> \<not> b_prepend b then n\<lparr>n_merge := n_merge n @ [path]\<rparr>
                  else if append_at = [] \<and> prepend_at = [] then n\<lparr>n_prepends := n_prepends n @ [path]\<rparr>
                  else n\<lparr>n_merge := n_merge n @ map (\<lambda>at. path @ ''.'' @ at) append_at,
                         n_prepends := n_prepends n @ map (\<lambda>at. path @ ''.'' @ at) prepend_at\<rparr>)
        in n1\<lparr>n_match_on := n_match_on n1 @ map (\<lambda>field. path @ ''.'' @ field) (b_match_on b)\<rparr>)"

text \<open>\<open>UnixMilli\<close>.\<close>

definition unix_milli :: "instant \<Rightarrow> int" where
  "unix_milli t = (t - 62135596800 * second) div 1000000"

definition collect_once :: "request \<Rightarrow> behavior \<Rightarrow> string \<Rightarrow> noted \<Rightarrow> noted" where
  "collect_once rs b path n =
     (if \<not> b_once b \<or> \<not> labeled rs path then n
      else n\<lparr>n_once := put (once_name b path)
               \<lparr>om_prop = path, om_expires_at = (if b_expires b \<noteq> zero_time then Some (unix_milli (b_expires b)) else None)\<rparr>
               (n_once n)\<rparr>)"

definition collect_scroll :: "request \<Rightarrow> paging \<Rightarrow> string \<Rightarrow> noted \<Rightarrow> noted" where
  "collect_scroll rs p path n =
     n\<lparr>n_scroll := put path
        \<lparr>sm_page_name = (if pg_name p \<noteq> [] then pg_name p else ''page''), sm_previous = pg_previous p,
         sm_next = pg_next p, sm_current = pg_current p, sm_reset = path \<in> set (rs_reset rs)\<rparr> (n_scroll n)\<rparr>"

text \<open>Whether a prop stays out of a full visit's response, with what it leaves noted of it.\<close>

definition note_deferred :: "request \<Rightarrow> behavior \<Rightarrow> string \<Rightarrow> noted \<Rightarrow> noted" where
  "note_deferred rs b path n =
     (if b_first_load b = Deferred \<and> \<not> client_has rs b path
      then n\<lparr>n_deferred := put (b_group b)
               ((case lookup (n_deferred n) (b_group b) of None \<Rightarrow> [] | Some ps \<Rightarrow> ps) @ [path]) (n_deferred n)\<rparr>
      else n)"

definition left_out_of_first_load :: "request \<Rightarrow> behavior \<Rightarrow> string \<Rightarrow> noted \<Rightarrow> bool \<times> noted" where
  "left_out_of_first_load rs b path n =
     (if b_first_load b = Optional \<or> b_first_load b = Deferred
      then (True, collect_once rs b path (collect_merge rs b path (note_deferred rs b path n)))
      else if rs_inertia rs \<and> client_has rs b path then (True, collect_once rs b path n)
      else (False, n))"

section \<open>A level of the props\<close>

text \<open>
  What goes out: nil and data, what props nest in, or a prop where a prop's own value is one, which JSON
  writes as a struct of nothing.
\<close>

datatype out = Out_nil | Out_data gval | Out_map "(string, out) gomap" | Out_struct

definition path_of :: "string \<Rightarrow> string \<Rightarrow> string" where
  "path_of prefix key = (if prefix \<noteq> [] then prefix @ ''.'' @ key else key)"

text \<open>The first loop of \<open>level\<close>: which entries it keeps, to work out, and what it notes of the others.\<close>

definition left_unasked :: "request \<Rightarrow> bool \<Rightarrow> bool \<Rightarrow> string \<Rightarrow> bool" where
  "left_unasked rs parent_resolved always path \<longleftrightarrow>
     rs_partial rs \<and> \<not> parent_resolved \<and> \<not> always \<and> path \<noteq> ''errors'' \<and> \<not> path_wanted rs path"

fun keep_entry :: "request \<Rightarrow> string \<Rightarrow> bool \<Rightarrow> entry \<Rightarrow> noted \<Rightarrow> bool \<times> noted" where
  "keep_entry rs prefix parent_resolved (key, A_prop p) n =
     (let path = path_of prefix key; b = behave p
      in if missing p then (False, n)
         else if left_unasked rs parent_resolved (b_always b) path then (False, n)
         else if \<not> rs_partial rs then
           (case left_out_of_first_load rs b path n of (left, n') \<Rightarrow> (\<not> left, n'))
         else (True, n))"
| "keep_entry rs prefix parent_resolved (key, v) n =
     (\<not> left_unasked rs parent_resolved False (path_of prefix key), n)"

fun keep_entries :: "request \<Rightarrow> string \<Rightarrow> bool \<Rightarrow> entry list \<Rightarrow> noted \<Rightarrow> bool list \<times> noted" where
  "keep_entries rs prefix parent_resolved [] n = ([], n)"
| "keep_entries rs prefix parent_resolved (e # es) n =
     (let (kept, n1) = keep_entry rs prefix parent_resolved e n;
          (keeps, n2) = keep_entries rs prefix parent_resolved es n1
      in (kept # keeps, n2))"

definition note_rescue :: "behavior \<Rightarrow> string \<Rightarrow> string \<Rightarrow> noted \<Rightarrow> noted" where
  "note_rescue b path err n =
     n\<lparr>n_rescued := n_rescued n @ [path], n_failed := n_failed n @ [(path, err)],
       n_seen := n_seen n @ [(path, Some b, True)]\<rparr>"

definition note_seen :: "behavior option \<Rightarrow> string \<Rightarrow> noted \<Rightarrow> noted" where
  "note_seen b path n = n\<lparr>n_seen := n_seen n @ [(path, b, False)]\<rparr>"

definition prop_error :: "string \<Rightarrow> string \<Rightarrow> string" where
  "prop_error path err = ''inertia: prop '' @ path @ '': '' @ err"

text \<open>A page of a list as it goes out, and the value of its data, seen where its own path is empty.\<close>

definition data_map :: "gtypes \<Rightarrow> gval \<Rightarrow> out" where
  "data_map env items = Out_map [(''data'', Out_data (empty_nils env items))]"

definition seen_data :: "string \<Rightarrow> noted \<Rightarrow> noted" where
  "seen_data path n = (if path = [] then note_seen None ''data'' n else n)"

lemma resolve_one_size:
  "resolve_one p = Inr (Worked_out v) \<Longrightarrow> size v < size_page_prop size p"
  by (cases p; auto elim!: call_fn.elims simp: split_beta)

text \<open>The second loop, and the value of each entry it keeps.\<close>

function (sequential) send_value :: "request \<Rightarrow> gtypes \<Rightarrow> string \<Rightarrow> bool \<Rightarrow> pvalue \<Rightarrow> noted \<Rightarrow> string + out \<times> noted"
  and send_entries :: "request \<Rightarrow> gtypes \<Rightarrow> string \<Rightarrow> bool \<Rightarrow> entry list \<Rightarrow> bool list \<Rightarrow> (string, out) gomap \<Rightarrow> noted \<Rightarrow>
    string + (string, out) gomap \<times> noted"
where
  "send_value rs env path parent_resolved Nil_value n = Inr (Out_nil, n)"
| "send_value rs env path parent_resolved (Data d) n = Inr (Out_data (empty_nils env d), n)"
| "send_value rs env path parent_resolved (A_prop p) n = Inr (Out_struct, n)"
| "send_value rs env path parent_resolved (Children es) n =
     (let (keeps, n1) = keep_entries rs path parent_resolved es n
      in case send_entries rs env path parent_resolved es keeps [] n1 of
           Inl err \<Rightarrow> Inl err
         | Inr (out, n2) \<Rightarrow> Inr (Out_map out, n2))"
| "send_entries rs env prefix parent_resolved ((key, v) # es) (kept # keeps) out n =
     (if \<not> kept then send_entries rs env prefix parent_resolved es keeps out n
      else let path = path_of prefix key in
        case v of
          A_prop p \<Rightarrow>
            (case resolve_one p of
               Inl err \<Rightarrow>
                 if \<not> b_rescue (behave p) then Inl (prop_error path err)
                 else send_entries rs env prefix parent_resolved es keeps out (note_rescue (behave p) path err n)
             | Inr (Scrolled items paging) \<Rightarrow>
                 send_entries rs env prefix parent_resolved es keeps (put key (data_map env items) out)
                   (note_seen (Some (behave p)) path (seen_data path
                     (collect_once rs (behave p) path (collect_merge rs (behave p) path (collect_scroll rs paging path n)))))
             | Inr (Worked_out w) \<Rightarrow>
                 (case send_value rs env path True w (collect_once rs (behave p) path (collect_merge rs (behave p) path n)) of
                    Inl err \<Rightarrow> Inl err
                  | Inr (o', n1) \<Rightarrow>
                      send_entries rs env prefix parent_resolved es keeps (put key o' out)
                        (note_seen (Some (behave p)) path n1)))
        | _ \<Rightarrow>
            (case send_value rs env path parent_resolved v n of
               Inl err \<Rightarrow> Inl err
             | Inr (o', n1) \<Rightarrow>
                 send_entries rs env prefix parent_resolved es keeps (put key o' out)
                   (if prefix = [] then note_seen None path n1 else n1)))"
| "send_entries rs env prefix parent_resolved es keeps out n = Inr (out, n)"
  by pat_completeness auto
termination
  by (relation "measure (case_sum (\<lambda>(rs, env, path, pr, v, n). size v)
      (\<lambda>(rs, env, prefix, pr, es, keeps, out, n). size_list (size_prod (\<lambda>_. 0) size) es))")
    (auto dest: resolve_one_size)

declare send_value.simps [simp del] send_entries.simps [simp del]

definition level ::
  "request \<Rightarrow> gtypes \<Rightarrow> entry list \<Rightarrow> string \<Rightarrow> bool \<Rightarrow> noted \<Rightarrow> string + (string, out) gomap \<times> noted"
where
  "level rs env es prefix parent_resolved n =
     (let (keeps, n1) = keep_entries rs prefix parent_resolved es n
      in send_entries rs env prefix parent_resolved es keeps [] n1)"

text \<open>What Inertia's DevTools say of a prop: its type and how it merges. Nothing is said of a plain value.\<close>

record devtools_prop =
  dp_type :: "string option"
  dp_defer_group :: string
  dp_reset :: bool
  dp_once :: bool
  dp_merge_direction :: string
  dp_deep_merge :: bool
  dp_rescued :: bool

definition no_devtools_prop :: devtools_prop where
  "no_devtools_prop = \<lparr>dp_type = None, dp_defer_group = [], dp_reset = False, dp_once = False,
     dp_merge_direction = [], dp_deep_merge = False, dp_rescued = False\<rparr>"

definition devtools_kind :: "request \<Rightarrow> behavior \<Rightarrow> string \<times> string" where
  "devtools_kind rs b =
     (if b_always b then (''always'', [])
      else if b_scroll b then (''scroll'', if b_first_load b = Deferred then b_group b else [])
      else if b_first_load b = Deferred then (if rs_deferred_fetch rs then (''defer'', b_group b) else ([], []))
      else if b_first_load b = Optional then (''optional'', [])
      else if b_merge b then (''merge'', [])
      else if b_once b then (''once'', [])
      else ([], []))"

definition devtools_prop_of :: "request \<Rightarrow> string \<Rightarrow> behavior option \<Rightarrow> bool \<Rightarrow> devtools_prop" where
  "devtools_prop_of rs path bo rescued =
     (case bo of
        None \<Rightarrow> no_devtools_prop
      | Some b \<Rightarrow>
          let (kind, dgroup) = devtools_kind rs b
          in \<lparr>dp_type = (if kind \<noteq> [] then Some kind else None), dp_defer_group = dgroup,
              dp_reset = path \<in> set (rs_reset rs), dp_once = b_once b,
              dp_merge_direction =
                (if \<not> b_merge b then []
                 else if b_prepend b \<or> b_prepend_at b \<noteq> [] \<and> b_append_at b = [] \<or> b_scroll b \<and> rs_prepend rs
                 then ''prepend'' else ''append''),
              dp_deep_merge = b_merge b \<and> (b_deep b \<or> b_match_on b \<noteq> []), dp_rescued = rescued\<rparr>)"

text \<open>The two loops on the shapes a proof meets.\<close>

lemma send_entries_simps [simp]:
  "send_entries rs env prefix pr [] keeps out n = Inr (out, n)"
  "send_entries rs env prefix pr (e # es) (False # keeps) out n = send_entries rs env prefix pr es keeps out n"
  by (cases e; simp add: send_entries.simps)+

lemma send_value_simps [simp]:
  "send_value rs env path pr Nil_value n = Inr (Out_nil, n)"
  "send_value rs env path pr (Data d) n = Inr (Out_data (empty_nils env d), n)"
  "send_value rs env path pr (A_prop p) n = Inr (Out_struct, n)"
  by (simp_all add: send_value.simps)

text \<open>A page of a list goes out as the map of its data would.\<close>

lemma scrolled_as_map:
  "send_value rs env path True (Children [(''data'', Data items)]) n = Inr (data_map env items, seen_data path n)"
  by (simp add: send_value.simps send_entries.simps data_map_def seen_data_def left_unasked_def path_of_def)

text \<open>Whether an entry is kept does not depend on what has been noted.\<close>

definition goes :: "request \<Rightarrow> string \<Rightarrow> bool \<Rightarrow> entry \<Rightarrow> bool" where
  "goes rs prefix pr e = fst (keep_entry rs prefix pr e nothing_noted)"

lemma left_out_fst: "fst (left_out_of_first_load rs b path n) = fst (left_out_of_first_load rs b path m)"
  by (simp add: left_out_of_first_load_def)

lemma keep_entry_goes: "fst (keep_entry rs prefix pr e n) = goes rs prefix pr e"
proof (cases "(rs, prefix, pr, e, n)" rule: keep_entry.cases)
  case (1 rs prefix pr key p n)
  then show ?thesis
    using left_out_fst [of rs "behave p" "path_of prefix key" n nothing_noted]
    by (auto simp: goes_def Let_def split: prod.splits)
qed (auto simp: goes_def)

lemma keep_entries_goes: "fst (keep_entries rs prefix pr es n) = map (goes rs prefix pr) es"
proof (induction es arbitrary: n)
  case (Cons e es)
  then show ?case
    using keep_entry_goes [of rs prefix pr e n] by (simp add: split_beta)
qed simp

lemma level_unfold:
  "level rs env es prefix pr n =
     send_entries rs env prefix pr es (map (goes rs prefix pr) es) [] (snd (keep_entries rs prefix pr es n))"
  by (simp add: level_def split_beta keep_entries_goes)

lemma send_children:
  "send_value rs env path pr (Children es) n =
     map_sum id (\<lambda>(out, n'). (Out_map out, n')) (level rs env es path pr n)"
  by (simp add: send_value.simps level_def split_beta split: sum.splits)

text \<open>What the second loop does with one entry: what goes out of it, unless it is rescued.\<close>

definition send_prop ::
  "request \<Rightarrow> gtypes \<Rightarrow> string \<Rightarrow> pvalue page_prop \<Rightarrow> noted \<Rightarrow> string + out option \<times> noted"
where
  "send_prop rs env path p n =
     (case resolve_one p of
        Inl err \<Rightarrow>
          if \<not> b_rescue (behave p) then Inl (prop_error path err) else Inr (None, note_rescue (behave p) path err n)
      | Inr (Scrolled items paging) \<Rightarrow>
          Inr (Some (data_map env items), note_seen (Some (behave p)) path (seen_data path
            (collect_once rs (behave p) path (collect_merge rs (behave p) path (collect_scroll rs paging path n)))))
      | Inr (Worked_out w) \<Rightarrow>
          map_sum id (\<lambda>(o', n1). (Some o', note_seen (Some (behave p)) path n1))
            (send_value rs env path True w (collect_once rs (behave p) path (collect_merge rs (behave p) path n))))"

definition send_plain ::
  "request \<Rightarrow> gtypes \<Rightarrow> string \<Rightarrow> bool \<Rightarrow> string \<Rightarrow> pvalue \<Rightarrow> noted \<Rightarrow> string + out option \<times> noted"
where
  "send_plain rs env prefix pr path v n =
     map_sum id (\<lambda>(o', n1). (Some o', if prefix = [] then note_seen None path n1 else n1))
       (send_value rs env path pr v n)"

definition send_item :: "request \<Rightarrow> gtypes \<Rightarrow> string \<Rightarrow> bool \<Rightarrow> entry \<Rightarrow> noted \<Rightarrow> string + out option \<times> noted" where
  "send_item rs env prefix pr e n =
     (case snd e of
        A_prop p \<Rightarrow> send_prop rs env (path_of prefix (fst e)) p n
      | v \<Rightarrow> send_plain rs env prefix pr (path_of prefix (fst e)) v n)"

definition put_out :: "string \<Rightarrow> out option \<Rightarrow> (string, out) gomap \<Rightarrow> (string, out) gomap" where
  "put_out key o' out = (case o' of None \<Rightarrow> out | Some v \<Rightarrow> put key v out)"

lemma send_kept:
  "send_entries rs env prefix pr (e # es) (True # keeps) out n =
     (case send_item rs env prefix pr e n of
        Inl err \<Rightarrow> Inl err
      | Inr (o', n1) \<Rightarrow> send_entries rs env prefix pr es keeps (put_out (fst e) o' out) n1)"
  by (cases e)
    (auto simp: send_entries.simps send_item_def send_prop_def send_plain_def put_out_def Let_def
      split: pvalue.splits sum.splits resolved.splits prod.splits)

lemma send_keptE:
  assumes "send_entries rs env prefix pr (e # es) (True # keeps) out n = Inr r"
  obtains o' n1 where "send_item rs env prefix pr e n = Inr (o', n1)"
    "send_entries rs env prefix pr es keeps (put_out (fst e) o' out) n1 = Inr r"
  using assms by (auto simp: send_kept split: sum.splits)

lemma send_prop_cases:
  assumes "send_prop rs env path p n = Inr (o', n')"
  obtains (rescued) err where "resolve_one p = Inl err" "b_rescue (behave p)" "o' = None"
      "n' = note_rescue (behave p) path err n"
  | (page) items paging where "resolve_one p = Inr (Scrolled items paging)" "o' = Some (data_map env items)"
      "n' = note_seen (Some (behave p)) path (seen_data path
         (collect_once rs (behave p) path (collect_merge rs (behave p) path (collect_scroll rs paging path n))))"
  | (worked_out) w v n1 where "resolve_one p = Inr (Worked_out w)" "o' = Some v"
      "send_value rs env path True w (collect_once rs (behave p) path (collect_merge rs (behave p) path n)) = Inr (v, n1)"
      "n' = note_seen (Some (behave p)) path n1"
  using assms
  by (auto simp: send_prop_def map_sum_Inr_iff split: sum.splits resolved.splits if_splits prod.splits)

lemma send_plain_cases:
  assumes "send_plain rs env prefix pr path v n = Inr (o', n')"
  obtains w n1 where "send_value rs env path pr v n = Inr (w, n1)" "o' = Some w"
    "n' = (if prefix = [] then note_seen None path n1 else n1)"
  using assms by (auto simp: send_plain_def map_sum_Inr_iff)

text \<open>What holds of all that is noted, once it holds of each step's.\<close>

lemma send_induct [case_names nil data nested children no_more left entry]:
  fixes V :: "string \<Rightarrow> bool \<Rightarrow> pvalue \<Rightarrow> noted \<Rightarrow> out \<Rightarrow> noted \<Rightarrow> bool"
    and E :: "string \<Rightarrow> bool \<Rightarrow> entry list \<Rightarrow> noted \<Rightarrow> noted \<Rightarrow> bool"
  assumes nil: "\<And>path pr n. V path pr Nil_value n Out_nil n"
    and data: "\<And>path pr d n. V path pr (Data d) n (Out_data (empty_nils env d)) n"
    and nested: "\<And>path pr p n. V path pr (A_prop p) n Out_struct n"
    and children: "\<And>path pr es n out n'. E path pr es (snd (keep_entries rs path pr es n)) n' \<Longrightarrow>
        level rs env es path pr n = Inr (out, n') \<Longrightarrow> V path pr (Children es) n (Out_map out) n'"
    and no_more: "\<And>prefix pr n. E prefix pr [] n n"
    and left: "\<And>prefix pr e es n n'. \<not> goes rs prefix pr e \<Longrightarrow> E prefix pr es n n' \<Longrightarrow> E prefix pr (e # es) n n'"
    and entry: "\<And>prefix pr key v es n n1 n' o'. goes rs prefix pr (key, v) \<Longrightarrow>
        send_item rs env prefix pr (key, v) n = Inr (o', n1) \<Longrightarrow>
        (\<And>p w. v = A_prop p \<Longrightarrow> resolve_one p = Inr (Worked_out w) \<Longrightarrow>
           \<forall>n o' n'. send_value rs env (path_of prefix key) True w n = Inr (o', n') \<longrightarrow>
             V (path_of prefix key) True w n o' n') \<Longrightarrow>
        (\<forall>n o' n'. send_value rs env (path_of prefix key) pr v n = Inr (o', n') \<longrightarrow>
             V (path_of prefix key) pr v n o' n') \<Longrightarrow>
        E prefix pr es n1 n' \<Longrightarrow> E prefix pr ((key, v) # es) n n'"
  shows "(\<forall>path pr v n o' n'. send_value rs env path pr v n = Inr (o', n') \<longrightarrow> V path pr v n o' n') \<and>
    (\<forall>prefix pr es out n out' n'.
       send_entries rs env prefix pr es (map (goes rs prefix pr) es) out n = Inr (out', n') \<longrightarrow> E prefix pr es n n')"
proof -
  define size_of where "size_of = size_list (size_prod (\<lambda>_::string. 0) (size :: pvalue \<Rightarrow> nat))"
  have "(\<forall>v path pr n o' n'. size v = k \<longrightarrow> send_value rs env path pr v n = Inr (o', n') \<longrightarrow> V path pr v n o' n') \<and>
      (\<forall>es prefix pr out out' n n'. size_of es = k \<longrightarrow>
         send_entries rs env prefix pr es (map (goes rs prefix pr) es) out n = Inr (out', n') \<longrightarrow> E prefix pr es n n')"
    for k
  proof (induction k rule: less_induct)
    case (less k)
    have V: "V path pr v n o' n'" if "size v < k" "send_value rs env path pr v n = Inr (o', n')" for v path pr n o' n'
      using less.IH that by blast
    have E: "E prefix pr es n n'" if "size_of es < k"
      "send_entries rs env prefix pr es (map (goes rs prefix pr) es) out n = Inr (out', n')" for es prefix pr out out' n n'
      using less.IH that by blast
    have one: "V path pr v n o' n'" if k: "size v = k" and r: "send_value rs env path pr v n = Inr (o', n')"
      for v path pr n o' n'
    proof (cases v)
      case (Children es)
      then obtain out where lv: "level rs env es path pr n = Inr (out, n')" and o': "o' = Out_map out"
        using r by (auto simp: send_children map_sum_Inr_iff)
      have "size_of es < k" using k Children by (simp add: size_of_def)
      from E [OF this] lv show ?thesis
        using children lv o' Children by (simp add: level_unfold)
    qed (use r nil data nested in auto)
    have two: "E prefix pr es n n'" if k: "size_of es = k"
      and r: "send_entries rs env prefix pr es (map (goes rs prefix pr) es) out n = Inr (out', n')"
      for es prefix pr out out' n n'
    proof (cases es)
      case Nil
      with r no_more show ?thesis by simp
    next
      case (Cons e rest)
      obtain key v where e: "e = (key, v)" by (cases e)
      have smaller: "size_of rest < k" "size v < k" using k Cons e by (simp_all add: size_of_def)
      show ?thesis
      proof (cases "goes rs prefix pr e")
        case False
        then have "E prefix pr rest n n'" using r Cons E [OF smaller(1)] by simp
        with left False Cons show ?thesis by simp
      next
        case True
        then obtain o1 n1 where item: "send_item rs env prefix pr e n = Inr (o1, n1)"
          and rest: "send_entries rs env prefix pr rest (map (goes rs prefix pr) rest) (put_out (fst e) o1 out) n1 = Inr (out', n')"
          using r Cons by (auto elim: send_keptE)
        have sub: "size w < k" if "v = A_prop p" "resolve_one p = Inr (Worked_out w)" for p w
          using resolve_one_size [OF that(2)] smaller(2) that(1) by simp
        show ?thesis
          using entry [of prefix pr key v n o1 n1 rest n'] True item E [OF smaller(1) rest] V sub smaller(2) Cons e
          by blast
      qed
    qed
    from one two show ?case by blast
  qed
  then show ?thesis by blast
qed

end
