(* ===== verification/Inertia_Reloads.thy ===== *)
theory Inertia_Reloads
  imports Inertia_Props
begin

text \<open>
  What the resolver of a page's props promises (inertia/props.go): which props a visit and a partial reload
  get, that a prop left out is not worked out, that what a first load defers its reload delivers, what a
  failing prop does, and which props are labeled to be merged.
\<close>

section \<open>What is noted\<close>

lemma note_simps [simp]:
  "n_seen (collect_merge rs b path n) = n_seen n" "n_seen (collect_once rs b path n) = n_seen n"
  "n_seen (collect_scroll rs pg path n) = n_seen n" "n_seen (note_deferred rs b path n) = n_seen n"
  "n_deferred (collect_merge rs b path n) = n_deferred n" "n_deferred (collect_once rs b path n) = n_deferred n"
  "n_deferred (collect_scroll rs pg path n) = n_deferred n"
  "n_deferred (note_seen b' path n) = n_deferred n" "n_deferred (note_rescue b path e n) = n_deferred n"
  "n_deferred (seen_data path n) = n_deferred n"
  "n_rescued (collect_merge rs b path n) = n_rescued n" "n_rescued (collect_once rs b path n) = n_rescued n"
  "n_rescued (collect_scroll rs pg path n) = n_rescued n" "n_rescued (note_deferred rs b path n) = n_rescued n"
  "n_rescued (note_seen b' path n) = n_rescued n" "n_rescued (seen_data path n) = n_rescued n"
  by (simp_all add: collect_merge_def collect_once_def collect_scroll_def note_deferred_def note_seen_def
      note_rescue_def seen_data_def Let_def split_beta)

lemma left_out_seen [simp]:
  "n_seen (snd (left_out_of_first_load rs b path n)) = n_seen n"
  "n_rescued (snd (left_out_of_first_load rs b path n)) = n_rescued n"
  by (simp_all add: left_out_of_first_load_def)

lemma keep_entry_seen [simp]:
  "n_seen (snd (keep_entry rs prefix pr e n)) = n_seen n"
  "n_rescued (snd (keep_entry rs prefix pr e n)) = n_rescued n"
  using left_out_seen
  by (induction rs prefix pr e n rule: keep_entry.induct; simp add: Let_def split_beta)+

lemma keep_entries_seen [simp]:
  "n_seen (snd (keep_entries rs prefix pr es n)) = n_seen n"
  "n_rescued (snd (keep_entries rs prefix pr es n)) = n_rescued n"
  by (induction es arbitrary: n) (simp_all add: split_beta)

abbreviation seen_set :: "noted \<Rightarrow> (string \<times> behavior option \<times> bool) set" where
  "seen_set n \<equiv> set (n_seen n)"

lemma seen_grows_all:
  "(\<forall>path pr v n o' n'. send_value rs env path pr v n = Inr (o', n') \<longrightarrow> seen_set n \<subseteq> seen_set n') \<and>
   (\<forall>prefix pr es out n out' n'.
      send_entries rs env prefix pr es (map (goes rs prefix pr) es) out n = Inr (out', n') \<longrightarrow> seen_set n \<subseteq> seen_set n')"
proof (induction rule: send_induct)
  case (entry prefix pr key v es n n1 n' o')
  have "seen_set n \<subseteq> seen_set n1"
  proof (cases v)
    case (A_prop p)
    then have "send_prop rs env (path_of prefix key) p n = Inr (o', n1)" using entry(2) by (simp add: send_item_def)
    then show ?thesis
    proof (cases rule: send_prop_cases)
      case (worked_out w x m)
      with entry(3) [OF A_prop worked_out(1)] show ?thesis by (fastforce simp: note_seen_def)
    qed (auto simp: note_rescue_def note_seen_def seen_data_def)
  qed (use entry(2,4) in \<open>fastforce simp: send_item_def note_seen_def elim!: send_plain_cases\<close>)+
  with entry(5) show ?case by blast
qed auto

lemma seen_grows:
  "send_value rs env path pr v n = Inr (o', n') \<Longrightarrow> seen_set n \<subseteq> seen_set n'"
  "send_entries rs env prefix pr es (map (goes rs prefix pr) es) out n = Inr (out', n') \<Longrightarrow> seen_set n \<subseteq> seen_set n'"
  using seen_grows_all by blast+

section \<open>What a reload gets of what was deferred\<close>

text \<open>The paths noted for the client to fetch.\<close>

definition to_fetch :: "noted \<Rightarrow> string set" where
  "to_fetch n = {path. \<exists>g paths. lookup (n_deferred n) g = Some paths \<and> path \<in> set paths}"

lemma to_fetch_cong: "n_deferred n = n_deferred m \<Longrightarrow> to_fetch n = to_fetch m"
  by (simp add: to_fetch_def)

lemma to_fetch_note_deferred: "to_fetch (note_deferred rs b path n) \<subseteq> insert path (to_fetch n)"
  by (auto simp: note_deferred_def to_fetch_def split: if_splits option.splits)

lemma to_fetch_left_out:
  "to_fetch (snd (left_out_of_first_load rs b path n)) \<subseteq> insert path (to_fetch n)"
  using to_fetch_note_deferred [of rs b path n]
  by (auto simp: left_out_of_first_load_def to_fetch_def)

lemma to_fetch_keep_entry:
  "d \<in> to_fetch (snd (keep_entry rs prefix pr e n)) \<Longrightarrow>
     d \<in> to_fetch n \<or> (\<exists>p. snd e = A_prop p \<and> \<not> missing p \<and> d = path_of prefix (fst e))"
  using to_fetch_left_out
  by (induction rs prefix pr e n rule: keep_entry.induct) (fastforce simp: Let_def split_beta split: if_splits)+

lemma to_fetch_keep_entries:
  "d \<in> to_fetch (snd (keep_entries rs prefix pr es n)) \<Longrightarrow>
     d \<in> to_fetch n \<or> (\<exists>key p. (key, A_prop p) \<in> set es \<and> \<not> missing p \<and> d = path_of prefix key)"
proof (induction es arbitrary: n)
  case (Cons e es)
  then show ?case
    using to_fetch_keep_entry [of d rs prefix pr e n] by (cases e) (fastforce simp: split_beta)
qed simp

text \<open>A reload that asks for a path.\<close>

definition asks_for :: "request \<Rightarrow> string \<Rightarrow> bool" where
  "asks_for rs path \<longleftrightarrow> rs_partial rs \<and> path \<in> set (rs_only rs) \<and> rs_except rs = []"

definition inside :: "string \<Rightarrow> string \<Rightarrow> bool" where
  "inside prefix path \<longleftrightarrow> prefix = [] \<or> has_prefix path (prefix @ ''.'')"

lemma inside_path_of: "inside prefix (path_of prefix key)"
  by (auto simp: inside_def path_of_def has_prefix_iff)

lemma inside_down: "path_of prefix key \<noteq> [] \<Longrightarrow> inside (path_of prefix key) d \<Longrightarrow> inside prefix d"
  by (auto simp: inside_def path_of_def has_prefix_iff)

lemma asks_for_wanted:
  assumes "asks_for rs d" "d = path \<or> path \<noteq> [] \<and> inside path d"
  shows "path_wanted rs path"
proof -
  have "within path (rs_only rs) \<or> leads_to path (rs_only rs)"
    using assms by (auto simp: asks_for_def inside_def within_def leads_to_def list_ex_iff)
  with assms(1) show ?thesis by (simp add: asks_for_def path_wanted_def)
qed

lemma goes_not_missing: "goes rs prefix pr (key, A_prop p) \<Longrightarrow> \<not> missing p"
  by (auto simp: goes_def)

lemma goes_asked:
  assumes "asks_for rs d" "d = path_of prefix key \<or> path_of prefix key \<noteq> [] \<and> inside (path_of prefix key) d"
    and "\<And>p. v = A_prop p \<Longrightarrow> \<not> missing p"
  shows "goes rs prefix pr (key, v)"
  using asks_for_wanted [OF assms(1,2)] assms(1,3)
  by (cases v) (auto simp: goes_def left_unasked_def asks_for_def)

text \<open>
  Where a prop is: at its path among the entries, in a map among them, or in one that a prop works out to. What is at
  a path of a response: the value under its last key.
\<close>

inductive prop_at :: "string \<Rightarrow> entry list \<Rightarrow> string \<Rightarrow> pvalue page_prop \<Rightarrow> bool" where
  prop_here: "(key, A_prop p) \<in> set es \<Longrightarrow> prop_at prefix es (path_of prefix key) p"
| prop_in_map: "(key, Children es') \<in> set es \<Longrightarrow> prop_at (path_of prefix key) es' d p \<Longrightarrow> prop_at prefix es d p"
| prop_in_prop: "(key, A_prop q) \<in> set es \<Longrightarrow> resolve_one q = Inr (Worked_out (Children es')) \<Longrightarrow>
     prop_at (path_of prefix key) es' d p \<Longrightarrow> prop_at prefix es d p"

inductive out_at :: "string \<Rightarrow> (string, out) gomap \<Rightarrow> string \<Rightarrow> out \<Rightarrow> bool" where
  out_here: "lookup r key = Some w \<Longrightarrow> out_at prefix r (path_of prefix key) w"
| out_inside: "lookup r key = Some (Out_map r') \<Longrightarrow> out_at (path_of prefix key) r' d w \<Longrightarrow> out_at prefix r d w"

text \<open>
  What a request is sent of a prop: what it works out to, sent with the prop's path as its own, or a page's items. No
  level has a key twice, as no map of Go's has one, not in what a prop works out to either.
\<close>

definition sent_of :: "request \<Rightarrow> gtypes \<Rightarrow> pvalue page_prop \<Rightarrow> string \<Rightarrow> out \<Rightarrow> bool" where
  "sent_of rs env p d w \<longleftrightarrow>
     (case resolve_one p of
        Inl err \<Rightarrow> False
      | Inr (Scrolled items paging) \<Rightarrow> w = data_map env items
      | Inr (Worked_out v) \<Rightarrow> (\<exists>n n'. send_value rs env d True v n = Inr (w, n')))"

function keys_once :: "pvalue \<Rightarrow> bool" where
  "keys_once (Children es) \<longleftrightarrow> distinct (map fst es) \<and> (\<forall>e \<in> set es. keys_once (snd e))"
| "keys_once (A_prop p) \<longleftrightarrow> (case resolve_one p of Inr (Worked_out v) \<Rightarrow> keys_once v | _ \<Rightarrow> True)"
| "keys_once Nil_value \<longleftrightarrow> True"
| "keys_once (Data g) \<longleftrightarrow> True"
  by pat_completeness auto
termination
proof (relation "measure size")
  fix es :: "entry list" and e
  assume "e \<in> set es"
  then have "size (snd e) \<le> size_list (size_prod (\<lambda>_. 0) size) es" by (induction es) auto
  then show "(snd e, Children es) \<in> measure size" by simp
qed (auto dest: resolve_one_size)

text \<open>The prop at a path, in the response or rescued there.\<close>

definition delivered :: "request \<Rightarrow> gtypes \<Rightarrow> string \<Rightarrow> (string, out) gomap \<Rightarrow> noted \<Rightarrow> string \<Rightarrow> pvalue page_prop \<Rightarrow> bool" where
  "delivered rs env prefix r n d p \<longleftrightarrow> d \<in> set (n_rescued n) \<or> (\<exists>w. out_at prefix r d w \<and> sent_of rs env p d w)"

lemma rescued_grows_all:
  "(\<forall>path pr v n o' n'. send_value rs env path pr v n = Inr (o', n') \<longrightarrow> set (n_rescued n) \<subseteq> set (n_rescued n')) \<and>
   (\<forall>prefix pr es out n out' n'.
      send_entries rs env prefix pr es (map (goes rs prefix pr) es) out n = Inr (out', n') \<longrightarrow>
      set (n_rescued n) \<subseteq> set (n_rescued n'))"
proof (induction rule: send_induct)
  case (entry prefix pr key v es n n1 n' o')
  have "set (n_rescued n) \<subseteq> set (n_rescued n1)"
  proof (cases v)
    case (A_prop p)
    then have "send_prop rs env (path_of prefix key) p n = Inr (o', n1)" using entry(2) by (simp add: send_item_def)
    then show ?thesis
    proof (cases rule: send_prop_cases)
      case (worked_out w x m)
      with entry(3) [OF A_prop worked_out(1)] show ?thesis by fastforce
    qed (auto simp: note_rescue_def)
  qed (use entry(2,4) in \<open>fastforce simp: send_item_def elim!: send_plain_cases\<close>)+
  with entry(5) show ?case by blast
qed auto

lemma rescued_grows:
  "send_entries rs env prefix pr es (map (goes rs prefix pr) es) out n = Inr (out', n') \<Longrightarrow>
     set (n_rescued n) \<subseteq> set (n_rescued n')"
  using rescued_grows_all by blast

lemma send_prop_sent:
  assumes "send_prop rs env path p n = Inr (o', n')"
  shows "path \<in> set (n_rescued n') \<or> (\<exists>w. o' = Some w \<and> sent_of rs env p path w)"
  using assms
proof (cases rule: send_prop_cases)
  case (worked_out v w n1)
  then show ?thesis by (auto simp: sent_of_def)
qed (auto simp: note_rescue_def sent_of_def)

text \<open>What an entry puts out stays, where no entry after it has its key.\<close>

lemma send_entries_others:
  "send_entries rs env prefix pr es (map (goes rs prefix pr) es) out n = Inr (r, n') \<Longrightarrow> k \<notin> fst ` set es \<Longrightarrow>
     lookup r k = lookup out k"
proof (induction es arbitrary: out n)
  case (Cons e es)
  show ?case
  proof (cases "goes rs prefix pr e")
    case True
    with Cons.prems obtain o' n1 where
      "send_entries rs env prefix pr es (map (goes rs prefix pr) es) (put_out (fst e) o' out) n1 = Inr (r, n')"
      by (auto elim!: send_keptE)
    from Cons.IH [OF this] Cons.prems(2) show ?thesis by (auto simp: put_out_def split: option.splits)
  next
    case False
    with Cons show ?thesis by simp
  qed
qed simp

lemma send_entries_kept:
  assumes "send_entries rs env prefix pr ((key, v) # es) (map (goes rs prefix pr) ((key, v) # es)) out n = Inr (r, n')"
    and "goes rs prefix pr (key, v)"
  obtains o' n1 where "send_item rs env prefix pr (key, v) n = Inr (o', n1)" "set (n_rescued n1) \<subseteq> set (n_rescued n')"
    "send_entries rs env prefix pr es (map (goes rs prefix pr) es) (put_out key o' out) n1 = Inr (r, n')"
proof -
  obtain o' n1 where "send_item rs env prefix pr (key, v) n = Inr (o', n1)"
    and rest: "send_entries rs env prefix pr es (map (goes rs prefix pr) es) (put_out key o' out) n1 = Inr (r, n')"
    using assms by (auto elim: send_keptE)
  from that [OF this(1) rescued_grows [OF rest] rest] show ?thesis .
qed

lemma send_item_value:
  assumes "send_item rs env prefix pr (key, v) n = Inr (o', n1)"
  obtains (whole) w m' where "send_value rs env (path_of prefix key) pr v n = Inr (w, m')" "o' = Some w"
      "n_rescued n1 = n_rescued m'" "\<And>p. v \<noteq> A_prop p" "n_deferred n1 = n_deferred m'"
  | (worked_out) p x m w m' where "v = A_prop p" "resolve_one p = Inr (Worked_out x)"
      "send_value rs env (path_of prefix key) True x m = Inr (w, m')" "o' = Some w" "n_rescued n1 = n_rescued m'"
      "n_deferred m = n_deferred n" "n_deferred n1 = n_deferred m'"
  | (other) p where "v = A_prop p" "\<And>x. resolve_one p \<noteq> Inr (Worked_out x)" "n_deferred n1 = n_deferred n"
proof (cases "\<exists>p. v = A_prop p")
  case True
  then obtain p where p: "v = A_prop p" by blast
  then have "send_prop rs env (path_of prefix key) p n = Inr (o', n1)" using assms by (simp add: send_item_def)
  then show ?thesis
  proof (cases rule: send_prop_cases)
    case (worked_out x w m)
    show ?thesis by (rule that(2) [OF p worked_out(1,3,2)]) (auto simp: worked_out note_seen_def)
  qed (use that(3) [OF p] in auto)
next
  case False
  then have "send_plain rs env prefix pr (path_of prefix key) v n = Inr (o', n1)"
    using assms by (cases v) (auto simp: send_item_def)
  then obtain w m where w: "send_value rs env (path_of prefix key) pr v n = Inr (w, m)" "o' = Some w"
    "n1 = (if prefix = [] then note_seen None (path_of prefix key) m else m)"
    by (rule send_plain_cases)
  show ?thesis by (rule that(1) [OF w(1,2)]) (use False in \<open>auto simp: w(3) note_seen_def\<close>)
qed

text \<open>
  What is noted to fetch while a value or a level is sent is the path of a prop of it that any reload asking for the path
  delivers: the props on the way are kept, as their paths lead to it.
\<close>

definition fetched_value :: "string \<Rightarrow> pvalue \<Rightarrow> string \<Rightarrow> bool" where
  "fetched_value path v d \<longleftrightarrow> (\<exists>es p. v = Children es \<and> prop_at path es d p \<and>
     (\<forall>rs env pr n w n'. asks_for rs d \<longrightarrow> send_value rs env path pr v n = Inr (w, n') \<longrightarrow>
        (\<exists>r. w = Out_map r \<and> delivered rs env path r n' d p)))"

definition fetched_entries :: "string \<Rightarrow> entry list \<Rightarrow> string \<Rightarrow> bool" where
  "fetched_entries prefix es d \<longleftrightarrow> (\<exists>p. prop_at prefix es d p \<and>
     (\<forall>rs env pr out n r n'. asks_for rs d \<longrightarrow>
        send_entries rs env prefix pr es (map (goes rs prefix pr) es) out n = Inr (r, n') \<longrightarrow> delivered rs env prefix r n' d p))"

lemma prop_at_tail: "prop_at prefix es d p \<Longrightarrow> prop_at prefix (e # es) d p"
  by (erule prop_at.cases) (auto intro: prop_at.intros)

lemma fetched_entries_tail:
  assumes "fetched_entries prefix es d"
  shows "fetched_entries prefix (e # es) d"
proof -
  obtain p where p: "prop_at prefix es d p" and tail: "\<And>rs env pr out n r n'. asks_for rs d \<Longrightarrow>
     send_entries rs env prefix pr es (map (goes rs prefix pr) es) out n = Inr (r, n') \<Longrightarrow> delivered rs env prefix r n' d p"
    using assms unfolding fetched_entries_def by blast
  have "delivered rs env prefix r n' d p" if "asks_for rs d"
    "send_entries rs env prefix pr (e # es) (map (goes rs prefix pr) (e # es)) out n = Inr (r, n')" for rs env pr out n r n'
    by (cases "goes rs prefix pr e") (use tail that in \<open>auto elim!: send_keptE\<close>)
  with prop_at_tail [OF p] show ?thesis unfolding fetched_entries_def by blast
qed

lemma fetched_entries_head:
  assumes item: "\<And>rs env pr n o' n1. asks_for rs d \<Longrightarrow> send_item rs env prefix pr (key, v) n = Inr (o', n1) \<Longrightarrow>
      \<exists>r. o' = Some (Out_map r) \<and> delivered rs env (path_of prefix key) r n1 d p"
    and "path_of prefix key \<noteq> []" "inside (path_of prefix key) d" "\<And>p. v = A_prop p \<Longrightarrow> \<not> missing p"
    and once: "key \<notin> fst ` set es" and at: "prop_at prefix ((key, v) # es) d p"
  shows "fetched_entries prefix ((key, v) # es) d"
proof -
  have "delivered rs env prefix r n' d p" if asks: "asks_for rs d"
    and r: "send_entries rs env prefix pr ((key, v) # es) (map (goes rs prefix pr) ((key, v) # es)) out n = Inr (r, n')"
    for rs env pr out n r n'
  proof -
    have "goes rs prefix pr (key, v)" by (rule goes_asked [OF asks]) (use assms in auto)
    from send_entries_kept [OF r this] obtain o' n1 where s: "send_item rs env prefix pr (key, v) n = Inr (o', n1)"
      "set (n_rescued n1) \<subseteq> set (n_rescued n')"
      "send_entries rs env prefix pr es (map (goes rs prefix pr) es) (put_out key o' out) n1 = Inr (r, n')" by blast
    obtain r' where r': "o' = Some (Out_map r')" "delivered rs env (path_of prefix key) r' n1 d p"
      using item [OF asks s(1)] by blast
    have "lookup r key = Some (Out_map r')" using send_entries_others [OF s(3) once] r'(1) by (simp add: put_out_def)
    with r'(2) s(2) show ?thesis unfolding delivered_def by (blast intro: out_inside)
  qed
  with at show ?thesis unfolding fetched_entries_def by blast
qed

lemma fetched_prop:
  assumes "(key, A_prop p) \<in> set es" "\<not> missing p" "distinct (map fst es)"
  shows "fetched_entries prefix es (path_of prefix key)"
  using assms
proof (induction es)
  case (Cons e es)
  show ?case
  proof (cases "e = (key, A_prop p)")
    case False
    with Cons show ?thesis by (auto intro: fetched_entries_tail)
  next
    case e: True
    have "delivered rs env prefix r n' (path_of prefix key) p" if asks: "asks_for rs (path_of prefix key)"
      and r: "send_entries rs env prefix pr (e # es) (map (goes rs prefix pr) (e # es)) out n = Inr (r, n')"
      for rs env pr out n r n'
    proof -
      have "goes rs prefix pr (key, A_prop p)" by (rule goes_asked [OF asks]) (use Cons.prems in auto)
      from send_entries_kept [OF r [unfolded e] this] obtain o' n1 where
        s: "send_prop rs env (path_of prefix key) p n = Inr (o', n1)" "set (n_rescued n1) \<subseteq> set (n_rescued n')"
        "send_entries rs env prefix pr es (map (goes rs prefix pr) es) (put_out key o' out) n1 = Inr (r, n')"
        by (auto simp: send_item_def)
      have "lookup r key = lookup (put_out key o' out) key"
        using send_entries_others [OF s(3)] Cons.prems(3) e by simp
      with send_prop_sent [OF s(1)] s(2) out_here [of r key _ prefix] show ?thesis
        by (fastforce simp: delivered_def put_out_def)
    qed
    moreover have "prop_at prefix (e # es) (path_of prefix key) p" using e by (auto intro: prop_here)
    ultimately show ?thesis unfolding fetched_entries_def by blast
  qed
qed simp

definition named :: "string \<Rightarrow> entry list \<Rightarrow> bool" where
  "named prefix es \<longleftrightarrow> prefix \<noteq> [] \<or> [] \<notin> fst ` set es"

lemma named_path: "named prefix ((key, v) # es) \<Longrightarrow> path_of prefix key \<noteq> [] \<and> named prefix es"
  by (auto simp: named_def path_of_def)

lemma fetched_children:
  assumes "fetched_entries path es d"
  shows "fetched_value path (Children es) d"
proof -
  obtain p where p: "prop_at path es d p" and sent: "\<And>rs env pr out n r n'. asks_for rs d \<Longrightarrow>
     send_entries rs env path pr es (map (goes rs path pr) es) out n = Inr (r, n') \<Longrightarrow> delivered rs env path r n' d p"
    using assms unfolding fetched_entries_def by blast
  have "\<exists>r. w = Out_map r \<and> delivered rs env path r n' d p"
    if "asks_for rs d" "send_value rs env path pr (Children es) n = Inr (w, n')" for rs env pr n w n'
    using that sent by (auto simp: send_children map_sum_Inr_iff level_unfold)
  with p show ?thesis unfolding fetched_value_def by blast
qed

lemma to_fetch_is_fetched_all:
  "(\<forall>path pr v n o' n'. send_value rs env path pr v n = Inr (o', n') \<longrightarrow>
      (path \<noteq> [] \<and> keys_once v \<longrightarrow> (\<forall>d \<in> to_fetch n'. d \<in> to_fetch n \<or> inside path d \<and> fetched_value path v d))) \<and>
   (\<forall>prefix pr es out n out' n'.
      send_entries rs env prefix pr es (map (goes rs prefix pr) es) out n = Inr (out', n') \<longrightarrow>
      (named prefix es \<and> keys_once (Children es) \<longrightarrow>
         (\<forall>d \<in> to_fetch n'. d \<in> to_fetch n \<or> inside prefix d \<and> fetched_entries prefix es d)))"
proof (induction rule: send_induct)
  case (children path pr es n out n')
  show ?case
  proof (intro impI ballI)
    fix d assume path: "path \<noteq> [] \<and> keys_once (Children es)" and d: "d \<in> to_fetch n'"
    from children(1) path d consider "d \<in> to_fetch (snd (keep_entries rs path pr es n))"
      | "inside path d" "fetched_entries path es d"
      by (auto simp: named_def)
    then show "d \<in> to_fetch n \<or> inside path d \<and> fetched_value path (Children es) d"
    proof cases
      case 1
      then show ?thesis
        using to_fetch_keep_entries [OF 1] path fetched_prop inside_path_of fetched_children by (metis keys_once.simps(1))
    next
      case 2
      with fetched_children show ?thesis by blast
    qed
  qed
next
  case (left prefix pr e es n n')
  then show ?case
    by (cases e) (use fetched_entries_tail in \<open>fastforce simp: named_def\<close>)
next
  case (entry prefix pr key v es n n1 n' o')
  show ?case
  proof (intro impI ballI)
    fix d assume named: "named prefix ((key, v) # es) \<and> keys_once (Children ((key, v) # es))" and d: "d \<in> to_fetch n'"
    note path = named_path [OF conjunct1 [OF named]]
    have once: "key \<notin> fst ` set es" "keys_once v" "keys_once (Children es)" using named by auto
    let ?p = "path_of prefix key"
    have new: "inside ?p d \<and> fetched_entries prefix ((key, v) # es) d" if "d \<in> to_fetch n1" "d \<notin> to_fetch n"
      using entry(2)
    proof (cases rule: send_item_value)
      case (whole w m')
      then have i: "inside ?p d" "fetched_value ?p v d"
        using entry(4) path that once(2) to_fetch_cong by blast+
      from i(2) obtain es' p where p: "v = Children es'" "prop_at ?p es' d p"
        and sent: "\<And>rs env pr n w n'. asks_for rs d \<Longrightarrow> send_value rs env ?p pr v n = Inr (w, n') \<Longrightarrow>
          \<exists>r. w = Out_map r \<and> delivered rs env ?p r n' d p" unfolding fetched_value_def by blast
      have "\<exists>r. o2 = Some (Out_map r) \<and> delivered rs' env' ?p r n2 d p"
        if asks: "asks_for rs' d" and it: "send_item rs' env' prefix pr' (key, v) n0 = Inr (o2, n2)"
        for rs' env' pr' n0 o2 n2
        using it
      proof (cases rule: send_item_value)
        case (whole w m')
        with sent [OF asks whole(1)] show ?thesis by (auto simp: delivered_def)
      qed (use whole in auto)
      then have "fetched_entries prefix ((key, v) # es) d"
        by (rule fetched_entries_head) (use path i whole once p in \<open>auto intro: prop_in_map\<close>)
      with i show ?thesis by simp
    next
      case (worked_out q x m w m')
      then have "keys_once x" using once(2) by simp
      with worked_out have i: "inside ?p d" "fetched_value ?p x d"
        using entry(3) [OF worked_out(1,2)] path that to_fetch_cong by blast+
      from i(2) obtain es' p where p: "x = Children es'" "prop_at ?p es' d p"
        and sent: "\<And>rs env pr n w n'. asks_for rs d \<Longrightarrow> send_value rs env ?p pr x n = Inr (w, n') \<Longrightarrow>
          \<exists>r. w = Out_map r \<and> delivered rs env ?p r n' d p" unfolding fetched_value_def by blast
      have "\<exists>r. o2 = Some (Out_map r) \<and> delivered rs' env' ?p r n2 d p"
        if asks: "asks_for rs' d" and it: "send_item rs' env' prefix pr' (key, v) n0 = Inr (o2, n2)"
        for rs' env' pr' n0 o2 n2
        using it
      proof (cases rule: send_item_value)
        case (worked_out p' x' m w m')
        then have "x' = x" using \<open>v = A_prop q\<close> \<open>resolve_one q = Inr (Worked_out x)\<close> by simp
        with sent [OF asks] worked_out show ?thesis by (auto simp: delivered_def)
      qed (use worked_out in auto)
      then have "fetched_entries prefix ((key, v) # es) d"
        by (rule fetched_entries_head)
          (use path i worked_out entry(1) goes_not_missing once p in \<open>auto intro: prop_in_prop\<close>)
      with i show ?thesis by simp
    next
      case (other p)
      with that to_fetch_cong show ?thesis by blast
    qed
    show "d \<in> to_fetch n \<or> inside prefix d \<and> fetched_entries prefix ((key, v) # es) d"
    proof (cases "d \<in> to_fetch n1")
      case True
      with new path inside_down show ?thesis by blast
    next
      case False
      with entry(5) path d once(3) have "inside prefix d" "fetched_entries prefix es d" by blast+
      with fetched_entries_tail show ?thesis by blast
    qed
  qed
qed auto

text \<open>
  C6. A partial reload delivers what was deferred: each path a first load names for the client to fetch after, at whatever
  depth it is, is a prop's, and any reload that asks for it by that path has at that path of its response what the prop
  works out to, or names it there as rescued, where the response is one at all. The props are the same ones, working out as they
  did, and no map of theirs has a key twice.
\<close>

theorem what_is_deferred_comes_when_asked:
  assumes "level visit env es [] False nothing_noted = Inr (out, n)" "[] \<notin> fst ` set es" "keys_once (Children es)"
    and "lookup (n_deferred n) g = Some paths" "path \<in> set paths"
    and "rs_partial reload" "path \<in> set (rs_only reload)" "rs_except reload = []"
    and "level reload env' es [] False nothing_noted = Inr (out', n')"
  shows "\<exists>p. prop_at [] es path p \<and>
    ((\<exists>w. out_at [] out' path w \<and> sent_of reload env' p path w) \<or> path \<in> set (n_rescued n'))"
proof -
  have d: "path \<in> to_fetch n" using assms(4,5) by (auto simp: to_fetch_def)
  have asks: "asks_for reload path" using assms(6-8) by (simp add: asks_for_def)
  have "path \<in> to_fetch (snd (keep_entries visit [] False es nothing_noted)) \<or> fetched_entries [] es path"
    using to_fetch_is_fetched_all [of visit env] assms(1-3) d unfolding level_unfold named_def by blast
  moreover have "path \<notin> to_fetch nothing_noted" by (simp add: to_fetch_def nothing_noted_def)
  moreover have "distinct (map fst es)" using assms(3) by simp
  ultimately have "fetched_entries [] es path"
    using to_fetch_keep_entries fetched_prop by blast
  then show ?thesis using asks assms(9) unfolding fetched_entries_def level_unfold delivered_def by blast
qed

definition demo_visit :: request where
  "demo_visit = \<lparr>rs_partial = False, rs_inertia = True, rs_only = [], rs_except = [], rs_reset = [], rs_loaded = [],
     rs_prepend = False, rs_deferred_fetch = False\<rparr>"

definition demo_page :: "entry list" where
  "demo_page = [(''id'', Data (V_plain ''1'')),
     (''post'', Children [(''likes'', A_prop (defer_prop (Some (Returns (Data (V_plain ''7'')))) []))])]"

lemmas page_evals = level_def send_entries.simps send_value.simps demo_visit_def demo_page_def defer_prop_def
  group_of_def no_behavior_def left_unasked_def path_of_def Let_def left_out_of_first_load_def note_deferred_def
  client_has_def collect_once_def collect_merge_def note_seen_def nothing_noted_def path_wanted_def within_def
  leads_to_def empty_nils_def may_hold_nil_def

theorem what_is_deferred_comes_when_asked_witness:
  "(\<exists>out n. level demo_visit [] demo_page [] False nothing_noted = Inr (out, n) \<and>
      lookup (n_deferred n) ''default'' = Some [''post.likes'']) \<and>
   (\<exists>out n. level (demo_visit\<lparr>rs_partial := True, rs_only := [''post.likes'']\<rparr>) [] demo_page [] False nothing_noted = Inr (out, n) \<and>
      ((\<exists>w. out_at [] out ''post.likes'' w) \<or> ''post.likes'' \<in> set (n_rescued n)))"
proof -
  obtain out n where first: "level demo_visit [] demo_page [] False nothing_noted = Inr (out, n)"
    "lookup (n_deferred n) ''default'' = Some [''post.likes'']"
    by (simp add: page_evals)
  obtain out' n' where second:
    "level (demo_visit\<lparr>rs_partial := True, rs_only := [''post.likes'']\<rparr>) [] demo_page [] False nothing_noted = Inr (out', n')"
    by (simp add: page_evals)
  have d: "[] \<notin> fst ` set demo_page" "keys_once (Children demo_page)" "rs_except demo_visit = []"
    by (simp_all add: demo_page_def demo_visit_def defer_prop_def)
  from what_is_deferred_comes_when_asked [OF first(1) d(1,2) first(2) _ _ _ _ second] d(3)
  have "(\<exists>w. out_at [] out' ''post.likes'' w) \<or> ''post.likes'' \<in> set (n_rescued n')" by auto
  with first second show ?thesis by blast
qed

section \<open>Which props go out\<close>

text \<open>
  Whether a prop goes out of a level, by what it is and what is asked: on a first load, a sent one, unless
  it is a once prop Inertia's client has already; on a partial reload, one whose path is wanted, an always
  prop and the errors, or any inside a prop that was worked out whole.
\<close>

definition asked_for :: "request \<Rightarrow> bool \<Rightarrow> behavior \<Rightarrow> string \<Rightarrow> bool" where
  "asked_for rs whole b path \<longleftrightarrow>
     (if rs_partial rs then whole \<or> b_always b \<or> path = ''errors'' \<or> path_wanted rs path
      else b_first_load b = Sent \<and> \<not> (rs_inertia rs \<and> client_has rs b path))"

lemma goes_prop:
  "goes rs prefix pr (key, A_prop p) \<longleftrightarrow> \<not> missing p \<and> asked_for rs pr (behave p) (path_of prefix key)"
  by (cases "b_first_load (behave p)")
    (auto simp: goes_def asked_for_def left_unasked_def left_out_of_first_load_def Let_def)

lemma goes_plain:
  "(\<And>p. v \<noteq> A_prop p) \<Longrightarrow> goes rs prefix pr (key, v) \<longleftrightarrow>
     \<not> rs_partial rs \<or> pr \<or> path_of prefix key = ''errors'' \<or> path_wanted rs (path_of prefix key)"
  by (cases v) (auto simp: goes_def left_unasked_def)

lemma keep_entries_append:
  "keep_entries rs prefix pr (es @ es') n =
     (let (ks, n1) = keep_entries rs prefix pr es n; (ks', n2) = keep_entries rs prefix pr es' n1 in (ks @ ks', n2))"
  by (induction es arbitrary: n) (simp_all add: split_beta Let_def)

lemma keep_entry_behaves:
  "behave p = behave p' \<Longrightarrow> missing p = missing p' \<Longrightarrow>
     keep_entry rs prefix pr (key, A_prop p) n = keep_entry rs prefix pr (key, A_prop p') n"
  by simp

lemma send_entries_skip:
  "\<not> goes rs prefix pr e \<Longrightarrow> \<not> goes rs prefix pr e' \<Longrightarrow>
   send_entries rs env prefix pr (es @ e # es') (map (goes rs prefix pr) (es @ e # es')) out n =
   send_entries rs env prefix pr (es @ e' # es') (map (goes rs prefix pr) (es @ e' # es')) out n"
proof (induction es arbitrary: out n)
  case (Cons a es)
  then show ?case
    by (cases "goes rs prefix pr a") (simp_all add: send_kept split: sum.splits)
qed simp

text \<open>
  C8. A prop a response leaves out is not worked out: at any level, for any request, if its first load,
  a once prop's copy or the paths a reload asks for leave it out, the response, its errors and all that is
  noted for the client are the same whatever its function would have done, returned another value,
  failed or panicked.
\<close>

theorem a_prop_left_out_is_not_worked_out:
  assumes "\<not> asked_for rs whole (behave p) (path_of prefix key)"
    and "behave p' = behave p" "missing p' = missing p"
  shows "level rs env (es @ (key, A_prop p) # es') prefix whole n =
    level rs env (es @ (key, A_prop p') # es') prefix whole n"
proof -
  have "snd (keep_entries rs prefix whole (es @ (key, A_prop p) # es') n) =
      snd (keep_entries rs prefix whole (es @ (key, A_prop p') # es') n)"
    using keep_entry_behaves [of p p'] assms(2,3) by (simp add: keep_entries_append split_beta Let_def)
  moreover have "\<not> goes rs prefix whole (key, A_prop p)" "\<not> goes rs prefix whole (key, A_prop p')"
    using assms by (simp_all add: goes_prop)
  ultimately show ?thesis
    unfolding level_unfold using send_entries_skip by metis
qed

theorem a_prop_left_out_is_not_worked_out_witness:
  "level demo_visit [] ([] @ (''plan'', A_prop (OnceProp (Some (Returns Nil_value)) (no_behavior\<lparr>b_first_load := Optional\<rparr>))) # demo_page)
      [] False nothing_noted =
   level demo_visit [] ([] @ (''plan'', A_prop (OptionalProp (Some (Panics ''x'')) (no_behavior\<lparr>b_first_load := Optional\<rparr>))) # demo_page)
      [] False nothing_noted"
  by (rule a_prop_left_out_is_not_worked_out) (simp_all add: asked_for_def demo_visit_def)

text \<open>Whether an entry is in the response.\<close>

definition in_response :: "request \<Rightarrow> string \<Rightarrow> bool \<Rightarrow> entry \<Rightarrow> bool" where
  "in_response rs prefix whole e \<longleftrightarrow>
     (let path = path_of prefix (fst e)
      in case snd e of
           A_prop p \<Rightarrow> \<not> missing p \<and> asked_for rs whole (behave p) path \<and> (\<exists>r. resolve_one p = Inr r)
         | v \<Rightarrow> \<not> rs_partial rs \<or> whole \<or> path = ''errors'' \<or> path_wanted rs path)"

lemma send_item_puts:
  assumes "send_item rs env prefix pr e n = Inr (o', n1)" "goes rs prefix pr e"
  shows "o' \<noteq> None \<longleftrightarrow> in_response rs prefix pr e"
proof (cases "\<exists>p. snd e = A_prop p")
  case True
  then obtain p key where e: "e = (key, A_prop p)" by (cases e) auto
  then have sp: "send_prop rs env (path_of prefix key) p n = Inr (o', n1)" using assms(1) by (simp add: send_item_def)
  have "\<not> missing p \<and> asked_for rs pr (behave p) (path_of prefix key)" using assms(2) e by (simp add: goes_prop)
  with sp show ?thesis by (cases rule: send_prop_cases) (auto simp: in_response_def e)
next
  case False
  then have sp: "send_plain rs env prefix pr (path_of prefix (fst e)) (snd e) n = Inr (o', n1)"
    using assms(1) by (cases "snd e") (auto simp: send_item_def)
  obtain key v where e: "e = (key, v)" by (cases e)
  with False goes_plain [of v rs prefix pr key] assms(2)
  have "in_response rs prefix pr e" by (cases v) (auto simp: in_response_def)
  with sp show ?thesis by (auto elim!: send_plain_cases)
qed

lemma in_response_goes: "in_response rs prefix pr e \<Longrightarrow> goes rs prefix pr e"
  by (cases e; cases "snd e") (auto simp: in_response_def goes_prop goes_plain)

lemma send_entries_keys:
  "send_entries rs env prefix pr es (map (goes rs prefix pr) es) out n = Inr (r, n') \<Longrightarrow>
   lookup r key \<noteq> None \<longleftrightarrow> lookup out key \<noteq> None \<or> (\<exists>v. (key, v) \<in> set es \<and> in_response rs prefix pr (key, v))"
proof (induction es arbitrary: out n)
  case (Cons e es)
  show ?case
  proof (cases "goes rs prefix pr e")
    case True
    then obtain o' n1 where item: "send_item rs env prefix pr e n = Inr (o', n1)"
      and rest: "send_entries rs env prefix pr es (map (goes rs prefix pr) es) (put_out (fst e) o' out) n1 = Inr (r, n')"
      using Cons.prems by (auto elim: send_keptE)
    have "lookup (put_out (fst e) o' out) key \<noteq> None \<longleftrightarrow>
        lookup out key \<noteq> None \<or> key = fst e \<and> in_response rs prefix pr e"
      using send_item_puts [OF item True] by (auto simp: put_out_def split: option.splits)
    with Cons.IH [OF rest] show ?thesis by (cases e) auto
  next
    case False
    with Cons in_response_goes [of rs prefix pr e] show ?thesis by auto
  qed
qed simp

lemma a_response_keys:
  "level rs env es prefix whole n = Inr (out, n') \<Longrightarrow>
   lookup out key \<noteq> None \<longleftrightarrow> (\<exists>v. (key, v) \<in> set es \<and> in_response rs prefix whole (key, v))"
  using send_entries_keys [of rs env prefix whole es "[]"] by (simp add: level_unfold)

text \<open>
  A response has exactly the props the request asks for: a key is in a level of it when an entry of
  that key is plain data, or a prop that is there, did not fail, and is asked for; and on a partial
  reload that is: an always prop, the errors, what is inside a prop worked out whole, and what the paths
  it asks for name, hold or lead to, but not what those it leaves out name or hold.
\<close>

theorem a_response_has_what_was_asked_for:
  assumes "level rs env es prefix whole n = Inr (out, n')"
  shows "(lookup out key \<noteq> None \<longleftrightarrow> (\<exists>v. (key, v) \<in> set es \<and> in_response rs prefix whole (key, v))) \<and>
    (rs_partial rs \<longrightarrow> asked_for rs whole b path =
      (whole \<or> b_always b \<or> path = ''errors'' \<or>
       (rs_only rs = [] \<or> (\<exists>q \<in> set (rs_only rs). path = q \<or> has_prefix path (q @ ''.'') \<or> has_prefix q (path @ ''.''))) \<and>
       \<not> (\<exists>q \<in> set (rs_except rs). path = q \<or> has_prefix path (q @ ''.''))))"
  using a_response_keys [OF assms]
  by (auto simp: asked_for_def path_wanted_def within_def leads_to_def list_ex_iff)

theorem a_response_has_what_was_asked_for_witness:
  "\<exists>out n. level (demo_visit\<lparr>rs_partial := True, rs_only := [''post.likes'']\<rparr>) [] demo_page [] False nothing_noted = Inr (out, n) \<and>
     lookup out ''id'' = None \<and> lookup out ''post'' \<noteq> None"
proof -
  obtain out n where r:
    "level (demo_visit\<lparr>rs_partial := True, rs_only := [''post.likes'']\<rparr>) [] demo_page [] False nothing_noted = Inr (out, n)"
    by (simp add: page_evals)
  from a_response_has_what_was_asked_for [OF r, of "''id''"] a_response_has_what_was_asked_for [OF r, of "''post''"]
  have "lookup out ''id'' = None" "lookup out ''post'' \<noteq> None"
    by (auto simp: in_response_def demo_page_def demo_visit_def path_wanted_def within_def leads_to_def path_of_def)
  with r show ?thesis by blast
qed

section \<open>A prop that fails\<close>

lemma failing_prop:
  assumes "resolve_one p = Inl err" "goes rs prefix pr (key, A_prop p)"
  shows "(key, A_prop p) \<in> set es \<Longrightarrow>
    send_entries rs env prefix pr es (map (goes rs prefix pr) es) out n = Inr (r, n') \<Longrightarrow>
    b_rescue (behave p) \<and> path_of prefix key \<in> set (n_rescued n')"
proof (induction es arbitrary: out n)
  case (Cons e es)
  show ?case
  proof (cases "goes rs prefix pr e")
    case True
    then obtain o' n1 where item: "send_item rs env prefix pr e n = Inr (o', n1)"
      and rest: "send_entries rs env prefix pr es (map (goes rs prefix pr) es) (put_out (fst e) o' out) n1 = Inr (r, n')"
      using Cons.prems by (auto elim: send_keptE)
    have grows: "set (n_rescued n1) \<subseteq> set (n_rescued n')" using rescued_grows_all rest by blast
    show ?thesis
    proof (cases "e = (key, A_prop p)")
      case True
      with item assms(1) grows show ?thesis
        by (auto simp: send_item_def send_prop_def note_rescue_def split: if_splits)
    next
      case False
      with Cons.IH Cons.prems(1) rest show ?thesis by auto
    qed
  next
    case False
    with Cons assms(2) show ?thesis by auto
  qed
qed simp

text \<open>
  A prop that fails, or panics, when it is asked for fails the response, so no page goes out without
  it; unless it is rescued: then the response can go out, and it names the prop as rescued and has
  nothing at its key.
\<close>

theorem a_failing_prop_fails_or_is_rescued:
  assumes "(key, A_prop p) \<in> set es" "\<not> missing p" "asked_for rs whole (behave p) (path_of prefix key)"
    and "resolve_one p = Inl err"
  shows "case level rs env es prefix whole n of
      Inl e \<Rightarrow> True
    | Inr (out, n') \<Rightarrow> b_rescue (behave p) \<and> path_of prefix key \<in> set (n_rescued n') \<and>
        (distinct (map fst es) \<longrightarrow> lookup out key = None)"
proof (cases "level rs env es prefix whole n")
  case (Inr r)
  obtain out n' where r: "level rs env es prefix whole n = Inr (out, n')" using Inr by (cases r) simp
  have goes: "goes rs prefix whole (key, A_prop p)" using assms(2,3) by (simp add: goes_prop)
  have only: "v = A_prop p" if "distinct (map fst es)" "(key, v) \<in> set es" for v
    using that assms(1) by (metis eq_key_imp_eq_value)
  have "\<not> in_response rs prefix whole (key, A_prop p)" using assms(4) by (simp add: in_response_def)
  then have "distinct (map fst es) \<longrightarrow> lookup out key = None"
    using a_response_keys r only by metis
  with failing_prop [OF assms(4) goes assms(1), of env] r show ?thesis by (simp add: level_unfold)
qed simp

definition demo_failing :: "pvalue page_prop" where
  "demo_failing = lazy_prop (Some (Panics ''down''))"

theorem a_failing_prop_fails_or_is_rescued_witness:
  "\<exists>e. level demo_visit [] ((''stats'', A_prop demo_failing) # demo_page) [] False nothing_noted = Inl e"
proof -
  have "case level demo_visit [] ((''stats'', A_prop demo_failing) # demo_page) [] False nothing_noted of
      Inl e \<Rightarrow> True
    | Inr (out, n') \<Rightarrow> b_rescue (behave demo_failing) \<and> path_of [] ''stats'' \<in> set (n_rescued n') \<and>
        (distinct (map fst ((''stats'', A_prop demo_failing) # demo_page)) \<longrightarrow> lookup out ''stats'' = None)"
    by (rule a_failing_prop_fails_or_is_rescued)
      (auto simp: demo_failing_def lazy_prop_def asked_for_def demo_visit_def no_behavior_def client_has_def)
  then show ?thesis
    by (auto simp: demo_failing_def lazy_prop_def no_behavior_def split: sum.splits)
qed

section \<open>How the client merges\<close>

text \<open>The labels that have the client add to what it has, rather than replace it.\<close>

definition merge_labels :: "noted \<Rightarrow> string set" where
  "merge_labels n = set (n_merge n) \<union> set (n_prepends n) \<union> set (n_deep_merge n)"

text \<open>A label a prop in the response accounts for.\<close>

definition accounted :: "request \<Rightarrow> noted \<Rightarrow> string \<Rightarrow> bool" where
  "accounted rs n m \<longleftrightarrow> (\<exists>path b. (path, Some b, False) \<in> seen_set n \<and> b_merge b \<and> path \<notin> set (rs_reset rs) \<and>
     labeled rs path \<and> (m = path \<or> (\<exists>at. m = path @ ''.'' @ at)))"

lemma accounted_mono: "accounted rs n m \<Longrightarrow> seen_set n \<subseteq> seen_set n' \<Longrightarrow> accounted rs n' m"
  unfolding accounted_def by blast

lemma merge_labels_notes [simp]:
  "merge_labels (collect_once rs b path n) = merge_labels n" "merge_labels (collect_scroll rs pg path n) = merge_labels n"
  "merge_labels (note_seen b' path n) = merge_labels n" "merge_labels (note_rescue b path e n) = merge_labels n"
  "merge_labels (seen_data path n) = merge_labels n"
  by (simp_all add: merge_labels_def collect_once_def collect_scroll_def note_seen_def note_rescue_def seen_data_def)

lemma merge_labels_collect:
  "m \<in> merge_labels (collect_merge rs b path n) \<Longrightarrow>
   m \<in> merge_labels n \<or> b_merge b \<and> path \<notin> set (rs_reset rs) \<and> labeled rs path \<and> (m = path \<or> (\<exists>at. m = path @ ''.'' @ at))"
  by (auto simp: collect_merge_def merge_labels_def Let_def split_beta split: if_splits)

lemma merge_labels_accounted:
  assumes "m \<in> merge_labels (collect_merge rs b path n)" "(path, Some b, False) \<in> seen_set n'"
  shows "m \<in> merge_labels n \<or> accounted rs n' m"
  using merge_labels_collect [OF assms(1)] assms(2) unfolding accounted_def by blast

lemma keep_entries_partial: "rs_partial rs \<Longrightarrow> snd (keep_entries rs prefix pr es n) = n"
proof (induction es arbitrary: n)
  case (Cons e es)
  have "snd (keep_entry rs prefix pr e n) = n"
    using Cons.prems by (cases "(rs, prefix, pr, e, n)" rule: keep_entry.cases) (auto simp: Let_def)
  with Cons show ?case by (simp add: split_beta)
qed simp

lemma labels_accounted_all:
  assumes "rs_partial rs"
  shows "(\<forall>path pr v n o' n'. send_value rs env path pr v n = Inr (o', n') \<longrightarrow>
      (\<forall>m \<in> merge_labels n'. m \<in> merge_labels n \<or> accounted rs n' m)) \<and>
   (\<forall>prefix pr es out n out' n'.
      send_entries rs env prefix pr es (map (goes rs prefix pr) es) out n = Inr (out', n') \<longrightarrow>
      seen_set n \<subseteq> seen_set n' \<and> (\<forall>m \<in> merge_labels n'. m \<in> merge_labels n \<or> accounted rs n' m))"
proof (induction rule: send_induct)
  case (children path pr es n out n')
  then show ?case using keep_entries_partial [OF assms] by simp
next
  case (entry prefix pr key v es n n1 n' o')
  let ?p = "path_of prefix key"
  have "seen_set n \<subseteq> seen_set n1 \<and> (\<forall>m \<in> merge_labels n1. m \<in> merge_labels n \<or> accounted rs n1 m)"
  proof (cases v)
    case (A_prop p)
    then have "send_prop rs env ?p p n = Inr (o', n1)" using entry(2) by (simp add: send_item_def)
    then show ?thesis
    proof (cases rule: send_prop_cases)
      case (rescued err)
      then show ?thesis by (auto simp: note_rescue_def merge_labels_def)
    next
      case (page items paging)
      have seen: "(?p, Some (behave p), False) \<in> seen_set n1" "seen_set n \<subseteq> seen_set n1"
        by (auto simp: page(3) note_seen_def seen_data_def)
      have "m \<in> merge_labels n \<or> accounted rs n1 m" if "m \<in> merge_labels n1" for m
        using that merge_labels_accounted [of m rs "behave p" ?p "collect_scroll rs paging ?p n" n1] seen(1)
        by (simp add: page(3))
      with seen(2) show ?thesis by blast
    next
      case (worked_out w x m1)
      let ?n = "collect_once rs (behave p) ?p (collect_merge rs (behave p) ?p n)"
      have grows: "seen_set ?n \<subseteq> seen_set m1" using seen_grows(1) [OF worked_out(3)] .
      have "accounted rs n1 m" if m: "m \<in> merge_labels n1" "m \<notin> merge_labels n" for m
      proof (cases "m \<in> merge_labels ?n")
        case True
        with merge_labels_accounted [of m rs "behave p" ?p n n1] m(2) show ?thesis
          by (simp add: worked_out(4) note_seen_def)
      next
        case False
        moreover have "m \<in> merge_labels m1" using m(1) by (simp add: worked_out(4))
        ultimately have "accounted rs m1 m" using entry(3) [OF A_prop worked_out(1)] worked_out(3) by blast
        then show ?thesis by (rule accounted_mono) (auto simp: worked_out(4) note_seen_def)
      qed
      with grows worked_out(4) show ?thesis by (auto simp: note_seen_def)
    qed
  next
    case (Children es')
    then obtain w m1 where w: "send_value rs env ?p pr v n = Inr (w, m1)"
      "n1 = (if prefix = [] then note_seen None ?p m1 else m1)"
      using entry(2) by (auto simp: send_item_def elim!: send_plain_cases)
    have "seen_set m1 \<subseteq> seen_set n1" "merge_labels n1 = merge_labels m1"
      by (simp_all add: w(2) note_seen_def merge_labels_def subset_insertI)
    with seen_grows(1) [OF w(1)] entry(4) w(1) accounted_mono show ?thesis by blast
  qed (use entry(2) in \<open>auto simp: send_item_def note_seen_def merge_labels_def elim!: send_plain_cases split: if_splits\<close>)
  with entry(5) show ?case using accounted_mono by blast
qed auto

text \<open>
  A partial reload has the client merge only what it is sent: each label to append, to prepend or to
  merge deeply is of a merge prop that is in the response, at its path or at one inside it, that the
  reload asked for itself, and that the client is not resetting.
\<close>

theorem a_reload_merges_what_it_sends:
  assumes "rs_partial rs" "level rs env es prefix whole nothing_noted = Inr (out, n)"
    and "m \<in> set (n_merge n) \<union> set (n_prepends n) \<union> set (n_deep_merge n)"
  shows "\<exists>path b. (path, Some b, False) \<in> set (n_seen n) \<and> b_merge b \<and> path \<notin> set (rs_reset rs) \<and>
    (rs_only rs = [] \<or> (\<exists>q \<in> set (rs_only rs). path = q \<or> has_prefix path (q @ ''.''))) \<and>
    (m = path \<or> (\<exists>at. m = path @ ''.'' @ at))"
proof -
  have "m \<in> merge_labels n" using assms(3) by (simp add: merge_labels_def)
  moreover have "m \<notin> merge_labels nothing_noted" by (simp add: merge_labels_def nothing_noted_def)
  moreover have "snd (keep_entries rs prefix whole es nothing_noted) = nothing_noted"
    using keep_entries_partial [OF assms(1)] .
  ultimately have "accounted rs n m"
    using labels_accounted_all [OF assms(1), of env] assms(2) unfolding level_unfold by metis
  then show ?thesis
    using assms(1) by (auto simp: accounted_def labeled_def within_def list_ex_iff split: if_splits)
qed

theorem a_reload_merges_what_it_sends_witness:
  "\<exists>out n. level (demo_visit\<lparr>rs_partial := True, rs_only := [''posts'']\<rparr>) []
      [(''posts'', A_prop (merge_prop Nil_value [Append_at ''data'']))] [] False nothing_noted = Inr (out, n) \<and>
    n_merge n = [''posts.data''] \<and> (\<exists>path b. (path, Some b, False) \<in> set (n_seen n) \<and> b_merge b)"
proof -
  obtain out n where r: "level (demo_visit\<lparr>rs_partial := True, rs_only := [''posts'']\<rparr>) []
      [(''posts'', A_prop (merge_prop Nil_value [Append_at ''data'']))] [] False nothing_noted = Inr (out, n)"
    and m: "n_merge n = [''posts.data'']"
    by (simp add: page_evals merge_prop_def lazy_merge_def with_merge_def labeled_def merge_paths_def)
  from a_reload_merges_what_it_sends [OF _ r, of "''posts.data''"] m r show ?thesis by auto
qed

end
