(* ===== verification/Http.thy ===== *)
theory Http
  imports Go_Prelude "HOL-Library.List_Lexorder" "HOL-Library.Char_ord"
begin

text \<open>
  What the framework uses of package net/http: headers by their canonical names, requests, and response
  writers. A handler is the calls it makes of the writer it is given, in order; a middleware's writer turns
  those calls into calls of the one it wraps. Around them, the recorder of internal/rw, which the
  middleware of package middleware put around a writer to know what went.
\<close>

declare map_of_eq_Some_iff [simp del] Some_eq_map_of_iff [simp del]

text \<open>The keys of a map, in order: bytewise, as \<open>slices.Sorted\<close> has strings.\<close>

definition sorted_keys :: "(string, 'v) gomap \<Rightarrow> string list" where
  "sorted_keys m = sort (map fst m)"

lemma set_sorted_keys [simp]: "set (sorted_keys m) = fst ` set m"
  by (simp add: sorted_keys_def)

lemma distinct_sorted_keys [simp]: "distinct (sorted_keys m) \<longleftrightarrow> gomap_ok m"
  by (simp add: sorted_keys_def)

section \<open>Headers\<close>

text \<open>\<open>textproto.CanonicalMIMEHeaderKey\<close>: a letter after a hyphen, and the first, in upper case.\<close>

definition token_char :: "char \<Rightarrow> bool" where
  "token_char c \<longleftrightarrow> is_digit c \<or> is_lower c \<or> is_upper c \<or> c \<in> set ''!#$%&*+-.^_`|~'' \<or> c = CHR 0x27"

fun canonical_from :: "bool \<Rightarrow> string \<Rightarrow> string" where
  "canonical_from up [] = []"
| "canonical_from up (c # cs) =
     (if up then upper_char c else lower_char c) # canonical_from (c = CHR ''-'') cs"

definition canonical :: "string \<Rightarrow> string" where
  "canonical k = (if list_all token_char k then canonical_from True k else k)"

type_synonym header = "(string, string list) gomap"

definition h_values :: "string \<Rightarrow> header \<Rightarrow> string list" where
  "h_values k h = (case lookup h (canonical k) of None \<Rightarrow> [] | Some vs \<Rightarrow> vs)"

definition h_get :: "string \<Rightarrow> header \<Rightarrow> string" where
  "h_get k h = (case h_values k h of [] \<Rightarrow> [] | v # _ \<Rightarrow> v)"

definition h_set :: "string \<Rightarrow> string \<Rightarrow> header \<Rightarrow> header" where
  "h_set k v h = put (canonical k) [v] h"

definition h_add :: "string \<Rightarrow> string \<Rightarrow> header \<Rightarrow> header" where
  "h_add k v h = put (canonical k) (h_values k h @ [v]) h"

definition h_del :: "string \<Rightarrow> header \<Rightarrow> header" where
  "h_del k h = del (canonical k) h"

lemma h_values_laws [simp]:
  "h_values k (h_set k' v h) = (if canonical k = canonical k' then [v] else h_values k h)"
  "h_values k (h_add k' v h) = (if canonical k = canonical k' then h_values k h @ [v] else h_values k h)"
  "h_values k (h_del k' h) = (if canonical k = canonical k' then [] else h_values k h)"
  "h_values k [] = []"
  by (auto simp: h_values_def h_set_def h_add_def h_del_def)

lemma h_get_laws [simp]:
  "h_get k (h_set k' v h) = (if canonical k = canonical k' then v else h_get k h)"
  "h_get k (h_del k' h) = (if canonical k = canonical k' then [] else h_get k h)"
  "h_get k [] = []"
  by (simp_all add: h_get_def)

lemma h_get_add: "canonical k \<noteq> canonical k' \<Longrightarrow> h_get k (h_add k' v h) = h_get k h"
  by (simp add: h_get_def)

section \<open>Requests and responses\<close>

record http_request =
  hr_method :: string
  hr_path :: string
  hr_uri :: string
  hr_header :: header
  hr_remote :: string
  hr_request_id :: string
  hr_nonce :: string

text \<open>
  A response as net/http's writer has it: the headers to go, the ones that went with the status, 0 until
  then, the statuses of the 1xx that went before, and the body. A status is of three digits: net/http
  panics on another, which no handler here writes.
\<close>

record response =
  rp_header :: header
  rp_status :: nat
  rp_sent :: header
  rp_early :: "nat list"
  rp_body :: string

definition no_response :: response where
  "no_response = \<lparr>rp_header = [], rp_status = 0, rp_sent = [], rp_early = [], rp_body = []\<rparr>"

datatype call =
  Set_header string string | Add_header string string | Del_header string | Write_header nat | Write_body string

definition informational :: "nat \<Rightarrow> bool" where
  "informational code \<longleftrightarrow> 100 \<le> code \<and> code < 200 \<and> code \<noteq> 101"

text \<open>A status with no body: what is written after it is refused.\<close>

definition body_allowed :: "nat \<Rightarrow> bool" where
  "body_allowed code \<longleftrightarrow> \<not> (100 \<le> code \<and> code < 200) \<and> code \<noteq> 204 \<and> code \<noteq> 304"

definition status_or_ok :: "nat \<Rightarrow> nat" where
  "status_or_ok code = (if code = 0 then 200 else code)"

fun rp_do :: "call \<Rightarrow> response \<Rightarrow> response" where
  "rp_do (Set_header k v) r = r\<lparr>rp_header := h_set k v (rp_header r)\<rparr>"
| "rp_do (Add_header k v) r = r\<lparr>rp_header := h_add k v (rp_header r)\<rparr>"
| "rp_do (Del_header k) r = r\<lparr>rp_header := h_del k (rp_header r)\<rparr>"
| "rp_do (Write_header code) r =
     (if rp_status r \<noteq> 0 then r
      else if informational code then r\<lparr>rp_early := rp_early r @ [code]\<rparr>
      else r\<lparr>rp_status := code, rp_sent := rp_header r\<rparr>)"
| "rp_do (Write_body b) r =
     (let r' = (if rp_status r = 0 then r\<lparr>rp_status := 200, rp_sent := rp_header r\<rparr> else r)
      in if body_allowed (rp_status r') then r'\<lparr>rp_body := rp_body r' @ b\<rparr> else r')"

definition rp_run :: "call list \<Rightarrow> response \<Rightarrow> response" where
  "rp_run cs r = fold rp_do cs r"

lemma rp_run_simps [simp]: "rp_run [] r = r" "rp_run (c # cs) r = rp_run cs (rp_do c r)"
  by (simp_all add: rp_run_def)

lemma rp_run_append: "rp_run (cs @ ds) r = rp_run ds (rp_run cs r)"
  by (simp add: rp_run_def)

text \<open>A handler: what it calls, by the request. A middleware wraps a handler on a response.\<close>

type_synonym handler_calls = "http_request \<Rightarrow> call list"
type_synonym http_handler = "http_request \<Rightarrow> response \<Rightarrow> response"

definition serve :: "handler_calls \<Rightarrow> http_handler" where
  "serve h r w = rp_run (h r) w"

text \<open>Once the status is written, what went is not changed but for the body's end.\<close>

lemma rp_do_started:
  "rp_status r \<noteq> 0 \<Longrightarrow> rp_status (rp_do c r) = rp_status r \<and> rp_sent (rp_do c r) = rp_sent r \<and>
     (\<exists>b. rp_body (rp_do c r) = rp_body r @ b)"
  by (cases c) (auto simp: Let_def)

lemma rp_run_started:
  "rp_status r \<noteq> 0 \<Longrightarrow> rp_status (rp_run cs r) = rp_status r \<and> rp_sent (rp_run cs r) = rp_sent r \<and>
     (\<exists>b. rp_body (rp_run cs r) = rp_body r @ b)"
proof (induction cs arbitrary: r)
  case (Cons c cs)
  have "rp_status (rp_do c r) \<noteq> 0" using rp_do_started [OF Cons.prems, of c] Cons.prems by simp
  from Cons.IH [OF this] rp_do_started [OF Cons.prems, of c] show ?case by auto
qed simp

section \<open>The recorder of a response\<close>

record recorder =
  rw_under :: response
  rw_status :: nat
  rw_size :: nat

definition rw_new :: "response \<Rightarrow> recorder" where
  "rw_new w = \<lparr>rw_under = w, rw_status = 0, rw_size = 0\<rparr>"

fun rw_do :: "call \<Rightarrow> recorder \<Rightarrow> recorder" where
  "rw_do (Write_header code) w =
     (if rw_status w = 0 \<and> informational code then w\<lparr>rw_under := rp_do (Write_header code) (rw_under w)\<rparr>
      else w\<lparr>rw_status := (if rw_status w = 0 then code else rw_status w),
             rw_under := rp_do (Write_header code) (rw_under w)\<rparr>)"
| "rw_do (Write_body b) w =
     w\<lparr>rw_status := status_or_ok (rw_status w), rw_under := rp_do (Write_body b) (rw_under w),
       rw_size := rw_size w + (if body_allowed (status_or_ok (rp_status (rw_under w))) then length b else 0)\<rparr>"
| "rw_do c w = w\<lparr>rw_under := rp_do c (rw_under w)\<rparr>"

definition rw_run :: "call list \<Rightarrow> recorder \<Rightarrow> recorder" where
  "rw_run cs w = fold rw_do cs w"

definition rw_written :: "recorder \<Rightarrow> bool" where
  "rw_written w \<longleftrightarrow> rw_status w \<noteq> 0"

definition recorded :: "response \<Rightarrow> recorder \<Rightarrow> bool" where
  "recorded w0 w \<longleftrightarrow> rw_status w = rp_status (rw_under w) \<and>
     length (rp_body (rw_under w)) = length (rp_body w0) + rw_size w"

lemma rw_do_recorded: "recorded w0 w \<Longrightarrow> recorded w0 (rw_do c w) \<and> rw_under (rw_do c w) = rp_do c (rw_under w)"
  by (cases c) (auto simp: recorded_def Let_def status_or_ok_def body_allowed_def)

lemma rw_run_recorded:
  "recorded w0 w \<Longrightarrow> recorded w0 (rw_run cs w) \<and> rw_under (rw_run cs w) = rp_run cs (rw_under w)"
proof (induction cs arbitrary: w)
  case (Cons c cs)
  with Cons.IH [of "rw_do c w"] rw_do_recorded [OF Cons.prems, of c] show ?case by (simp add: rw_run_def)
qed (simp add: rw_run_def)

text \<open>
  The recorder tells the truth of a response, and leaves it as it is: after any calls, the status it
  has is the one that went, 0 while none has, its size is the body's, and the response underneath is what
  the same calls make of it without the recorder.
\<close>

theorem the_recorder_tells_the_truth:
  assumes "rp_status w = 0"
  shows "rw_status (rw_run cs (rw_new w)) = rp_status (rp_run cs w) \<and>
    length (rp_body (rp_run cs w)) = length (rp_body w) + rw_size (rw_run cs (rw_new w)) \<and>
    rw_under (rw_run cs (rw_new w)) = rp_run cs w"
proof -
  have "recorded w (rw_new w)" using assms by (simp add: recorded_def rw_new_def)
  from rw_run_recorded [OF this, of cs]
  have "recorded w (rw_run cs (rw_new w))" "rw_under (rw_run cs (rw_new w)) = rp_run cs w"
    by (simp_all add: rw_new_def)
  then show ?thesis by (metis recorded_def)
qed

theorem the_recorder_tells_the_truth_witness:
  "rw_status (rw_run [Write_header 103, Set_header ''a'' ''b'', Write_body ''hi''] (rw_new no_response)) = 200 \<and>
   rw_size (rw_run [Write_header 103, Set_header ''a'' ''b'', Write_body ''hi''] (rw_new no_response)) = 2"
  using the_recorder_tells_the_truth [of no_response "[Write_header 103, Set_header ''a'' ''b'', Write_body ''hi'']"]
  by (simp add: no_response_def informational_def body_allowed_def)

end
