(* ===== verification/Inertia_Pages.thy ===== *)
theory Inertia_Pages
  imports Inertia_Reloads Http
begin

text \<open>
  Pages and visits (inertia/inertia.go, inertia/head.go): where a page's props come from and which of two
  wins, the page object, a page's head, what the middleware does of every response to Inertia's client, and
  redirects out of the app. JSON and the root template are parameters.
\<close>

section \<open>A page's head\<close>

record head_element =
  he_tag :: string
  he_key :: string
  he_text :: string
  he_attrs :: "(string \<times> string) list"

definition head_title :: "string \<Rightarrow> head_element" where
  "head_title s = \<lparr>he_tag = ''title'', he_key = ''title'', he_text = s, he_attrs = []\<rparr>"

definition head_meta :: "string \<Rightarrow> string \<Rightarrow> head_element" where
  "head_meta name content =
     \<lparr>he_tag = ''meta'', he_key = name, he_text = [], he_attrs = [(''name'', name), (''content'', content)]\<rparr>"

definition head_property :: "string \<Rightarrow> string \<Rightarrow> head_element" where
  "head_property property content =
     \<lparr>he_tag = ''meta'', he_key = property, he_text = [], he_attrs = [(''property'', property), (''content'', content)]\<rparr>"

definition head_link :: "string \<Rightarrow> string \<Rightarrow> head_element" where
  "head_link rel href = \<lparr>he_tag = ''link'', he_key = rel, he_text = [], he_attrs = [(''rel'', rel), (''href'', href)]\<rparr>"

definition with_key :: "string \<Rightarrow> head_element \<Rightarrow> head_element" where
  "with_key key e = e\<lparr>he_key := key\<rparr>"

text \<open>\<open>template.HTMLEscapeString\<close>.\<close>

fun escape_char :: "char \<Rightarrow> string" where
  "escape_char c =
     (if c = CHR ''<'' then ''&lt;'' else if c = CHR ''>'' then ''&gt;'' else if c = CHR ''&'' then ''&amp;''
      else if c = CHR 0x22 then ''&#34;'' else if c = CHR 0x27 then ''&#39;''
      else if c = CHR 0x00 then [CHR 0xEF, CHR 0xBF, CHR 0xBD] else [c])"

definition html_escape :: "string \<Rightarrow> string" where
  "html_escape s = concat (map escape_char s)"

definition attr_html :: "string \<times> string \<Rightarrow> string" where
  "attr_html attr = '' '' @ fst attr @ ''='' @ [CHR 0x22] @ html_escape (snd attr) @ [CHR 0x22]"

definition element_html :: "head_element \<Rightarrow> string" where
  "element_html e =
     ''<'' @ he_tag e @ attr_html (''data-inertia'', he_key e) @ concat (map attr_html (he_attrs e)) @ ''>'' @
     (if he_tag e = ''title'' then html_escape (he_text e) @ ''</title>'' else [])"

text \<open>An element replaces the one before it of its key, where it was.\<close>

fun set_element :: "head_element \<Rightarrow> head_element list \<Rightarrow> head_element list" where
  "set_element e [] = [e]"
| "set_element e (m # ms) = (if he_key m = he_key e then e # ms else m # set_element e ms)"

definition with_head :: "head_element list \<Rightarrow> head_element list \<Rightarrow> head_element list" where
  "with_head es head = foldl (\<lambda>merged e. set_element e merged) head es"

definition head_prop :: "head_element list \<Rightarrow> string list" where
  "head_prop head = map element_html head"

definition head_html :: "(string \<Rightarrow> string) option \<Rightarrow> head_element list \<Rightarrow> string" where
  "head_html title head =
     join_with [CHR 0x0A] (map (\<lambda>e.
       if he_tag e \<noteq> ''title'' then element_html e
       else ''<title>'' @ html_escape (case title of None \<Rightarrow> he_text e | Some f \<Rightarrow> f (he_text e)) @ ''</title>'') head)"

section \<open>Where props come from\<close>

record inertia =
  in_version :: string
  in_encrypt :: bool
  in_shared :: "(string, pvalue) gomap"
  in_funcs :: "(http_request \<Rightarrow> (string, pvalue) gomap) list"

text \<open>What a request's context carries for its page.\<close>

record page_ctx =
  pc_props :: "(string, pvalue) gomap"
  pc_encrypt :: "bool option"
  pc_clear :: bool
  pc_fragment :: bool
  pc_errors :: "(string, string) gomap"
  pc_flash :: "(string, gval) gomap"
  pc_head :: "head_element list"
  pc_no_ssr :: bool
  pc_locale :: string
  pc_dir :: string

definition maps_copy :: "('k, 'v) gomap \<Rightarrow> ('k, 'v) gomap \<Rightarrow> ('k, 'v) gomap" where
  "maps_copy dst src = foldl (\<lambda>m (k, v). put k v m) dst src"

definition share :: "string \<Rightarrow> pvalue \<Rightarrow> inertia \<Rightarrow> inertia" where
  "share key v i = i\<lparr>in_shared := put key v (in_shared i)\<rparr>"

definition share_func :: "(http_request \<Rightarrow> (string, pvalue) gomap) \<Rightarrow> inertia \<Rightarrow> inertia" where
  "share_func f i = i\<lparr>in_funcs := in_funcs i @ [f]\<rparr>"

definition with_props :: "(string, pvalue) gomap \<Rightarrow> page_ctx \<Rightarrow> page_ctx" where
  "with_props props ctx = ctx\<lparr>pc_props := maps_copy (maps_copy [] (pc_props ctx)) props\<rparr>"

definition locale_from :: "page_ctx \<Rightarrow> string" where
  "locale_from ctx = (if pc_locale ctx = [] then ''en'' else pc_locale ctx)"

definition dir_from :: "page_ctx \<Rightarrow> string" where
  "dir_from ctx = (if pc_dir ctx = [] then ''ltr'' else pc_dir ctx)"

definition sorted_entries :: "(string, pvalue) gomap \<Rightarrow> entry list" where
  "sorted_entries m = map (\<lambda>k. (k, the (lookup m k))) (sorted_keys m)"

definition shared_props :: "inertia \<Rightarrow> page_ctx \<Rightarrow> http_request \<Rightarrow> (string, pvalue) gomap" where
  "shared_props i ctx r =
     maps_copy (foldl (\<lambda>m f. maps_copy m (f r)) (maps_copy [] (in_shared i)) (in_funcs i)) (pc_props ctx)"

text \<open>A page's head, unless the page has a head prop of its own, and what is shared beside it.\<close>

definition page_head :: "page_ctx \<Rightarrow> entry list \<Rightarrow> head_element list" where
  "page_head ctx own = (if ''head'' \<in> fst ` set own then [] else pc_head ctx)"

definition page_shared :: "inertia \<Rightarrow> page_ctx \<Rightarrow> http_request \<Rightarrow> entry list \<Rightarrow> (string, pvalue) gomap" where
  "page_shared i ctx r own =
     (if page_head ctx own \<noteq> [] then del ''head'' (shared_props i ctx r) else shared_props i ctx r)"

definition head_value :: "head_element list \<Rightarrow> pvalue" where
  "head_value head = Data (V_slice T_plain (Some (map V_plain (head_prop head))))"

definition all_entries :: "inertia \<Rightarrow> page_ctx \<Rightarrow> http_request \<Rightarrow> entry list \<Rightarrow> entry list" where
  "all_entries i ctx r own =
     filter (\<lambda>e. fst e \<notin> fst ` set own) (sorted_entries (page_shared i ctx r own)) @
     (if page_head ctx own \<noteq> [] then [(''head'', head_value (page_head ctx own))] else []) @ own"

section \<open>The page object\<close>

definition header_list :: "http_request \<Rightarrow> string \<Rightarrow> string list" where
  "header_list r name = filter (\<lambda>s. s \<noteq> []) (map trim_space (split_on CHR '','' (h_get name (hr_header r))))"

definition is_inertia :: "http_request \<Rightarrow> bool" where
  "is_inertia r \<longleftrightarrow> h_get ''X-Inertia'' (hr_header r) = ''true''"

definition errors_for :: "page_ctx \<Rightarrow> http_request \<Rightarrow> gval" where
  "errors_for ctx r =
     (let errs = V_map T_plain (Some (map (\<lambda>(k, v). (k, V_plain v)) (pc_errors ctx)));
          bag = h_get ''X-Inertia-Error-Bag'' (hr_header r)
      in if pc_errors ctx = [] then V_map T_interface (Some [])
         else if bag \<noteq> [] then V_map T_interface (Some [(bag, V_interface (Some errs))])
         else errs)"

record page =
  pg_component :: string
  pg_props :: "(string, out) gomap"
  pg_url :: string
  pg_version :: string
  pg_encrypt_history :: bool
  pg_clear_history :: bool
  pg_preserve_fragment :: bool
  pg_flash :: "(string, gval) gomap"
  pg_shared :: "string list"
  pg_noted :: noted
  pg_head :: "head_element list"

definition request_of :: "http_request \<Rightarrow> string \<Rightarrow> request" where
  "request_of r component =
     \<lparr>rs_partial = is_inertia r \<and> h_get ''X-Inertia-Partial-Component'' (hr_header r) = component,
      rs_inertia = is_inertia r, rs_only = header_list r ''X-Inertia-Partial-Data'',
      rs_except = header_list r ''X-Inertia-Partial-Except'', rs_reset = header_list r ''X-Inertia-Reset'',
      rs_loaded = header_list r ''X-Inertia-Except-Once-Props'',
      rs_prepend = h_get ''X-Inertia-Infinite-Scroll-Merge-Intent'' (hr_header r) = ''prepend'',
      rs_deferred_fetch = False\<rparr>"

definition page_of :: "inertia \<Rightarrow> gtypes \<Rightarrow> page_ctx \<Rightarrow> http_request \<Rightarrow> string \<Rightarrow> entry list \<Rightarrow> string + page" where
  "page_of i env ctx r component own =
     (case level (request_of r component) env (all_entries i ctx r own) [] False nothing_noted of
        Inl err \<Rightarrow> Inl err
      | Inr (props, n) \<Rightarrow>
          Inr \<lparr>pg_component = component,
               pg_props = (if lookup props ''errors'' = None then put ''errors'' (Out_data (errors_for ctx r)) props else props),
               pg_url = hr_uri r, pg_version = in_version i,
               pg_encrypt_history = (case pc_encrypt ctx of None \<Rightarrow> in_encrypt i | Some on \<Rightarrow> on),
               pg_clear_history = pc_clear ctx, pg_preserve_fragment = pc_fragment ctx, pg_flash = pc_flash ctx,
               pg_shared = sorted_keys (page_shared i ctx r own), pg_noted = n, pg_head = page_head ctx own\<rparr>)"

text \<open>A value in a page's props, by its path, a part of the path at each level.\<close>

fun lookup_parts :: "string list \<Rightarrow> out \<Rightarrow> out option" where
  "lookup_parts [] v = Some v"
| "lookup_parts (part # parts) (Out_map m) =
     (case lookup m part of None \<Rightarrow> None | Some v \<Rightarrow> lookup_parts parts v)"
| "lookup_parts (part # parts) v = None"

definition lookup_path :: "(string, out) gomap \<Rightarrow> string \<Rightarrow> out option" where
  "lookup_path props path = lookup_parts (split_on CHR ''.'' path) (Out_map props)"

section \<open>Visits\<close>

text \<open>\<open>addVary\<close>.\<close>

definition varies :: "header \<Rightarrow> bool" where
  "varies h = list_ex (\<lambda>v. list_ex (\<lambda>token. to_lower (trim_space token) = to_lower ''X-Inertia'') (split_on CHR '','' v))
     (h_values ''Vary'' h)"

definition add_vary :: "response \<Rightarrow> response" where
  "add_vary w = (if varies (rp_header w) then w else rp_do (Add_header ''Vary'' ''X-Inertia'') w)"

text \<open>
  The page object as JSON, by what encoding/json makes of it, None where it cannot: a page with a big
  integer in it says so, for the client to read them back.
\<close>

fun contains_str :: "string \<Rightarrow> string \<Rightarrow> bool" where
  "contains_str s sub = (has_prefix s sub \<or> (case s of [] \<Rightarrow> False | _ # r \<Rightarrow> contains_str r sub))"

declare contains_str.simps [simp del]

definition big_int_marker :: string where
  "big_int_marker = CHR ''{'' # CHR 0x22 # ''$bigint'' @ CHR 0x22 # '':''"

definition encode_page :: "(bool \<Rightarrow> page \<Rightarrow> string option) \<Rightarrow> page \<Rightarrow> string option" where
  "encode_page json p =
     (case json False p of
        None \<Rightarrow> None
      | Some data \<Rightarrow> if \<not> contains_str data big_int_marker then Some data else json True p)"

text \<open>The scripts and styles of a head rendered on the server, given the response's nonce.\<close>

definition blanks :: "string list" where
  "blanks = [[CHR '' ''], [CHR 0x09], [CHR 0x0D], [CHR 0x0A]]"

definition starts_element :: "string \<Rightarrow> string \<Rightarrow> bool" where
  "starts_element name tag \<longleftrightarrow> length name < length tag \<and> to_lower (take (length name) tag) = to_lower name \<and>
     tag ! length name \<in> set [CHR '' '', CHR 0x09, CHR 0x0D, CHR 0x0A, CHR ''>'']"

definition nonced_element :: "string \<Rightarrow> string \<Rightarrow> string" where
  "nonced_element n el =
     (let tag = trim_by blanks el; before = take (length el - length tag) el;
          put_nonce = (\<lambda>name. before @ name @ '' nonce='' @ [CHR 0x22] @ html_escape n @ [CHR 0x22] @ drop (length name) tag)
      in if starts_element ''<script'' tag then put_nonce ''<script''
         else if starts_element ''<style'' tag then put_nonce ''<style'' else el)"

definition nonced :: "string list \<Rightarrow> string \<Rightarrow> string list" where
  "nonced head n = (if n = [] then head else map (nonced_element n) head)"

record template_data =
  td_page :: page
  td_inertia :: string
  td_head :: string
  td_locale :: string
  td_dir :: string
  td_nonce :: string

definition client_html :: "string \<Rightarrow> string" where
  "client_html data =
     ''<script data-page='' @ [CHR 0x22] @ ''app'' @ [CHR 0x22] @ '' type='' @ [CHR 0x22] @ ''application/json'' @ [CHR 0x22] @
     ''>'' @ data @ ''</script><div id='' @ [CHR 0x22] @ ''app'' @ [CHR 0x22] @ ''></div>''"

text \<open>
  What a renderer on the server, where there is one, makes of the page: its head and its body, or nothing
  where it failed or did not render it.
\<close>

definition template_data_of ::
  "(string \<Rightarrow> (string list \<times> string) option) option \<Rightarrow> (string \<Rightarrow> string) option \<Rightarrow> page_ctx \<Rightarrow> http_request \<Rightarrow> page \<Rightarrow>
    string \<Rightarrow> template_data"
where
  "template_data_of ssr title ctx r p data =
     (let rendered = (case ssr of None \<Rightarrow> None | Some render \<Rightarrow> if pc_no_ssr ctx then None else render data);
          on_server = (case rendered of None \<Rightarrow> None | Some (head, body) \<Rightarrow> if body \<noteq> [] then Some (head, body) else None)
      in \<lparr>td_page = p,
          td_inertia = (case on_server of None \<Rightarrow> client_html data | Some (head, body) \<Rightarrow> body),
          td_head = (case on_server of
             None \<Rightarrow> if pg_head p \<noteq> [] then head_html title (pg_head p) else []
           | Some (head, body) \<Rightarrow> join_with [CHR 0x0A] (nonced head (hr_nonce r))),
          td_locale = locale_from ctx, td_dir = dir_from ctx, td_nonce = hr_nonce r\<rparr>)"

text \<open>The response a page makes, or the error, with what was done to the response until then.\<close>

definition render_status ::
  "inertia \<Rightarrow> (bool \<Rightarrow> page \<Rightarrow> string option) \<Rightarrow> (string \<Rightarrow> (string list \<times> string) option) option \<Rightarrow> (string \<Rightarrow> string) option \<Rightarrow>
    (template_data \<Rightarrow> string option) \<Rightarrow> gtypes \<Rightarrow> page_ctx \<Rightarrow> http_request \<Rightarrow> nat \<Rightarrow> string \<Rightarrow> entry list \<Rightarrow> response \<Rightarrow>
    string option \<times> response"
where
  "render_status i json ssr title tmpl env ctx r code component own w =
     (case page_of i env ctx r component own of
        Inl err \<Rightarrow> (Some err, w)
      | Inr p \<Rightarrow>
          let w1 = add_vary w
          in case encode_page json p of
               None \<Rightarrow> (Some ''json'', w1)
             | Some data \<Rightarrow>
                 if is_inertia r then
                   (None, rp_run [Set_header ''X-Inertia'' ''true'', Set_header ''Content-Type'' ''application/json'',
                     Write_header code, Write_body data] w1)
                 else (case tmpl (template_data_of ssr title ctx r p data) of
                         None \<Rightarrow> (Some ''inertia: root template'', w1)
                       | Some html \<Rightarrow>
                           (None, rp_run [Set_header ''Content-Type'' ''text/html; charset=utf-8'', Write_header code,
                             Write_body html] w1)))"

definition prefetch :: "http_request \<Rightarrow> bool" where
  "prefetch r \<longleftrightarrow> h_get ''Purpose'' (hr_header r) = ''prefetch'' \<or> h_get ''Sec-Purpose'' (hr_header r) = ''prefetch''"

definition stale :: "inertia \<Rightarrow> http_request \<Rightarrow> bool" where
  "stale i r \<longleftrightarrow> is_inertia r \<and> hr_method r = ''GET'' \<and> h_get ''X-Inertia-Version'' (hr_header r) \<noteq> in_version i"

record redirects =
  rd_under :: response
  rd_see_other :: bool
  rd_fragments :: bool
  rd_swallow :: bool

fun rd_do :: "call \<Rightarrow> redirects \<Rightarrow> redirects" where
  "rd_do (Write_header code) w =
     (if 300 \<le> code \<and> code < 400 then
        let to = h_get ''Location'' (rp_header (rd_under w))
        in if rd_fragments w \<and> CHR ''#'' \<in> set to then
             w\<lparr>rd_swallow := True,
               rd_under := rp_run [Del_header ''Location'', Del_header ''Content-Type'', Set_header ''X-Inertia-Redirect'' to,
                 Write_header 409] (rd_under w)\<rparr>
           else w\<lparr>rd_under := rp_do (Write_header (if rd_see_other w \<and> code = 302 then 303 else code)) (rd_under w)\<rparr>
      else w\<lparr>rd_under := rp_do (Write_header code) (rd_under w)\<rparr>)"
| "rd_do (Write_body b) w = (if rd_swallow w then w else w\<lparr>rd_under := rp_do (Write_body b) (rd_under w)\<rparr>)"
| "rd_do c w = w\<lparr>rd_under := rp_do c (rd_under w)\<rparr>"

definition rd_run :: "call list \<Rightarrow> redirects \<Rightarrow> redirects" where
  "rd_run cs w = fold rd_do cs w"

definition inertia_middleware :: "inertia \<Rightarrow> handler_calls \<Rightarrow> http_handler" where
  "inertia_middleware i h r w =
     (let w1 = add_vary w
      in if \<not> is_inertia r then rp_run (h r) w1
         else if stale i r then
           rp_run [Set_header ''X-Inertia-Location'' (hr_uri r), Set_header ''X-Inertia-Version'' (in_version i), Write_header 409] w1
         else rd_under (rd_run (h r)
           \<lparr>rd_under = w1, rd_see_other = hr_method r \<in> {''PUT'', ''PATCH'', ''DELETE''}, rd_fragments = \<not> prefetch r,
            rd_swallow = False\<rparr>))"

text \<open>\<open>http.Redirect\<close> with an absolute URL, which it leaves as it is, and no body of its own to speak of.\<close>

definition http_redirect :: "string \<Rightarrow> nat \<Rightarrow> call list" where
  "http_redirect url code = [Set_header ''Location'' url, Write_header code]"

definition location :: "string \<Rightarrow> handler_calls" where
  "location url r =
     (if is_inertia r then [Set_header ''X-Inertia-Location'' url, Write_header 409]
      else http_redirect url (if hr_method r = ''GET'' \<or> hr_method r = ''HEAD'' then 302 else 303))"

lemma page_headers [simp]:
  "canonical ''Location'' = ''Location''" "canonical ''Content-Type'' = ''Content-Type''"
  "canonical ''X-Inertia-Redirect'' = ''X-Inertia-Redirect''" "canonical ''X-Inertia-Location'' = ''X-Inertia-Location''"
  "canonical ''X-Inertia-Version'' = ''X-Inertia-Version''" "canonical ''Vary'' = ''Vary''" "canonical ''X-Inertia'' = ''X-Inertia''"
  by code_simp+

text \<open>Calls before a status, and after it, in a handler that writes one status.\<close>

definition heads :: "call list \<Rightarrow> bool" where
  "heads cs = list_all (\<lambda>c. case c of Write_header code \<Rightarrow> informational code | Write_body b \<Rightarrow> False | _ \<Rightarrow> True) cs"

definition tails :: "call list \<Rightarrow> bool" where
  "tails cs = list_all (\<lambda>c. case c of Write_header code \<Rightarrow> False | _ \<Rightarrow> True) cs"

definition same_sent :: "response \<Rightarrow> response \<Rightarrow> bool" where
  "same_sent w w' \<longleftrightarrow> rp_status w = rp_status w' \<and> rp_sent w = rp_sent w' \<and> rp_body w = rp_body w' \<and> rp_early w = rp_early w'"

lemma rd_run_heads:
  "heads cs \<Longrightarrow> \<not> rd_swallow w \<Longrightarrow> rd_run cs w = w\<lparr>rd_under := rp_run cs (rd_under w)\<rparr>"
proof (induction cs arbitrary: w)
  case (Cons c cs)
  then have "rd_do c w = w\<lparr>rd_under := rp_do c (rd_under w)\<rparr>"
    by (cases c) (auto simp: heads_def informational_def)
  with Cons show ?case by (simp add: rd_run_def heads_def)
qed (simp add: rd_run_def)

lemma heads_status: "heads cs \<Longrightarrow> rp_status (rp_run cs w) = rp_status w \<and> rp_body (rp_run cs w) = rp_body w"
proof (induction cs arbitrary: w)
  case (Cons c cs)
  then have "rp_status (rp_do c w) = rp_status w \<and> rp_body (rp_do c w) = rp_body w" by (cases c) (auto simp: heads_def)
  with Cons show ?case by (simp add: heads_def)
qed simp

lemma rd_run_tails:
  "tails cs \<Longrightarrow> \<not> rd_swallow w \<Longrightarrow> rp_status v \<noteq> 0 \<Longrightarrow> rp_status (rd_under w) \<noteq> 0 \<Longrightarrow>
   body_allowed (rp_status v) = body_allowed (rp_status (rd_under w)) \<Longrightarrow> rp_body v = rp_body (rd_under w) \<Longrightarrow>
   rp_body (rd_under (rd_run cs w)) = rp_body (rp_run cs v) \<and>
   rp_status (rd_under (rd_run cs w)) = rp_status (rd_under w) \<and> rp_sent (rd_under (rd_run cs w)) = rp_sent (rd_under w)"
proof (induction cs arbitrary: v w)
  case (Cons c cs)
  have "\<not> rd_swallow (rd_do c w) \<and> rp_status (rp_do c v) = rp_status v \<and> rp_status (rd_under (rd_do c w)) = rp_status (rd_under w) \<and>
      rp_sent (rd_under (rd_do c w)) = rp_sent (rd_under w) \<and> rp_body (rp_do c v) = rp_body (rd_under (rd_do c w))"
    using Cons.prems by (cases c) (auto simp: tails_def Let_def)
  with Cons.IH [of "rd_do c w" "rp_do c v"] Cons.prems show ?case by (simp add: rd_run_def tails_def)
qed (simp add: rd_run_def)

lemma rd_run_swallow:
  "tails cs \<Longrightarrow> rd_swallow w \<Longrightarrow> rp_status (rd_under w) \<noteq> 0 \<Longrightarrow>
   rp_body (rd_under (rd_run cs w)) = rp_body (rd_under w) \<and>
   rp_status (rd_under (rd_run cs w)) = rp_status (rd_under w) \<and> rp_sent (rd_under (rd_run cs w)) = rp_sent (rd_under w)"
proof (induction cs arbitrary: w)
  case (Cons c cs)
  have "rd_swallow (rd_do c w) \<and> rp_status (rd_under (rd_do c w)) = rp_status (rd_under w) \<and>
      rp_sent (rd_under (rd_do c w)) = rp_sent (rd_under w) \<and> rp_body (rd_under (rd_do c w)) = rp_body (rd_under w)"
    using Cons.prems by (cases c) (auto simp: tails_def)
  with Cons show ?case by (simp add: rd_run_def tails_def)
qed (simp add: rd_run_def)

lemma rd_run_append: "rd_run (cs @ ds) w = rd_run ds (rd_run cs w)"
  by (simp add: rd_run_def)

text \<open>
  What the middleware does of a response to Inertia's client, for a handler that writes one status: a
  redirect to a URL with a fragment becomes a 409 that names the URL for the client to visit, with no
  Location and no body, unless the client only prefetches; a 302 after a PUT, a PATCH or a DELETE becomes
  a 303, so that the client's GET never repeats the method; and the status of any other response, and the
  headers and the body of all but the first, go as the handler wrote them.
\<close>

theorem a_visits_redirect_is_followed_as_it_should_be:
  assumes "h r = before @ Write_header code # after" "heads before" "tails after"
    and "\<not> informational code" "code \<noteq> 0" "is_inertia r" "\<not> stale i r" "rp_status w = 0" "rp_body w = []"
    and "to = h_get ''Location'' (rp_header (rp_run before (add_vary w)))"
  shows "if 300 \<le> code \<and> code < 400 \<and> \<not> prefetch r \<and> CHR ''#'' \<in> set to
     then rp_status (inertia_middleware i h r w) = 409 \<and> rp_body (inertia_middleware i h r w) = [] \<and>
       h_values ''X-Inertia-Redirect'' (rp_sent (inertia_middleware i h r w)) = [to] \<and>
       h_values ''Location'' (rp_sent (inertia_middleware i h r w)) = []
     else rp_status (inertia_middleware i h r w) =
         (if code = 302 \<and> hr_method r \<in> {''PUT'', ''PATCH'', ''DELETE''} then 303 else code) \<and>
       rp_sent (inertia_middleware i h r w) = rp_sent (rp_run (h r) (add_vary w)) \<and>
       rp_body (inertia_middleware i h r w) = rp_body (rp_run (h r) (add_vary w))"
proof -
  define see where "see = (hr_method r \<in> {''PUT'', ''PATCH'', ''DELETE''})"
  define u where "u = rp_run before (add_vary w)"
  define rd where "rd = \<lparr>rd_under = u, rd_see_other = see, rd_fragments = \<not> prefetch r, rd_swallow = False\<rparr>"
  have w0: "rp_status (add_vary w) = 0" "rp_body (add_vary w) = []" using assms(8,9) by (simp_all add: add_vary_def)
  have u: "rp_status u = 0" "rp_body u = []" using heads_status [OF assms(2), of "add_vary w"] w0 by (simp_all add: u_def)
  have "inertia_middleware i h r w = rd_under (rd_run (h r)
      \<lparr>rd_under = add_vary w, rd_see_other = see, rd_fragments = \<not> prefetch r, rd_swallow = False\<rparr>)"
    using assms(6,7) by (simp add: inertia_middleware_def see_def)
  moreover have "rd_run before \<lparr>rd_under = add_vary w, rd_see_other = see, rd_fragments = \<not> prefetch r, rd_swallow = False\<rparr> = rd"
    using rd_run_heads [OF assms(2)] by (simp add: rd_def u_def)
  ultimately have m: "inertia_middleware i h r w = rd_under (rd_run after (rd_do (Write_header code) rd))"
    by (simp add: assms(1) rd_run_append) (simp add: rd_run_def)
  have plain: "rp_run (h r) (add_vary w) = rp_run after (rp_do (Write_header code) u)"
    by (simp add: assms(1) u_def rp_run_append)
  show ?thesis
  proof (cases "300 \<le> code \<and> code < 400 \<and> \<not> prefetch r \<and> CHR ''#'' \<in> set to")
    case True
    then have d: "rd_do (Write_header code) rd = rd\<lparr>rd_swallow := True,
        rd_under := rp_run [Del_header ''Location'', Del_header ''Content-Type'', Set_header ''X-Inertia-Redirect'' to,
          Write_header 409] u\<rparr>"
      by (simp add: rd_def assms(10) u_def Let_def)
    have "rd_swallow (rd_do (Write_header code) rd)" "rp_status (rd_under (rd_do (Write_header code) rd)) = 409"
      "rp_body (rd_under (rd_do (Write_header code) rd)) = []"
      "h_values ''X-Inertia-Redirect'' (rp_sent (rd_under (rd_do (Write_header code) rd))) = [to]"
      "h_values ''Location'' (rp_sent (rd_under (rd_do (Write_header code) rd))) = []"
      unfolding d using u by (simp_all add: informational_def)
    with rd_run_swallow [OF assms(3), of "rd_do (Write_header code) rd"] True show ?thesis by (simp add: m)
  next
    case False
    then have d: "rd_do (Write_header code) rd =
        rd\<lparr>rd_under := rp_do (Write_header (if code = 302 \<and> see then 303 else code)) u\<rparr>"
      by (auto simp: rd_def assms(10) u_def Let_def)
    have s: "\<not> rd_swallow (rd_do (Write_header code) rd)"
      "rp_status (rd_under (rd_do (Write_header code) rd)) = (if code = 302 \<and> see then 303 else code)"
      "rp_sent (rd_under (rd_do (Write_header code) rd)) = rp_sent (rp_do (Write_header code) u)"
      "rp_body (rd_under (rd_do (Write_header code) rd)) = rp_body (rp_do (Write_header code) u)"
      "rp_status (rp_do (Write_header code) u) = code"
      unfolding d using u assms(4) by (auto simp: informational_def rd_def)
    from rd_run_tails [OF assms(3) s(1), of "rp_do (Write_header code) u"] s assms(5)
    have "rp_body (inertia_middleware i h r w) = rp_body (rp_run (h r) (add_vary w))"
      "rp_status (inertia_middleware i h r w) = (if code = 302 \<and> see then 303 else code)"
      "rp_sent (inertia_middleware i h r w) = rp_sent (rp_do (Write_header code) u)"
      by (simp_all add: m plain body_allowed_def split: if_splits)
    moreover have "rp_sent (rp_run (h r) (add_vary w)) = rp_sent (rp_do (Write_header code) u)"
      using rp_run_started [of "rp_do (Write_header code) u" after] s(5) assms(5) by (simp add: plain)
    ultimately show ?thesis using False by (simp add: see_def)
  qed
qed

definition demo_visit_request :: "string \<Rightarrow> http_request" where
  "demo_visit_request verb = \<lparr>hr_method = verb, hr_path = ''/posts/1'', hr_uri = ''/posts/1'', hr_header = [(''X-Inertia'', [''true''])],
     hr_remote = [], hr_request_id = [], hr_nonce = []\<rparr>"

definition demo_inertia :: inertia where
  "demo_inertia = \<lparr>in_version = [], in_encrypt = False, in_shared = [], in_funcs = []\<rparr>"

theorem a_visits_redirect_is_followed_as_it_should_be_witness:
  "rp_status (inertia_middleware demo_inertia (location ''/posts'') (demo_visit_request ''GET'') no_response) = 409 \<and>
   rp_status (inertia_middleware demo_inertia (\<lambda>_. http_redirect ''/posts#7'' 302) (demo_visit_request ''PUT'') no_response) = 409 \<and>
   rp_status (inertia_middleware demo_inertia (\<lambda>_. http_redirect ''/posts'' 302) (demo_visit_request ''PUT'') no_response) = 303"
proof -
  have i: "is_inertia (demo_visit_request verb)" "\<not> prefetch (demo_visit_request verb)"
    "\<not> stale demo_inertia (demo_visit_request verb)" for verb
  proof -
    have "canonical ''Purpose'' = ''Purpose''" "canonical ''Sec-Purpose'' = ''Sec-Purpose''" by code_simp+
    then show "is_inertia (demo_visit_request verb)" "\<not> prefetch (demo_visit_request verb)"
        "\<not> stale demo_inertia (demo_visit_request verb)"
      by (simp_all add: is_inertia_def prefetch_def stale_def demo_visit_request_def demo_inertia_def h_get_def h_values_def)
  qed
  note one = a_visits_redirect_is_followed_as_it_should_be [where i = demo_inertia and w = no_response, OF _ _ _ _ _ i(1) i(3) _ _ refl]
  have r: "rp_status no_response = 0" "rp_body no_response = []" "rp_header no_response = []" by (simp_all add: no_response_def)
  have "rp_status (inertia_middleware demo_inertia (location ''/posts'') (demo_visit_request ''GET'') no_response) = 409"
    using one [of "location ''/posts''" "''GET''" "[Set_header ''X-Inertia-Location'' ''/posts'']" 409 "[]"] i r
    by (simp add: location_def heads_def tails_def informational_def)
  moreover have "rp_status (inertia_middleware demo_inertia (\<lambda>_. http_redirect ''/posts#7'' 302) (demo_visit_request ''PUT'') no_response) = 409"
    using one [of "\<lambda>_. http_redirect ''/posts#7'' 302" "''PUT''" "[Set_header ''Location'' ''/posts#7'']" 302 "[]"] i r
    by (simp add: http_redirect_def heads_def tails_def informational_def)
  moreover have "rp_status (inertia_middleware demo_inertia (\<lambda>_. http_redirect ''/posts'' 302) (demo_visit_request ''PUT'') no_response) = 303"
    using one [of "\<lambda>_. http_redirect ''/posts'' 302" "''PUT''" "[Set_header ''Location'' ''/posts'']" 302 "[]"] i r
    by (simp add: http_redirect_def heads_def tails_def informational_def demo_visit_request_def)
  ultimately show ?thesis by blast
qed

section \<open>Which of two props wins\<close>

lemma maps_copy_lookup:
  "gomap_ok src \<Longrightarrow> lookup (maps_copy dst src) k = (case lookup src k of Some v \<Rightarrow> Some v | None \<Rightarrow> lookup dst k)"
proof (induction src arbitrary: dst)
  case (Cons e src)
  obtain k' v' where e: "e = (k', v')" by (cases e)
  have "lookup src k' = None" using Cons.prems e by (simp add: map_of_eq_None_iff)
  moreover have "maps_copy dst (e # src) = maps_copy (put k' v' dst) src" by (simp add: maps_copy_def e)
  ultimately show ?case
    using Cons.IH [of "put k' v' dst"] Cons.prems e by (auto split: option.splits)
qed (simp add: maps_copy_def)

lemma gomap_ok_maps_copy: "gomap_ok dst \<Longrightarrow> gomap_ok (maps_copy dst src)"
proof (induction src arbitrary: dst)
  case (Cons e src)
  then show ?case using Cons.IH [of "put (fst e) (snd e) dst"] by (simp add: maps_copy_def split_beta)
qed (simp add: maps_copy_def)

text \<open>The sources of shared props, the later the stronger: what was shared at the start, what each function shares, and the context's.\<close>

definition sources :: "inertia \<Rightarrow> page_ctx \<Rightarrow> http_request \<Rightarrow> (string, pvalue) gomap list" where
  "sources i ctx r = in_shared i # map (\<lambda>f. f r) (in_funcs i) @ [pc_props ctx]"

fun strongest :: "(string, pvalue) gomap list \<Rightarrow> string \<Rightarrow> pvalue option" where
  "strongest [] k = None"
| "strongest (m # ms) k = (case strongest ms k of Some v \<Rightarrow> Some v | None \<Rightarrow> lookup m k)"

lemma strongest_append:
  "strongest (ms @ ms') k = (case strongest ms' k of Some v \<Rightarrow> Some v | None \<Rightarrow> strongest ms k)"
  by (induction ms) (auto split: option.splits)

lemma copies_lookup:
  "\<forall>m \<in> set ms. gomap_ok m \<Longrightarrow> gomap_ok dst \<Longrightarrow>
   lookup (foldl maps_copy dst ms) k = (case strongest ms k of Some v \<Rightarrow> Some v | None \<Rightarrow> lookup dst k)"
proof (induction ms arbitrary: dst)
  case (Cons m ms)
  then show ?case
    using Cons.IH [of "maps_copy dst m"] by (auto simp: maps_copy_lookup gomap_ok_maps_copy split: option.splits)
qed simp

lemma gomap_ok_copies: "gomap_ok dst \<Longrightarrow> gomap_ok (foldl maps_copy dst ms)"
  by (induction ms arbitrary: dst) (simp_all add: gomap_ok_maps_copy)

lemma shared_props_copies: "shared_props i ctx r = foldl maps_copy [] (sources i ctx r)"
proof -
  have funcs: "foldl (\<lambda>m f. maps_copy m (f r)) dst fs = foldl maps_copy dst (map (\<lambda>f. f r) fs)" for dst fs
    by (induction fs arbitrary: dst) simp_all
  show ?thesis
    unfolding shared_props_def sources_def by (simp only: funcs foldl_append foldl.simps)
qed

lemma shared_props_lookup:
  "\<forall>m \<in> set (sources i ctx r). gomap_ok m \<Longrightarrow> lookup (shared_props i ctx r) k = strongest (sources i ctx r) k"
  by (simp add: shared_props_copies copies_lookup split: option.splits)

lemma sorted_entries_set: "gomap_ok m \<Longrightarrow> (k, v) \<in> set (sorted_entries m) \<longleftrightarrow> lookup m k = Some v"
  by (auto simp: sorted_entries_def map_of_eq_Some_iff image_iff dest: map_of_is_SomeI intro: rev_bexI)

text \<open>Where the value of a key of a page comes from.\<close>

definition page_value :: "inertia \<Rightarrow> page_ctx \<Rightarrow> http_request \<Rightarrow> entry list \<Rightarrow> string \<Rightarrow> pvalue \<Rightarrow> bool" where
  "page_value i ctx r own k v \<longleftrightarrow>
     (if k \<in> fst ` set own then (k, v) \<in> set own
      else if k = ''head'' \<and> pc_head ctx \<noteq> [] then v = head_value (pc_head ctx)
      else strongest (sources i ctx r) k = Some v)"

lemma all_entries_value:
  assumes "\<forall>m \<in> set (sources i ctx r). gomap_ok m"
  shows "(k, v) \<in> set (all_entries i ctx r own) \<longleftrightarrow> page_value i ctx r own k v"
proof -
  have ok: "gomap_ok (shared_props i ctx r)" by (simp add: shared_props_copies gomap_ok_copies)
  have sh: "(k, v) \<in> set (sorted_entries (page_shared i ctx r own)) \<longleftrightarrow>
      strongest (sources i ctx r) k = Some v \<and> \<not> (k = ''head'' \<and> page_head ctx own \<noteq> [])"
    using ok shared_props_lookup [OF assms, of k] by (auto simp: page_shared_def sorted_entries_set)
  have "(k, v) \<in> set own \<Longrightarrow> k \<in> fst ` set own" by force
  with sh show ?thesis
    by (auto simp: all_entries_def page_value_def page_head_def)
qed

text \<open>
  Every page has an errors prop, and where two sources have a prop of one name the page gets the one
  nearer to it: the page's own before any shared, the head its context was given before a shared head, then
  the context's, then the functions' that share for each request, the last first, and what was shared at
  the start last; and a key is on the page exactly when the value so chosen is one the request asks for.
\<close>

theorem the_nearest_prop_wins:
  assumes "page_of i env ctx r component own = Inr p" "\<forall>m \<in> set (sources i ctx r). gomap_ok m"
  shows "lookup (pg_props p) ''errors'' \<noteq> None \<and>
    (k \<noteq> ''errors'' \<longrightarrow>
      (lookup (pg_props p) k \<noteq> None \<longleftrightarrow>
        (\<exists>v. page_value i ctx r own k v \<and> in_response (request_of r component) [] False (k, v))))"
proof -
  obtain props n where l: "level (request_of r component) env (all_entries i ctx r own) [] False nothing_noted = Inr (props, n)"
    and p: "pg_props p = (if lookup props ''errors'' = None then put ''errors'' (Out_data (errors_for ctx r)) props else props)"
    using assms(1) by (auto simp: page_of_def split: sum.splits)
  show ?thesis
    using a_response_keys [OF l, of k] all_entries_value [OF assms(2)] by (auto simp: p)
qed

theorem the_nearest_prop_wins_witness:
  "\<exists>p. page_of (share ''name'' (Data (V_plain ''tug'')) demo_inertia) [] \<lparr>pc_props = [], pc_encrypt = None, pc_clear = False,
       pc_fragment = False, pc_errors = [], pc_flash = [], pc_head = [], pc_no_ssr = False, pc_locale = [], pc_dir = []\<rparr>
       (demo_visit_request ''GET'') ''Home'' [(''name'', Nil_value)] = Inr p \<and>
     lookup (pg_props p) ''errors'' \<noteq> None \<and> lookup (pg_props p) ''name'' \<noteq> None"
proof -
  define ctx where "ctx = \<lparr>pc_props = [], pc_encrypt = None, pc_clear = False,
       pc_fragment = False, pc_errors = [], pc_flash = [], pc_head = [], pc_no_ssr = False, pc_locale = [], pc_dir = []\<rparr>"
  define i where "i = share ''name'' (Data (V_plain ''tug'')) demo_inertia"
  have full: "\<not> rs_partial (request_of (demo_visit_request ''GET'') ''Home'')"
  proof -
    have "canonical ''X-Inertia-Partial-Component'' = ''X-Inertia-Partial-Component''" by code_simp
    then show ?thesis by (simp add: request_of_def demo_visit_request_def h_get_def h_values_def)
  qed
  have "all_entries i ctx (demo_visit_request ''GET'') [(''name'', Nil_value)] = [(''name'', Nil_value)]"
    by (simp add: all_entries_def page_head_def ctx_def i_def page_shared_def shared_props_def maps_copy_def share_def
        demo_inertia_def sorted_entries_def sorted_keys_def)
  then obtain p where p: "page_of i [] ctx (demo_visit_request ''GET'') ''Home'' [(''name'', Nil_value)] = Inr p"
    using full by (simp add: page_of_def level_def send_entries.simps left_unasked_def)
  moreover have "\<forall>m \<in> set (sources i ctx (demo_visit_request ''GET'')). gomap_ok m"
    by (simp add: sources_def i_def ctx_def share_def demo_inertia_def)
  ultimately have "lookup (pg_props p) ''errors'' \<noteq> None" "lookup (pg_props p) ''name'' \<noteq> None"
    using the_nearest_prop_wins [OF p, of "''name''"] full by (auto simp: page_value_def in_response_def)
  with p show ?thesis unfolding i_def ctx_def by blast
qed

end
