(* ===== verification/Proxies.thy ===== *)
theory Proxies
  imports Http "HOL-Library.Word"
begin

text \<open>
  The proxies an app believes, and the address of the client a request came from (middleware/proxies.go).
  Addresses and ranges of them are those of package net/netip, an address of 32 bits or of 128; how one is
  read from text, and written, is a parameter.
\<close>

unbundle bit_operations_syntax

datatype addr = V4 "32 word" | V6 "128 word"

text \<open>A range: an address, and how many of its bits an address in it starts with.\<close>

record range =
  rg_addr :: addr
  rg_bits :: nat

text \<open>\<open>Is4In6\<close> and \<open>Unmap\<close>: IPv4 written as IPv6, under ::ffff:0:0/96.\<close>

definition is_4in6 :: "addr \<Rightarrow> bool" where
  "is_4in6 a = (case a of V4 _ \<Rightarrow> False | V6 w \<Rightarrow> drop_bit 32 w = 0xffff)"

definition unmap :: "addr \<Rightarrow> addr" where
  "unmap a = (case a of V4 w \<Rightarrow> V4 w | V6 w \<Rightarrow> if is_4in6 (V6 w) then V4 (ucast w) else V6 w)"

definition bit_len :: "addr \<Rightarrow> nat" where
  "bit_len a = (case a of V4 _ \<Rightarrow> 32 | V6 _ \<Rightarrow> 128)"

text \<open>\<open>Prefix.Contains\<close>: of the same family, with the same first bits.\<close>

definition range_contains :: "range \<Rightarrow> addr \<Rightarrow> bool" where
  "range_contains p a =
     (case (rg_addr p, a) of
        (V4 x, V4 y) \<Rightarrow> drop_bit (32 - rg_bits p) (x XOR y) = 0
      | (V6 x, V6 y) \<Rightarrow> drop_bit (128 - rg_bits p) (x XOR y) = 0
      | _ \<Rightarrow> False)"

definition masked :: "range \<Rightarrow> range" where
  "masked p =
     (case rg_addr p of
        V4 x \<Rightarrow> p\<lparr>rg_addr := V4 (push_bit (32 - rg_bits p) (drop_bit (32 - rg_bits p) x))\<rparr>
      | V6 x \<Rightarrow> p\<lparr>rg_addr := V6 (push_bit (128 - rg_bits p) (drop_bit (128 - rg_bits p) x))\<rparr>)"

text \<open>How text is read: an address, with its zone dropped, an address with a port, and a range.\<close>

record netip =
  ni_addr :: "string \<Rightarrow> addr option"
  ni_addr_port :: "string \<Rightarrow> addr option"
  ni_prefix :: "string \<Rightarrow> range option"
  ni_write :: "addr \<Rightarrow> string"

definition parse_addr :: "netip \<Rightarrow> string \<Rightarrow> addr option" where
  "parse_addr ni s =
     (case ni_addr ni s of
        Some a \<Rightarrow> Some (unmap a)
      | None \<Rightarrow> (case ni_addr_port ni s of Some a \<Rightarrow> Some (unmap a) | None \<Rightarrow> None))"

definition parse_proxy :: "netip \<Rightarrow> string \<Rightarrow> range option" where
  "parse_proxy ni s =
     (if CHR ''/'' \<in> set s then
        (case ni_prefix ni s of
           None \<Rightarrow> None
         | Some p \<Rightarrow>
             if is_4in6 (rg_addr p) then
               if rg_bits p < 96 then None
               else Some (masked \<lparr>rg_addr = unmap (rg_addr p), rg_bits = rg_bits p - 96\<rparr>)
             else Some (masked p))
      else (case ni_addr ni s of
              None \<Rightarrow> None
            | Some a \<Rightarrow> let a' = unmap a in Some \<lparr>rg_addr = a', rg_bits = bit_len a'\<rparr>))"

record trusted =
  tr_peer :: bool
  tr_ranges :: "range list"

text \<open>The proxies TrustProxies is given, or the one it panics on.\<close>

fun trust_of :: "netip \<Rightarrow> string list \<Rightarrow> string + trusted" where
  "trust_of ni [] = Inr \<lparr>tr_peer = False, tr_ranges = []\<rparr>"
| "trust_of ni (p # ps) =
     (let p1 = trim_space p
      in if p1 = [] then trust_of ni ps
         else if p1 = ''*'' then map_sum id (\<lambda>t. t\<lparr>tr_peer := True\<rparr>) (trust_of ni ps)
         else case parse_proxy ni p1 of
                None \<Rightarrow> Inl p1
              | Some rg \<Rightarrow> map_sum id (\<lambda>t. t\<lparr>tr_ranges := rg # tr_ranges t\<rparr>) (trust_of ni ps))"

definition trust_contains :: "trusted \<Rightarrow> addr \<Rightarrow> bool" where
  "trust_contains t a = list_ex (\<lambda>p. range_contains p a) (tr_ranges t)"

definition forwarded :: "string list \<Rightarrow> string list" where
  "forwarded lines = concat (map (\<lambda>line. map trim_space (split_on CHR '','' line)) lines)"

text \<open>The hops from the last back, to the first that is not a proxy, or not an address.\<close>

fun walk_back :: "netip \<Rightarrow> trusted \<Rightarrow> addr \<Rightarrow> string list \<Rightarrow> addr" where
  "walk_back ni t client [] = client"
| "walk_back ni t client (hop # hops) =
     (case parse_addr ni hop of
        None \<Rightarrow> client
      | Some a \<Rightarrow> if \<not> trust_contains t a then a else walk_back ni t a hops)"

definition client_of :: "netip \<Rightarrow> trusted \<Rightarrow> http_request \<Rightarrow> addr option" where
  "client_of ni t r =
     (case parse_addr ni (hr_remote r) of
        None \<Rightarrow> None
      | Some peer \<Rightarrow>
          if \<not> (tr_peer t \<or> trust_contains t peer) then None
          else let hops = forwarded (h_values ''X-Forwarded-For'' (hr_header r));
                   client = walk_back ni t peer (rev hops)
               in if client \<noteq> peer then Some client else None)"

definition trust_proxies :: "netip \<Rightarrow> trusted \<Rightarrow> http_handler \<Rightarrow> http_handler" where
  "trust_proxies ni t next_handler r w =
     (if \<not> tr_peer t \<and> tr_ranges t = [] then next_handler r w
      else case client_of ni t r of
             Some client \<Rightarrow> next_handler (r\<lparr>hr_remote := ni_write ni client\<rparr>) w
           | None \<Rightarrow> next_handler r w)"

section \<open>What it promises\<close>

lemma walk_back_stops:
  assumes "case parse_addr ni hop of None \<Rightarrow> True | Some a \<Rightarrow> \<not> trust_contains t a"
  shows "walk_back ni t client (hops @ hop # rest) = walk_back ni t client (hops @ [hop])"
  using assms by (induction hops arbitrary: client) (auto split: option.splits)

text \<open>
  C11. What a client writes of itself is not believed. A request from an address that is no proxy goes on
  as it came; and of one that came through the proxies, whatever the lines of X-Forwarded-For say before
  the first address, from the end, that is not a proxy's, or not an address, changes nothing: the address
  the app is told is the same for any two requests that differ only there.
\<close>

theorem what_a_client_writes_is_not_believed:
  assumes "forwarded (h_values ''X-Forwarded-For'' (hr_header r)) = written @ hop # proxies"
    and "forwarded (h_values ''X-Forwarded-For'' (hr_header r')) = written' @ hop # proxies"
    and "hr_remote r' = hr_remote r"
    and "case parse_addr ni hop of None \<Rightarrow> True | Some a \<Rightarrow> \<not> trust_contains t a"
  shows "client_of ni t r = client_of ni t r' \<and>
    (\<forall>peer. parse_addr ni (hr_remote r) = Some peer \<longrightarrow> \<not> tr_peer t \<longrightarrow> \<not> trust_contains t peer \<longrightarrow>
       trust_proxies ni t app r w = app r w)"
proof -
  have "walk_back ni t peer (rev (written @ hop # proxies)) = walk_back ni t peer (rev (written' @ hop # proxies))" for peer
    using walk_back_stops [OF assms(4), of peer "rev proxies" "rev written"]
      walk_back_stops [OF assms(4), of peer "rev proxies" "rev written'"] by simp
  then have "client_of ni t r = client_of ni t r'"
    by (simp add: client_of_def assms(1-3) Let_def split: option.splits)
  then show ?thesis by (auto simp: trust_proxies_def client_of_def)
qed

text \<open>
  A proxy at 10.0.0.1, in 10.0.0.0/8, that adds the address it saw, 1.2.3.4, to the line a client wrote:
  who the client says it is, 6.6.6.6 or no one, makes no difference.
\<close>

definition demo_netip :: netip where
  "demo_netip =
     \<lparr>ni_addr = (\<lambda>s. if s = ''10.0.0.1'' then Some (V4 0x0A000001) else if s = ''1.2.3.4'' then Some (V4 0x01020304)
        else if s = ''6.6.6.6'' then Some (V4 0x06060606) else None),
      ni_addr_port = (\<lambda>s. None), ni_prefix = (\<lambda>s. None), ni_write = (\<lambda>a. [])\<rparr>"

definition demo_trusted :: trusted where
  "demo_trusted = \<lparr>tr_peer = False, tr_ranges = [\<lparr>rg_addr = V4 0x0A000000, rg_bits = 8\<rparr>]\<rparr>"

definition demo_through :: "string \<Rightarrow> http_request" where
  "demo_through line = \<lparr>hr_method = ''GET'', hr_path = ''/'', hr_uri = ''/'', hr_header = [(''X-Forwarded-For'', [line])],
     hr_remote = ''10.0.0.1'', hr_request_id = [], hr_nonce = []\<rparr>"

lemma demo_forwarded:
  "forwarded (h_values ''X-Forwarded-For'' (hr_header (demo_through ''6.6.6.6, 1.2.3.4''))) = [''6.6.6.6''] @ [''1.2.3.4'']"
  "forwarded (h_values ''X-Forwarded-For'' (hr_header (demo_through ''1.2.3.4''))) = [] @ [''1.2.3.4'']"
  by code_simp+

theorem what_a_client_writes_is_not_believed_witness:
  "client_of demo_netip demo_trusted (demo_through ''6.6.6.6, 1.2.3.4'') = client_of demo_netip demo_trusted (demo_through ''1.2.3.4'') \<and>
   parse_addr demo_netip ''1.2.3.4'' = Some (V4 0x01020304) \<and> \<not> trust_contains demo_trusted (V4 0x01020304)"
proof -
  have p: "parse_addr demo_netip ''1.2.3.4'' = Some (V4 0x01020304)"
    by (simp add: parse_addr_def demo_netip_def unmap_def)
  have t: "\<not> trust_contains demo_trusted (V4 0x01020304)"
    by (simp add: trust_contains_def demo_trusted_def range_contains_def)
  have "hr_remote (demo_through ''1.2.3.4'') = hr_remote (demo_through ''6.6.6.6, 1.2.3.4'')" by (simp add: demo_through_def)
  from what_a_client_writes_is_not_believed [OF demo_forwarded this, where ni = demo_netip and t = demo_trusted] p t show ?thesis by simp
qed

end
