(* ===== verification/Middleware.thy ===== *)
theory Middleware
  imports Http
begin

text \<open>
  The middleware of package middleware: CORS, RequestID, Recover and the level a request is logged at
  (middleware/cors.go, requestid.go, recover.go, logger.go). What package net/url makes of a URL is a
  parameter.
\<close>

section \<open>CORS\<close>

record url =
  u_scheme :: string
  u_host :: string
  u_path :: string
  u_raw_query :: string
  u_fragment :: string
  u_user :: bool

text \<open>\<open>isOrigin\<close>: a scheme and a host, as they are written, and nothing after them.\<close>

definition is_origin :: "(string \<Rightarrow> url option) \<Rightarrow> string \<Rightarrow> bool" where
  "is_origin parse_url s =
     (case parse_url s of
        None \<Rightarrow> False
      | Some u \<Rightarrow>
          (u_scheme u = ''https'' \<or> u_scheme u = ''http'') \<and> u_host u \<noteq> [] \<and> u_path u = [] \<and> u_raw_query u = [] \<and>
          u_fragment u = [] \<and> \<not> u_user u \<and> s = u_scheme u @ ''://'' @ u_host u)"

text \<open>The origins CORS was given: whether any may call, and the ones that may; or one it panics on.\<close>

fun cors_origins :: "(string \<Rightarrow> url option) \<Rightarrow> string list \<Rightarrow> string + bool \<times> string list" where
  "cors_origins parse_url [] = Inr (False, [])"
| "cors_origins parse_url (o' # os) =
     (let o1 = trim_space o' in
      if o1 \<noteq> [] \<and> o1 \<noteq> ''*'' \<and> \<not> is_origin parse_url o1 then Inl o1
      else case cors_origins parse_url os of
             Inl bad \<Rightarrow> Inl bad
           | Inr (any, allowed) \<Rightarrow>
               Inr (if o1 = [] then (any, allowed) else if o1 = ''*'' then (True, allowed) else (any, o1 # allowed)))"

definition preflight :: "string \<Rightarrow> http_request \<Rightarrow> call list" where
  "preflight wanted r =
     [Set_header ''Access-Control-Allow-Methods'' wanted] @
     (let headers = h_get ''Access-Control-Request-Headers'' (hr_header r)
      in if headers \<noteq> [] then [Set_header ''Access-Control-Allow-Headers'' headers] else []) @
     [Set_header ''Access-Control-Max-Age'' ''7200'', Add_header ''Vary'' ''Access-Control-Request-Method'',
      Add_header ''Vary'' ''Access-Control-Request-Headers'', Write_header 204]"

definition cors :: "bool \<times> string list \<Rightarrow> http_handler \<Rightarrow> http_handler" where
  "cors cfg next_handler r w =
     (let (any, allowed) = cfg in
      if \<not> any \<and> allowed = [] then next_handler r w
      else
        let w1 = (if \<not> any then rp_do (Add_header ''Vary'' ''Origin'') w else w);
            origin = h_get ''Origin'' (hr_header r)
        in if origin = [] \<or> \<not> any \<and> origin \<notin> set allowed then next_handler r w1
           else
             let w2 = rp_do (Set_header ''Access-Control-Allow-Origin'' (if any then ''*'' else origin)) w1;
                 wanted = h_get ''Access-Control-Request-Method'' (hr_header r)
             in if hr_method r \<noteq> ''OPTIONS'' \<or> wanted = []
                then next_handler r (rp_do (Set_header ''Access-Control-Expose-Headers'' ''Retry-After'') w2)
                else rp_run (preflight wanted r) w2)"

definition named_origin :: "string list \<Rightarrow> string \<Rightarrow> bool" where
  "named_origin origins o' \<longleftrightarrow> o' \<noteq> [] \<and> o' \<noteq> ''*'' \<and> o' \<in> trim_space ` set origins"

lemma named_origin_Nil [simp]: "\<not> named_origin [] o'"
  by (simp add: named_origin_def)

lemma named_origin_Cons:
  "named_origin (a # os) o' \<longleftrightarrow> o' = trim_space a \<and> o' \<noteq> [] \<and> o' \<noteq> ''*'' \<or> named_origin os o'"
  by (auto simp: named_origin_def)

lemma cors_origins_says:
  "cors_origins parse_url origins = Inr (any, allowed) \<Longrightarrow>
   (any \<longleftrightarrow> ''*'' \<in> trim_space ` set origins) \<and> (\<forall>o'. o' \<in> set allowed \<longleftrightarrow> named_origin origins o') \<and>
   (\<forall>o' \<in> set allowed. is_origin parse_url o')"
proof (induction origins arbitrary: any allowed)
  case Nil
  then show ?case by simp
next
  case (Cons a os)
  define o1 where "o1 = trim_space a"
  obtain any1 allowed1 where r: "cors_origins parse_url os = Inr (any1, allowed1)"
    using Cons.prems by (auto simp: Let_def split: sum.splits if_splits)
  note IH = Cons.IH [OF r]
  have ok: "o1 = [] \<or> o1 = ''*'' \<or> is_origin parse_url o1"
    using Cons.prems by (auto simp: Let_def o1_def simp del: list.simps split: if_splits)
  have "(any, allowed) = (if o1 = [] then (any1, allowed1) else if o1 = ''*'' then (True, allowed1) else (any1, o1 # allowed1))"
    using Cons.prems r ok by (simp add: Let_def o1_def [symmetric] split: if_splits)
  moreover have "''*'' \<in> trim_space ` set (a # os) \<longleftrightarrow> o1 = ''*'' \<or> ''*'' \<in> trim_space ` set os"
    unfolding o1_def by auto
  moreover have "named_origin (a # os) o' \<longleftrightarrow> o' = o1 \<and> o' \<noteq> [] \<and> o' \<noteq> ''*'' \<or> named_origin os o'" for o'
    unfolding o1_def by (rule named_origin_Cons)
  ultimately show ?case
    using IH ok by (cases "o1 = []"; cases "o1 = ''*''") (simp_all, blast+)
qed

lemma header_names [simp]:
  "canonical ''Access-Control-Allow-Origin'' = ''Access-Control-Allow-Origin''"
  "canonical ''Access-Control-Expose-Headers'' = ''Access-Control-Expose-Headers''"
  "canonical ''Access-Control-Allow-Credentials'' = ''Access-Control-Allow-Credentials''"
  "canonical ''Access-Control-Allow-Methods'' = ''Access-Control-Allow-Methods''"
  "canonical ''Access-Control-Allow-Headers'' = ''Access-Control-Allow-Headers''"
  "canonical ''Access-Control-Max-Age'' = ''Access-Control-Max-Age''"
  "canonical ''Vary'' = ''Vary''" "canonical ''X-Request-ID'' = ''X-Request-Id''"
  "canonical ''Origin'' = ''Origin''"
  by code_simp+

text \<open>
  C29. CORS lets in the sites it names and no other. For a request from another site, or none, no header
  but Vary is put on the response, and the request goes on to the app; for one from a named site,
  or any with "*", the response allows that site alone, or "*", a preflight is answered with a 204 that
  never reaches the app, and any other request goes on; and in no case does CORS allow credentials.
\<close>

theorem cors_lets_in_the_sites_it_names:
  assumes "cors_origins parse_url origins = Inr (any, allowed)" "rp_status w = 0"
    and "origin = h_get ''Origin'' (hr_header r)" "wanted = h_get ''Access-Control-Request-Method'' (hr_header r)"
  shows "if origin \<noteq> [] \<and> (''*'' \<in> trim_space ` set origins \<or> named_origin origins origin)
     then if hr_method r = ''OPTIONS'' \<and> wanted \<noteq> []
       then rp_status (cors (any, allowed) app r w) = 204 \<and>
         h_values ''Access-Control-Allow-Origin'' (rp_sent (cors (any, allowed) app r w)) = [if any then ''*'' else origin] \<and>
         h_values ''Access-Control-Allow-Credentials'' (rp_sent (cors (any, allowed) app r w)) =
           h_values ''Access-Control-Allow-Credentials'' (rp_header w)
       else \<exists>w'. cors (any, allowed) app r w = app r w' \<and>
         h_values ''Access-Control-Allow-Origin'' (rp_header w') = [if any then ''*'' else origin] \<and>
         h_values ''Access-Control-Allow-Credentials'' (rp_header w') = h_values ''Access-Control-Allow-Credentials'' (rp_header w)
     else \<exists>w'. cors (any, allowed) app r w = app r w' \<and>
       (\<forall>n. canonical n \<noteq> ''Vary'' \<longrightarrow> h_values n (rp_header w') = h_values n (rp_header w)) \<and>
       h_values ''Access-Control-Allow-Origin'' (rp_header w') = h_values ''Access-Control-Allow-Origin'' (rp_header w) \<and>
       h_values ''Access-Control-Allow-Credentials'' (rp_header w') = h_values ''Access-Control-Allow-Credentials'' (rp_header w)"
proof -
  have any: "any \<longleftrightarrow> ''*'' \<in> trim_space ` set origins" using cors_origins_says [OF assms(1)] by blast
  have allowed: "x \<in> set allowed \<longleftrightarrow> named_origin origins x" for x
    using cors_origins_says [OF assms(1)] by blast
  show ?thesis
  proof (cases "\<not> any \<and> allowed = []")
    case True
    with allowed [of origin] any show ?thesis by (auto simp: cors_def)
  next
    case False
    let ?w1 = "if \<not> any then rp_do (Add_header ''Vary'' ''Origin'') w else w"
    show ?thesis
    proof (cases "origin = [] \<or> \<not> any \<and> origin \<notin> set allowed")
      case True
      with False assms(3) have "cors (any, allowed) app r w = app r ?w1" by (auto simp: cors_def Let_def)
      with True allowed [of origin] any show ?thesis by auto
    next
      case in_list: False
      let ?w2 = "rp_do (Set_header ''Access-Control-Allow-Origin'' (if any then ''*'' else origin)) ?w1"
      have let_in: "origin \<noteq> [] \<and> (''*'' \<in> trim_space ` set origins \<or> named_origin origins origin)"
        using in_list allowed [of origin] any by blast
      show ?thesis
      proof (cases "hr_method r = ''OPTIONS'' \<and> wanted \<noteq> []")
        case True
        with False in_list assms(3,4) have "cors (any, allowed) app r w = rp_run (preflight wanted r) ?w2"
          by (auto simp: cors_def Let_def)
        with True let_in assms(2) show ?thesis by (simp add: preflight_def Let_def informational_def)
      next
        case run: False
        with False in_list assms(3,4) have
          "cors (any, allowed) app r w = app r (rp_do (Set_header ''Access-Control-Expose-Headers'' ''Retry-After'') ?w2)"
          by (auto simp: cors_def Let_def)
        with run let_in show ?thesis by auto
      qed
    qed
  qed
qed

definition demo_parse :: "string \<Rightarrow> url option" where
  "demo_parse s = (if s = ''https://a.example'' then Some \<lparr>u_scheme = ''https'', u_host = ''a.example'', u_path = [],
     u_raw_query = [], u_fragment = [], u_user = False\<rparr> else None)"

definition demo_request :: "string \<Rightarrow> header \<Rightarrow> http_request" where
  "demo_request verb h = \<lparr>hr_method = verb, hr_path = ''/'', hr_uri = ''/'', hr_header = h, hr_remote = [],
     hr_request_id = [], hr_nonce = []\<rparr>"

theorem cors_lets_in_the_sites_it_names_witness:
  "cors_origins demo_parse [''https://a.example'', '' ''] = Inr (False, [''https://a.example'']) \<and>
   rp_status (cors (False, [''https://a.example'']) (serve (\<lambda>_. [])) (demo_request ''OPTIONS''
     [(''Origin'', [''https://a.example'']), (''Access-Control-Request-Method'', [''PUT''])]) no_response) = 204"
proof -
  have c: "cors_origins demo_parse [''https://a.example'', '' ''] = Inr (False, [''https://a.example''])"
    by code_simp
  have t: "trim_space ''https://a.example'' = ''https://a.example''" "trim_space '' '' = []" by code_simp+
  have n: "named_origin [''https://a.example'', '' ''] ''https://a.example''"
    by (simp add: named_origin_def t)
  have h: "h_get ''Origin'' (hr_header (demo_request ''OPTIONS''
       [(''Origin'', [''https://a.example'']), (''Access-Control-Request-Method'', [''PUT''])])) = ''https://a.example''"
    "h_get ''Access-Control-Request-Method'' (hr_header (demo_request ''OPTIONS''
       [(''Origin'', [''https://a.example'']), (''Access-Control-Request-Method'', [''PUT''])])) = ''PUT''"
    by code_simp+
  have "rp_status no_response = 0" by (simp add: no_response_def)
  from cors_lets_in_the_sites_it_names [OF c this h [symmetric], of "serve (\<lambda>_. [])"] n
  have "rp_status (cors (False, [''https://a.example'']) (serve (\<lambda>_. [])) (demo_request ''OPTIONS''
     [(''Origin'', [''https://a.example'']), (''Access-Control-Request-Method'', [''PUT''])]) no_response) = 204"
    by (simp add: demo_request_def)
  with c show ?thesis by simp
qed

section \<open>Request IDs\<close>

definition plain_id_char :: "char \<Rightarrow> bool" where
  "plain_id_char c \<longleftrightarrow> is_lower c \<or> is_upper c \<or> is_digit c \<or> c \<in> set ''-_.:+/=''"

definition plain_id :: "string \<Rightarrow> bool" where
  "plain_id s \<longleftrightarrow> s \<noteq> [] \<and> length s \<le> 64 \<and> list_all plain_id_char s"

text \<open>The ID a request goes on with, and its response: the one it came with, or a new one, drawn at random.\<close>

definition request_id :: "string \<Rightarrow> http_handler \<Rightarrow> http_handler" where
  "request_id fresh next_handler r w =
     (let came = h_get ''X-Request-ID'' (hr_header r); rid = (if \<not> plain_id came then fresh else came)
      in next_handler (r\<lparr>hr_request_id := rid\<rparr>) (rp_do (Set_header ''X-Request-ID'' rid) w))"

text \<open>A job takes the ID of the request that pushed it, and gives it back only as plain as it was kept.\<close>

definition carry_id :: "string \<Rightarrow> (string, string) gomap \<Rightarrow> (string, string) gomap" where
  "carry_id rid into = (if rid \<noteq> [] then put ''request_id'' rid into else into)"

definition restore_id :: "(string, string) gomap \<Rightarrow> string \<Rightarrow> string" where
  "restore_id from_map rid =
     (let carried = (case lookup from_map ''request_id'' of None \<Rightarrow> [] | Some s \<Rightarrow> s)
      in if plain_id carried then carried else rid)"

text \<open>
  What a request says of itself cannot break a log or a header: the ID a request goes on with is the
  one it came with only when that is of at most 64 plain characters, and is otherwise the one drawn; the
  response has the same ID; and a job the request pushes has it back, and no other from what was carried.
\<close>

theorem a_request_id_is_plain:
  assumes "plain_id fresh"
  shows "\<exists>rid. request_id fresh app r w = app (r\<lparr>hr_request_id := rid\<rparr>) (rp_do (Set_header ''X-Request-ID'' rid) w) \<and>
    plain_id rid \<and> CHR 0x0A \<notin> set rid \<and> CHR 0x0D \<notin> set rid \<and>
    (plain_id (h_get ''X-Request-ID'' (hr_header r)) \<longrightarrow> rid = h_get ''X-Request-ID'' (hr_header r)) \<and>
    restore_id (carry_id rid []) [] = rid"
proof -
  define rid where "rid = (if \<not> plain_id (h_get ''X-Request-ID'' (hr_header r)) then fresh else h_get ''X-Request-ID'' (hr_header r))"
  have plain: "plain_id rid" using assms by (simp add: rid_def)
  have "\<not> plain_id_char (CHR 0x0A)" "\<not> plain_id_char (CHR 0x0D)" by code_simp+
  with plain have "CHR 0x0A \<notin> set rid" "CHR 0x0D \<notin> set rid" by (auto simp: plain_id_def list_all_iff)
  moreover have "restore_id (carry_id rid []) [] = rid"
    using plain by (auto simp: carry_id_def restore_id_def plain_id_def)
  moreover have "request_id fresh app r w = app (r\<lparr>hr_request_id := rid\<rparr>) (rp_do (Set_header ''X-Request-ID'' rid) w)"
    by (simp add: request_id_def Let_def rid_def)
  ultimately show ?thesis using plain by (auto simp: rid_def)
qed

theorem a_request_id_is_plain_witness:
  "plain_id ''K7'' \<and> (\<exists>rid. request_id ''K7'' (serve (\<lambda>r. [Write_body (hr_request_id r)]))
     (demo_request ''GET'' [(''X-Request-Id'', [''a b''])]) no_response =
     serve (\<lambda>r. [Write_body (hr_request_id r)]) (demo_request ''GET'' [(''X-Request-Id'', [''a b''])]\<lparr>hr_request_id := rid\<rparr>)
       (rp_do (Set_header ''X-Request-ID'' rid) no_response) \<and> plain_id rid)"
proof -
  have "plain_id ''K7''" by code_simp
  from a_request_id_is_plain [OF this, of "serve (\<lambda>r. [Write_body (hr_request_id r)])"
      "demo_request ''GET'' [(''X-Request-Id'', [''a b''])]" no_response] this
  show ?thesis by blast
qed

section \<open>Panics and the log\<close>

text \<open>A handler that can panic: what it called until then, and what it panicked with.\<close>

datatype panic = Abort_handler | Panic_value string

type_synonym panicky = "http_request \<Rightarrow> call list \<times> panic option"

text \<open>\<open>http.Error\<close>.\<close>

definition http_error :: "string \<Rightarrow> nat \<Rightarrow> call list" where
  "http_error msg code =
     [Del_header ''Content-Length'', Set_header ''Content-Type'' ''text/plain; charset=utf-8'',
      Set_header ''X-Content-Type-Options'' ''nosniff'', Write_header code, Write_body (msg @ [CHR 0x0A])]"

definition recover_panics :: "panicky \<Rightarrow> http_request \<Rightarrow> response \<Rightarrow> response \<times> panic option" where
  "recover_panics h r w =
     (let (calls, panic) = h r; rec = rw_run calls (rw_new w)
      in case panic of
           None \<Rightarrow> (rw_under rec, None)
         | Some Abort_handler \<Rightarrow> (rw_under rec, Some Abort_handler)
         | Some (Panic_value v) \<Rightarrow>
             (rw_under (if \<not> rw_written rec then rw_run (http_error ''Internal Server Error'' 500) rec else rec), None))"

datatype log_level = Level_info | Level_warn | Level_error

definition log_level :: "nat \<Rightarrow> log_level" where
  "log_level status = (if 500 \<le> status then Level_error else if 400 \<le> status then Level_warn else Level_info)"

record log_line =
  ll_method :: string
  ll_path :: string
  ll_status :: nat
  ll_size :: nat
  ll_level :: log_level
  ll_request_id :: "string option"

definition logged :: "handler_calls \<Rightarrow> http_request \<Rightarrow> response \<Rightarrow> response \<times> log_line" where
  "logged h r w =
     (let rec = rw_run (h r) (rw_new w); status = status_or_ok (rw_status rec)
      in (rw_under rec,
          \<lparr>ll_method = hr_method r, ll_path = hr_path r, ll_status = status, ll_size = rw_size rec,
           ll_level = log_level status, ll_request_id = (if hr_request_id r \<noteq> [] then Some (hr_request_id r) else None)\<rparr>))"

lemma recorded_run:
  assumes "rp_status w = 0"
  shows "rw_under (rw_run cs (rw_new w)) = rp_run cs w" "rw_status (rw_run cs (rw_new w)) = rp_status (rp_run cs w)"
proof -
  have "recorded w (rw_new w)" using assms by (simp add: recorded_def rw_new_def)
  from rw_run_recorded [OF this, of cs]
  have "recorded w (rw_run cs (rw_new w))" and u: "rw_under (rw_run cs (rw_new w)) = rp_run cs w"
    by (simp_all add: rw_new_def)
  with u show "rw_under (rw_run cs (rw_new w)) = rp_run cs w" "rw_status (rw_run cs (rw_new w)) = rp_status (rp_run cs w)"
    by (simp_all add: recorded_def)
qed

lemma recorded_run_more:
  assumes "rp_status w = 0"
  shows "rw_under (rw_run ds (rw_run cs (rw_new w))) = rp_run ds (rp_run cs w)"
  using recorded_run(1) [OF assms, of "cs @ ds"] by (simp add: rw_run_def rp_run_append)

text \<open>
  A panic costs one request and no more: of a panic of a handler's own none gets out, only net/http's
  way of dropping a response; where the handler had written nothing, the answer is a 500 that says no more
  than that; and where the response had started, it is left as it was, with no error page in its midst.
\<close>

theorem a_panic_costs_one_request:
  assumes "h r = (calls, panic)" "rp_status w = 0"
  shows "snd (recover_panics h r w) = (if panic = Some Abort_handler then panic else None) \<and>
    (let went = fst (recover_panics h r w) in
     if rp_status (rp_run calls w) = 0 \<and> (\<exists>v. panic = Some (Panic_value v))
     then rp_status went = 500 \<and> rp_body went = rp_body (rp_run calls w) @ ''Internal Server Error'' @ [CHR 0x0A]
     else went = rp_run calls w)"
proof (cases panic)
  case None
  with assms show ?thesis by (simp add: recover_panics_def Let_def recorded_run(1))
next
  case (Some p)
  note run = recorded_run [OF assms(2)] recorded_run_more [OF assms(2)]
  show ?thesis
  proof (cases p)
    case Abort_handler
    with assms Some run show ?thesis by (simp add: recover_panics_def Let_def)
  next
    case (Panic_value v)
    with assms Some run show ?thesis
      by (simp add: recover_panics_def Let_def rw_written_def http_error_def informational_def body_allowed_def)
  qed
qed

theorem a_panic_costs_one_request_witness:
  "recover_panics (\<lambda>_. ([Set_header ''A'' ''b''], Some (Panic_value ''x''))) (demo_request ''GET'' []) no_response =
     (fst (recover_panics (\<lambda>_. ([Set_header ''A'' ''b''], Some (Panic_value ''x''))) (demo_request ''GET'' []) no_response), None) \<and>
   rp_status (fst (recover_panics (\<lambda>_. ([Set_header ''A'' ''b''], Some (Panic_value ''x''))) (demo_request ''GET'' []) no_response)) = 500"
  using a_panic_costs_one_request [of "\<lambda>_. ([Set_header ''A'' ''b''], Some (Panic_value ''x''))" "demo_request ''GET'' []" _ _ no_response,
      OF refl]
  by (simp add: no_response_def prod_eq_iff Let_def)

end
