(* ===== verification/Policies.thy ===== *)
theory Policies
  imports Middleware Cron
begin

text \<open>
  The headers that say what a browser may do with the app's responses (middleware/headers.go) and the
  Content-Security-Policy (middleware/csp.go): the settings, which the app panics on as it starts, as an
  error, and the text of the headers. What is random, a response's nonce, is an argument, and what package
  net/url makes of the dev server's URL a parameter.
\<close>

definition directive_name :: "string \<Rightarrow> bool" where
  "directive_name name \<longleftrightarrow> name \<noteq> [] \<and> list_all (\<lambda>c. is_lower c \<or> c = CHR ''-'') name \<and>
     \<not> has_prefix name ''-'' \<and> \<not> has_suffix name ''-''"

section \<open>The Permissions-Policy\<close>

definition permissions_off :: "string list" where
  "permissions_off =
     [''camera'', ''microphone'', ''geolocation'', ''payment'', ''usb'', ''serial'', ''hid'', ''midi'',
      ''display-capture'', ''browsing-topics'']"

text \<open>\<open>strings.Cut\<close> at a separator of more bytes, and \<open>strings.Fields\<close>.\<close>

fun cut_str :: "string \<Rightarrow> string \<Rightarrow> string \<times> string \<times> bool" where
  "cut_str sep s =
     (if has_prefix s sep then ([], drop (length sep) s, True)
      else case s of [] \<Rightarrow> ([], [], False) | c # r \<Rightarrow> (case cut_str sep r of (a, b, ok) \<Rightarrow> (c # a, b, ok)))"

declare cut_str.simps [simp del]

definition go_fields :: "string \<Rightarrow> string list" where
  "go_fields s = fields_from [] s"

definition quoted_origin :: "string \<Rightarrow> bool" where
  "quoted_origin m =
     (if length m < 2 \<or> hd m \<noteq> CHR 0x22 \<or> last m \<noteq> CHR 0x22 then False
      else let (scheme, host, ok) = cut_str ''://'' (butlast (tl m))
           in ok \<and> (scheme = ''https'' \<or> scheme = ''http'') \<and> host \<noteq> [] \<and> \<not> contains_any host (CHR 0x22 # ''/?#,;() ''))"

datatype policy_error = Bad_feature string | Bad_allowlist string | Bad_directive string | Bad_source string | Bad_report_path string

text \<open>The names and allowlists checked, in some order of the map.\<close>

fun check_permissions :: "(string, string) gomap \<Rightarrow> policy_error option" where
  "check_permissions [] = None"
| "check_permissions ((name, allow) # rest) =
     (if \<not> directive_name name then Some (Bad_feature name)
      else if \<not> list_all (\<lambda>m. m = ''self'' \<or> m = ''*'' \<or> quoted_origin m) (go_fields allow) then Some (Bad_allowlist allow)
      else check_permissions rest)"

definition allow_text :: "(string, string) gomap \<Rightarrow> string \<Rightarrow> string" where
  "allow_text allowed name =
     (let allow = join_with '' '' (go_fields (case lookup allowed name of None \<Rightarrow> [] | Some s \<Rightarrow> s))
      in if allow = ''*'' then name @ ''=*'' else name @ ''=('' @ allow @ '')'')"

definition features :: "(string, string) gomap \<Rightarrow> string list" where
  "features allowed = permissions_off @ filter (\<lambda>name. name \<notin> set permissions_off) (sorted_keys allowed)"

definition permissions_policy :: "(string, string) gomap \<Rightarrow> policy_error + string" where
  "permissions_policy allowed =
     (case check_permissions allowed of
        Some e \<Rightarrow> Inl e
      | None \<Rightarrow> Inr (join_with '', '' (map (allow_text allowed) (features allowed))))"

definition headers_mw :: "bool \<Rightarrow> string \<Rightarrow> http_handler \<Rightarrow> http_handler" where
  "headers_mw hsts permissions next_handler r w =
     next_handler r (rp_run
       ([Set_header ''X-Content-Type-Options'' ''nosniff'',
         Set_header ''Referrer-Policy'' ''strict-origin-when-cross-origin'',
         Set_header ''Cross-Origin-Opener-Policy'' ''same-origin'',
         Set_header ''X-Frame-Options'' ''SAMEORIGIN'',
         Set_header ''Permissions-Policy'' permissions] @
        (if hsts then [Set_header ''Strict-Transport-Security'' ''max-age=31536000''] else [])) w)"

section \<open>The Content-Security-Policy\<close>

record directive =
  d_name :: string
  d_sources :: "string list"
  d_nonce :: bool

definition directive_of :: "string \<Rightarrow> string list \<Rightarrow> bool \<Rightarrow> directive" where
  "directive_of name sources nonce = \<lparr>d_name = name, d_sources = sources, d_nonce = nonce\<rparr>"

abbreviation (input) quote :: "string \<Rightarrow> string" where
  "quote s \<equiv> CHR 0x27 # s @ [CHR 0x27]"

definition policy :: "directive list" where
  "policy =
     [directive_of ''default-src'' [quote ''self''] False,
      directive_of ''script-src'' [quote ''strict-dynamic''] True,
      directive_of ''style-src'' [quote ''self'', quote ''unsafe-inline''] False,
      directive_of ''img-src'' [quote ''self'', ''data:'', ''blob:''] False,
      directive_of ''font-src'' [quote ''self'', ''data:''] False,
      directive_of ''connect-src'' [quote ''self''] False,
      directive_of ''object-src'' [quote ''none''] False,
      directive_of ''base-uri'' [quote ''none''] False,
      directive_of ''form-action'' [quote ''self''] False,
      directive_of ''frame-ancestors'' [quote ''self''] False]"

fun style_nonce :: "directive list \<Rightarrow> directive list" where
  "style_nonce [] = []"
| "style_nonce (d # ds) =
     (if d_name d = ''style-src''
      then directive_of ''style-src'' [quote ''self''] True # directive_of ''style-src-attr'' [quote ''unsafe-inline''] False # ds
      else d # style_nonce ds)"

definition bad_chars :: string where
  "bad_chars = [CHR '' '', CHR 0x09, CHR 0x0D, CHR 0x0A] @ '';,''"

fun add_sources :: "string list \<Rightarrow> string list \<Rightarrow> policy_error + string list" where
  "add_sources [] acc = Inr acc"
| "add_sources (s # ss) acc =
     (let s1 = trim_space s
      in if s1 = [] then add_sources ss acc
         else if contains_any s1 bad_chars then Inl (Bad_source s1)
         else add_sources ss (if s1 \<in> set acc then acc else acc @ [s1]))"

text \<open>A setting's sources, added to the directive of its name, or to a new one at the end.\<close>

fun add_to :: "string \<Rightarrow> string list \<Rightarrow> directive list \<Rightarrow> policy_error + directive list" where
  "add_to name ss [] = map_sum id (\<lambda>acc. [directive_of name acc False]) (add_sources ss [])"
| "add_to name ss (d # ds) =
     (if d_name d = name then map_sum id (\<lambda>acc. d\<lparr>d_sources := acc\<rparr> # ds) (add_sources ss (d_sources d))
      else map_sum id (\<lambda>ds'. d # ds') (add_to name ss ds))"

fun add_settings :: "(string, string list) gomap \<Rightarrow> string list \<Rightarrow> directive list \<Rightarrow> policy_error + directive list" where
  "add_settings sources [] ds = Inr ds"
| "add_settings sources (name # names) ds =
     (if \<not> directive_name name then Inl (Bad_directive name)
      else case add_to name (case lookup sources name of None \<Rightarrow> [] | Some ss \<Rightarrow> ss) ds of
             Inl e \<Rightarrow> Inl e
           | Inr ds' \<Rightarrow> add_settings sources names ds')"

definition report_path_ok :: "string \<Rightarrow> bool" where
  "report_path_ok p \<longleftrightarrow> p = [] \<or> has_prefix p ''/'' \<and> \<not> contains_any p bad_chars"

record csp_config =
  csp_report_only :: bool
  csp_report_path :: string
  csp_sources :: "(string, string list) gomap"
  csp_style_nonce :: bool

definition csp_directives :: "csp_config \<Rightarrow> policy_error + directive list" where
  "csp_directives cfg =
     (case add_settings (csp_sources cfg) (sorted_keys (csp_sources cfg))
             (if csp_style_nonce cfg then style_nonce policy else policy) of
        Inl e \<Rightarrow> Inl e
      | Inr ds \<Rightarrow> if \<not> report_path_ok (csp_report_path cfg) then Inl (Bad_report_path (csp_report_path cfg)) else Inr ds)"

text \<open>The sources of a directive, as the header says them: the nonce, its own, and the dev server's.\<close>

definition said_sources :: "string \<Rightarrow> (string, string list) gomap \<Rightarrow> directive \<Rightarrow> string list" where
  "said_sources n dev d =
     (if d_nonce d then [quote (''nonce-'' @ n)] else []) @ d_sources d @
     (case lookup dev (d_name d) of None \<Rightarrow> [] | Some ss \<Rightarrow> ss)"

definition policy_header :: "directive list \<Rightarrow> string \<Rightarrow> (string, string list) gomap \<Rightarrow> string \<Rightarrow> string" where
  "policy_header ds n dev report_path =
     join_with ''; '' (map (\<lambda>d. d_name d @ concat (map (\<lambda>s. '' '' @ s) (said_sources n dev d))) ds) @
     (if report_path \<noteq> [] then ''; report-uri '' @ report_path else [])"

definition dev_sources :: "(string \<Rightarrow> url option) \<Rightarrow> string \<Rightarrow> (string, string list) gomap" where
  "dev_sources parse_url dev =
     (case parse_url dev of
        None \<Rightarrow> []
      | Some u \<Rightarrow>
          if dev = [] \<or> u_scheme u \<noteq> ''http'' \<and> u_scheme u \<noteq> ''https'' \<or> u_host u = [] then []
          else let origin = u_scheme u @ ''://'' @ u_host u;
                   ws = (if u_scheme u = ''https'' then ''wss://'' else ''ws://'') @ u_host u
               in [(''style-src'', [origin]), (''img-src'', [origin]), (''font-src'', [origin]),
                   (''connect-src'', [origin, ws])])"

text \<open>
  A browser's report, as encoding/json reads one, None for a body that is not one: what is logged of it,
  by what name, and the answer.
\<close>

record csp_report =
  cr_page :: string
  cr_directive :: string
  cr_violated :: string
  cr_blocked :: string
  cr_source :: string
  cr_line :: int
  cr_sample :: string

definition report_attrs :: "csp_report \<Rightarrow> (string \<times> string) list" where
  "report_attrs rep =
     (let source = (if cr_source rep \<noteq> [] \<and> 0 < cr_line rep then cr_source rep @ '':'' @ itoa (cr_line rep) else cr_source rep)
      in [(''page'', cr_page rep), (''directive'', if cr_directive rep \<noteq> [] then cr_directive rep else cr_violated rep),
          (''blocked'', cr_blocked rep)] @
         (if source \<noteq> [] then [(''source'', source)] else []) @
         (if cr_sample rep \<noteq> [] then [(''sample'', cr_sample rep)] else []))"

definition log_report :: "csp_report option \<Rightarrow> bool \<Rightarrow> response \<Rightarrow> response \<times> (string \<times> (string \<times> string) list) option" where
  "log_report sent report_only w =
     (case sent of
        None \<Rightarrow>
          (rp_run (http_error ''this is where a browser reports what a page's Content-Security-Policy blocked'' 400) w, None)
      | Some rep \<Rightarrow>
          (rp_do (Write_header 204) w,
           Some (if report_only then ''a page's Content-Security-Policy would have blocked what it asked for''
                 else ''a page's Content-Security-Policy blocked what it asked for'', report_attrs rep)))"

definition csp :: "csp_config \<Rightarrow> directive list \<Rightarrow> (string \<Rightarrow> url option) \<Rightarrow> string \<Rightarrow> string \<Rightarrow> csp_report option \<Rightarrow>
    http_handler \<Rightarrow> http_handler" where
  "csp cfg ds parse_url dev n sent next_handler r w =
     (if csp_report_path cfg \<noteq> [] \<and> hr_path r = csp_report_path cfg \<and> hr_method r = ''POST''
      then fst (log_report sent (csp_report_only cfg) w)
      else next_handler (r\<lparr>hr_nonce := n\<rparr>)
        (rp_do (Set_header
          (if csp_report_only cfg then ''Content-Security-Policy-Report-Only'' else ''Content-Security-Policy'')
          (policy_header ds n (dev_sources parse_url dev) (csp_report_path cfg))) w))"

section \<open>What a policy says\<close>

text \<open>
  What a browser reads of a policy: its directives, between semicolons, each a name and sources, between
  spaces. A comma would end the policy.
\<close>

definition words_of :: "string \<Rightarrow> string list" where
  "words_of part = filter (\<lambda>x. x \<noteq> []) (split_on CHR '' '' part)"

definition read_policy :: "string \<Rightarrow> string list list" where
  "read_policy h = map words_of (split_on CHR '';'' h)"

definition clean_word :: "string \<Rightarrow> bool" where
  "clean_word x \<longleftrightarrow> x \<noteq> [] \<and> \<not> contains_any x bad_chars"

lemma clean_word_chars: "clean_word x \<Longrightarrow> CHR '' '' \<notin> set x \<and> CHR '';'' \<notin> set x \<and> CHR '','' \<notin> set x \<and> x \<noteq> []"
  by (auto simp: clean_word_def contains_any_def bad_chars_def list_ex_iff)

definition words_text :: "string list \<Rightarrow> string" where
  "words_text ws = concat (map (\<lambda>x. '' '' @ x) ws)"

lemma words_text_Cons: "words_text (x # ws) = CHR '' '' # x @ words_text ws"
  by (simp add: words_text_def)

lemma split_word:
  "list_all clean_word ws \<Longrightarrow> CHR '' '' \<notin> set a \<Longrightarrow> split_on CHR '' '' (a @ words_text ws) = a # ws"
proof (induction ws arbitrary: a)
  case Nil
  then show ?case by (simp add: words_text_def split_on_single)
next
  case (Cons x ws)
  then have "CHR '' '' \<notin> set x" using clean_word_chars by simp
  with Cons show ?case by (simp add: words_text_Cons split_on_append)
qed

lemma words_text_chars:
  "list_all clean_word ws \<Longrightarrow> CHR '';'' \<notin> set (words_text ws) \<and> CHR '','' \<notin> set (words_text ws)"
  by (induction ws) (auto simp: words_text_Cons dest: clean_word_chars, auto simp: words_text_def)

definition clean_directive :: "string \<Rightarrow> directive \<Rightarrow> bool" where
  "clean_directive n d \<longleftrightarrow> clean_word (d_name d) \<and> list_all clean_word (said_sources n [] d)"

definition directive_text :: "string \<Rightarrow> directive \<Rightarrow> string" where
  "directive_text n d = d_name d @ words_text (said_sources n [] d)"

lemma directive_text_chars:
  "clean_directive n d \<Longrightarrow> CHR '';'' \<notin> set (directive_text n d) \<and> CHR '','' \<notin> set (directive_text n d)"
  using words_text_chars clean_word_chars by (auto simp: clean_directive_def directive_text_def)

lemma read_directive:
  assumes "clean_directive n d"
  shows "words_of (directive_text n d) = d_name d # said_sources n [] d"
    "words_of (CHR '' '' # directive_text n d) = d_name d # said_sources n [] d"
proof -
  have words: "clean_word (d_name d)" "list_all clean_word (said_sources n [] d)"
    using assms by (simp_all add: clean_directive_def)
  then have "filter (\<lambda>x. x \<noteq> []) (d_name d # said_sources n [] d) = d_name d # said_sources n [] d"
    using clean_word_chars by (auto simp: list_all_iff filter_id_conv)
  moreover have "split_on CHR '' '' (directive_text n d) = d_name d # said_sources n [] d"
    using split_word [OF words(2)] clean_word_chars [OF words(1)] by (simp add: directive_text_def)
  ultimately show "words_of (directive_text n d) = d_name d # said_sources n [] d"
    "words_of (CHR '' '' # directive_text n d) = d_name d # said_sources n [] d"
    by (simp_all add: words_of_def)
qed

lemma split_joined:
  assumes "list_all (\<lambda>x. CHR '';'' \<notin> set x) ts" "CHR '';'' \<notin> set t" "CHR '';'' \<notin> set last_part"
  shows "split_on CHR '';'' (join_with ''; '' (t # ts) @ (if extra then CHR '';'' # last_part else [])) =
    t # map (\<lambda>x. CHR '' '' # x) ts @ (if extra then [last_part] else [])"
  using assms
proof (induction ts arbitrary: t)
  case Nil
  then show ?case by (auto simp: split_on_append split_on_single)
next
  case (Cons x ts)
  have sp: "split_on CHR '';'' (CHR '' '' # y) = (CHR '' '' # hd (split_on CHR '';'' y)) # tl (split_on CHR '';'' y)" for y
    by (cases "split_on CHR '';'' y") simp_all
  show ?case using Cons by (simp add: split_on_append sp)
qed

lemma policy_header_text:
  "policy_header ds n [] report_path =
     join_with ''; '' (map (directive_text n) ds) @ (if report_path \<noteq> [] then CHR '';'' # '' report-uri '' @ report_path else [])"
  by (simp add: policy_header_def directive_text_def [abs_def] words_text_def)

text \<open>That each setting CSP takes keeps the directives' words clean.\<close>

lemma add_sources_clean:
  "add_sources ss acc = Inr acc' \<Longrightarrow> list_all clean_word acc \<Longrightarrow> list_all clean_word acc'"
  by (induction ss acc rule: add_sources.induct) (auto simp: Let_def clean_word_def split: if_splits)

definition clean_sources :: "directive \<Rightarrow> bool" where
  "clean_sources d \<longleftrightarrow> clean_word (d_name d) \<and> list_all clean_word (d_sources d)"

lemma directive_name_clean: "directive_name name \<Longrightarrow> clean_word name"
  by (auto simp: directive_name_def clean_word_def contains_any_def bad_chars_def list_ex_iff list_all_iff is_lower_def)

lemma add_to_clean:
  "add_to name ss ds = Inr ds' \<Longrightarrow> clean_word name \<Longrightarrow> list_all clean_sources ds \<Longrightarrow> list_all clean_sources ds'"
proof (induction name ss ds arbitrary: ds' rule: add_to.induct)
  case (1 name ss)
  then show ?case
    using add_sources_clean [of ss "[]"] by (auto simp: clean_sources_def directive_of_def map_sum_Inr_iff)
next
  case (2 name ss d ds)
  then show ?case
    using add_sources_clean [of ss "d_sources d"] by (auto simp: clean_sources_def map_sum_Inr_iff split: if_splits)
qed

lemma add_to_others:
  "add_to name ss ds = Inr ds' \<Longrightarrow> d \<in> set ds' \<Longrightarrow> d_name d \<noteq> name \<Longrightarrow> d \<in> set ds"
  by (induction name ss ds arbitrary: ds' rule: add_to.induct)
    (auto simp: directive_of_def map_sum_Inr_iff split: if_splits)

lemma add_settings_clean:
  "add_settings sources names ds = Inr ds' \<Longrightarrow> list_all clean_sources ds \<Longrightarrow> list_all clean_sources ds'"
proof (induction sources names ds rule: add_settings.induct)
  case (2 sources name names ds)
  then show ?case
    using add_to_clean [OF _ directive_name_clean] by (auto split: if_splits sum.splits)
qed auto

lemma add_settings_others:
  "add_settings sources names ds = Inr ds' \<Longrightarrow> d \<in> set ds' \<Longrightarrow> d_name d \<notin> set names \<Longrightarrow> d \<in> set ds"
proof (induction sources names ds rule: add_settings.induct)
  case (2 sources name names ds)
  then show ?case using add_to_others by (fastforce split: if_splits sum.splits)
qed auto

lemma policy_clean: "list_all clean_sources policy" "list_all clean_sources (style_nonce policy)"
  by code_simp+

lemma policy_scripts:
  "\<forall>d \<in> set policy. d_name d = ''script-src'' \<longrightarrow> d = directive_of ''script-src'' [quote ''strict-dynamic''] True"
  "\<forall>d \<in> set (style_nonce policy). d_name d = ''script-src'' \<longrightarrow> d = directive_of ''script-src'' [quote ''strict-dynamic''] True"
  by code_simp+

definition nonce_ok :: "string \<Rightarrow> bool" where
  "nonce_ok n \<longleftrightarrow> list_all (\<lambda>c. is_upper c \<or> is_digit c) n"

lemma nonce_clean: "nonce_ok n \<Longrightarrow> clean_word (quote (''nonce-'' @ n))"
  by (auto simp: nonce_ok_def clean_word_def contains_any_def bad_chars_def list_ex_iff list_all_iff is_upper_def is_digit_def)

lemma clean_directive_nonce: "nonce_ok n \<Longrightarrow> clean_sources d \<Longrightarrow> clean_directive n d"
  using nonce_clean by (auto simp: clean_sources_def clean_directive_def said_sources_def)

lemma add_to_nonempty: "add_to name ss ds = Inr ds' \<Longrightarrow> ds' \<noteq> []"
  by (cases ds) (auto simp: map_sum_Inr_iff split: if_splits)

lemma add_settings_nonempty: "add_settings sources names ds = Inr ds' \<Longrightarrow> ds \<noteq> [] \<Longrightarrow> ds' \<noteq> []"
  by (induction sources names ds rule: add_settings.induct) (auto dest: add_to_nonempty split: if_splits sum.splits)

text \<open>
  A policy says what was set and no more, whatever the settings CSP takes: a browser that reads the
  header back finds each directive with its sources, the response's nonce among those of the ones that
  take it, and the path for the reports, in order, so that no setting adds a directive or ends the policy;
  and unless a setting adds to script-src, its sources are the nonce and 'strict-dynamic' alone, so a
  script that got into a page without the nonce is not run.
\<close>

theorem a_policy_says_what_was_set:
  assumes "csp_directives cfg = Inr ds" "nonce_ok n"
  shows "read_policy (policy_header ds n [] (csp_report_path cfg)) =
      map (\<lambda>d. d_name d # said_sources n [] d) ds @
      (if csp_report_path cfg \<noteq> [] then [[''report-uri'', csp_report_path cfg]] else []) \<and>
    CHR '','' \<notin> set (policy_header ds n [] (csp_report_path cfg)) \<and>
    (\<forall>d \<in> set ds. d_name d = ''script-src'' \<longrightarrow> ''script-src'' \<notin> fst ` set (csp_sources cfg) \<longrightarrow>
       said_sources n [] d = [quote (''nonce-'' @ n), quote ''strict-dynamic''])"
proof -
  let ?base = "if csp_style_nonce cfg then style_nonce policy else policy" and ?path = "csp_report_path cfg"
  have add: "add_settings (csp_sources cfg) (sorted_keys (csp_sources cfg)) ?base = Inr ds" and path: "report_path_ok ?path"
    using assms(1) by (auto simp: csp_directives_def split: sum.splits if_splits)
  have "list_all clean_sources ds" by (rule add_settings_clean [OF add]) (simp add: policy_clean)
  then have clean: "d \<in> set ds \<Longrightarrow> clean_directive n d" for d
    using clean_directive_nonce [OF assms(2)] by (simp add: list_all_iff)
  have "policy \<noteq> []" "style_nonce policy \<noteq> []" by code_simp+
  then have "ds \<noteq> []" using add_settings_nonempty [OF add] by simp
  then obtain d0 rest where ds: "ds = d0 # rest" by (cases ds) simp
  have path': "CHR '';'' \<notin> set ?path" "CHR '','' \<notin> set ?path" "CHR '' '' \<notin> set ?path"
    using path by (auto simp: report_path_ok_def contains_any_def bad_chars_def list_ex_iff)
  have "split_on CHR '';'' (policy_header ds n [] ?path) =
      directive_text n d0 # map (\<lambda>x. CHR '' '' # x) (map (directive_text n) rest) @
      (if ?path \<noteq> [] then ['' report-uri '' @ ?path] else [])"
    unfolding policy_header_text ds list.map
    by (rule split_joined) (use clean directive_text_chars path' in \<open>auto simp: ds list_all_iff\<close>)
  moreover have "words_of ('' report-uri '' @ ?path) = [''report-uri'', ?path]" if "?path \<noteq> []"
    using that path'(3) by (simp add: words_of_def split_on_single)
  moreover have "words_of (directive_text n d0) = d_name d0 # said_sources n [] d0"
    using read_directive(1) clean ds by simp
  moreover have "map (\<lambda>d. words_of (CHR '' '' # directive_text n d)) rest = map (\<lambda>d. d_name d # said_sources n [] d) rest"
    using read_directive(2) clean ds by simp
  ultimately have "read_policy (policy_header ds n [] ?path) =
      map (\<lambda>d. d_name d # said_sources n [] d) ds @ (if ?path \<noteq> [] then [[''report-uri'', ?path]] else [])"
    by (simp add: read_policy_def ds comp_def)
  moreover have "CHR '','' \<notin> set (policy_header ds n [] ?path)"
  proof -
    have "CHR '','' \<notin> set (join_with ''; '' ts)" if "list_all (\<lambda>t. CHR '','' \<notin> set t) ts" for ts
      using that by (induction "''; ''" ts rule: join_with.induct) auto
    then show ?thesis
      using clean directive_text_chars path'(2) unfolding policy_header_text by (auto simp: list_all_iff)
  qed
  moreover have "said_sources n [] d = [quote (''nonce-'' @ n), quote ''strict-dynamic'']"
    if d: "d \<in> set ds" "d_name d = ''script-src''" "''script-src'' \<notin> fst ` set (csp_sources cfg)" for d
  proof -
    have "d \<in> set ?base" by (rule add_settings_others [OF add d(1)]) (use d in simp)
    then have "d \<in> set policy \<or> d \<in> set (style_nonce policy)" by (auto split: if_splits)
    then have "d = directive_of ''script-src'' [quote ''strict-dynamic''] True"
      using policy_scripts(1) [rule_format, of d] policy_scripts(2) [rule_format, of d] d(2) by blast
    then show ?thesis by (simp add: said_sources_def directive_of_def)
  qed
  ultimately show ?thesis by blast
qed

definition demo_csp :: csp_config where
  "demo_csp = \<lparr>csp_report_only = False, csp_report_path = ''/r'', csp_sources = [(''img-src'', ['' https://p.example '', []])],
     csp_style_nonce = True\<rparr>"

theorem a_policy_says_what_was_set_witness:
  "\<exists>ds. csp_directives demo_csp = Inr ds \<and>
     read_policy (policy_header ds ''K7'' [] ''/r'') = map (\<lambda>d. d_name d # said_sources ''K7'' [] d) ds @ [[''report-uri'', ''/r'']]"
proof -
  have "csp_directives demo_csp \<noteq> Inl e" for e by (cases e) (code_simp)+
  then obtain ds where "csp_directives demo_csp = Inr ds" by (cases "csp_directives demo_csp") auto
  moreover have "nonce_ok ''K7''" by code_simp
  ultimately show ?thesis
    using a_policy_says_what_was_set [of demo_csp ds "''K7''"] by (auto simp: demo_csp_def)
qed

end
