(* ===== verification/Broadcast.thy ===== *)
theory Broadcast
  imports Go_Prelude
begin

text \<open>
  The hub of package broadcast (broadcast/broadcast.go): Publish, Subscribe, what the store hands on
  (\<open>deliver\<close>), Run's listening again, and the store in memory of broadcasttest, which several hubs share
  as the instances of an app share a database. What JSON makes of an event is a parameter, \<open>codec\<close>.
\<close>

section \<open>Events and subscribers\<close>

record event =
  ev_channel :: string
  ev_name :: string
  ev_data :: string

text \<open>
  \<open>json.Marshal\<close> of what an app publishes, and of an event as the store carries it (\<open>wire\<close>), and
  \<open>json.Unmarshal\<close> of that.
\<close>

record 'd codec =
  cd_data :: "'d \<Rightarrow> string option"
  cd_write :: "event \<Rightarrow> string option"
  cd_read :: "string \<Rightarrow> event option"

text \<open>
  A subscriber is shared by pointer: it lives in the hub's heap, and \<open>hub_subs\<close> are the ones \<open>h.subs\<close>
  holds. \<open>sub_events\<close> are the events in its Go channel, and \<open>sub_closed\<close> whether that is closed.
\<close>

record subscriber =
  sub_channels :: "string list"
  sub_events :: "event list"
  sub_closed :: bool

record hub =
  hub_heap :: "subscriber list"
  hub_subs :: "nat list"

definition new_hub :: hub where
  "new_hub = \<lparr>hub_heap = [], hub_subs = []\<rparr>"

definition max_event :: nat where "max_event = 7000"
definition events_waiting :: nat where "events_waiting = 16"

datatype publish_error = No_channel | Not_JSON | Too_big nat | Store_failed string

text \<open>\<open>publish\<close>, to where it hands the event to its store, or to this hub where there is none.\<close>

definition event_bytes :: "'d codec \<Rightarrow> string \<Rightarrow> string \<Rightarrow> 'd \<Rightarrow> publish_error + string" where
  "event_bytes cd channel name data =
     (if channel = [] then Inl No_channel
      else case cd_data cd data of
        None \<Rightarrow> Inl Not_JSON
      | Some raw \<Rightarrow>
          (case cd_write cd \<lparr>ev_channel = channel, ev_name = name, ev_data = raw\<rparr> of
             None \<Rightarrow> Inl Not_JSON
           | Some bytes \<Rightarrow> if max_event < length bytes then Inl (Too_big (length bytes)) else Inr bytes))"

definition hub_subscribe :: "string list \<Rightarrow> hub \<Rightarrow> nat \<times> hub" where
  "hub_subscribe channels h =
     (let s = length (hub_heap h)
      in (s, h\<lparr>hub_heap := hub_heap h @ [\<lparr>sub_channels = channels, sub_events = [], sub_closed = False\<rparr>],
              hub_subs := s # hub_subs h\<rparr>))"

definition change_sub :: "nat \<Rightarrow> (subscriber \<Rightarrow> subscriber) \<Rightarrow> hub \<Rightarrow> hub" where
  "change_sub s f h = h\<lparr>hub_heap := (hub_heap h)[s := f (hub_heap h ! s)]\<rparr>"

text \<open>\<open>drop\<close>.\<close>

definition hub_drop :: "nat \<Rightarrow> hub \<Rightarrow> hub" where
  "hub_drop s h =
     (if s \<in> set (hub_subs h)
      then change_sub s (\<lambda>x. x\<lparr>sub_closed := True\<rparr>) (h\<lparr>hub_subs := removeAll s (hub_subs h)\<rparr>)
      else h)"

text \<open>The body of \<open>deliver\<close>'s loop: a send that does not wait, on a Go channel with room for 16.\<close>

definition deliver_to :: "event \<Rightarrow> nat \<Rightarrow> hub \<Rightarrow> hub" where
  "deliver_to e s h =
     (let x = hub_heap h ! s
      in if ev_channel e \<notin> set (sub_channels x) then h
         else if length (sub_events x) < events_waiting
         then change_sub s (\<lambda>x. x\<lparr>sub_events := sub_events x @ [e]\<rparr>) h
         else hub_drop s h)"

definition event_read :: "'d codec \<Rightarrow> string \<Rightarrow> event option" where
  "event_read cd bytes =
     (case cd_read cd bytes of
        None \<Rightarrow> None
      | Some e \<Rightarrow> if ev_channel e = [] then None else Some e)"

definition hub_deliver :: "'d codec \<Rightarrow> string \<Rightarrow> hub \<Rightarrow> hub" where
  "hub_deliver cd bytes h =
     (case event_read cd bytes of
        None \<Rightarrow> h
      | Some e \<Rightarrow> foldl (\<lambda>h s. deliver_to e s h) h (hub_subs h))"

text \<open>A hub without a store: Publish delivers in place.\<close>

definition publish_here :: "'d codec \<Rightarrow> string \<Rightarrow> string \<Rightarrow> 'd \<Rightarrow> hub \<Rightarrow> publish_error option \<times> hub" where
  "publish_here cd channel name data h =
     (case event_bytes cd channel name data of
        Inl e \<Rightarrow> (Some e, h)
      | Inr bytes \<Rightarrow> (None, hub_deliver cd bytes h))"

text \<open>
  \<open>Run\<close>, once the store's Listen has returned: over with its context, and otherwise every subscriber is
  closed, and Run waits before it listens again, longer each time. It starts with \<open>listen_again\<close>.
\<close>

definition listen_again :: duration where "listen_again = second"

definition drop_all :: "hub \<Rightarrow> hub" where
  "drop_all h = foldl (\<lambda>h s. hub_drop s h) h (hub_subs h)"

definition listen_ended :: "bool \<Rightarrow> duration \<Rightarrow> hub \<Rightarrow> (duration \<times> duration) option \<times> hub" where
  "listen_ended ctx_done wait h =
     (if ctx_done then (None, h) else (Some (wait, min (2 * wait) minute), drop_all h))"

text \<open>The subscriber's end: it takes the first of the events that wait.\<close>

definition receive :: "nat \<Rightarrow> hub \<Rightarrow> event option \<times> hub" where
  "receive s h =
     (case sub_events (hub_heap h ! s) of
        [] \<Rightarrow> (None, h)
      | e # es \<Rightarrow> (Some e, change_sub s (\<lambda>x. x\<lparr>sub_events := es\<rparr>) h))"

section \<open>What happens to a hub\<close>

datatype hub_op = Subscribes "string list" | Leaves nat | Delivers string | Takes nat | Stops_listening

fun hub_do :: "'d codec \<Rightarrow> hub_op \<Rightarrow> hub \<Rightarrow> hub" where
  "hub_do cd (Subscribes channels) h = snd (hub_subscribe channels h)"
| "hub_do cd (Leaves s) h = hub_drop s h"
| "hub_do cd (Delivers bytes) h = hub_deliver cd bytes h"
| "hub_do cd (Takes s) h = snd (receive s h)"
| "hub_do cd Stops_listening h = drop_all h"

fun hub_run :: "'d codec \<Rightarrow> hub_op list \<Rightarrow> hub \<Rightarrow> hub" where
  "hub_run cd [] h = h"
| "hub_run cd (op # ops) h = hub_run cd ops (hub_do cd op h)"

text \<open>What one subscriber took of the events, through a run.\<close>

fun taken :: "'d codec \<Rightarrow> nat \<Rightarrow> hub_op list \<Rightarrow> hub \<Rightarrow> event list" where
  "taken cd s [] h = []"
| "taken cd s (op # ops) h =
     (case (if op = Takes s then fst (receive s h) else None) of None \<Rightarrow> [] | Some e \<Rightarrow> [e]) @
     taken cd s ops (hub_do cd op h)"

text \<open>The events the store handed on, on channels a subscriber follows: what it should get.\<close>

fun handed_on :: "'d codec \<Rightarrow> string list \<Rightarrow> hub_op list \<Rightarrow> event list" where
  "handed_on cd channels [] = []"
| "handed_on cd channels (Delivers bytes # ops) =
     (case event_read cd bytes of
        None \<Rightarrow> []
      | Some e \<Rightarrow> if ev_channel e \<in> set channels then [e] else []) @ handed_on cd channels ops"
| "handed_on cd channels (_ # ops) = handed_on cd channels ops"

section \<open>What each does to one subscriber\<close>

definition hub_ok :: "hub \<Rightarrow> bool" where
  "hub_ok h \<longleftrightarrow> distinct (hub_subs h) \<and>
     (\<forall>s. s \<in> set (hub_subs h) \<longleftrightarrow> s < length (hub_heap h) \<and> \<not> sub_closed (hub_heap h ! s))"

lemma hub_okD:
  "hub_ok h \<Longrightarrow> distinct (hub_subs h)"
  "hub_ok h \<Longrightarrow> s \<in> set (hub_subs h) \<longleftrightarrow> s < length (hub_heap h) \<and> \<not> sub_closed (hub_heap h ! s)"
  by (auto simp: hub_ok_def)

definition sub_hears :: "event \<Rightarrow> subscriber \<Rightarrow> subscriber" where
  "sub_hears e x =
     (if sub_closed x \<or> ev_channel e \<notin> set (sub_channels x) then x
      else if length (sub_events x) < events_waiting then x\<lparr>sub_events := sub_events x @ [e]\<rparr>
      else x\<lparr>sub_closed := True\<rparr>)"

fun sub_do :: "'d codec \<Rightarrow> nat \<Rightarrow> hub_op \<Rightarrow> subscriber \<Rightarrow> subscriber" where
  "sub_do cd s (Subscribes channels) x = x"
| "sub_do cd s (Leaves s') x = (if s' = s then x\<lparr>sub_closed := True\<rparr> else x)"
| "sub_do cd s (Delivers bytes) x = (case event_read cd bytes of None \<Rightarrow> x | Some e \<Rightarrow> sub_hears e x)"
| "sub_do cd s (Takes s') x = (if s' = s then x\<lparr>sub_events := tl (sub_events x)\<rparr> else x)"
| "sub_do cd s Stops_listening x = x\<lparr>sub_closed := True\<rparr>"

lemma change_sub_simps [simp]:
  "length (hub_heap (change_sub s f h)) = length (hub_heap h)"
  "hub_subs (change_sub s f h) = hub_subs h"
  "s' < length (hub_heap h) \<Longrightarrow> hub_heap (change_sub s f h) ! s' = (if s' = s then f (hub_heap h ! s') else hub_heap h ! s')"
  by (auto simp: change_sub_def)

lemma change_sub_ok:
  assumes "\<And>x. sub_closed (f x) = sub_closed x" "hub_ok h"
  shows "hub_ok (change_sub s f h)"
proof -
  have "s' < length (hub_heap h) \<and> \<not> sub_closed (hub_heap (change_sub s f h) ! s') \<longleftrightarrow>
      s' < length (hub_heap h) \<and> \<not> sub_closed (hub_heap h ! s')" for s'
    using assms(1) by (cases "s' < length (hub_heap h)") simp_all
  with hub_okD [OF assms(2)] show ?thesis by (simp add: hub_ok_def)
qed

lemma hub_drop_simps [simp]:
  "length (hub_heap (hub_drop s h)) = length (hub_heap h)"
  "hub_subs (hub_drop s h) = removeAll s (hub_subs h)"
  by (simp_all add: hub_drop_def change_sub_def)

lemma hub_drop_heap:
  assumes "hub_ok h" "s' < length (hub_heap h)"
  shows "hub_heap (hub_drop s h) ! s' = (if s' = s then (hub_heap h ! s')\<lparr>sub_closed := True\<rparr> else hub_heap h ! s')"
  using assms hub_okD(2) [OF assms(1), of s] by (auto simp: hub_drop_def change_sub_def)

lemma hub_drop_ok: "hub_ok h \<Longrightarrow> hub_ok (hub_drop s h)"
  using hub_drop_heap [of h _ s] by (auto simp: hub_ok_def distinct_removeAll split: if_splits)

lemma deliver_to_heap:
  assumes "hub_ok h" "s \<in> set (hub_subs h)"
  shows "hub_ok (deliver_to e s h) \<and> length (hub_heap (deliver_to e s h)) = length (hub_heap h) \<and>
    set (hub_subs h) - {s} \<subseteq> set (hub_subs (deliver_to e s h)) \<and>
    (\<forall>s' < length (hub_heap h). hub_heap (deliver_to e s h) ! s' =
       (if s' = s then sub_hears e (hub_heap h ! s') else hub_heap h ! s'))"
  using assms hub_drop_ok [OF assms(1), of s] hub_drop_heap [OF assms(1), of _ s]
  by (auto simp: deliver_to_def sub_hears_def Let_def hub_ok_def split: if_splits)

lemma deliver_all_heap:
  assumes "hub_ok h" "distinct xs" "set xs \<subseteq> set (hub_subs h)"
  shows "hub_ok (foldl (\<lambda>h s. deliver_to e s h) h xs) \<and>
    length (hub_heap (foldl (\<lambda>h s. deliver_to e s h) h xs)) = length (hub_heap h) \<and>
    (\<forall>s < length (hub_heap h). hub_heap (foldl (\<lambda>h s. deliver_to e s h) h xs) ! s =
       (if s \<in> set xs then sub_hears e (hub_heap h ! s) else hub_heap h ! s))"
  using assms
proof (induction xs arbitrary: h)
  case Nil
  then show ?case by simp
next
  case (Cons a xs)
  from Cons.prems have a: "a \<in> set (hub_subs h)" by simp
  note d = deliver_to_heap [OF Cons.prems(1) a, of e]
  have "set xs \<subseteq> set (hub_subs (deliver_to e a h))" using Cons.prems d by auto
  from Cons.IH [OF _ _ this] d Cons.prems(2) show ?case by auto
qed

lemma drop_all_heap:
  assumes "hub_ok h" "set xs \<subseteq> {s. s < length (hub_heap h)}"
  shows "hub_ok (foldl (\<lambda>h s. hub_drop s h) h xs) \<and>
    length (hub_heap (foldl (\<lambda>h s. hub_drop s h) h xs)) = length (hub_heap h) \<and>
    (\<forall>s < length (hub_heap h). hub_heap (foldl (\<lambda>h s. hub_drop s h) h xs) ! s =
       (if s \<in> set xs then (hub_heap h ! s)\<lparr>sub_closed := True\<rparr> else hub_heap h ! s))"
  using assms
proof (induction xs arbitrary: h)
  case (Cons a xs)
  then show ?case using Cons.IH [OF hub_drop_ok [OF Cons.prems(1), of a]] hub_drop_heap [OF Cons.prems(1), of _ a]
    by auto
qed simp

lemma hub_do_sub:
  assumes "hub_ok h"
  shows "hub_ok (hub_do cd op h) \<and> length (hub_heap h) \<le> length (hub_heap (hub_do cd op h)) \<and>
    (\<forall>s < length (hub_heap h). hub_heap (hub_do cd op h) ! s = sub_do cd s op (hub_heap h ! s))"
proof (cases op)
  case (Subscribes channels)
  let ?h = "snd (hub_subscribe channels h)"
  have subs: "hub_subs ?h = length (hub_heap h) # hub_subs h"
    and heap: "hub_heap ?h = hub_heap h @ [\<lparr>sub_channels = channels, sub_events = [], sub_closed = False\<rparr>]"
    by (simp_all add: hub_subscribe_def Let_def)
  have "s \<in> set (hub_subs ?h) \<longleftrightarrow> s < length (hub_heap ?h) \<and> \<not> sub_closed (hub_heap ?h ! s)" for s
    using hub_okD(2) [OF assms, of s] unfolding subs heap by (cases "s < length (hub_heap h)") (auto simp: nth_append)
  moreover have "distinct (hub_subs ?h)"
    using hub_okD(1) [OF assms] hub_okD(2) [OF assms, of "length (hub_heap h)"] unfolding subs by simp
  ultimately have "hub_ok ?h" unfolding hub_ok_def by blast
  with Subscribes heap show ?thesis by (simp add: nth_append)
next
  case (Leaves s)
  with assms show ?thesis using hub_drop_ok [OF assms, of s] hub_drop_heap [OF assms, of _ s] by auto
next
  case (Delivers bytes)
  show ?thesis
  proof (cases "event_read cd bytes")
    case (Some e)
    have "sub_hears e (hub_heap h ! s) = hub_heap h ! s" if "s < length (hub_heap h)" "s \<notin> set (hub_subs h)" for s
      using that hub_okD(2) [OF assms] by (simp add: sub_hears_def)
    with Some Delivers show ?thesis
      using deliver_all_heap [OF assms hub_okD(1) [OF assms] order_refl, of e] by (auto simp: hub_deliver_def)
  qed (use Delivers assms in \<open>simp add: hub_deliver_def\<close>)
next
  case (Takes s)
  have "hub_ok (change_sub s (\<lambda>x. x\<lparr>sub_events := es\<rparr>) h)" for es by (rule change_sub_ok [OF _ assms]) simp
  with assms Takes show ?thesis
    by (cases "sub_events (hub_heap h ! s)") (simp_all add: receive_def)
next
  case Stops_listening
  have "(hub_heap h ! s)\<lparr>sub_closed := True\<rparr> = hub_heap h ! s"
    if "s < length (hub_heap h)" "s \<notin> set (hub_subs h)" for s
    using that hub_okD(2) [OF assms] by simp
  moreover have "set (hub_subs h) \<subseteq> {s. s < length (hub_heap h)}" using hub_okD(2) [OF assms] by auto
  ultimately show ?thesis
    using drop_all_heap [OF assms] Stops_listening by (simp add: drop_all_def)
qed

section \<open>What a subscriber gets\<close>

lemma sub_do_closed: "sub_closed x \<Longrightarrow> sub_closed (sub_do cd s op x)"
  by (cases "(cd, s, op, x)" rule: sub_do.cases) (auto simp: sub_hears_def split: option.splits)

lemma sub_do_channels [simp]: "sub_channels (sub_do cd s op x) = sub_channels x"
  by (cases "(cd, s, op, x)" rule: sub_do.cases) (auto simp: sub_hears_def split: option.splits)

lemma hub_run_append: "hub_run cd (xs @ ys) h = hub_run cd ys (hub_run cd xs h)"
  by (induction xs arbitrary: h) simp_all

lemma handed_on_append: "handed_on cd channels (xs @ ys) = handed_on cd channels xs @ handed_on cd channels ys"
  by (induction cd channels xs rule: handed_on.induct) simp_all

lemma taken_append: "taken cd s (xs @ ys) h = taken cd s xs h @ taken cd s ys (hub_run cd xs h)"
  by (induction xs arbitrary: h) simp_all

lemma hub_run_ok: "hub_ok h \<Longrightarrow> hub_ok (hub_run cd ops h) \<and> length (hub_heap h) \<le> length (hub_heap (hub_run cd ops h))"
proof (induction ops arbitrary: h)
  case (Cons op ops)
  with hub_do_sub [OF Cons.prems, of cd op] show ?case using le_trans by fastforce
qed simp

lemma hub_run_sub:
  assumes "hub_ok h" "s < length (hub_heap h)"
  shows "hub_heap (hub_run cd ops h) ! s = foldl (\<lambda>x op. sub_do cd s op x) (hub_heap h ! s) ops"
  using assms
proof (induction ops arbitrary: h)
  case (Cons op ops)
  with hub_do_sub [OF Cons.prems(1), of cd op] show ?case by simp
qed simp

lemma subs_do_closed: "sub_closed x \<Longrightarrow> sub_closed (foldl (\<lambda>x op. sub_do cd s op x) x ops)"
  by (induction ops arbitrary: x) (simp_all add: sub_do_closed)

text \<open>The events a subscriber has waiting, and those still to come where it is open.\<close>

definition coming :: "'d codec \<Rightarrow> subscriber \<Rightarrow> hub_op list \<Rightarrow> event list" where
  "coming cd x ops = sub_events x @ (if sub_closed x then [] else handed_on cd (sub_channels x) ops)"

lemma taken_Cons:
  "taken cd s (op # ops) h =
     (if op = Takes s then take 1 (sub_events (hub_heap h ! s)) else []) @ taken cd s ops (hub_do cd op h)"
  by (auto simp: receive_def split: list.splits)

lemma coming_step:
  "\<exists>lost. coming cd x (op # ops) =
     (if op = Takes s then take 1 (sub_events x) else []) @ coming cd (sub_do cd s op x) ops @ lost \<and>
     (lost \<noteq> [] \<longrightarrow> sub_closed (sub_do cd s op x))"
  by (cases op; cases "sub_events x") (auto simp: coming_def sub_hears_def split: option.splits)

lemma coming_run:
  assumes "hub_ok h" "s < length (hub_heap h)"
  shows "\<exists>lost. coming cd (hub_heap h ! s) ops =
      taken cd s ops h @ sub_events (hub_heap (hub_run cd ops h) ! s) @ lost \<and>
    (lost \<noteq> [] \<longrightarrow> sub_closed (hub_heap (hub_run cd ops h) ! s))"
  using assms
proof (induction ops arbitrary: h)
  case Nil
  then show ?case by (simp add: coming_def)
next
  case (Cons op ops)
  note d = hub_do_sub [OF Cons.prems(1), of cd op]
  let ?x = "hub_heap h ! s" and ?h = "hub_do cd op h"
  from d Cons.prems have ok: "hub_ok ?h" "s < length (hub_heap ?h)" "hub_heap ?h ! s = sub_do cd s op ?x" by auto
  obtain lost1 where l1: "coming cd ?x (op # ops) =
      (if op = Takes s then take 1 (sub_events ?x) else []) @ coming cd (hub_heap ?h ! s) ops @ lost1"
    "lost1 \<noteq> [] \<longrightarrow> sub_closed (hub_heap ?h ! s)"
    using coming_step [of cd ?x op ops s] ok(3) by metis
  obtain lost2 where l2: "coming cd (hub_heap ?h ! s) ops =
      taken cd s ops ?h @ sub_events (hub_heap (hub_run cd ops ?h) ! s) @ lost2"
    "lost2 \<noteq> [] \<longrightarrow> sub_closed (hub_heap (hub_run cd ops ?h) ! s)"
    using Cons.IH [OF ok(1,2)] by blast
  have "lost2 @ lost1 \<noteq> [] \<longrightarrow> sub_closed (hub_heap (hub_run cd (op # ops) h) ! s)"
    using l1(2) l2(2) subs_do_closed [of "hub_heap ?h ! s" cd s ops] hub_run_sub [OF ok(1,2), of cd ops] by auto
  moreover have "coming cd ?x (op # ops) =
      taken cd s (op # ops) h @ sub_events (hub_heap (hub_run cd (op # ops) h) ! s) @ lost2 @ lost1"
    unfolding l1(1) l2(1) taken_Cons by simp
  ultimately show ?case by blast
qed

lemma waiting_bounded:
  "length (sub_events x) \<le> events_waiting \<Longrightarrow>
     length (sub_events (foldl (\<lambda>x op. sub_do cd s op x) x ops)) \<le> events_waiting"
proof (induction ops arbitrary: x)
  case (Cons op ops)
  then have "length (sub_events (sub_do cd s op x)) \<le> events_waiting"
    by (cases op) (auto simp: sub_hears_def split: option.splits)
  with Cons.IH show ?case by simp
qed simp

text \<open>What a subscriber is closed for, other than its own leaving: it fell behind, or the store stopped.\<close>

definition fell_behind :: "'d codec \<Rightarrow> nat \<Rightarrow> string list \<Rightarrow> hub_op list \<Rightarrow> hub \<Rightarrow> bool" where
  "fell_behind cd s channels ops h \<longleftrightarrow>
     list_ex (\<lambda>n. length (taken cd s (take n ops) h) + events_waiting < length (handed_on cd channels (take n ops)))
       [0..<Suc (length ops)]"

lemma closed_for:
  assumes "hub_ok h" "s < length (hub_heap h)" "x = hub_heap h ! s" "sub_events x = []" "\<not> sub_closed x"
    and "sub_closed (hub_heap (hub_run cd ops h) ! s)"
  shows "Leaves s \<in> set ops \<or> Stops_listening \<in> set ops \<or> fell_behind cd s (sub_channels x) ops h"
proof -
  let ?at = "\<lambda>ops. foldl (\<lambda>x op. sub_do cd s op x) x ops"
  obtain n where n: "n \<le> length ops" "sub_closed (?at (take n ops))"
    "\<And>m. m < n \<Longrightarrow> \<not> sub_closed (?at (take m ops))"
  proof -
    have "sub_closed (?at (take (length ops) ops))"
      using assms(6) unfolding hub_run_sub [OF assms(1,2)] assms(3) by simp
    from LeastI [where P = "\<lambda>n. sub_closed (?at (take n ops))", OF this]
      Least_le [where P = "\<lambda>n. sub_closed (?at (take n ops))", OF this] that
    show ?thesis using not_less_Least [where P = "\<lambda>n. sub_closed (?at (take n ops))"] by blast
  qed
  have "n \<noteq> 0" using n(2) assms(5) by (cases n) auto
  then obtain m where m: "n = Suc m" by (cases n) auto
  with n(1) have before: "take n ops = take m ops @ [ops ! m]" "ops ! m \<in> set ops"
    by (simp_all add: take_Suc_conv_app_nth)
  let ?y = "?at (take m ops)"
  have y: "\<not> sub_closed ?y" using n(3) m by simp
  have heap: "hub_heap (hub_run cd (take m ops) h) ! s = ?y" using hub_run_sub [OF assms(1,2)] assms(3) by simp
  have same: "sub_channels (?at xs) = sub_channels x" for xs
    by (induction xs rule: rev_induct) simp_all
  have "coming cd x (take m ops) = taken cd s (take m ops) h @ sub_events ?y"
    using coming_run [OF assms(1,2), of cd "take m ops"] y heap assms(3) by auto
  then have all: "handed_on cd (sub_channels x) (take m ops) = taken cd s (take m ops) h @ sub_events ?y"
    using assms(4,5) by (simp add: coming_def)
  have closing: "sub_closed (sub_do cd s (ops ! m) ?y)" using n(2) before by simp
  show ?thesis
  proof (cases "ops ! m")
    case (Delivers bytes)
    then obtain e where e: "event_read cd bytes = Some e" "ev_channel e \<in> set (sub_channels x)"
      "\<not> length (sub_events ?y) < events_waiting"
      using closing y same by (auto simp: sub_hears_def split: option.splits if_splits)
    have "handed_on cd (sub_channels x) (take n ops) = handed_on cd (sub_channels x) (take m ops) @ [e]"
      using e Delivers before by (simp add: handed_on_append)
    moreover have "taken cd s (take n ops) h = taken cd s (take m ops) h"
      using before Delivers by (simp add: taken_append)
    ultimately have "length (taken cd s (take n ops) h) + events_waiting < length (handed_on cd (sub_channels x) (take n ops))"
      using all e(3) by simp
    with n(1) show ?thesis unfolding fell_behind_def list_ex_iff by fastforce
  qed (use closing y before in \<open>auto split: if_splits\<close>)
qed

lemma a_hub_misses_nothing:
  assumes "hub_ok h" "hub_subscribe channels h = (s, h0)" "h1 = hub_run cd ops h0" "x = hub_heap h1 ! s"
  shows "\<exists>lost. handed_on cd channels ops = taken cd s ops h0 @ sub_events x @ lost \<and>
    length (sub_events x) \<le> 16 \<and> (\<not> sub_closed x \<longrightarrow> lost = []) \<and>
    (sub_closed x \<longrightarrow> Leaves s \<in> set ops \<or> Stops_listening \<in> set ops \<or> fell_behind cd s channels ops h0)"
proof -
  have h0: "hub_ok h0" "s < length (hub_heap h0)"
    "hub_heap h0 ! s = \<lparr>sub_channels = channels, sub_events = [], sub_closed = False\<rparr>"
    using hub_do_sub [OF assms(1), of cd "Subscribes channels"] assms(2)
    by (auto simp: hub_subscribe_def Let_def)
  obtain lost where "coming cd (hub_heap h0 ! s) ops = taken cd s ops h0 @ sub_events x @ lost"
    "lost \<noteq> [] \<longrightarrow> sub_closed x"
    using coming_run [OF h0(1,2), of cd ops] assms(3,4) by blast
  moreover have "length (sub_events x) \<le> 16"
    using waiting_bounded [of "hub_heap h0 ! s" cd s ops] hub_run_sub [OF h0(1,2), of cd ops] h0(3) assms(3,4)
    by (simp add: events_waiting_def)
  moreover have "sub_closed x \<longrightarrow>
      Leaves s \<in> set ops \<or> Stops_listening \<in> set ops \<or> fell_behind cd s channels ops h0"
    using closed_for [OF h0(1,2) refl, of cd ops] h0(3) assms(3,4) by auto
  ultimately show ?thesis using h0(3) by (auto simp: coming_def)
qed

text \<open>
  C30. A subscriber misses nothing on its channels without being told: what it took and what waits for it
  are, in order, the first of the events the store handed on since it subscribed, and all of them while it
  is open. At most 16 wait, and it is closed only for its own leaving, for the store's stopping, or for
  an event that came with 16 waiting.
\<close>

theorem a_subscriber_misses_nothing:
  assumes "hub_ok h" "hub_subscribe channels h = (s, h0)" "h1 = hub_run cd ops h0" "x = hub_heap h1 ! s"
  shows "\<exists>lost. handed_on cd channels ops = taken cd s ops h0 @ sub_events x @ lost \<and>
    length (sub_events x) \<le> 16 \<and> (\<not> sub_closed x \<longrightarrow> lost = []) \<and>
    (sub_closed x \<longrightarrow> Leaves s \<in> set ops \<or> Stops_listening \<in> set ops \<or> fell_behind cd s channels ops h0)"
  by (rule a_hub_misses_nothing [OF assms])

text \<open>A codec of events with no data, as their channel and name, for the witnesses.\<close>

definition demo_codec :: "unit codec" where
  "demo_codec =
     \<lparr>cd_data = (\<lambda>u. Some ''null''),
      cd_write = (\<lambda>e. if CHR ''/'' \<notin> set (ev_channel e) \<and> ev_data e = ''null''
        then Some (ev_channel e @ CHR ''/'' # ev_name e) else None),
      cd_read = (\<lambda>b. case cut CHR ''/'' b of (c, n, found) \<Rightarrow>
        if found then Some \<lparr>ev_channel = c, ev_name = n, ev_data = ''null''\<rparr> else None)\<rparr>"

definition demo_ops :: "hub_op list" where
  "demo_ops = [Delivers ''posts/made'', Takes 0, Delivers ''users/made'', Delivers ''posts/gone'']"

lemma new_hub_ok: "hub_ok new_hub"
  by (simp add: hub_ok_def new_hub_def)

lemmas hub_evals = demo_codec_def hub_subscribe_def new_hub_def Let_def hub_deliver_def event_read_def deliver_to_def
  change_sub_def receive_def events_waiting_def hub_drop_def drop_all_def

theorem a_subscriber_misses_nothing_witness:
  "let h0 = snd (hub_subscribe [''posts''] new_hub); x = hub_heap (hub_run demo_codec demo_ops h0) ! 0
   in \<not> sub_closed x \<and> map ev_name (taken demo_codec 0 demo_ops h0) = [''made''] \<and>
     handed_on demo_codec [''posts''] demo_ops = taken demo_codec 0 demo_ops h0 @ sub_events x"
proof -
  have s: "hub_subscribe [''posts''] new_hub = (0, snd (hub_subscribe [''posts''] new_hub))"
    by (simp add: hub_subscribe_def new_hub_def Let_def)
  have "\<not> sub_closed (hub_heap (hub_run demo_codec demo_ops (snd (hub_subscribe [''posts''] new_hub))) ! 0)"
    "map ev_name (taken demo_codec 0 demo_ops (snd (hub_subscribe [''posts''] new_hub))) = [''made'']"
    by (simp_all add: demo_ops_def hub_evals)
  with a_subscriber_misses_nothing [OF new_hub_ok s refl refl, of demo_codec demo_ops] show ?thesis
    unfolding Let_def by fastforce
qed

end
