(* ===== verification/Broadcast_Instances.thy ===== *)
theory Broadcast_Instances
  imports Broadcast Utf8
begin

text \<open>
  The hubs of an app's instances on the store they share (broadcast/broadcast.go with the Memory of
  broadcasttest/broadcasttest.go): what is published on one, every one that listens hands to its
  subscribers.
\<close>

text \<open>\<open>ap_listening\<close>: the instances with a Listen on the store, each at most one, as Run has it.\<close>

record app =
  ap_hubs :: "hub list"
  ap_listening :: "nat list"

definition change_hub :: "nat \<Rightarrow> (hub \<Rightarrow> hub) \<Rightarrow> app \<Rightarrow> app" where
  "change_hub i f w = w\<lparr>ap_hubs := (ap_hubs w)[i := f (ap_hubs w ! i)]\<rparr>"

text \<open>\<open>Memory.Publish\<close>, and \<open>Listen\<close> as it begins and as it ends.\<close>

definition memory_publish :: "'d codec \<Rightarrow> string \<Rightarrow> app \<Rightarrow> app" where
  "memory_publish cd bytes w = foldl (\<lambda>w i. change_hub i (hub_deliver cd bytes) w) w (ap_listening w)"

definition memory_listen :: "nat \<Rightarrow> app \<Rightarrow> app" where
  "memory_listen i w = (if i \<in> set (ap_listening w) then w else w\<lparr>ap_listening := i # ap_listening w\<rparr>)"

definition memory_unlisten :: "nat \<Rightarrow> app \<Rightarrow> app" where
  "memory_unlisten i w = w\<lparr>ap_listening := removeAll i (ap_listening w)\<rparr>"

text \<open>\<open>Hub.publish\<close> with a store.\<close>

definition app_publish :: "'d codec \<Rightarrow> string \<Rightarrow> string \<Rightarrow> 'd \<Rightarrow> app \<Rightarrow> publish_error option \<times> app" where
  "app_publish cd channel name data w =
     (case event_bytes cd channel name data of
        Inl e \<Rightarrow> (Some e, w)
      | Inr bytes \<Rightarrow> (None, memory_publish cd bytes w))"

text \<open>
  What happens on an app: an instance's Listen that ends does so with its context, or as its connection
  drops, where Run closes the instance's subscribers.
\<close>

datatype 'd app_op =
  Publishes string string 'd
| Listens nat
| Listen_ends bool nat
| On_instance nat hub_op

fun app_do :: "'d codec \<Rightarrow> 'd app_op \<Rightarrow> app \<Rightarrow> app" where
  "app_do cd (Publishes channel name data) w = snd (app_publish cd channel name data w)"
| "app_do cd (Listens i) w = memory_listen i w"
| "app_do cd (Listen_ends ctx_done i) w =
     change_hub i (\<lambda>h. snd (listen_ended ctx_done listen_again h)) (memory_unlisten i w)"
| "app_do cd (On_instance i op) w = change_hub i (hub_do cd op) w"

fun app_run :: "'d codec \<Rightarrow> 'd app_op list \<Rightarrow> app \<Rightarrow> app" where
  "app_run cd [] w = w"
| "app_run cd (op # ops) w = app_run cd ops (app_do cd op w)"

text \<open>What reaches one instance's hub of it.\<close>

fun reaches :: "'d codec \<Rightarrow> nat \<Rightarrow> app \<Rightarrow> 'd app_op \<Rightarrow> hub_op list" where
  "reaches cd i w (Publishes channel name data) =
     (if i \<in> set (ap_listening w)
      then (case event_bytes cd channel name data of Inl e \<Rightarrow> [] | Inr bytes \<Rightarrow> [Delivers bytes]) else [])"
| "reaches cd i w (Listens j) = []"
| "reaches cd i w (Listen_ends ctx_done j) = (if j = i \<and> \<not> ctx_done then [Stops_listening] else [])"
| "reaches cd i w (On_instance j op) = (if j = i then [op] else [])"

fun hub_log :: "'d codec \<Rightarrow> nat \<Rightarrow> 'd app_op list \<Rightarrow> app \<Rightarrow> hub_op list" where
  "hub_log cd i [] w = []"
| "hub_log cd i (op # ops) w = reaches cd i w op @ hub_log cd i ops (app_do cd op w)"

lemma change_hub_simps [simp]:
  "length (ap_hubs (change_hub i f w)) = length (ap_hubs w)"
  "ap_listening (change_hub i f w) = ap_listening w"
  "j < length (ap_hubs w) \<Longrightarrow> ap_hubs (change_hub i f w) ! j = (if j = i then f (ap_hubs w ! j) else ap_hubs w ! j)"
  by (auto simp: change_hub_def)

lemma publish_each:
  assumes "distinct xs"
  shows "length (ap_hubs (foldl (\<lambda>w i. change_hub i f w) w xs)) = length (ap_hubs w) \<and>
    ap_listening (foldl (\<lambda>w i. change_hub i f w) w xs) = ap_listening w \<and>
    (j < length (ap_hubs w) \<longrightarrow> ap_hubs (foldl (\<lambda>w i. change_hub i f w) w xs) ! j =
       (if j \<in> set xs then f (ap_hubs w ! j) else ap_hubs w ! j))"
  using assms by (induction xs arbitrary: w) auto

text \<open>An instance sees of the app a run of its own hub.\<close>

lemma app_do_hub:
  assumes "distinct (ap_listening w)" "i < length (ap_hubs w)"
  shows "ap_hubs (app_do cd op w) ! i = hub_run cd (reaches cd i w op) (ap_hubs w ! i) \<and>
    length (ap_hubs (app_do cd op w)) = length (ap_hubs w) \<and> distinct (ap_listening (app_do cd op w))"
proof (cases op)
  case (Publishes channel name data)
  with assms show ?thesis
    using publish_each [OF assms(1), of "hub_deliver cd bytes" for bytes]
    by (cases "event_bytes cd channel name data") (simp_all add: app_publish_def memory_publish_def)
qed (use assms in \<open>auto simp: memory_listen_def memory_unlisten_def listen_ended_def distinct_removeAll\<close>)

lemma app_run_hub:
  assumes "distinct (ap_listening w)" "i < length (ap_hubs w)"
  shows "ap_hubs (app_run cd ops w) ! i = hub_run cd (hub_log cd i ops w) (ap_hubs w ! i)"
  using assms
proof (induction ops arbitrary: w)
  case (Cons op ops)
  with app_do_hub [OF Cons.prems, of cd op] show ?case by (simp add: hub_run_append)
qed simp

text \<open>The events published on channels, on any instance, by what their publishers asked for.\<close>

fun published :: "'d codec \<Rightarrow> string list \<Rightarrow> 'd app_op list \<Rightarrow> event list" where
  "published cd channels [] = []"
| "published cd channels (Publishes channel name data # ops) =
     (case event_bytes cd channel name data of
        Inl e \<Rightarrow> []
      | Inr bytes \<Rightarrow> if channel \<in> set channels
          then [\<lparr>ev_channel = channel, ev_name = name, ev_data = the (cd_data cd data)\<rparr>] else []) @
     published cd channels ops"
| "published cd channels (_ # ops) = published cd channels ops"

text \<open>
  JSON gives back what it was given: text that is valid UTF-8, other text's bytes being replaced, and what \<open>Marshal\<close>
  writes of some data, as it stands.
\<close>

definition reads_back :: "'d codec \<Rightarrow> bool" where
  "reads_back cd \<longleftrightarrow>
     (\<forall>e bytes d. utf8_valid (ev_channel e) \<longrightarrow> utf8_valid (ev_name e) \<longrightarrow> cd_data cd d = Some (ev_data e) \<longrightarrow>
        cd_write cd e = Some bytes \<longrightarrow> cd_read cd bytes = Some e)"

definition plain_publish :: "'d app_op \<Rightarrow> bool" where
  "plain_publish op \<longleftrightarrow> (case op of Publishes channel name data \<Rightarrow> utf8_valid channel \<and> utf8_valid name | _ \<Rightarrow> True)"

lemma event_bytes_read:
  assumes "reads_back cd" "event_bytes cd channel name data = Inr bytes" "utf8_valid channel" "utf8_valid name"
  shows "event_read cd bytes = Some \<lparr>ev_channel = channel, ev_name = name, ev_data = the (cd_data cd data)\<rparr>"
proof -
  obtain raw where raw: "channel \<noteq> []" "cd_data cd data = Some raw"
    "cd_write cd \<lparr>ev_channel = channel, ev_name = name, ev_data = raw\<rparr> = Some bytes"
    using assms(2) by (auto simp: event_bytes_def split: if_splits option.splits)
  then have "cd_read cd bytes = Some \<lparr>ev_channel = channel, ev_name = name, ev_data = raw\<rparr>"
    using assms(1,3,4) unfolding reads_back_def by (metis event.select_convs)
  with raw show ?thesis by (simp add: event_read_def)
qed

lemma handed_on_published:
  assumes "reads_back cd" "i \<in> set (ap_listening w)" "\<forall>c. Listen_ends c i \<notin> set ops"
    and "list_all (\<lambda>op. case op of On_instance j (Delivers bytes) \<Rightarrow> j \<noteq> i | _ \<Rightarrow> True) ops"
    and "distinct (ap_listening w)" and "list_all plain_publish ops"
  shows "handed_on cd channels (hub_log cd i ops w) = published cd channels ops"
  using assms(2-6)
proof (induction ops arbitrary: w)
  case (Cons op ops)
  have l: "ap_listening (app_do cd (Publishes channel name data) w) = ap_listening w" for channel name data
    using publish_each [OF Cons.prems(4), of "hub_deliver cd bytes" for bytes]
    by (simp add: app_publish_def memory_publish_def split: sum.splits)
  have "i \<in> set (ap_listening (app_do cd op w)) \<and> distinct (ap_listening (app_do cd op w))"
    using Cons.prems l by (cases op) (auto simp: memory_listen_def memory_unlisten_def distinct_removeAll)
  with Cons.IH Cons.prems have "handed_on cd channels (hub_log cd i ops (app_do cd op w)) = published cd channels ops"
    by simp
  moreover have "handed_on cd channels (reaches cd i w op) @ published cd channels ops = published cd channels (op # ops)"
  proof (cases op)
    case (Publishes channel name data)
    with Cons.prems(1,5) show ?thesis
      by (cases "event_bytes cd channel name data") (auto simp: event_bytes_read [OF assms(1)] plain_publish_def)
  next
    case (On_instance j hop)
    with Cons.prems(3) show ?thesis by (cases hop) auto
  qed (use Cons.prems in auto)
  ultimately show ?case by (simp add: handed_on_append)
qed simp

text \<open>
  C34. On every instance that listens to the store, an open subscriber has got, in order, exactly the
  events published on its channels since it subscribed, whichever instance they were published on, but
  for those that wait for it; and a closed one the first of them. The channels and names published are valid UTF-8, as JSON
  carries them, and nothing but the store delivers to the instance.
\<close>

theorem an_event_reaches_every_instance:
  assumes "reads_back cd" "distinct (ap_listening w)" "i < length (ap_hubs w)" "hub_ok (ap_hubs w ! i)"
    and "i \<in> set (ap_listening w)"
    and "hub_subscribe channels (ap_hubs w ! i) = (s, h0)" "w0 = app_do cd (On_instance i (Subscribes channels)) w"
    and "\<forall>c. Listen_ends c i \<notin> set ops"
    and "list_all (\<lambda>op. case op of On_instance j (Delivers bytes) \<Rightarrow> j \<noteq> i | _ \<Rightarrow> True) ops"
    and "list_all plain_publish ops"
    and "x = hub_heap (ap_hubs (app_run cd ops w0) ! i) ! s"
  shows "\<exists>lost. published cd channels ops = taken cd s (hub_log cd i ops w0) h0 @ sub_events x @ lost \<and>
    (\<not> sub_closed x \<longrightarrow> lost = [])"
proof -
  have w0: "ap_hubs w0 ! i = h0" "ap_listening w0 = ap_listening w" "length (ap_hubs w0) = length (ap_hubs w)"
    using assms(3,6,7) by simp_all
  have "x = hub_heap (hub_run cd (hub_log cd i ops w0) h0) ! s"
    using app_run_hub [of w0 i cd ops] w0 assms(2,3,11) by simp
  from a_hub_misses_nothing [OF assms(4,6) refl this]
    handed_on_published [of cd i w0 ops channels] assms(1,2,5,8,9,10) w0
  show ?thesis by auto
qed

definition demo_app :: app where
  "demo_app = \<lparr>ap_hubs = [new_hub, new_hub], ap_listening = [1, 0]\<rparr>"

definition demo_app_ops :: "unit app_op list" where
  "demo_app_ops = [Publishes ''posts'' ''made'' (), On_instance 1 (Takes 0), Publishes ''users'' ''made'' ()]"

lemma demo_valid: "utf8_valid ''posts''" "utf8_valid ''users''" "utf8_valid ''made''"
  by code_simp+

lemma demo_reads_back: "reads_back demo_codec"
  by (auto simp: reads_back_def demo_codec_def cut_found split: if_splits)

theorem an_event_reaches_every_instance_witness:
  "let w0 = app_do demo_codec (On_instance 1 (Subscribes [''posts''])) demo_app;
       x = hub_heap (ap_hubs (app_run demo_codec demo_app_ops w0) ! 1) ! 0
   in \<not> sub_closed x \<and> map ev_name (published demo_codec [''posts''] demo_app_ops) = [''made''] \<and>
     published demo_codec [''posts''] demo_app_ops =
       taken demo_codec 0 (hub_log demo_codec 1 demo_app_ops w0) (snd (hub_subscribe [''posts''] new_hub)) @ sub_events x"
proof -
  let ?w0 = "app_do demo_codec (On_instance 1 (Subscribes [''posts''])) demo_app"
  have "\<not> sub_closed (hub_heap (ap_hubs (app_run demo_codec demo_app_ops ?w0) ! 1) ! 0)"
    "map ev_name (published demo_codec [''posts''] demo_app_ops) = [''made'']"
    by (simp_all add: demo_app_ops_def demo_app_def hub_evals app_publish_def memory_publish_def event_bytes_def
        max_event_def change_hub_def)
  moreover have "\<exists>lost. published demo_codec [''posts''] demo_app_ops =
      taken demo_codec 0 (hub_log demo_codec 1 demo_app_ops ?w0) (snd (hub_subscribe [''posts''] new_hub)) @
      sub_events (hub_heap (ap_hubs (app_run demo_codec demo_app_ops ?w0) ! 1) ! 0) @ lost \<and>
    (\<not> sub_closed (hub_heap (ap_hubs (app_run demo_codec demo_app_ops ?w0) ! 1) ! 0) \<longrightarrow> lost = [])"
    by (rule an_event_reaches_every_instance [OF demo_reads_back, where w = demo_app])
      (simp_all add: demo_app_def demo_app_ops_def plain_publish_def demo_valid hub_ok_def hub_subscribe_def new_hub_def Let_def)
  ultimately show ?thesis unfolding Let_def by auto
qed

text \<open>
  A subscriber that comes while the store is not listened to, as Run waits to listen again, gets nothing of
  what is published then, and stays open once Run listens again.
\<close>

lemma a_subscriber_between_listens_misses:
  "let w = app_run demo_codec [Listen_ends False 1, On_instance 1 (Subscribes [''posts'']),
             Publishes ''posts'' ''made'' (), Listens 1] demo_app
   in 1 \<in> set (ap_listening w) \<and>
      hub_heap (ap_hubs w ! 1) = [\<lparr>sub_channels = [''posts''], sub_events = [], sub_closed = False\<rparr>]"
  by (simp add: demo_app_def hub_evals app_publish_def memory_publish_def event_bytes_def max_event_def
      change_hub_def memory_unlisten_def memory_listen_def listen_ended_def)

end
