(* ===== verification/Presence.thy ===== *)
theory Presence
  imports Broadcast "HOL-Library.List_Lexorder" "HOL-Library.Char_ord"
begin

text \<open>
  Who is on a channel (broadcast/presence.go): a PresenceStore's methods as an interface, what a hub does
  with them as pages open and close, one step of a goroutine at a time, and the presence a hub keeps in memory
  (\<open>localPresence\<close>), which is an instance of it. The instants a method reads the clock at are its argument.
\<close>

declare map_of_eq_Some_iff [simp del] Some_eq_map_of_iff [simp del]

record 'd member =
  mb_id :: string
  mb_data :: 'd

section \<open>What a hub needs of a store\<close>

text \<open>The PresenceStore interface. A store gives the members back with their data as JSON.\<close>

record ('d, 'p) presence_ops =
  po_enter :: "string \<Rightarrow> 'd member \<Rightarrow> string \<Rightarrow> instant \<Rightarrow> instant \<Rightarrow> 'p \<Rightarrow> (string + bool) \<times> 'p"
  po_keep :: "string list \<Rightarrow> instant \<Rightarrow> 'p \<Rightarrow> string option \<times> 'p"
  po_leave :: "string \<Rightarrow> string \<Rightarrow> instant \<Rightarrow> 'p \<Rightarrow> (string + bool) \<times> 'p"
  po_here :: "string \<Rightarrow> instant \<Rightarrow> 'p \<Rightarrow> string + string member list"

section \<open>The hub\<close>

text \<open>
  Where a call of \<open>Enter\<close> has got to, once the store has the page: \<open>Registers\<close> and \<open>Follows\<close>, which are to put its key in
  \<open>h.here\<close> and to subscribe, know whether its member arrived; \<open>Tells_joined\<close> and \<open>Watches\<close>, which are to publish that it did
  and to have \<open>h.leave\<close> called as the page's context is done, have its subscription. Where a call of \<open>leave\<close> has got to; and
  a tick of \<open>keepHere\<close>, with the keys it found.
\<close>

datatype enter_at = Registers bool | Follows bool | Tells_joined nat | Watches nat
datatype leave_at = Unregisters | Leaves_store | Tells_left

datatype 'd page_task =
  Entering enter_at string string "'d member"
| Leaving leave_at string string "'d member"
| Keeping "string list"

text \<open>
  \<open>ph_here\<close> is \<open>h.here\<close>, \<open>ph_after\<close> what the contexts of pages, once done, have called: \<open>h.leave\<close> with the key, the channel
  and the member of its closure; and \<open>ph_tasks\<close> the goroutines between two steps of a call, in no order. Each step is one that no
  other comes between: what a lock is held for, or a call of the store.
\<close>

record ('d, 'p) page_hub =
  ph_hub :: hub
  ph_here :: "(string, string) gomap"
  ph_store :: 'p
  ph_after :: "(string \<times> string \<times> 'd member) list"
  ph_tasks :: "'d page_task list"

definition default_lease :: duration where "default_lease = minute"

definition hub_lease :: "duration \<Rightarrow> duration" where
  "hub_lease given = (if 0 < given then given else default_lease)"

datatype enter_error = Enter_no_channel | Not_kept string

text \<open>\<open>Hub.Enter\<close> to where the store has the page, with the key it draws; and its steps from there.\<close>

definition enter_store ::
  "('d, 'p) presence_ops \<Rightarrow> duration \<Rightarrow> 'd member \<Rightarrow> string \<Rightarrow> string \<Rightarrow> instant \<Rightarrow> ('d, 'p) page_hub \<Rightarrow>
   (enter_error + enter_at) \<times> ('d, 'p) page_hub" where
  "enter_store po lease m channel key now s =
     (if channel = [] then (Inl Enter_no_channel, s)
      else case po_enter po channel m key (now + hub_lease lease) now (ph_store s) of
        (Inl e, p) \<Rightarrow> (Inl (Not_kept e), s\<lparr>ph_store := p\<rparr>)
      | (Inr arrived, p) \<Rightarrow> (Inr (Registers arrived), s\<lparr>ph_store := p\<rparr>))"

text \<open>A Publish that fails is logged, and nothing more comes of it.\<close>

fun enter_step ::
  "'d member codec \<Rightarrow> enter_at \<Rightarrow> string \<Rightarrow> string \<Rightarrow> 'd member \<Rightarrow> ('d, 'p) page_hub \<Rightarrow> enter_at option \<times> ('d, 'p) page_hub" where
  "enter_step cd (Registers arrived) key channel m s = (Some (Follows arrived), s\<lparr>ph_here := put key channel (ph_here s)\<rparr>)"
| "enter_step cd (Follows arrived) key channel m s =
     (let (events, h) = hub_subscribe [channel] (ph_hub s)
      in (Some (if arrived then Tells_joined events else Watches events), s\<lparr>ph_hub := h\<rparr>))"
| "enter_step cd (Tells_joined events) key channel m s =
     (Some (Watches events), s\<lparr>ph_hub := snd (publish_here cd channel ''presence.joined'' m (ph_hub s))\<rparr>)"
| "enter_step cd (Watches events) key channel m s = (None, s\<lparr>ph_after := ph_after s @ [(key, channel, m)]\<rparr>)"

text \<open>A page's context is done: what \<open>AfterFunc\<close> has for it is called, once. The steps of \<open>Hub.leave\<close>.\<close>

definition page_gone :: "string \<Rightarrow> ('d, 'p) page_hub \<Rightarrow> ('d, 'p) page_hub" where
  "page_gone key s =
     (case List.find (\<lambda>e. fst e = key) (ph_after s) of
        None \<Rightarrow> s
      | Some (k, channel, m) \<Rightarrow>
          s\<lparr>ph_after := filter (\<lambda>e. fst e \<noteq> key) (ph_after s), ph_tasks := ph_tasks s @ [Leaving Unregisters k channel m]\<rparr>)"

fun leave_step ::
  "('d, 'p) presence_ops \<Rightarrow> 'd member codec \<Rightarrow> instant \<Rightarrow> leave_at \<Rightarrow> string \<Rightarrow> string \<Rightarrow> 'd member \<Rightarrow> ('d, 'p) page_hub \<Rightarrow>
   leave_at option \<times> ('d, 'p) page_hub" where
  "leave_step po cd now Unregisters key channel m s = (Some Leaves_store, s\<lparr>ph_here := del key (ph_here s)\<rparr>)"
| "leave_step po cd now Leaves_store key channel m s =
     (case po_leave po channel key now (ph_store s) of
        (Inl e, p) \<Rightarrow> (None, s\<lparr>ph_store := p\<rparr>)
      | (Inr gone, p) \<Rightarrow> (if gone then Some Tells_left else None, s\<lparr>ph_store := p\<rparr>))"
| "leave_step po cd now Tells_left key channel m s =
     (None, s\<lparr>ph_hub := snd (publish_here cd channel ''presence.left'' m (ph_hub s))\<rparr>)"

text \<open>One turn of \<open>keepHere\<close>'s loop, on a tick: the keys are found, and then kept.\<close>

definition keep_start :: "('d, 'p) page_hub \<Rightarrow> ('d, 'p) page_hub" where
  "keep_start s =
     (let keys = map fst (ph_here s) in if keys = [] then s else s\<lparr>ph_tasks := ph_tasks s @ [Keeping keys]\<rparr>)"

definition keep_step :: "('d, 'p) presence_ops \<Rightarrow> duration \<Rightarrow> instant \<Rightarrow> string list \<Rightarrow> ('d, 'p) page_hub \<Rightarrow> ('d, 'p) page_hub" where
  "keep_step po lease now keys s = s\<lparr>ph_store := snd (po_keep po keys (now + hub_lease lease) (ph_store s))\<rparr>"

definition hub_here :: "('d, 'p) presence_ops \<Rightarrow> string \<Rightarrow> instant \<Rightarrow> ('d, 'p) page_hub \<Rightarrow> string + string member list" where
  "hub_here po channel now s = po_here po channel now (ph_store s)"

fun task_do ::
  "('d, 'p) presence_ops \<Rightarrow> 'd member codec \<Rightarrow> duration \<Rightarrow> instant \<Rightarrow> 'd page_task \<Rightarrow> ('d, 'p) page_hub \<Rightarrow>
   'd page_task option \<times> ('d, 'p) page_hub" where
  "task_do po cd lease now (Entering at key c m) s = map_prod (map_option (\<lambda>at. Entering at key c m)) id (enter_step cd at key c m s)"
| "task_do po cd lease now (Leaving at key c m) s =
     map_prod (map_option (\<lambda>at. Leaving at key c m)) id (leave_step po cd now at key c m s)"
| "task_do po cd lease now (Keeping keys) s = (None, keep_step po lease now keys s)"

section \<open>Pages that show who is here\<close>

text \<open>
  What a page has loaded of who is on a channel, by its subscription and the channel, and whether it is to load it again, as it
  is at first and once it took an event.
\<close>

record shown =
  sh_due :: bool
  sh_ids :: "string list"

type_synonym ('d, 'p) site = "('d, 'p) page_hub \<times> (nat \<Rightarrow> string \<Rightarrow> shown)"

text \<open>
  What happens, in any order: a page enters a channel, under a key it draws, or its context is done; a tick; a goroutine goes on
  with its next step; what else happens to a hub, as another's events, and subscriptions that begin and end; and a page loads
  who is on a channel.
\<close>

datatype 'd page_op =
  Enters string string "'d member"
| Page_gone string
| Ticks
| Goes_on nat
| Hub_does hub_op
| Loads nat string

definition took :: "nat \<Rightarrow> (nat \<Rightarrow> string \<Rightarrow> shown) \<Rightarrow> nat \<Rightarrow> string \<Rightarrow> shown" where
  "took i w = w(i := (\<lambda>c. (w i c)\<lparr>sh_due := True\<rparr>))"

fun page_do ::
  "('d, 'p) presence_ops \<Rightarrow> 'd member codec \<Rightarrow> duration \<Rightarrow> instant \<Rightarrow> 'd page_op \<Rightarrow> ('d, 'p) site \<Rightarrow> ('d, 'p) site" where
  "page_do po cd lease now (Enters key c m) (s, w) =
     (case enter_store po lease m c key now s of
        (Inl e, s1) \<Rightarrow> (s1, w)
      | (Inr at, s1) \<Rightarrow> (s1\<lparr>ph_tasks := ph_tasks s1 @ [Entering at key c m]\<rparr>, w))"
| "page_do po cd lease now (Page_gone key) (s, w) = (page_gone key s, w)"
| "page_do po cd lease now Ticks (s, w) = (keep_start s, w)"
| "page_do po cd lease now (Goes_on i) (s, w) =
     (if length (ph_tasks s) \<le> i then (s, w)
      else case task_do po cd lease now (ph_tasks s ! i) s of
        (t, s1) \<Rightarrow>
          (s1\<lparr>ph_tasks := take i (ph_tasks s1) @ (case t of None \<Rightarrow> [] | Some t \<Rightarrow> [t]) @ drop (Suc i) (ph_tasks s1)\<rparr>, w))"
| "page_do po cd lease now (Hub_does op) (s, w) =
     (s\<lparr>ph_hub := hub_do cd op (ph_hub s)\<rparr>,
      case op of Takes i \<Rightarrow> if sub_events (hub_heap (ph_hub s) ! i) = [] then w else took i w | _ \<Rightarrow> w)"
| "page_do po cd lease now (Loads i c) (s, w) =
     (s, if length (hub_heap (ph_hub s)) \<le> i then w
         else case hub_here po c now s of
           Inl e \<Rightarrow> w
         | Inr ms \<Rightarrow> w(i := (w i)(c := \<lparr>sh_due = False, sh_ids = map mb_id ms\<rparr>)))"

fun page_run ::
  "('d, 'p) presence_ops \<Rightarrow> 'd member codec \<Rightarrow> duration \<Rightarrow> (instant \<times> 'd page_op) list \<Rightarrow> ('d, 'p) site \<Rightarrow> ('d, 'p) site" where
  "page_run po cd lease [] x = x"
| "page_run po cd lease ((now, op) # ops) x = page_run po cd lease ops (page_do po cd lease now op x)"

section \<open>The presence a hub keeps in memory\<close>

record local_member =
  lm_member :: "string member"
  lm_until :: instant

type_synonym presence = "(string, (string, local_member) gomap) gomap"

definition on_channel :: "presence \<Rightarrow> string \<Rightarrow> (string, local_member) gomap" where
  "on_channel p channel = (case lookup p channel of None \<Rightarrow> [] | Some ms \<Rightarrow> ms)"

definition local_enter ::
  "('d \<Rightarrow> string + string) \<Rightarrow> string \<Rightarrow> 'd member \<Rightarrow> string \<Rightarrow> instant \<Rightarrow> instant \<Rightarrow> presence \<Rightarrow> (string + bool) \<times> presence" where
  "local_enter marshal channel m key until now p =
     (case marshal (mb_data m) of
        Inl e \<Rightarrow> (Inl e, p)
      | Inr data \<Rightarrow>
          let ms = on_channel p channel;
              arrived = \<not> list_ex (\<lambda>(k, l). mb_id (lm_member l) = mb_id m \<and> k \<noteq> key \<and> now < lm_until l) ms
          in (Inr arrived, put channel (put key \<lparr>lm_member = \<lparr>mb_id = mb_id m, mb_data = data\<rparr>, lm_until = until\<rparr> ms) p))"

definition local_keep :: "string list \<Rightarrow> instant \<Rightarrow> presence \<Rightarrow> string option \<times> presence" where
  "local_keep keys until p =
     (None, map (\<lambda>(c, ms). (c, map (\<lambda>(k, l). (k, if k \<in> set keys then l\<lparr>lm_until := until\<rparr> else l)) ms)) p)"

definition local_leave :: "string \<Rightarrow> string \<Rightarrow> instant \<Rightarrow> presence \<Rightarrow> (string + bool) \<times> presence" where
  "local_leave channel key now p =
     (case lookup (on_channel p channel) key of
        None \<Rightarrow> (Inr False, p)
      | Some gone \<Rightarrow>
          let ms = del key (on_channel p channel)
          in (Inr (\<not> list_ex (\<lambda>(k, l). mb_id (lm_member l) = mb_id (lm_member gone) \<and> now < lm_until l) ms),
              put channel ms p))"

text \<open>\<open>Here\<close>'s loop, with the members it has seen; and its sorting, by their IDs.\<close>

fun here_loop :: "instant \<Rightarrow> string list \<Rightarrow> local_member list \<Rightarrow> string member list" where
  "here_loop now seen [] = []"
| "here_loop now seen (l # ls) =
     (if lm_until l < now \<or> mb_id (lm_member l) \<in> set seen then here_loop now seen ls
      else lm_member l # here_loop now (mb_id (lm_member l) # seen) ls)"

definition local_here :: "string \<Rightarrow> instant \<Rightarrow> presence \<Rightarrow> string + string member list" where
  "local_here channel now p = Inr (sort_key mb_id (here_loop now [] (map snd (on_channel p channel))))"

definition local_presence :: "('d \<Rightarrow> string + string) \<Rightarrow> ('d, presence) presence_ops" where
  "local_presence marshal =
     \<lparr>po_enter = local_enter marshal, po_keep = local_keep, po_leave = local_leave, po_here = local_here\<rparr>"

definition new_site :: "('d, presence) site" where
  "new_site =
     (\<lparr>ph_hub = new_hub, ph_here = [], ph_store = [], ph_after = [], ph_tasks = []\<rparr>, \<lambda>i c. \<lparr>sh_due = True, sh_ids = []\<rparr>)"

section \<open>What is on its way, and who has a page open\<close>

text \<open>Whether a goroutine has yet to tell a channel of an arrival or a departure; and the page it has in the store.\<close>

fun tells_of :: "string \<Rightarrow> 'd page_task \<Rightarrow> bool" where
  "tells_of c (Entering (Registers arrived) key c' m) \<longleftrightarrow> arrived \<and> c' = c"
| "tells_of c (Entering (Follows arrived) key c' m) \<longleftrightarrow> arrived \<and> c' = c"
| "tells_of c (Entering (Tells_joined events) key c' m) \<longleftrightarrow> c' = c"
| "tells_of c (Leaving Tells_left key c' m) \<longleftrightarrow> c' = c"
| "tells_of c t \<longleftrightarrow> False"

fun task_page :: "'d page_task \<Rightarrow> (string \<times> string \<times> 'd member) list" where
  "task_page (Entering at key c m) = [(key, c, m)]"
| "task_page (Leaving at key c m) = (if at = Tells_left then [] else [(key, c, m)])"
| "task_page (Keeping keys) = []"

definition open_pages :: "('d, 'p) page_hub \<Rightarrow> (string \<times> string \<times> 'd member) list" where
  "open_pages s = concat (map task_page (ph_tasks s)) @ ph_after s"

text \<open>The keys drawn; and a member whose news can be told, as JSON that is read back, on its channel, and is not too long.\<close>

fun drawn :: "(instant \<times> 'd page_op) list \<Rightarrow> string list" where
  "drawn [] = []"
| "drawn ((now, Enters key c m) # ops) = key # drawn ops"
| "drawn (_ # ops) = drawn ops"

definition told :: "'d member codec \<Rightarrow> string \<Rightarrow> string \<Rightarrow> 'd member \<Rightarrow> bool" where
  "told cd n c m \<longleftrightarrow>
     (case event_bytes cd c n m of
        Inl e \<Rightarrow> False
      | Inr bytes \<Rightarrow> (case event_read cd bytes of None \<Rightarrow> False | Some e \<Rightarrow> ev_channel e = c))"

fun can_tell :: "'d member codec \<Rightarrow> 'd page_op \<Rightarrow> bool" where
  "can_tell cd (Enters key c m) \<longleftrightarrow> c = [] \<or> told cd ''presence.joined'' c m \<and> told cd ''presence.left'' c m"
| "can_tell cd _ \<longleftrightarrow> True"

text \<open>No lease in the store ends before the step that is next.\<close>

fun leases_last ::
  "('p \<Rightarrow> instant \<Rightarrow> bool) \<Rightarrow> ('d, 'p) presence_ops \<Rightarrow> 'd member codec \<Rightarrow> duration \<Rightarrow> (instant \<times> 'd page_op) list \<Rightarrow>
   ('d, 'p) site \<Rightarrow> bool" where
  "leases_last alive po cd lease [] x \<longleftrightarrow> True"
| "leases_last alive po cd lease ((now, op) # ops) x \<longleftrightarrow>
     alive (ph_store (fst x)) now \<and> leases_last alive po cd lease ops (page_do po cd lease now op x)"

lemma publish_sub:
  assumes "hub_ok h" "told cd n c m"
  shows "\<exists>bytes e. snd (publish_here cd c n m h) = hub_do cd (Delivers bytes) h \<and> event_read cd bytes = Some e \<and> ev_channel e = c"
  using assms(2) by (auto simp: told_def publish_here_def split: sum.splits option.splits)

text \<open>A page that loaded who is on a channel, with no event to take and none to load it for.\<close>

definition settled :: "('d, 'p) site \<Rightarrow> nat \<Rightarrow> string \<Rightarrow> bool" where
  "settled x i c \<longleftrightarrow>
     (case x of (s, w) \<Rightarrow>
        i < length (hub_heap (ph_hub s)) \<and> \<not> sh_due (w i c) \<and>
        (let b = hub_heap (ph_hub s) ! i in c \<in> set (sub_channels b) \<and> \<not> sub_closed b \<and> sub_events b = []))"

definition nothing_told :: "string \<Rightarrow> ('d, 'p) page_hub \<Rightarrow> bool" where
  "nothing_told c s \<longleftrightarrow> \<not> list_ex (tells_of c) (ph_tasks s)"

definition hub_in_order :: "('d, 'p) site \<Rightarrow> bool" where
  "hub_in_order x \<longleftrightarrow>
     (case x of (s, w) \<Rightarrow> hub_ok (ph_hub s) \<and> (\<forall>i c. length (hub_heap (ph_hub s)) \<le> i \<longrightarrow> sh_due (w i c)))"

text \<open>What happens to a hub settles no page; and an event on a channel leaves none settled on it.\<close>

lemma hub_do_settles:
  assumes "hub_in_order (s, w)"
    and "w' = (case op of Takes i \<Rightarrow> if sub_events (hub_heap (ph_hub s) ! i) = [] then w else took i w | _ \<Rightarrow> w)"
    and "ph_hub s' = hub_do cd op (ph_hub s)"
  shows "hub_in_order (s', w') \<and> (\<forall>i c. settled (s', w') i c \<longrightarrow> settled (s, w) i c \<and> w' i c = w i c) \<and>
    (case op of Delivers bytes \<Rightarrow> (\<forall>i. case event_read cd bytes of None \<Rightarrow> True | Some e \<Rightarrow> \<not> settled (s', w') i (ev_channel e))
     | _ \<Rightarrow> True)"
proof -
  let ?h = "ph_hub s"
  have ok: "hub_ok ?h" and due: "\<And>i c. length (hub_heap ?h) \<le> i \<Longrightarrow> sh_due (w i c)"
    using assms(1) by (auto simp: hub_in_order_def)
  note d = hub_do_sub [OF ok, of cd op]
  have due': "sh_due (w i c) \<Longrightarrow> sh_due (w' i c)" for i c
    by (cases op) (auto simp: assms(2) took_def)
  have old: "i < length (hub_heap ?h) \<and> \<not> sh_due (w i c)" if "settled (s', w') i c" for i c
    using that due due' by (auto simp: settled_def not_le [symmetric])
  have same: "settled (s, w) i c \<and> w' i c = w i c" if st: "settled (s', w') i c" for i c
  proof -
    have b: "hub_heap (hub_do cd op ?h) ! i = sub_do cd i op (hub_heap ?h ! i)" using d old [OF st] by blast
    have open_still: "\<not> sub_closed (hub_heap ?h ! i)"
      using st b assms(3) sub_do_closed by (auto simp: settled_def Let_def)
    have none: "sub_events (hub_heap ?h ! i) = []"
    proof (cases op)
      case (Delivers bytes)
      with st b assms(3) show ?thesis
        by (auto simp: settled_def Let_def sub_hears_def split: option.splits if_splits)
    next
      case (Takes i')
      show ?thesis
      proof (rule ccontr)
        assume "sub_events (hub_heap ?h ! i) \<noteq> []"
        with Takes st b assms(2,3) show False by (auto simp: settled_def Let_def took_def split: if_splits)
      qed
    qed (use st b assms(3) in \<open>auto simp: settled_def Let_def split: if_splits\<close>)
    have "w' i c = w i c" using none st by (cases op) (auto simp: assms(2) took_def settled_def)
    with old [OF st] open_still none st b assms(3) show ?thesis by (auto simp: settled_def Let_def)
  qed
  have "\<not> settled (s', w') i (ev_channel e)" if op: "op = Delivers bytes" "event_read cd bytes = Some e" for bytes e i
  proof
    assume st: "settled (s', w') i (ev_channel e)"
    have b: "hub_heap (hub_do cd op ?h) ! i = sub_do cd i op (hub_heap ?h ! i)" using d old [OF st] by blast
    with st op assms(3) show False by (auto simp: settled_def Let_def sub_hears_def split: if_splits)
  qed
  moreover have "sh_due (w' i c)" if "length (hub_heap (ph_hub s')) \<le> i" for i c
    using that d due due' assms(3) by (metis le_trans)
  then have "hub_in_order (s', w')" using d assms(3) by (auto simp: hub_in_order_def)
  ultimately show ?thesis using same by (auto split: hub_op.splits option.splits)
qed

text \<open>The promises of a PresenceStore that does not fail as pages leave and are kept.\<close>

locale presence_store =
  fixes po :: "('d, 'p) presence_ops"
    and ok :: "'p \<Rightarrow> bool"
    and view :: "'p \<Rightarrow> string \<Rightarrow> string \<Rightarrow> (string \<times> instant) option"
  assumes enter: "ok p \<Longrightarrow> po_enter po c m key until now p = (Inr arrived, p') \<Longrightarrow>
      ok p' \<and> (\<forall>c' k. view p' c' k = (if c' = c \<and> k = key then Some (mb_id m, until) else view p c' k)) \<and>
      (arrived \<longleftrightarrow> \<not> (\<exists>k u. k \<noteq> key \<and> view p c k = Some (mb_id m, u) \<and> now < u))"
    and enter_fails: "ok p \<Longrightarrow> po_enter po c m key until now p = (Inl e, p') \<Longrightarrow> ok p' \<and> view p' = view p"
    and keep: "ok p \<Longrightarrow> ok (snd (po_keep po keys until p)) \<and>
      view (snd (po_keep po keys until p)) c k =
        (case view p c k of None \<Rightarrow> None | Some (i, u) \<Rightarrow> Some (i, if k \<in> set keys then until else u))"
    and leave: "ok p \<Longrightarrow> \<exists>gone p'. po_leave po c key now p = (Inr gone, p') \<and> ok p' \<and>
      (\<forall>c' k. view p' c' k = (if c' = c \<and> k = key then None else view p c' k)) \<and>
      (gone \<longleftrightarrow> (\<exists>i u. view p c key = Some (i, u) \<and>
         \<not> (\<exists>k u'. k \<noteq> key \<and> view p c k = Some (i, u') \<and> now < u')))"
    and here: "ok p \<Longrightarrow> \<exists>ms. po_here po c now p = Inr ms \<and> sorted (map mb_id ms) \<and> distinct (map mb_id ms) \<and>
      (\<forall>k i u. view p c k = Some (i, u) \<longrightarrow> now < u \<longrightarrow> i \<in> mb_id ` set ms) \<and>
      (\<forall>i \<in> mb_id ` set ms. \<exists>k u. view p c k = Some (i, u) \<and> now \<le> u)"
begin

definition members :: "'p \<Rightarrow> string \<Rightarrow> string set" where
  "members p c = {i. \<exists>k u. view p c k = Some (i, u)}"

lemma members_enters:
  assumes "\<forall>c' k. view p' c' k = (if c' = channel \<and> k = key then Some (i, until) else view p c' k)"
    and "view p channel key = None"
  shows "members p' c = (if c = channel then insert i (members p c) else members p c)"
proof (cases "c = channel")
  case True
  have v: "view p' channel k = (if k = key then Some (i, until) else view p channel k)" for k using assms(1) by simp
  have "view p' channel k = Some (x, u)" if "view p channel k = Some (x, u)" for k x u
    using that assms(2) by (cases "k = key") (auto simp: v)
  then have "insert i (members p channel) \<subseteq> members p' channel" using v [of key] unfolding members_def by fastforce
  moreover have "members p' channel \<subseteq> insert i (members p channel)" unfolding members_def v by (auto split: if_splits)
  ultimately show ?thesis using True by auto
qed (use assms(1) in \<open>simp add: members_def\<close>)

lemma members_leaves:
  assumes "\<forall>c' k. view p' c' k = (if c' = channel \<and> k = key then None else view p c' k)"
    and "view p channel key = Some (i, u0)"
  shows "members p' c =
    (if c = channel \<and> \<not> (\<exists>k u. k \<noteq> key \<and> view p c k = Some (i, u)) then members p c - {i} else members p c)"
proof (cases "c = channel")
  case True
  define others where "others = {x. \<exists>k u. k \<noteq> key \<and> view p c k = Some (x, u)}"
  have "members p c = insert i others"
  proof -
    have "x = i \<or> x \<in> others" if "view p c k = Some (x, u)" for k x u
      using that assms(2) True by (cases "k = key") (auto simp: others_def)
    then show ?thesis using assms(2) True by (auto simp: members_def others_def)
  qed
  moreover have "members p' c = others" using assms(1) True by (auto simp: members_def others_def)
  ultimately show ?thesis using True by (auto simp: others_def)
qed (use assms(1) in \<open>simp add: members_def\<close>)

text \<open>No lease in the store has ended.\<close>

definition living :: "instant \<Rightarrow> 'p \<Rightarrow> bool" where
  "living now p \<longleftrightarrow> (\<forall>c k i u. view p c k = Some (i, u) \<longrightarrow> now < u)"

text \<open>The store has each open page, as its closure has it.\<close>

definition pages_kept :: "('d, 'p) page_hub \<Rightarrow> bool" where
  "pages_kept s \<longleftrightarrow> ok (ph_store s) \<and> distinct (map fst (open_pages s)) \<and>
     (\<forall>c k i. (\<exists>u. view (ph_store s) c k = Some (i, u)) \<longleftrightarrow> (\<exists>m. (k, c, m) \<in> set (open_pages s) \<and> mb_id m = i))"

lemma pages_keptD:
  assumes "pages_kept s"
  shows "ok (ph_store s)" "distinct (map fst (open_pages s))"
    "(\<exists>u. view (ph_store s) c k = Some (i, u)) \<longleftrightarrow> (\<exists>m. (k, c, m) \<in> set (open_pages s) \<and> mb_id m = i)"
  using assms unfolding pages_kept_def by blast+

lemma pages_kept_same:
  assumes "pages_kept s" "ok (ph_store s')" "distinct (map fst (open_pages s'))" "set (open_pages s') = set (open_pages s)"
    and "\<And>c k i. (\<exists>u. view (ph_store s') c k = Some (i, u)) \<longleftrightarrow> (\<exists>u. view (ph_store s) c k = Some (i, u))"
  shows "pages_kept s'" and "members (ph_store s') c = members (ph_store s) c"
proof -
  show "pages_kept s'" unfolding pages_kept_def assms(4,5) using assms(2,3) pages_keptD(3) [OF assms(1)] by blast
  show "members (ph_store s') c = members (ph_store s) c" unfolding members_def by (auto simp: assms(5))
qed

lemma members_open: "pages_kept s \<Longrightarrow> members (ph_store s) c = {mb_id m | k m. (k, c, m) \<in> set (open_pages s)}"
  unfolding members_def using pages_keptD(3) [of s c] by auto

text \<open>
  The invariant: the store has the open pages, each with news that can be told; and a settled page shows a channel's members,
  where no one has yet to tell the channel.
\<close>

definition tellable :: "'d member codec \<Rightarrow> ('d, 'p) page_hub \<Rightarrow> bool" where
  "tellable cd s \<longleftrightarrow>
     list_all (\<lambda>t. case t of
         Entering at k c m \<Rightarrow> told cd ''presence.joined'' c m \<and> told cd ''presence.left'' c m
       | Leaving at k c m \<Rightarrow> told cd ''presence.left'' c m
       | Keeping keys \<Rightarrow> True) (ph_tasks s) \<and>
     list_all (\<lambda>(k, c, m). told cd ''presence.left'' c m) (ph_after s)"

definition shows_members :: "('d, 'p) site \<Rightarrow> bool" where
  "shows_members x \<longleftrightarrow>
     (\<forall>i c. settled x i c \<longrightarrow> nothing_told c (fst x) \<longrightarrow> set (sh_ids (snd x i c)) = members (ph_store (fst x)) c)"

definition site_ok :: "'d member codec \<Rightarrow> ('d, 'p) site \<Rightarrow> bool" where
  "site_ok cd x \<longleftrightarrow> pages_kept (fst x) \<and> tellable cd (fst x) \<and> hub_in_order x \<and> shows_members x"

text \<open>A step that leaves the hub alone, where the members of a channel change only as someone has yet to tell of it.\<close>

lemma quiet_step:
  assumes "site_ok cd (s, w)" "pages_kept s'" "tellable cd s'" "ph_hub s' = ph_hub s"
    and "\<And>c. nothing_told c s' \<Longrightarrow> nothing_told c s \<and> members (ph_store s') c = members (ph_store s) c"
  shows "site_ok cd (s', w)"
proof -
  have "settled (s', w) i c = settled (s, w) i c" for i c by (simp add: settled_def assms(4))
  moreover have "hub_in_order (s', w) = hub_in_order (s, w)" by (simp add: hub_in_order_def assms(4))
  ultimately show ?thesis using assms(1-3,5) by (auto simp: site_ok_def shows_members_def)
qed

text \<open>A step of the hub alone, where an event is told of each channel it was to be told of.\<close>

lemma hub_step:
  assumes "site_ok cd (s, w)" "pages_kept s'" "tellable cd s'" "ph_hub s' = hub_do cd op (ph_hub s)" "ph_store s' = ph_store s"
    and "w' = (case op of Takes i \<Rightarrow> if sub_events (hub_heap (ph_hub s) ! i) = [] then w else took i w | _ \<Rightarrow> w)"
    and "\<And>c. nothing_told c s' \<Longrightarrow> nothing_told c s \<or>
      (\<exists>bytes e. op = Delivers bytes \<and> event_read cd bytes = Some e \<and> ev_channel e = c)"
  shows "site_ok cd (s', w')"
proof -
  have "hub_in_order (s, w)" using assms(1) by (simp add: site_ok_def)
  note h = hub_do_settles [OF this assms(6,4)]
  have "set (sh_ids (w' i c)) = members (ph_store s') c" if st: "settled (s', w') i c" and n: "nothing_told c s'" for i c
  proof -
    have "nothing_told c s" using assms(7) [OF n] h st by (auto split: hub_op.splits option.splits)
    moreover have "settled (s, w) i c" "w' i c = w i c" using h st by blast+
    ultimately show ?thesis using assms(1,5) by (simp add: site_ok_def shows_members_def)
  qed
  with h assms(2,3) show ?thesis by (simp add: site_ok_def shows_members_def)
qed

lemma enters:
  assumes "site_ok cd (s, w)" "key \<notin> fst ` set (open_pages s)" "can_tell cd (Enters key c m)"
    and alive: "living now (ph_store s)"
  shows "site_ok cd (page_do po cd lease now (Enters key c m) (s, w))"
    and "enter_store po lease m c key now s = (Inr at, s') \<Longrightarrow>
      at = Registers (mb_id m \<notin> members (ph_store s) c)"
proof -
  have kept: "pages_kept s" and tell: "tellable cd s" using assms(1) by (simp_all add: site_ok_def)
  have new: "view (ph_store s) c' key = None" for c'
  proof (cases "view (ph_store s) c' key")
    case (Some iu)
    then have "\<exists>u. view (ph_store s) c' key = Some (fst iu, u)" by (cases iu) auto
    then show ?thesis using pages_keptD(3) [OF kept, of c' key "fst iu"] assms(2) by force
  qed simp
  have entered: "ok p \<and> (\<forall>c' k. view p c' k = (if c' = c \<and> k = key then Some (mb_id m, now + hub_lease lease) else view (ph_store s) c' k)) \<and>
      (arrived \<longleftrightarrow> mb_id m \<notin> members (ph_store s) c)"
    if "po_enter po c m key (now + hub_lease lease) now (ph_store s) = (Inr arrived, p)" for arrived p
    proof -
    have e: "ok p" "\<forall>c' k. view p c' k = (if c' = c \<and> k = key then Some (mb_id m, now + hub_lease lease) else view (ph_store s) c' k)"
      "arrived \<longleftrightarrow> \<not> (\<exists>k u. k \<noteq> key \<and> view (ph_store s) c k = Some (mb_id m, u) \<and> now < u)"
      using enter [OF pages_keptD(1) [OF kept] that] by blast+
    have "k \<noteq> key \<and> now < u" if "view (ph_store s) c k = Some (mb_id m, u)" for k u
      using alive new [of c] that by (cases "k = key") (auto simp: living_def)
    then have "arrived \<longleftrightarrow> mb_id m \<notin> members (ph_store s) c" unfolding e(3) members_def by blast
    with e(1,2) show ?thesis by blast
  qed
  show "at = Registers (mb_id m \<notin> members (ph_store s) c)" if "enter_store po lease m c key now s = (Inr at, s')"
    using that entered by (auto simp: enter_store_def split: prod.splits sum.splits if_splits)
  show "site_ok cd (page_do po cd lease now (Enters key c m) (s, w))"
  proof (cases "c = []")
    case True
    with assms(1) show ?thesis by (simp add: enter_store_def)
  next
    case False
    obtain r p where r: "po_enter po c m key (now + hub_lease lease) now (ph_store s) = (r, p)" by fastforce
    show ?thesis
    proof (cases r)
      case (Inl e)
      let ?s = "s\<lparr>ph_store := p\<rparr>"
      have v: "ok p" "view p = view (ph_store s)" using enter_fails [OF pages_keptD(1) [OF kept]] r Inl by blast+
      have o: "open_pages ?s = open_pages s" by (simp add: open_pages_def)
      have "pages_kept ?s" and m: "members (ph_store ?s) c' = members (ph_store s) c'" for c'
        using pages_kept_same [OF kept, of ?s] v o pages_keptD(2) [OF kept] by simp_all
      then have "site_ok cd (?s, w)"
        using tell by (intro quiet_step [OF assms(1)]) (simp_all add: tellable_def nothing_told_def)
      with False r Inl show ?thesis by (simp add: enter_store_def)
    next
      case (Inr arrived)
      let ?s = "s\<lparr>ph_store := p, ph_tasks := ph_tasks s @ [Entering (Registers arrived) key c m]\<rparr>"
      note e = entered [OF r [unfolded Inr]]
      have o: "set (open_pages ?s) = insert (key, c, m) (set (open_pages s))" by (auto simp: open_pages_def)
      have "distinct (map fst (open_pages ?s))"
        using pages_keptD(2) [OF kept] assms(2) by (auto simp: open_pages_def)
      moreover have "(\<exists>u. view p c' k = Some (i, u)) \<longleftrightarrow> (\<exists>m. (k, c', m) \<in> set (open_pages ?s) \<and> mb_id m = i)" for c' k i
      proof (cases "k = key")
        case True
        have "(key, c', m') \<notin> set (open_pages s)" for m' using assms(2) by force
        with True e new [of c'] show ?thesis unfolding o by auto
      next
        case False
        with e pages_keptD(3) [OF kept, of c' k i] show ?thesis unfolding o by auto
      qed
      ultimately have "pages_kept ?s" using e by (simp add: pages_kept_def)
      moreover have "tellable cd ?s" using tell assms(3) False by (simp add: tellable_def)
      moreover have "members p c' = (if c' = c then insert (mb_id m) (members (ph_store s) c') else members (ph_store s) c')" for c'
        using members_enters [OF conjunct1 [OF conjunct2 [OF e]] new] .
      then have "nothing_told c' s \<and> members p c' = members (ph_store s) c'" if "nothing_told c' ?s" for c'
        using that e by (auto simp: nothing_told_def)
      ultimately have "site_ok cd (?s, w)" by (intro quiet_step [OF assms(1)]) simp_all
      with False r Inr show ?thesis by (simp add: enter_store_def)
    qed
  qed
qed

lemma page_goes:
  assumes "site_ok cd (s, w)"
  shows "site_ok cd (page_gone key s, w)" "set (open_pages (page_gone key s)) = set (open_pages s)"
proof -
  have kept: "pages_kept s" and tell: "tellable cd s" using assms by (simp_all add: site_ok_def)
  have "site_ok cd (page_gone key s, w) \<and> set (open_pages (page_gone key s)) = set (open_pages s)"
  proof (cases "List.find (\<lambda>e. fst e = key) (ph_after s)")
    case (Some e)
    obtain k c m where e: "e = (k, c, m)" by (cases e)
    from Some obtain xs ys where x: "ph_after s = xs @ e # ys" and k: "k = key"
      unfolding find_Some_iff using id_take_nth_drop e by (metis fst_conv)
    have d: "distinct (map fst (open_pages s))" by (rule pages_keptD(2) [OF kept])
    then have "key \<notin> fst ` set xs \<union> fst ` set ys" using x e k by (auto simp: open_pages_def)
    then have f: "filter (\<lambda>e. fst e \<noteq> key) (ph_after s) = xs @ ys"
    proof -
      have "filter (\<lambda>e. fst e \<noteq> key) zs = zs" if "key \<notin> fst ` set zs" for zs :: "(string \<times> string \<times> 'd member) list"
        using that by (intro filter_True) auto
      then have "filter (\<lambda>e. fst e \<noteq> key) xs = xs" "filter (\<lambda>e. fst e \<noteq> key) ys = ys"
        using \<open>key \<notin> fst ` set xs \<union> fst ` set ys\<close> by blast+
      then show ?thesis unfolding x e k filter_append by simp
    qed
    let ?s = "s\<lparr>ph_after := xs @ ys, ph_tasks := ph_tasks s @ [Leaving Unregisters key c m]\<rparr>"
    have g: "page_gone key s = ?s" using Some e k f by (simp add: page_gone_def)
    have o: "set (open_pages ?s) = set (open_pages s)" by (auto simp: open_pages_def x e k)
    have "distinct (map fst (open_pages ?s))" using d by (auto simp: open_pages_def x e k)
    with pages_keptD(1) [OF kept] o have "pages_kept ?s" by (intro pages_kept_same(1) [OF kept]) simp_all
    moreover have "tellable cd ?s" using tell x e by (simp add: tellable_def)
    ultimately have "site_ok cd (?s, w)" by (intro quiet_step [OF assms]) (simp_all add: nothing_told_def)
    with g o show ?thesis by simp
  qed (use assms in \<open>simp add: page_gone_def\<close>)
  then show "site_ok cd (page_gone key s, w)" "set (open_pages (page_gone key s)) = set (open_pages s)" by blast+
qed

text \<open>What a goroutine's step makes of the pages, the members, and what is to be told.\<close>

lemma leaves_store:
  assumes "pages_kept s" "ph_tasks s = xs @ Leaving Leaves_store key c m # ys"
    and alive: "living now (ph_store s)"
  shows "\<exists>p gone. leave_step po cd now Leaves_store key c m s = (if gone then Some Tells_left else None, s\<lparr>ph_store := p\<rparr>) \<and>
    (gone \<longleftrightarrow> \<not> (\<exists>k m'. k \<noteq> key \<and> (k, c, m') \<in> set (open_pages s) \<and> mb_id m' = mb_id m)) \<and>
    (\<forall>c'. c' = c \<and> gone \<or> members p c' = members (ph_store s) c') \<and>
    pages_kept (s\<lparr>ph_store := p, ph_tasks := xs @ (if gone then [Leaving Tells_left key c m] else []) @ ys\<rparr>)"
proof -
  note kept = pages_keptD [OF assms(1)]
  obtain gone p where l: "po_leave po c key now (ph_store s) = (Inr gone, p)" "ok p"
    "\<forall>c' k. view p c' k = (if c' = c \<and> k = key then None else view (ph_store s) c' k)"
    "gone \<longleftrightarrow> (\<exists>i u. view (ph_store s) c key = Some (i, u) \<and>
         \<not> (\<exists>k u'. k \<noteq> key \<and> view (ph_store s) c k = Some (i, u') \<and> now < u'))"
    using leave [OF kept(1)] by blast
  have mem: "(key, c, m) \<in> set (open_pages s)" using assms(2) by (simp add: open_pages_def)
  then obtain u where u: "view (ph_store s) c key = Some (mb_id m, u)" using kept(3) [of c key "mb_id m"] by blast
  have only: "c' = c \<and> m' = m" if "(key, c', m') \<in> set (open_pages s)" for c' m'
    using eq_key_imp_eq_value [OF kept(2) mem, of "(c', m')"] that by simp
  have "gone \<longleftrightarrow> \<not> (\<exists>k u'. k \<noteq> key \<and> view (ph_store s) c k = Some (mb_id m, u'))"
    unfolding l(4) using u alive by (auto simp: living_def)
  then have gone: "gone \<longleftrightarrow> \<not> (\<exists>k m'. k \<noteq> key \<and> (k, c, m') \<in> set (open_pages s) \<and> mb_id m' = mb_id m)"
    using kept(3) by blast
  let ?s = "s\<lparr>ph_store := p, ph_tasks := xs @ (if gone then [Leaving Tells_left key c m] else []) @ ys\<rparr>"
  have o: "set (open_pages s) = insert (key, c, m) (set (open_pages ?s))" by (auto simp: open_pages_def assms(2))
  have d: "distinct (map fst (open_pages ?s))" and out: "key \<notin> fst ` set (open_pages ?s)"
    using kept(2) by (auto simp: open_pages_def assms(2))
  have "(\<exists>u. view p c' k = Some (i, u)) \<longleftrightarrow> (\<exists>m. (k, c', m) \<in> set (open_pages ?s) \<and> mb_id m = i)" for c' k i
  proof (cases "k = key")
    case True
    have "\<not> (\<exists>m. (key, c', m) \<in> set (open_pages ?s))" using out by force
    moreover have "view p c' key = None"
    proof (cases "c' = c")
      case False
      then have "\<not> (\<exists>m. (key, c', m) \<in> set (open_pages s))" using only by blast
      then have "view (ph_store s) c' key = None" using kept(3) [of c' key] by (cases "view (ph_store s) c' key") auto
      then show ?thesis using l(3) by simp
    qed (use l(3) in simp)
    ultimately show ?thesis using True by simp
  next
    case False
    then show ?thesis using l(3) kept(3) [of c' k i] o by auto
  qed
  then have "pages_kept ?s" using l(2) d unfolding pages_kept_def by simp
  moreover have "c' = c \<and> gone \<or> members p c' = members (ph_store s) c'" for c'
    using members_leaves [OF l(3) u, of c'] gone kept(3) by auto
  moreover have "leave_step po cd now Leaves_store key c m s = (if gone then Some Tells_left else None, s\<lparr>ph_store := p\<rparr>)"
    using l(1) by simp
  ultimately show ?thesis using gone by (intro exI [of _ p] exI [of _ gone]) simp
qed

lemma goes_on:
  assumes "site_ok cd (s, w)" "ph_tasks s = xs @ t # ys" "task_do po cd lease now t s = (t', s1)"
    and alive: "living now (ph_store s)"
    and s': "s' = s1\<lparr>ph_tasks := xs @ (case t' of None \<Rightarrow> [] | Some t \<Rightarrow> [t]) @ ys\<rparr>"
  shows "site_ok cd (s', w) \<and> set (open_pages s') \<subseteq> set (open_pages s)"
proof -
  have kept: "pages_kept s" and tell: "tellable cd s" using assms(1) by (simp_all add: site_ok_def)
  have same: "pages_kept s'" if "open_pages s' = open_pages s" "ph_store s' = ph_store s"
    using pages_kept_same(1) [OF kept, of s'] that pages_keptD(1,2) [OF kept] by simp
  have hub: "hub_ok (ph_hub s)" using assms(1) by (simp add: site_ok_def hub_in_order_def)
  show ?thesis
  proof (cases t)
    case (Entering at key c m)
    show ?thesis
    proof (cases at)
      case (Registers arrived)
      with Entering assms(2,3) s' have r: "s' = s\<lparr>ph_here := put key c (ph_here s), ph_tasks := xs @ Entering (Follows arrived) key c m # ys\<rparr>"
        by auto
      then have o: "open_pages s' = open_pages s" using Entering Registers assms(2) by (simp add: open_pages_def)
      have "tellable cd s'" using tell Entering assms(2) by (simp add: r tellable_def)
      with same [OF o] r Entering Registers assms(2) show ?thesis
        unfolding o by (intro conjI quiet_step [OF assms(1)]) (simp_all add: nothing_told_def)
    next
      case (Follows arrived)
      obtain events h where h: "hub_subscribe [c] (ph_hub s) = (events, h)" by fastforce
      with Entering Follows assms(2,3) s' have r: "s' = s\<lparr>ph_hub := hub_do cd (Subscribes [c]) (ph_hub s),
          ph_tasks := xs @ Entering (if arrived then Tells_joined events else Watches events) key c m # ys\<rparr>"
        by auto
      then have o: "open_pages s' = open_pages s" using Entering assms(2) by (simp add: open_pages_def)
      have "tellable cd s'" using tell Entering assms(2) by (simp add: r tellable_def)
      with same [OF o] r Entering Follows assms(2) show ?thesis
        unfolding o by (intro conjI hub_step [OF assms(1), where op = "Subscribes [c]"]) (auto simp: nothing_told_def)
    next
      case (Tells_joined events)
      have "told cd ''presence.joined'' c m" using tell Entering assms(2) by (simp add: tellable_def)
      from publish_sub [OF hub this] obtain bytes e where
        b: "snd (publish_here cd c ''presence.joined'' m (ph_hub s)) = hub_do cd (Delivers bytes) (ph_hub s)"
        "event_read cd bytes = Some e" "ev_channel e = c" by blast
      with Entering Tells_joined assms(2,3) s' have r: "s' = s\<lparr>ph_hub := hub_do cd (Delivers bytes) (ph_hub s),
          ph_tasks := xs @ Entering (Watches events) key c m # ys\<rparr>"
        by (auto simp del: hub_do.simps)
      then have o: "open_pages s' = open_pages s" using Entering assms(2) by (simp add: open_pages_def)
      have "tellable cd s'" using tell Entering assms(2) by (simp add: r tellable_def)
      with same [OF o] r b(2,3) Entering Tells_joined assms(2) show ?thesis
        unfolding o by (intro conjI hub_step [OF assms(1), where op = "Delivers bytes"])
          (auto simp: nothing_told_def simp del: hub_do.simps)
    next
      case (Watches events)
      with Entering assms(2,3) s' have r: "s' = s\<lparr>ph_after := ph_after s @ [(key, c, m)], ph_tasks := xs @ ys\<rparr>" by auto
      have o: "set (open_pages s') = set (open_pages s)" using Entering assms(2) by (auto simp: r open_pages_def)
      have "distinct (map fst (open_pages s'))"
        using pages_keptD(2) [OF kept] Entering assms(2) by (auto simp: r open_pages_def)
      then have "pages_kept s'" using pages_keptD(1) [OF kept] o r by (intro pages_kept_same(1) [OF kept]) simp_all
      moreover have "tellable cd s'" using tell Entering assms(2) by (simp add: r tellable_def)
      ultimately show ?thesis using r Entering Watches assms(2) o
        by (intro conjI quiet_step [OF assms(1)]) (simp_all add: nothing_told_def)
    qed
  next
    case (Leaving at key c m)
    show ?thesis
    proof (cases at)
      case Unregisters
      with Leaving assms(2,3) s' have r: "s' = s\<lparr>ph_here := del key (ph_here s), ph_tasks := xs @ Leaving Leaves_store key c m # ys\<rparr>"
        by auto
      then have o: "open_pages s' = open_pages s" using Leaving Unregisters assms(2) by (simp add: open_pages_def)
      have "tellable cd s'" using tell Leaving assms(2) by (simp add: r tellable_def)
      with same [OF o] r Leaving Unregisters assms(2) show ?thesis
        unfolding o by (intro conjI quiet_step [OF assms(1)]) (simp_all add: nothing_told_def)
    next
      case Leaves_store
      from leaves_store [OF kept assms(2) [unfolded Leaving Leaves_store] alive] obtain p gone where
        l: "leave_step po cd now Leaves_store key c m s = (if gone then Some Tells_left else None, s\<lparr>ph_store := p\<rparr>)"
        "\<forall>c'. c' = c \<and> gone \<or> members p c' = members (ph_store s) c'"
        "pages_kept (s\<lparr>ph_store := p, ph_tasks := xs @ (if gone then [Leaving Tells_left key c m] else []) @ ys\<rparr>)" by blast
      with Leaving Leaves_store assms(3) s' have
        r: "s' = s\<lparr>ph_store := p, ph_tasks := xs @ (if gone then [Leaving Tells_left key c m] else []) @ ys\<rparr>"
        by (auto simp del: leave_step.simps)
      have "set (open_pages s') \<subseteq> set (open_pages s)" by (auto simp: r open_pages_def assms(2))
      moreover have "tellable cd s'" using tell Leaving assms(2) by (simp add: r tellable_def)
      moreover have "nothing_told c' s \<and> members p c' = members (ph_store s) c'" if "nothing_told c' s'" for c'
        using that spec [OF l(2), of c'] Leaving Leaves_store assms(2) by (auto simp: r nothing_told_def split: if_splits)
      ultimately show ?thesis using l(3) r by (intro conjI quiet_step [OF assms(1)]) simp_all
    next
      case Tells_left
      have "told cd ''presence.left'' c m" using tell Leaving assms(2) by (simp add: tellable_def)
      from publish_sub [OF hub this] obtain bytes e where
        b: "snd (publish_here cd c ''presence.left'' m (ph_hub s)) = hub_do cd (Delivers bytes) (ph_hub s)"
        "event_read cd bytes = Some e" "ev_channel e = c" by blast
      with Leaving Tells_left assms(2,3) s' have r: "s' = s\<lparr>ph_hub := hub_do cd (Delivers bytes) (ph_hub s), ph_tasks := xs @ ys\<rparr>"
        by (auto simp del: hub_do.simps)
      then have o: "open_pages s' = open_pages s" using Leaving Tells_left assms(2) by (simp add: open_pages_def)
      have "tellable cd s'" using tell Leaving assms(2) by (simp add: r tellable_def)
      with same [OF o] r b(2,3) Leaving Tells_left assms(2) show ?thesis
        unfolding o by (intro conjI hub_step [OF assms(1), where op = "Delivers bytes"])
          (auto simp: nothing_told_def simp del: hub_do.simps)
    qed
  next
    case (Keeping keys)
    let ?p = "snd (po_keep po keys (now + hub_lease lease) (ph_store s))"
    from Keeping assms(2,3) s' have r: "s' = s\<lparr>ph_store := ?p, ph_tasks := xs @ ys\<rparr>" by (auto simp: keep_step_def)
    then have o: "open_pages s' = open_pages s" using Keeping assms(2) by (simp add: open_pages_def)
    have v: "(\<exists>u. view ?p c k = Some (i, u)) \<longleftrightarrow> (\<exists>u. view (ph_store s) c k = Some (i, u))" for c k i
      using keep [OF pages_keptD(1) [OF kept]] by (auto split: option.splits)
    have k: "ok ?p" using keep [OF pages_keptD(1) [OF kept]] by blast
    have "pages_kept s'" and "members (ph_store s') c = members (ph_store s) c" for c
      using pages_kept_same [OF kept, of s'] o r v k pages_keptD(2) [OF kept] by simp_all
    moreover have "tellable cd s'" using tell Keeping assms(2) by (simp add: r tellable_def)
    ultimately show ?thesis using r Keeping assms(2) o
      by (intro conjI quiet_step [OF assms(1)]) (simp_all add: nothing_told_def)
  qed
qed

lemma loads:
  assumes "site_ok cd (s, w)" and alive: "living now (ph_store s)"
  shows "site_ok cd (page_do po cd lease now (Loads i c) (s, w))"
    and "\<exists>ms. hub_here po c now s = Inr ms \<and> sorted (map mb_id ms) \<and> distinct (map mb_id ms) \<and>
      mb_id ` set ms = members (ph_store s) c"
proof -
  have "pages_kept s" using assms(1) by (simp add: site_ok_def)
  from here [OF pages_keptD(1) [OF this], of c now] obtain ms where ms: "hub_here po c now s = Inr ms"
    "sorted (map mb_id ms)" "distinct (map mb_id ms)"
    "\<forall>k i u. view (ph_store s) c k = Some (i, u) \<longrightarrow> now < u \<longrightarrow> i \<in> mb_id ` set ms"
    "\<forall>i \<in> mb_id ` set ms. \<exists>k u. view (ph_store s) c k = Some (i, u) \<and> now \<le> u"
    by (auto simp: hub_here_def)
  have all: "mb_id ` set ms = members (ph_store s) c"
    using ms(4,5) alive unfolding members_def living_def by blast
  with ms show "\<exists>ms. hub_here po c now s = Inr ms \<and> sorted (map mb_id ms) \<and> distinct (map mb_id ms) \<and>
      mb_id ` set ms = members (ph_store s) c" by blast
  show "site_ok cd (page_do po cd lease now (Loads i c) (s, w))"
    using assms(1) ms(1) all by (auto simp: site_ok_def hub_in_order_def shows_members_def settled_def Let_def)
qed

lemma page_does:
  assumes "site_ok cd (s, w)" "can_tell cd op" "living now (ph_store s)"
    and "\<forall>key c m. op = Enters key c m \<longrightarrow> key \<notin> fst ` set (open_pages s)"
    and "page_do po cd lease now op (s, w) = (s', w')"
  shows "site_ok cd (s', w')"
    and "fst ` set (open_pages s') \<subseteq> fst ` set (open_pages s) \<union> (case op of Enters key c m \<Rightarrow> {key} | _ \<Rightarrow> {})"
proof -
  have "site_ok cd (s', w') \<and>
      fst ` set (open_pages s') \<subseteq> fst ` set (open_pages s) \<union> (case op of Enters key c m \<Rightarrow> {key} | _ \<Rightarrow> {})"
  proof (cases op)
    case (Enters key c m)
    have "set (open_pages s') \<subseteq> insert (key, c, m) (set (open_pages s))"
      using assms(5) Enters by (auto simp: enter_store_def open_pages_def split: prod.splits sum.splits if_splits)
    with enters(1) [OF assms(1) _ _ assms(3), of key c m lease] assms(2,4,5) Enters show ?thesis by auto
  next
    case (Page_gone key)
    with page_goes [OF assms(1), of key] assms(5) show ?thesis by simp
  next
    case Ticks
    have "pages_kept s" "tellable cd s" using assms(1) by (simp_all add: site_ok_def)
    then have "site_ok cd (s\<lparr>ph_tasks := ph_tasks s @ [Keeping keys]\<rparr>, w)" for keys
      by (intro quiet_step [OF assms(1)]) (simp_all add: pages_kept_def open_pages_def tellable_def nothing_told_def)
    moreover have "open_pages (s\<lparr>ph_tasks := ph_tasks s @ [Keeping keys]\<rparr>) = open_pages s" for keys
      by (simp add: open_pages_def)
    ultimately show ?thesis using assms(1,5) Ticks by (auto simp: keep_start_def Let_def split: if_splits)
  next
    case (Goes_on i)
    show ?thesis
    proof (cases "i < length (ph_tasks s)")
      case True
      obtain t s1 where t: "task_do po cd lease now (ph_tasks s ! i) s = (t, s1)" by fastforce
      have same: "ph_tasks s1 = ph_tasks s"
      proof (cases "ph_tasks s ! i")
        case (Entering at key c m)
        with t show ?thesis by (cases at) (auto simp: hub_subscribe_def Let_def)
      next
        case (Leaving at key c m)
        with t show ?thesis by (cases at) (auto split: prod.splits sum.splits)
      qed (use t in \<open>auto simp: keep_step_def\<close>)
      note g = goes_on [OF assms(1) id_take_nth_drop [OF True] t assms(3) refl]
      have "w' = w" "s' = s1\<lparr>ph_tasks := take i (ph_tasks s) @ (case t of None \<Rightarrow> [] | Some t \<Rightarrow> [t]) @ drop (Suc i) (ph_tasks s)\<rparr>"
        using assms(5) Goes_on True t same by (simp_all add: not_le [symmetric])
      moreover have "fst ` set (open_pages s') \<subseteq> fst ` set (open_pages s)" if "set (open_pages s') \<subseteq> set (open_pages s)"
        using that by blast
      ultimately show ?thesis using g Goes_on by simp
    next
      case False
      with assms(1,5) Goes_on show ?thesis by simp
    qed
  next
    case (Hub_does hop)
    have "pages_kept s" "tellable cd s" using assms(1) by (simp_all add: site_ok_def)
    then have "site_ok cd (s\<lparr>ph_hub := hub_do cd hop (ph_hub s)\<rparr>,
        case hop of Takes i \<Rightarrow> if sub_events (hub_heap (ph_hub s) ! i) = [] then w else took i w | _ \<Rightarrow> w)"
      by (intro hub_step [OF assms(1), where op = hop])
        (simp_all add: pages_kept_def open_pages_def tellable_def nothing_told_def del: hub_do.simps)
    moreover have "open_pages (s\<lparr>ph_hub := h\<rparr>) = open_pages s" for h by (simp add: open_pages_def)
    ultimately show ?thesis using assms(5) Hub_does by (auto simp del: hub_do.simps)
  next
    case (Loads i c)
    with loads(1) [OF assms(1,3), of lease i c] assms(5) show ?thesis by auto
  qed
  then show "site_ok cd (s', w')"
    "fst ` set (open_pages s') \<subseteq> fst ` set (open_pages s) \<union> (case op of Enters key c m \<Rightarrow> {key} | _ \<Rightarrow> {})" by blast+
qed

lemma page_runs:
  assumes "\<And>p t c k i u. alive p t \<Longrightarrow> ok p \<Longrightarrow> view p c k = Some (i, u) \<Longrightarrow> t < u"
  shows "site_ok cd x \<Longrightarrow> leases_last alive po cd lease ops x \<Longrightarrow> list_all (can_tell cd) (map snd ops) \<Longrightarrow>
    distinct (drawn ops) \<Longrightarrow> set (drawn ops) \<inter> fst ` set (open_pages (fst x)) = {} \<Longrightarrow>
    site_ok cd (page_run po cd lease ops x)"
proof (induction ops arbitrary: x)
  case (Cons o1 ops)
  obtain now op where o1: "o1 = (now, op)" by (cases o1)
  obtain s w where x: "x = (s, w)" by (cases x)
  obtain s' w' where d: "page_do po cd lease now op (s, w) = (s', w')" by fastforce
  have kept: "ok (ph_store s)" using Cons.prems(1) x by (simp add: site_ok_def pages_kept_def)
  have alive: "living now (ph_store s)"
    using assms [OF _ kept] Cons.prems(2) by (auto simp: o1 x living_def)
  have new: "\<forall>key c m. op = Enters key c m \<longrightarrow> key \<notin> fst ` set (open_pages s)"
  proof (intro allI impI)
    fix key c m
    assume "op = Enters key c m"
    then have "key \<in> set (drawn (o1 # ops))" by (simp add: o1)
    with Cons.prems(5) show "key \<notin> fst ` set (open_pages s)" unfolding x fst_conv by blast
  qed
  note p = page_does [OF Cons.prems(1) [unfolded x] _ alive new d]
  have tell: "can_tell cd op" using Cons.prems(3) by (simp add: o1)
  have grows: "fst ` set (open_pages s') \<subseteq> fst ` set (open_pages s) \<union> (case op of Enters key c m \<Rightarrow> {key} | _ \<Rightarrow> {})"
    by (rule p(2) [OF tell])
  have "set (drawn ops) \<inter> fst ` set (open_pages s) = {}"
  proof -
    have "set (drawn ops) \<subseteq> set (drawn (o1 # ops))" by (cases op) (auto simp: o1)
    with Cons.prems(5) show ?thesis unfolding x fst_conv by blast
  qed
  moreover have "set (drawn ops) \<inter> (case op of Enters key c m \<Rightarrow> {key} | _ \<Rightarrow> {}) = {}"
    using Cons.prems(4) by (cases op) (auto simp: o1)
  ultimately have "set (drawn ops) \<inter> (fst ` set (open_pages s) \<union> (case op of Enters key c m \<Rightarrow> {key} | _ \<Rightarrow> {})) = {}"
    by blast
  then have "set (drawn ops) \<inter> fst ` set (open_pages s') = {}" using grows by blast
  moreover have "distinct (drawn ops)" using Cons.prems(4) by (cases op) (auto simp: o1)
  ultimately show ?case using Cons.IH [of "(s', w')"] Cons.prems(2,3) p(1) [OF tell] d by (simp add: o1 x)
qed simp

text \<open>What a page that is settled shows, and what is told of who comes and who goes.\<close>

lemma settled_shows:
  assumes "site_ok cd (s, w)" and alive: "living now (ph_store s)"
  shows "\<exists>ms. hub_here po c now s = Inr ms \<and> sorted (map mb_id ms) \<and> distinct (map mb_id ms) \<and>
    mb_id ` set ms = {mb_id m |k m. (k, c, m) \<in> set (open_pages s)} \<and>
    (\<forall>i. settled (s, w) i c \<and> nothing_told c s \<longrightarrow> set (sh_ids (w i c)) = mb_id ` set ms) \<and>
    (\<forall>key m at s'. key \<notin> fst ` set (open_pages s) \<and> told cd ''presence.joined'' c m \<and> told cd ''presence.left'' c m \<and>
       enter_store po lease m c key now s = (Inr at, s') \<longrightarrow>
       tells_of c (Entering at key c m) = (mb_id m \<notin> mb_id ` set ms)) \<and>
    (\<forall>key m. Leaving Leaves_store key c m \<in> set (ph_tasks s) \<longrightarrow>
       fst (leave_step po cd now Leaves_store key c m s) =
         (if \<exists>k m'. k \<noteq> key \<and> (k, c, m') \<in> set (open_pages s) \<and> mb_id m' = mb_id m then None else Some Tells_left))"
proof -
  have kept: "pages_kept s" and shown: "shows_members (s, w)" using assms(1) by (simp_all add: site_ok_def)
  obtain ms where ms: "hub_here po c now s = Inr ms" "sorted (map mb_id ms)" "distinct (map mb_id ms)"
    "mb_id ` set ms = members (ph_store s) c" using loads(2) [OF assms] by blast
  have shows_all: "\<forall>i. settled (s, w) i c \<and> nothing_told c s \<longrightarrow> set (sh_ids (w i c)) = mb_id ` set ms"
    using shown ms(4) by (simp add: shows_members_def)
  have joined: "tells_of c (Entering at key c m) = (mb_id m \<notin> mb_id ` set ms)"
    if "key \<notin> fst ` set (open_pages s)" "told cd ''presence.joined'' c m" "told cd ''presence.left'' c m"
      "enter_store po lease m c key now s = (Inr at, s')" for key m at s'
    using enters(2) [OF assms(1) that(1) _ alive that(4)] that(2,3) ms(4) by simp
  have left: "fst (leave_step po cd now Leaves_store key c m s) =
      (if \<exists>k m'. k \<noteq> key \<and> (k, c, m') \<in> set (open_pages s) \<and> mb_id m' = mb_id m then None else Some Tells_left)"
    if leaving: "Leaving Leaves_store key c m \<in> set (ph_tasks s)" for key m
  proof -
    obtain xs ys where "ph_tasks s = xs @ Leaving Leaves_store key c m # ys" using leaving by (auto dest: split_list)
    from leaves_store [OF kept this alive, of cd] obtain p gone where
      "leave_step po cd now Leaves_store key c m s = (if gone then Some Tells_left else None, s\<lparr>ph_store := p\<rparr>)"
      "gone \<longleftrightarrow> \<not> (\<exists>k m'. k \<noteq> key \<and> (k, c, m') \<in> set (open_pages s) \<and> mb_id m' = mb_id m)" by blast
    then show ?thesis by (simp del: leave_step.simps)
  qed
  have "mb_id ` set ms = {mb_id m |k m. (k, c, m) \<in> set (open_pages s)}"
    using ms(4) members_open [OF kept, of c] by simp
  then show ?thesis
    by (intro exI [where x = ms] conjI allI impI) (use ms(1-3) shows_all joined left in \<open>simp_all del: leave_step.simps\<close>)
qed

end

section \<open>The presence in memory keeps the promises\<close>

definition presence_ok :: "presence \<Rightarrow> bool" where
  "presence_ok p \<longleftrightarrow> (\<forall>c. gomap_ok (on_channel p c))"

definition local_view :: "presence \<Rightarrow> string \<Rightarrow> string \<Rightarrow> (string \<times> instant) option" where
  "local_view p c k = map_option (\<lambda>l. (mb_id (lm_member l), lm_until l)) (lookup (on_channel p c) k)"

lemma on_channel_put [simp]: "on_channel (put c ms p) c' = (if c' = c then ms else on_channel p c')"
  by (simp add: on_channel_def)

lemma on_channel_keep:
  "on_channel (snd (local_keep keys until p)) c =
     map (\<lambda>(k, l). (k, if k \<in> set keys then l\<lparr>lm_until := until\<rparr> else l)) (on_channel p c)"
proof -
  have "lookup (map (\<lambda>(c, ms). (c, f ms)) p) c = map_option f (lookup p c)" for f :: "(string, local_member) gomap \<Rightarrow> (string, local_member) gomap"
    by (induction p) auto
  then show ?thesis by (simp add: local_keep_def on_channel_def split: option.split)
qed

lemma lookup_keyed: "lookup (map (\<lambda>(k, l). (k, f k l)) ms) k = map_option (f k) (lookup ms k)"
  by (induction ms) auto

lemma some_member:
  assumes "gomap_ok ms"
  shows "list_ex (\<lambda>(k, l). P k l) ms \<longleftrightarrow> (\<exists>k l. lookup ms k = Some l \<and> P k l)"
  using assms by (auto simp: list_ex_iff map_of_eq_Some_iff)

lemma here_loop_members:
  "mb_id ` set (here_loop now seen ls) = {mb_id (lm_member l) | l. l \<in> set ls \<and> now \<le> lm_until l} - set seen \<and>
   distinct (map mb_id (here_loop now seen ls))"
proof (induction now seen ls rule: here_loop.induct)
  case (2 now seen l ls)
  show ?case
  proof (cases "lm_until l < now \<or> mb_id (lm_member l) \<in> set seen")
    case True
    with 2(1) show ?thesis by auto
  next
    case False
    with 2(2) show ?thesis by auto
  qed
qed simp

text \<open>Here's members, as the view has them.\<close>

lemma local_here_members:
  assumes "presence_ok p"
  shows "\<exists>ms. local_here c now p = Inr ms \<and> sorted (map mb_id ms) \<and> distinct (map mb_id ms) \<and>
    (\<forall>k i u. local_view p c k = Some (i, u) \<longrightarrow> now < u \<longrightarrow> i \<in> mb_id ` set ms) \<and>
    (\<forall>i \<in> mb_id ` set ms. \<exists>k u. local_view p c k = Some (i, u) \<and> now \<le> u)"
proof -
  let ?ms = "here_loop now [] (map snd (on_channel p c))"
  have ok: "gomap_ok (on_channel p c)" using assms by (simp add: presence_ok_def)
  have l: "l \<in> set (map snd (on_channel p c)) \<longleftrightarrow> (\<exists>k. lookup (on_channel p c) k = Some l)" for l
    unfolding map_of_eq_Some_iff [OF ok] by force
  have "i \<in> mb_id ` set ?ms \<longleftrightarrow> (\<exists>l. l \<in> set (map snd (on_channel p c)) \<and> now \<le> lm_until l \<and> i = mb_id (lm_member l))" for i
    using here_loop_members [of now "[]" "map snd (on_channel p c)"] by auto
  then have "i \<in> mb_id ` set ?ms \<longleftrightarrow> (\<exists>k u. local_view p c k = Some (i, u) \<and> now \<le> u)" for i
    unfolding l local_view_def by auto
  then have "(\<forall>k i u. local_view p c k = Some (i, u) \<longrightarrow> now < u \<longrightarrow> i \<in> mb_id ` set ?ms) \<and>
      (\<forall>i \<in> mb_id ` set ?ms. \<exists>k u. local_view p c k = Some (i, u) \<and> now \<le> u)"
    using order_less_imp_le by blast
  moreover have "distinct (map mb_id (sort_key mb_id ?ms))"
    using here_loop_members [of now "[]" "map snd (on_channel p c)"] by (simp add: distinct_map)
  ultimately show ?thesis unfolding local_here_def by (intro exI [where x = "sort_key mb_id ?ms"]) (simp del: set_map)
qed

interpretation local_store: presence_store "local_presence marshal" presence_ok local_view
proof (unfold_locales, goal_cases)
  case (1 p c m key until now arrived p')
  then obtain data where p': "p' = put c (put key \<lparr>lm_member = \<lparr>mb_id = mb_id m, mb_data = data\<rparr>, lm_until = until\<rparr> (on_channel p c)) p"
    and a: "arrived \<longleftrightarrow> \<not> list_ex (\<lambda>(k, l). mb_id (lm_member l) = mb_id m \<and> k \<noteq> key \<and> now < lm_until l) (on_channel p c)"
    by (auto simp: local_presence_def local_enter_def Let_def split: sum.splits)
  have ok: "gomap_ok (on_channel p c)" using 1(1) by (simp add: presence_ok_def)
  have "presence_ok p'" using 1(1) p' by (simp add: presence_ok_def)
  moreover have "arrived \<longleftrightarrow> \<not> (\<exists>k u. k \<noteq> key \<and> local_view p c k = Some (mb_id m, u) \<and> now < u)"
    unfolding a some_member [OF ok] by (auto simp: local_view_def)
  ultimately show ?case using p' by (auto simp: local_view_def)
next
  case (2 p c m key until now e p')
  then show ?case by (auto simp: local_presence_def local_enter_def Let_def split: sum.splits)
next
  case (3 p keys until c k)
  have "gomap_ok (on_channel (snd (local_keep keys until p)) c')" for c'
    using 3 unfolding on_channel_keep presence_ok_def by (simp add: comp_def case_prod_unfold)
  then show ?case
    by (auto simp: local_presence_def presence_ok_def local_view_def on_channel_keep lookup_keyed split: option.split)
next
  case (4 p c key now)
  have ok: "gomap_ok (on_channel p c)" using 4 by (simp add: presence_ok_def)
  show ?case
  proof (cases "lookup (on_channel p c) key")
    case None
    with 4 show ?thesis by (auto simp: local_presence_def local_leave_def local_view_def)
  next
    case (Some gone)
    have ok': "gomap_ok (del key (on_channel p c))" using ok by simp
    have "presence_ok (put c (del key (on_channel p c)) p)" using 4 by (simp add: presence_ok_def)
    moreover have "\<not> list_ex (\<lambda>(k, l). mb_id (lm_member l) = mb_id (lm_member gone) \<and> now < lm_until l) (del key (on_channel p c)) \<longleftrightarrow>
        \<not> (\<exists>k u'. k \<noteq> key \<and> local_view p c k = Some (mb_id (lm_member gone), u') \<and> now < u')"
      unfolding some_member [OF ok'] by (auto simp: local_view_def)
    ultimately show ?thesis using Some by (auto simp: local_presence_def local_leave_def local_view_def Let_def)
  qed
next
  case (5 p c now)
  then show ?case using local_here_members by (simp add: local_presence_def)
qed

text \<open>Whether every lease of the presence in memory ends after a time.\<close>

definition all_alive :: "presence \<Rightarrow> instant \<Rightarrow> bool" where
  "all_alive p now \<longleftrightarrow> list_all (\<lambda>(c, ms). list_all (\<lambda>(k, l). now < lm_until l) ms) p"

lemma all_alive_view: "all_alive p now \<Longrightarrow> local_view p c k = Some (i, u) \<Longrightarrow> now < u"
  by (fastforce simp: all_alive_def local_view_def on_channel_def list_all_iff dest: map_of_SomeD split: option.splits)

lemma new_site_ok: "local_store.site_ok cd new_site"
proof -
  have "local_view [] c k = None" for c k by (simp add: local_view_def on_channel_def)
  then show ?thesis
    by (auto simp: local_store.site_ok_def local_store.pages_kept_def local_store.tellable_def local_store.shows_members_def
        hub_in_order_def settled_def new_site_def open_pages_def new_hub_def hub_ok_def presence_ok_def on_channel_def)
qed

text \<open>
  C36. A page that shows who is on a channel, and loads it again for each event it takes, shows who is here once it is settled.
  However the steps of the pages that come and go, of the ticks and of the hub come one between another, as long as no lease
  ends: Here gives the members with a page open, once each and in order; and where no page's goroutine has yet to tell the channel of
  an arrival or a departure, each subscriber's page with no event to take and none taken since it loaded shows exactly those. A
  page that enters is told of just where its member is not one of those, and one that leaves where it is its member's last.
\<close>

theorem a_settled_page_shows_who_is_here:
  assumes "page_run (local_presence marshal) cd lease ops new_site = (s, w)"
    and "list_all (can_tell cd) (map snd ops)" "distinct (drawn ops)"
    and "leases_last all_alive (local_presence marshal) cd lease ops new_site" "all_alive (ph_store s) now"
  shows "\<exists>ms. hub_here (local_presence marshal) c now s = Inr ms \<and> sorted (map mb_id ms) \<and> distinct (map mb_id ms) \<and>
    mb_id ` set ms = {mb_id m |k m. (k, c, m) \<in> set (open_pages s)} \<and>
    (\<forall>i. settled (s, w) i c \<and> nothing_told c s \<longrightarrow> set (sh_ids (w i c)) = mb_id ` set ms) \<and>
    (\<forall>key m at s'. key \<notin> fst ` set (open_pages s) \<and> told cd ''presence.joined'' c m \<and> told cd ''presence.left'' c m \<and>
       enter_store (local_presence marshal) lease m c key now s = (Inr at, s') \<longrightarrow>
       tells_of c (Entering at key c m) = (mb_id m \<notin> mb_id ` set ms)) \<and>
    (\<forall>key m. Leaving Leaves_store key c m \<in> set (ph_tasks s) \<longrightarrow>
       fst (leave_step (local_presence marshal) cd now Leaves_store key c m s) =
         (if \<exists>k m'. k \<noteq> key \<and> (k, c, m') \<in> set (open_pages s) \<and> mb_id m' = mb_id m then None else Some Tells_left))"
proof -
  have "site_ok" if "site_ok = local_store.site_ok cd (s, w)" for site_ok
    unfolding that assms(1) [symmetric]
    by (rule local_store.page_runs [OF _ new_site_ok assms(4,2,3)])
      (use all_alive_view in \<open>auto simp: new_site_def open_pages_def\<close>)
  then have "local_store.site_ok cd (s, w)" by simp
  moreover have "local_store.living now (ph_store s)"
    using all_alive_view [OF assms(5)] by (auto simp: local_store.living_def)
  ultimately show ?thesis by (rule local_store.settled_shows)
qed

definition ann :: "unit member" where "ann = \<lparr>mb_id = ''ann'', mb_data = ()\<rparr>"
definition bo :: "unit member" where "bo = \<lparr>mb_id = ''bo'', mb_data = ()\<rparr>"

text \<open>Ann's page is there, and bo's comes; ann's goes before bo's arrival is told, and is to be taken off the channel.\<close>

definition demo_pages :: "(instant \<times> unit page_op) list" where
  "demo_pages =
     [(0, Enters ''k1'' ''posts'' ann), (0, Goes_on 0), (0, Goes_on 0), (1, Goes_on 0), (1, Goes_on 0), (1, Hub_does (Takes 0)),
      (2, Loads 0 ''posts''), (3, Enters ''k2'' ''posts'' bo), (3, Goes_on 0), (3, Goes_on 0), (4, Page_gone ''k1''),
      (4, Goes_on 0), (5, Hub_does (Takes 0)), (6, Ticks), (6, Loads 0 ''posts'')]"

definition demo_members :: "unit member codec" where
  "demo_members =
     \<lparr>cd_data = (\<lambda>m. Some (mb_id m)), cd_write = (\<lambda>e. Some (ev_channel e @ CHR '' '' # ev_name e @ CHR '' '' # ev_data e)),
      cd_read = (\<lambda>b. case cut CHR '' '' b of (c, rest, found) \<Rightarrow>
        (case cut CHR '' '' rest of (n, d, found) \<Rightarrow> Some \<lparr>ev_channel = c, ev_name = n, ev_data = d\<rparr>))\<rparr>"

theorem a_settled_page_shows_who_is_here_witness:
  "\<exists>s w ms. page_run (local_presence (\<lambda>u. Inr ''null'')) demo_members 0 demo_pages new_site = (s, w) \<and>
     settled (s, w) 0 ''posts'' \<and> nothing_told ''posts'' s \<and>
     hub_here (local_presence (\<lambda>u. Inr ''null'')) ''posts'' 7 s = Inr ms \<and> mb_id ` set ms = {''ann'', ''bo''} \<and>
     set (sh_ids (w 0 ''posts'')) = mb_id ` set ms"
proof -
  let ?po = "local_presence (\<lambda>u. Inr ''null'')"
  obtain s w where s: "page_run ?po demo_members 0 demo_pages new_site = (s, w)" by fastforce
  have "case page_run ?po demo_members 0 demo_pages new_site of (s, w) \<Rightarrow>
      settled (s, w) 0 ''posts'' \<and> nothing_told ''posts'' s \<and> all_alive (ph_store s) 7 \<and>
      map (\<lambda>(k, c, m). (c, mb_id m)) (open_pages s) = [(''posts'', ''bo''), (''posts'', ''ann'')]" by code_simp
  then have now: "settled (s, w) 0 ''posts''" "nothing_told ''posts'' s" "all_alive (ph_store s) 7"
    "map (\<lambda>(k, c, m). (c, mb_id m)) (open_pages s) = [(''posts'', ''bo''), (''posts'', ''ann'')]" by (simp_all add: s)
  have ids: "{mb_id m |k m. (k, ''posts'', m) \<in> set (open_pages s)} = {''ann'', ''bo''}"
  proof -
    have "{mb_id m |k m. (k, ''posts'', m) \<in> set (open_pages s)} =
        snd ` (set (map (\<lambda>(k, c, m). (c, mb_id m)) (open_pages s)) \<inter> {''posts''} \<times> UNIV)"
      by (force simp: image_iff)
    then show ?thesis by (auto simp: now(4))
  qed
  have run: "list_all (can_tell demo_members) (map snd demo_pages)" "distinct (drawn demo_pages)"
    "leases_last all_alive ?po demo_members 0 demo_pages new_site" by code_simp+
  from a_settled_page_shows_who_is_here [OF s run now(3), of "''posts''"] obtain ms where
    "hub_here ?po ''posts'' 7 s = Inr ms" "mb_id ` set ms = {mb_id m |k m. (k, ''posts'', m) \<in> set (open_pages s)}"
    "\<forall>i. settled (s, w) i ''posts'' \<and> nothing_told ''posts'' s \<longrightarrow> set (sh_ids (w i ''posts'')) = mb_id ` set ms"
    by (elim exE conjE) (rule that)
  with s now(1,2) ids show ?thesis by (intro exI [of _ s] exI [of _ w] exI [of _ ms]) simp
qed

text \<open>
  The news alone do not say who is here: where a page of a member's comes as the last one goes, the channel may be told first that
  the member joined, and then that they left, while they are there.
\<close>

definition demo_crossing :: "(instant \<times> unit page_op) list" where
  "demo_crossing =
     [(0, Hub_does (Subscribes [''posts''])), (0, Enters ''k1'' ''posts'' ann), (0, Goes_on 0), (0, Goes_on 0), (0, Goes_on 0), (0, Goes_on 0),
      (1, Page_gone ''k1''), (1, Goes_on 0), (1, Goes_on 0), (2, Enters ''k2'' ''posts'' ann), (2, Goes_on 1), (2, Goes_on 1),
      (2, Goes_on 1), (3, Goes_on 0)]"

lemma news_may_cross:
  "case page_run (local_presence (\<lambda>u. Inr ''null'')) demo_members 0 demo_crossing new_site of (s, w) \<Rightarrow>
     map ev_name (sub_events (hub_heap (ph_hub s) ! 0)) = [''presence.joined'', ''presence.joined'', ''presence.left''] \<and>
     nothing_told ''posts'' s \<and> map_sum id (map mb_id) (hub_here (local_presence (\<lambda>u. Inr ''null'')) ''posts'' 4 s) = Inr [''ann'']"
  by code_simp

end
