(* ===== verification/Signed_Parts.thy ===== *)
theory Signed_Parts
  imports Go_Prelude
begin

text \<open>
  What the app's signatures are over: a storage link's (storage/local.go), a link's of the app's own
  (links.go) and a token's (auth/tokens.go) all write each part with its length before it, so that no two
  lists of parts read the same.
\<close>

definition part_text :: "string \<Rightarrow> string" where
  "part_text p = itoa (int (length p)) @ CHR '':'' # p"

definition parts_text :: "string list \<Rightarrow> string" where
  "parts_text ps = concat (map part_text ps)"

lemma part_text_inj:
  assumes "part_text p @ s = part_text p' @ s'"
  shows "p = p' \<and> s = s'"
proof -
  have c: "cut CHR '':'' (part_text x @ y) = (itoa (int (length x)), x @ y, True)" for x y
    unfolding part_text_def by (simp add: cut_found)
  from assms have "cut CHR '':'' (part_text p @ s) = cut CHR '':'' (part_text p' @ s')" by simp
  then have "length p = length p'" "p @ s = p' @ s'" unfolding c by simp_all
  then show ?thesis by simp
qed

lemma parts_text_inj: "parts_text ps = parts_text qs \<longleftrightarrow> ps = qs"
proof (induction ps arbitrary: qs)
  case Nil
  show ?case by (cases qs) (simp_all add: parts_text_def part_text_def)
next
  case (Cons p ps)
  show ?case
  proof (cases qs)
    case Nil
    then show ?thesis by (simp add: parts_text_def part_text_def)
  next
    case (Cons q qs')
    have "parts_text (p # ps) = parts_text qs \<longleftrightarrow> p = q \<and> parts_text ps = parts_text qs'"
      using part_text_inj [of p "parts_text ps" q "parts_text qs'"] Cons by (auto simp: parts_text_def)
    with Cons Cons.IH show ?thesis by simp
  qed
qed

end
