(* ===== verification/Urls.thy ===== *)
theory Urls
  imports Base64
begin

text \<open>
  The parts of net/url the code writes links and reads requests with, and the escaping of package
  storage: what is escaped reads back as it was, in a path and in a query.
\<close>

definition slash :: char where "slash = CHR ''/''"

section \<open>Escaping\<close>

definition unreserved :: "char \<Rightarrow> bool" where
  "unreserved c \<longleftrightarrow> is_upper c \<or> is_lower c \<or> is_digit c \<or> c \<in> set ''-._~''"

definition hex_digit :: "nat \<Rightarrow> char" where
  "hex_digit n = ''0123456789ABCDEF'' ! n"

definition percent :: "char \<Rightarrow> string" where
  "percent c = CHR ''%'' # hex_digit (of_char c div 16) # [hex_digit (of_char c mod 16)]"

definition escape_text :: "string \<Rightarrow> bool \<Rightarrow> string" where
  "escape_text s keep_slash =
     concat (map (\<lambda>c. if unreserved c \<or> c = slash \<and> keep_slash then [c] else percent c) s)"

definition escape_key :: "string \<Rightarrow> string" where
  "escape_key key = join_with ''/'' (map (\<lambda>p. escape_text p False) (split_on slash key))"

text \<open>\<open>url.QueryEscape\<close>, and \<open>url.Values.Encode\<close> of values in the order of their names.\<close>

definition query_escape :: "string \<Rightarrow> string" where
  "query_escape s = concat (map (\<lambda>c. if unreserved c then [c] else if c = CHR '' '' then ''+'' else percent c) s)"

definition query_encode :: "(string \<times> string) list \<Rightarrow> string" where
  "query_encode q = join_with ''&'' (map (\<lambda>(k, v). query_escape k @ ''='' @ query_escape v) q)"

text \<open>\<open>url.Values.Get\<close>.\<close>

type_synonym url_values = "(string, string list) gomap"

definition q_get :: "string \<Rightarrow> url_values \<Rightarrow> string" where
  "q_get k q = (case lookup q k of Some (v # vs) \<Rightarrow> v | _ \<Rightarrow> [])"

section \<open>The request a link makes\<close>

text \<open>\<open>url.PathUnescape\<close> and \<open>QueryUnescape\<close>, and \<open>URL.Query\<close>, which passes over what does not parse.\<close>

definition unhex :: "char \<Rightarrow> nat option" where
  "unhex c =
     (let n = of_char c in
      if is_digit c then Some (n - 48)
      else if 65 \<le> n \<and> n \<le> 70 then Some (n - 55)
      else if 97 \<le> n \<and> n \<le> 102 then Some (n - 87) else None)"

fun url_unescape :: "bool \<Rightarrow> string \<Rightarrow> string option" where
  "url_unescape spaces [] = Some []"
| "url_unescape spaces (c # cs) =
     (if c = CHR ''%'' then
        (case cs of
           a # b # rest \<Rightarrow>
             (case (unhex a, unhex b) of
                (Some x, Some y) \<Rightarrow> map_option ((#) (char_of (16 * x + y))) (url_unescape spaces rest)
              | _ \<Rightarrow> None)
         | _ \<Rightarrow> None)
      else map_option ((#) (if spaces \<and> c = CHR ''+'' then CHR '' '' else c)) (url_unescape spaces cs))"

definition add_value :: "string \<Rightarrow> string \<Rightarrow> url_values \<Rightarrow> url_values" where
  "add_value k v q = put k ((case lookup q k of None \<Rightarrow> [] | Some vs \<Rightarrow> vs) @ [v]) q"

definition parse_query :: "string \<Rightarrow> url_values" where
  "parse_query text =
     foldl (\<lambda>q w.
         if w = [] \<or> CHR '';'' \<in> set w then q
         else case cut CHR ''='' w of (k, v, found) \<Rightarrow>
           (case (url_unescape True k, url_unescape True v) of (Some k', Some v') \<Rightarrow> add_value k' v' q | _ \<Rightarrow> q))
       [] (split_on CHR ''&'' text)"

lemma map_option_append_Nil [simp]: "map_option ((@) []) x = x"
  by (cases x) simp_all

lemma unhex_digit: "n < 16 \<Longrightarrow> unhex (hex_digit n) = Some n"
proof -
  have "list_all (\<lambda>n. unhex (hex_digit n) = Some n) [0..<16]" by code_simp
  then show "n < 16 \<Longrightarrow> ?thesis" by (simp add: list_all_iff)
qed

lemma unescape_percent: "url_unescape spaces (percent c @ t) = map_option ((#) c) (url_unescape spaces t)"
proof -
  have "(of_char c :: nat) div 16 < 16" using nat_of_char_less_256 [of c] by linarith
  then have "unhex (hex_digit (of_char c div 16)) = Some (of_char c div 16)"
    "unhex (hex_digit (of_char c mod 16)) = Some (of_char c mod 16)" by (simp_all add: unhex_digit)
  moreover have "char_of (16 * (of_char c div 16) + of_char c mod 16 :: nat) = c" by simp
  ultimately show ?thesis by (simp add: percent_def)
qed

lemma unreserved_plain: "unreserved c \<Longrightarrow> c \<noteq> CHR ''%'' \<and> c \<noteq> CHR ''+'' \<and> c \<noteq> CHR ''?'' \<and> c \<noteq> CHR ''&'' \<and> c \<noteq> CHR '';'' \<and> c \<noteq> CHR ''=''"
  by (auto simp: unreserved_def is_upper_def is_lower_def is_digit_def)

lemma unescape_plain:
  "list_all (\<lambda>c. unreserved c \<or> c = slash) s \<Longrightarrow> url_unescape spaces (s @ t) = map_option ((@) s) (url_unescape spaces t)"
proof (induction s)
  case (Cons c s)
  then have "c \<noteq> CHR ''%'' \<and> c \<noteq> CHR ''+''" using unreserved_plain [of c] by (auto simp: slash_def)
  with Cons show ?case by (simp add: option.map_comp comp_def)
qed (simp add: option.map_ident)

lemma unescape_text: "url_unescape spaces (escape_text s keep @ t) = map_option ((@) s) (url_unescape spaces t)"
proof (induction s)
  case (Cons c s)
  have e: "escape_text (c # s) keep = (if unreserved c \<or> c = slash \<and> keep then [c] else percent c) @ escape_text s keep"
    by (simp add: escape_text_def)
  show ?case
  proof (cases "unreserved c \<or> c = slash \<and> keep")
    case True
    then have "list_all (\<lambda>c. unreserved c \<or> c = slash) [c]" by auto
    from unescape_plain [OF this, of spaces "escape_text s keep @ t"] True Cons e show ?thesis
      by (simp add: option.map_comp comp_def)
  next
    case False
    with Cons e show ?thesis by (simp add: unescape_percent option.map_comp comp_def)
  qed
qed (simp add: escape_text_def option.map_ident)

lemma unescape_key: "url_unescape spaces (escape_key key @ t) = map_option ((@) key) (url_unescape spaces t)"
proof -
  have "url_unescape spaces (join_with ''/'' (map (\<lambda>p. escape_text p False) ws) @ t) =
      map_option ((@) (join_with ''/'' ws)) (url_unescape spaces t)" for ws
  proof (induction ws rule: induct_list012)
    case (3 w w' ws)
    have "url_unescape spaces (CHR ''/'' # u) = map_option ((#) (CHR ''/'')) (url_unescape spaces u)" for u by simp
    with 3(2) show ?case by (simp add: unescape_text option.map_comp comp_def)
  qed (simp_all add: unescape_text option.map_ident)
  from this [of "split_on slash key"] show ?thesis
    using join_split_on [of slash key] by (simp add: escape_key_def slash_def)
qed

lemma b64_plain: "list_all unreserved (b64_encode s)"
proof -
  have "list_all unreserved url_alphabet" "length url_alphabet = 64"
    by (simp_all add: url_alphabet_def unreserved_def is_upper_def is_lower_def is_digit_def)
  then have "unreserved (b64_char n)" if "n < 64" for n using that by (simp add: b64_char_def list_all_length)
  moreover have "list_all (\<lambda>v. v < 64) (b64_sextets (map of_char s))"
    by (rule b64_sextets_small) (simp add: list_all_iff)
  ultimately show ?thesis by (auto simp: b64_encode_def list_all_iff)
qed

lemma itoa_plain: "list_all unreserved (itoa n)"
proof -
  have "list_all unreserved (nat_digits m)" for m
    using nat_digits_props [of m] by (auto simp: list_all_iff unreserved_def)
  then show ?thesis by (simp add: itoa_def unreserved_def)
qed

text \<open>The query of a link, as the route reads it.\<close>

lemma plain_unescape: "list_all unreserved s \<Longrightarrow> url_unescape spaces s = Some s"
  using unescape_plain [of s spaces "[]"] by (simp add: list_all_iff)

lemma unescape_query: "url_unescape True (query_escape s) = Some s"
proof (induction s)
  case (Cons c s)
  have e: "query_escape (c # s) = (if unreserved c then [c] else if c = CHR '' '' then ''+'' else percent c) @ query_escape s"
    by (simp add: query_escape_def)
  show ?case
  proof (cases "unreserved c")
    case True
    with Cons e show ?thesis using unreserved_plain [OF True] by simp
  next
    case False
    with Cons e show ?thesis by (simp add: unescape_percent)
  qed
qed (simp add: query_escape_def)

lemma percent_chars:
  assumes "c \<in> set (percent x)"
  shows "c \<noteq> CHR ''?'' \<and> c \<noteq> CHR ''&'' \<and> c \<noteq> CHR '';'' \<and> c \<noteq> CHR ''=''"
proof -
  have hex: "hex_digit n \<in> set ''0123456789ABCDEF''" if "n < 16" for n
    unfolding hex_digit_def by (rule nth_mem) (use that in auto)
  have "(of_char x :: nat) div 16 < 16" using nat_of_char_less_256 [of x] by linarith
  note d = hex [OF this] hex [of "of_char x mod 16"]
  from assms have "c = CHR ''%'' \<or> c = hex_digit (of_char x div 16) \<or> c = hex_digit (of_char x mod 16)"
    by (simp add: percent_def)
  with d have "c = CHR ''%'' \<or> c \<in> set ''0123456789ABCDEF''" by (elim disjE) simp_all
  then show ?thesis by auto
qed

lemma query_escape_chars:
  assumes "c \<in> set (query_escape s)"
  shows "c \<noteq> CHR ''&'' \<and> c \<noteq> CHR '';'' \<and> c \<noteq> CHR ''=''"
proof -
  from assms obtain x where "c \<in> set (if unreserved x then [x] else if x = CHR '' '' then ''+'' else percent x)"
    unfolding query_escape_def set_concat set_map by blast
  then consider "unreserved c" | "c = CHR ''+''" | "c \<in> set (percent x)" by (auto split: if_splits)
  then show ?thesis using unreserved_plain [of c] percent_chars [of c x] by cases auto
qed

lemma plain_query_escape: "list_all unreserved s \<Longrightarrow> query_escape s = s"
  by (induction s) (simp_all add: query_escape_def)

text \<open>Parsing what was encoded, one pair at a time.\<close>

definition query_part :: "string \<Rightarrow> string \<Rightarrow> string" where
  "query_part k v = query_escape k @ CHR ''='' # query_escape v"

lemma query_encode_parts: "query_encode q = join_with ''&'' (map (\<lambda>(k, v). query_part k v) q)"
  by (simp add: query_encode_def query_part_def)

definition read_part :: "url_values \<Rightarrow> string \<Rightarrow> url_values" where
  "read_part q w =
     (if w = [] \<or> CHR '';'' \<in> set w then q
      else case cut CHR ''='' w of (k, v, found) \<Rightarrow>
        (case (url_unescape True k, url_unescape True v) of (Some k', Some v') \<Rightarrow> add_value k' v' q | _ \<Rightarrow> q))"

lemma parse_query_parts: "parse_query text = foldl read_part [] (split_on CHR ''&'' text)"
  by (simp add: parse_query_def read_part_def [abs_def])

lemma read_query_part: "read_part q (query_part k v) = add_value k v q"
proof -
  have "cut CHR ''='' (query_part k v) = (query_escape k, query_escape v, True)"
    unfolding query_part_def by (rule cut_found) (use query_escape_chars in blast)
  moreover have "CHR '';'' \<notin> set (query_part k v)"
    using query_escape_chars by (auto simp: query_part_def)
  ultimately show ?thesis by (simp add: read_part_def query_part_def unescape_query)
qed

lemma split_query: "q \<noteq> [] \<Longrightarrow> split_on CHR ''&'' (query_encode q) = map (\<lambda>(k, v). query_part k v) q"
proof (induction q)
  case (Cons kv q)
  obtain k v where kv: "kv = (k, v)" by fastforce
  have "CHR ''&'' \<notin> set (query_part k v)" using query_escape_chars by (auto simp: query_part_def)
  with Cons kv show ?case
    by (cases q) (simp_all add: query_encode_parts split_on_single split_on_append)
qed simp

lemma parse_query_encode: "q \<noteq> [] \<Longrightarrow> parse_query (query_encode q) = foldl (\<lambda>m (k, v). add_value k v m) [] q"
  by (simp add: parse_query_parts split_query foldl_map case_prod_unfold read_query_part)

lemma parse_link_query:
  assumes "list_all unreserved u" "list_all unreserved sig"
  shows "parse_query (''expires='' @ u @ ''&signature='' @ sig) = [(''expires'', [u]), (''signature'', [sig])]"
proof -
  have "query_encode [(''expires'', u), (''signature'', sig)] = ''expires='' @ u @ ''&signature='' @ sig"
    using plain_query_escape [OF assms(1)] plain_query_escape [OF assms(2)]
      plain_query_escape [of "''expires''"] plain_query_escape [of "''signature''"]
    by (simp add: query_encode_def unreserved_def is_lower_def)
  from parse_query_encode [of "[(''expires'', u), (''signature'', sig)]"] this show ?thesis
    by (simp add: add_value_def)
qed

end
