(* ===== verification/Storage.thy ===== *)
theory Storage
  imports Urls Utf8
begin

text \<open>
  Package storage's local disk (storage/local.go), with the keys and the helpers of storage/storage.go:
  files kept by key in a directory. What it uses of \<open>os.Root\<close> is a tree of directories and files, in
  which the operating system refuses what the tree refuses and nothing else: a full disk and its like are
  not modelled. A call is one step: what another sees of a file being put is not modelled.
\<close>

section \<open>Keys\<close>

text \<open>\<open>fs.ValidPath\<close>.\<close>

definition valid_path :: "string \<Rightarrow> bool" where
  "valid_path name \<longleftrightarrow> utf8_valid name \<and>
     (name = ''.'' \<or> list_all (\<lambda>w. w \<noteq> [] \<and> w \<noteq> ''.'' \<and> w \<noteq> ''..'') (split_on slash name))"

definition check_key :: "string \<Rightarrow> bool" where
  "check_key key \<longleftrightarrow> valid_path key \<and> key \<noteq> ''.'' \<and> \<not> contains_any key [CHR 0x5C, CHR 0x00]"

definition list_prefix :: "string \<Rightarrow> string option" where
  "list_prefix prefix =
     (let dir = (if has_suffix prefix ''/'' then butlast prefix else prefix)
      in if dir = [] then Some [] else if check_key dir then Some dir else None)"

type_synonym path = "string list"

definition key_path :: "string \<Rightarrow> path" where
  "key_path key = split_on slash key"

definition path_key :: "path \<Rightarrow> string" where
  "path_key p = join_with ''/'' p"

lemma path_key_path [simp]: "path_key (key_path key) = key"
  using join_split_on [of slash key] by (simp add: path_key_def key_path_def slash_def)

lemma key_path_nonempty [simp]: "key_path key \<noteq> []"
  by (simp add: key_path_def)

lemma key_path_inj [simp]: "key_path k = key_path k' \<longleftrightarrow> k = k'"
  by (metis path_key_path)

section \<open>A directory's tree\<close>

datatype node = Dir | File (node_bytes: string) (node_at: instant)

type_synonym tree = "(path, node) gomap"

datatype disk_error =
  Bad_key | No_dir_set | Bad_size | Not_exist | Not_dir | Is_dir | Not_empty | Exists | Cut_short | Read_failed

text \<open>What is at a path. The root is a directory, which the tree does not name.\<close>

definition tree_at :: "tree \<Rightarrow> path \<Rightarrow> node option" where
  "tree_at t p = (if p = [] then Some Dir else lookup t p)"

text \<open>A lookup goes down the path, and stops at what is not there, or at a file with more to go.\<close>

fun walk_to :: "tree \<Rightarrow> path \<Rightarrow> path \<Rightarrow> disk_error + node" where
  "walk_to t at [] = (case tree_at t at of None \<Rightarrow> Inl Not_exist | Some n \<Rightarrow> Inr n)"
| "walk_to t at (x # xs) =
     (case tree_at t at of
        None \<Rightarrow> Inl Not_exist
      | Some (File b m) \<Rightarrow> Inl Not_dir
      | Some Dir \<Rightarrow> walk_to t (at @ [x]) xs)"

text \<open>\<open>MkdirAll\<close>.\<close>

fun mkdirs :: "tree \<Rightarrow> path \<Rightarrow> path \<Rightarrow> disk_error option \<times> tree" where
  "mkdirs t at [] = (None, t)"
| "mkdirs t at (x # xs) =
     (case tree_at t (at @ [x]) of
        None \<Rightarrow> mkdirs (put (at @ [x]) Dir t) (at @ [x]) xs
      | Some Dir \<Rightarrow> mkdirs t (at @ [x]) xs
      | Some (File b m) \<Rightarrow> (Some Not_dir, t))"

text \<open>\<open>Rename\<close> of a file, in place of a file but not of a directory; and \<open>Remove\<close>.\<close>

definition rename_file :: "tree \<Rightarrow> path \<Rightarrow> path \<Rightarrow> disk_error option \<times> tree" where
  "rename_file t from to =
     (case (tree_at t from, tree_at t to) of
        (Some (File b m), Some Dir) \<Rightarrow> (Some Is_dir, t)
      | (Some (File b m), _) \<Rightarrow> (None, put to (File b m) (del from t))
      | _ \<Rightarrow> (Some Not_exist, t))"

definition has_children :: "tree \<Rightarrow> path \<Rightarrow> bool" where
  "has_children t p = list_ex (\<lambda>(q, n). q \<noteq> [] \<and> butlast q = p) t"

definition remove_at :: "tree \<Rightarrow> path \<Rightarrow> disk_error option \<times> tree" where
  "remove_at t p =
     (case walk_to t [] p of
        Inl e \<Rightarrow> (Some e, t)
      | Inr n \<Rightarrow> if n = Dir \<and> has_children t p then (Some Not_empty, t) else (None, del p t))"

section \<open>The disk\<close>

text \<open>\<open>dk_dir\<close> is Local.Dir, \<open>dk_made\<close> whether that directory is there.\<close>

record disk =
  dk_dir :: string
  dk_made :: bool
  dk_tree :: tree

definition new_disk :: "string \<Rightarrow> disk" where
  "new_disk dir = \<lparr>dk_dir = dir, dk_made = False, dk_tree = []\<rparr>"

definition disk_root :: "bool \<Rightarrow> disk \<Rightarrow> disk_error + disk" where
  "disk_root create d =
     (if dk_dir d = [] then Inl No_dir_set
      else if create then Inr (d\<lparr>dk_made := True\<rparr>)
      else if dk_made d then Inr d else Inl Not_exist)"

text \<open>A reader of bytes, which may fail where they end; and \<open>exactly\<close>, copied from to its end.\<close>

record reader =
  rd_bytes :: string
  rd_fails :: bool

definition read_exactly :: "nat \<Rightarrow> reader \<Rightarrow> disk_error + string" where
  "read_exactly sz r =
     (if sz \<le> length (rd_bytes r) then Inr (take sz (rd_bytes r))
      else Inl (if rd_fails r then Read_failed else Cut_short))"

definition putting :: string where "putting = ''.put-''"

text \<open>\<open>Put\<close>, with the text it draws for the name the file is written under, in lower case.\<close>

definition put_path :: "string \<Rightarrow> string \<Rightarrow> path" where
  "put_path key rnd = butlast (key_path key) @ [putting @ rnd]"

definition put_tree :: "instant \<Rightarrow> string \<Rightarrow> string \<Rightarrow> reader \<Rightarrow> nat \<Rightarrow> tree \<Rightarrow> disk_error option \<times> tree" where
  "put_tree now rnd key r sz t =
     (case mkdirs t [] (butlast (key_path key)) of
        (Some e, t1) \<Rightarrow> (Some e, t1)
      | (None, t1) \<Rightarrow>
          if tree_at t1 (put_path key rnd) \<noteq> None then (Some Exists, t1)
          else (case read_exactly sz r of
              Inl e \<Rightarrow> (Some e, t1)
            | Inr bytes \<Rightarrow>
                (case rename_file (put (put_path key rnd) (File bytes now) t1) (put_path key rnd) (key_path key) of
                   (None, t2) \<Rightarrow> (None, t2)
                 | (Some e, t2) \<Rightarrow> (Some e, del (put_path key rnd) t2))))"

definition local_put :: "instant \<Rightarrow> string \<Rightarrow> string \<Rightarrow> reader \<Rightarrow> int \<Rightarrow> disk \<Rightarrow> disk_error option \<times> disk" where
  "local_put now rnd key r sz d =
     (if \<not> check_key key then (Some Bad_key, d)
      else if sz < 0 then (Some Bad_size, d)
      else case disk_root True d of
        Inl e \<Rightarrow> (Some e, d)
      | Inr d1 \<Rightarrow> (case put_tree now rnd key r (nat sz) (dk_tree d1) of (e, t) \<Rightarrow> (e, d1\<lparr>dk_tree := t\<rparr>)))"

text \<open>\<open>open\<close>: the file's bytes and when it was written. A directory is not there.\<close>

definition open_file :: "string \<Rightarrow> disk \<Rightarrow> disk_error + string \<times> instant" where
  "open_file key d =
     (case disk_root False d of
        Inl e \<Rightarrow> Inl e
      | Inr d1 \<Rightarrow> (case walk_to (dk_tree d1) [] (key_path key) of
          Inl e \<Rightarrow> Inl e | Inr Dir \<Rightarrow> Inl Not_exist | Inr (File b m) \<Rightarrow> Inr (b, m)))"

definition local_open :: "string \<Rightarrow> disk \<Rightarrow> disk_error + string" where
  "local_open key d = (if \<not> check_key key then Inl Bad_key else map_sum id fst (open_file key d))"

definition local_delete :: "string \<Rightarrow> disk \<Rightarrow> disk_error option \<times> disk" where
  "local_delete key d =
     (if \<not> check_key key then (Some Bad_key, d)
      else case disk_root False d of
        Inl e \<Rightarrow> (if e = Not_exist then None else Some e, d)
      | Inr d1 \<Rightarrow> (case remove_at (dk_tree d1) (key_path key) of
          (e, t) \<Rightarrow> (if e = Some Not_exist then None else e, d1\<lparr>dk_tree := t\<rparr>)))"

record entry =
  en_key :: string
  en_size :: nat
  en_at :: instant

text \<open>What \<open>List\<close>'s walk yields of a path under the directory it is of. Disks promise no order.\<close>

definition listed :: "path \<Rightarrow> path \<times> node \<Rightarrow> entry option" where
  "listed dir = (\<lambda>(p, n).
     case n of
       Dir \<Rightarrow> None
     | File b m \<Rightarrow> if take (length dir) p = dir \<and> p \<noteq> dir \<and> \<not> has_prefix (List.last p) putting
         then Some \<lparr>en_key = path_key p, en_size = length b, en_at = m\<rparr> else None)"

definition local_list :: "string \<Rightarrow> disk \<Rightarrow> disk_error + entry list" where
  "local_list prefix d =
     (case list_prefix prefix of
        None \<Rightarrow> Inl Bad_key
      | Some dir \<Rightarrow>
          (case disk_root False d of
             Inl e \<Rightarrow> if e = Not_exist then Inr [] else Inl e
           | Inr d1 \<Rightarrow>
               let at = (if dir = [] then [] else key_path dir)
               in case walk_to (dk_tree d1) [] at of
                    Inl e \<Rightarrow> if e = Not_exist then Inr [] else Inl e
                  | Inr (File b m) \<Rightarrow> Inr []
                  | Inr Dir \<Rightarrow> Inr (List.map_filter (listed at) (dk_tree d1))))"

definition local_copy :: "instant \<Rightarrow> string \<Rightarrow> string \<Rightarrow> string \<Rightarrow> disk \<Rightarrow> disk_error option \<times> disk" where
  "local_copy now rnd from to d =
     (if \<not> check_key from then (Some Bad_key, d)
      else if from = to then (None, d)
      else case open_file from d of
        Inl e \<Rightarrow> (Some e, d)
      | Inr (b, m) \<Rightarrow> local_put now rnd to \<lparr>rd_bytes = b, rd_fails = False\<rparr> (int (length b)) d)"

definition local_move :: "string \<Rightarrow> string \<Rightarrow> disk \<Rightarrow> disk_error option \<times> disk" where
  "local_move from to d =
     (if \<not> check_key from \<or> \<not> check_key to then (Some Bad_key, d)
      else if from = to then (None, d)
      else case disk_root False d of
        Inl e \<Rightarrow> (Some e, d)
      | Inr d1 \<Rightarrow>
          (case walk_to (dk_tree d1) [] (key_path from) of
             Inl e \<Rightarrow> (Some e, d1)
           | Inr Dir \<Rightarrow> (Some Not_exist, d1)
           | Inr (File b m) \<Rightarrow>
               (case mkdirs (dk_tree d1) [] (butlast (key_path to)) of
                  (Some e, t) \<Rightarrow> (Some e, d1\<lparr>dk_tree := t\<rparr>)
                | (None, t) \<Rightarrow> (case rename_file t (key_path from) (key_path to) of (e, t2) \<Rightarrow> (e, d1\<lparr>dk_tree := t2\<rparr>)))))"

section \<open>What the tree keeps\<close>

definition plain_path :: "path \<Rightarrow> bool" where
  "plain_path p \<longleftrightarrow> list_all (\<lambda>w. slash \<notin> set w) p"

definition tree_ok :: "tree \<Rightarrow> bool" where
  "tree_ok t \<longleftrightarrow> gomap_ok t \<and>
     (\<forall>p n. lookup t p = Some n \<longrightarrow> p \<noteq> [] \<and> tree_at t (butlast p) = Some Dir \<and> plain_path p)"

lemma tree_at_root [simp]: "tree_at t [] = Some Dir"
  by (simp add: tree_at_def)

lemma plain_path_simps [simp]:
  "plain_path []" "plain_path (p @ q) \<longleftrightarrow> plain_path p \<and> plain_path q" "plain_path (x # q) \<longleftrightarrow> slash \<notin> set x \<and> plain_path q"
  by (simp_all add: plain_path_def)

lemma plain_butlast [simp]: "plain_path p \<Longrightarrow> plain_path (butlast p)"
  by (auto simp: plain_path_def list_all_iff dest: in_set_butlastD)

lemma plain_key_path [simp]: "plain_path (key_path key)"
  using split_on_no_sep by (auto simp: plain_path_def key_path_def list_all_iff)

lemma key_path_key: "p \<noteq> [] \<Longrightarrow> plain_path p \<Longrightarrow> key_path (path_key p) = p"
proof (induction p)
  case (Cons x xs)
  then show ?case
    by (cases xs) (auto simp: key_path_def path_key_def slash_def split_on_single split_on_append)
qed simp

definition file_at :: "tree \<Rightarrow> path \<Rightarrow> (string \<times> instant) option" where
  "file_at t p = (case tree_at t p of Some (File b m) \<Rightarrow> Some (b, m) | _ \<Rightarrow> None)"

lemma tree_okD:
  assumes "tree_ok t"
  shows "gomap_ok t" "lookup t p = Some n \<Longrightarrow> p \<noteq> []" "lookup t p = Some n \<Longrightarrow> tree_at t (butlast p) = Some Dir"
    "lookup t p = Some n \<Longrightarrow> plain_path p"
  using assms by (auto simp: tree_ok_def)

lemma tree_at_put: "p \<noteq> [] \<Longrightarrow> tree_at (put p n t) q = (if q = p then Some n else tree_at t q)"
  by (simp add: tree_at_def)

lemma tree_at_del: "p \<noteq> [] \<Longrightarrow> tree_at (del p t) q = (if q = p then None else tree_at t q)"
  by (simp add: tree_at_def)

lemma tree_parents:
  assumes "tree_ok t" "tree_at t (p @ q) = Some n" "q \<noteq> []"
  shows "tree_at t p = Some Dir"
  using assms(2,3)
proof (induction q arbitrary: n rule: rev_induct)
  case (snoc x q)
  then have "tree_at t (p @ q) = Some Dir"
    using tree_okD(3) [OF assms(1), of "p @ q @ [x]" n] by (simp add: tree_at_def butlast_append)
  with snoc.IH show ?case by (cases "q = []") auto
qed simp

lemma walk_to_found:
  assumes "tree_ok t"
  shows "walk_to t at p = Inr n \<longleftrightarrow> tree_at t (at @ p) = Some n"
proof (induction p arbitrary: at)
  case Nil
  then show ?case by (auto split: option.splits)
next
  case (Cons x xs)
  have "tree_at t at = Some Dir" if "tree_at t (at @ x # xs) = Some n" using tree_parents [OF assms that] by simp
  with Cons.IH [of "at @ [x]"] show ?case by (auto split: option.splits node.splits)
qed

lemma tree_ok_put:
  assumes "tree_ok t" "p \<noteq> []" "tree_at t (butlast p) = Some Dir" "tree_at t p \<noteq> Some Dir" "plain_path p"
  shows "tree_ok (put p n t)"
proof -
  have "p \<noteq> butlast p" using assms(2) by (metis append_butlast_last_id append_self_conv not_Cons_self2)
  moreover have "butlast q \<noteq> p" if "lookup t q = Some n'" for q n' using tree_okD(3) [OF assms(1) that] assms(4) by auto
  ultimately show ?thesis
    using assms tree_okD [OF assms(1)] unfolding tree_ok_def
    by (auto simp: tree_at_put split: if_splits)
qed

lemma no_children:
  assumes "tree_ok t" "\<not> has_children t p" "lookup t q = Some n"
  shows "butlast q \<noteq> p"
  using assms(2) lookup_in_set [OF assms(3)] tree_okD(2) [OF assms(1,3)] by (auto simp: has_children_def list_ex_iff)

lemma file_has_no_children:
  assumes "tree_ok t" "tree_at t p = Some (File b m)"
  shows "\<not> has_children t p"
proof
  assume "has_children t p"
  then obtain q n where "(q, n) \<in> set t" "q \<noteq> []" "butlast q = p" by (auto simp: has_children_def list_ex_iff)
  with tree_okD(1) [OF assms(1)] have "lookup t q = Some n" by (simp add: map_of_eq_Some_iff)
  from tree_okD(3) [OF assms(1) this] \<open>butlast q = p\<close> assms(2) show False by simp
qed

lemma tree_ok_del:
  assumes "tree_ok t" "p \<noteq> []" "\<not> has_children t p"
  shows "tree_ok (del p t)"
proof -
  have "q \<noteq> [] \<and> tree_at (del p t) (butlast q) = Some Dir \<and> plain_path q" if "lookup (del p t) q = Some n" for q n
  proof -
    from that have q: "lookup t q = Some n" by (simp split: if_splits)
    from tree_okD(2,3,4) [OF assms(1) q] no_children [OF assms(1,3) q] show ?thesis
      using assms(2) by (simp add: tree_at_del)
  qed
  with tree_okD(1) [OF assms(1)] show ?thesis by (simp add: tree_ok_def)
qed

lemma mkdirs_keeps:
  assumes "mkdirs t at p = (e, t1)" "tree_ok t" "tree_at t at = Some Dir" "plain_path (at @ p)"
  shows "tree_ok t1 \<and> (\<forall>q. file_at t1 q = file_at t q) \<and> (\<forall>q. tree_at t q \<noteq> None \<longrightarrow> tree_at t1 q = tree_at t q) \<and>
    (e = None \<longrightarrow> tree_at t1 (at @ p) = Some Dir)"
  using assms
proof (induction t at p rule: mkdirs.induct)
  case (1 t at)
  then show ?case by simp
next
  case (2 t at x xs)
  let ?p = "at @ [x]"
  show ?case
  proof (cases "tree_at t ?p")
    case None
    let ?t = "put ?p Dir t"
    have ok: "tree_ok ?t" using tree_ok_put [of t ?p Dir] 2(4,5,6) None by simp
    have "tree_at ?t ?p = Some Dir" by (simp add: tree_at_put)
    with 2(1) [OF None _ ok] 2(3,6) None
    have *: "tree_ok t1" "\<forall>q. file_at t1 q = file_at ?t q" "\<forall>q. tree_at ?t q \<noteq> None \<longrightarrow> tree_at t1 q = tree_at ?t q"
      "e = None \<longrightarrow> tree_at t1 (?p @ xs) = Some Dir" by simp_all
    moreover have "file_at ?t q = file_at t q" for q using None by (simp add: file_at_def tree_at_put)
    moreover have "tree_at t q \<noteq> None \<longrightarrow> tree_at t1 q = tree_at t q" for q
      using *(3) None by (cases "q = ?p") (auto simp: tree_at_put)
    ultimately show ?thesis by simp
  next
    case (Some n)
    with 2 show ?thesis by (cases n) auto
  qed
qed

lemma rename_keeps:
  assumes "rename_file t from to = (e, t1)" "tree_ok t" "from \<noteq> []" "to \<noteq> []" "tree_at t (butlast to) = Some Dir"
    and "tree_at t from = Some (File b m)" "plain_path to"
  shows "tree_ok t1 \<and> (e = None \<longrightarrow> (\<forall>q. file_at t1 q = (if q = to then Some (b, m) else if q = from then None else file_at t q))) \<and>
    (e \<noteq> None \<longrightarrow> t1 = t)"
proof (cases "tree_at t to = Some Dir")
  case True
  with assms show ?thesis by (auto simp: rename_file_def)
next
  case False
  then have t1: "t1 = put to (File b m) (del from t)" "e = None"
    using assms(1,6) by (auto simp: rename_file_def split: option.splits node.splits)
  have ok: "tree_ok (del from t)"
    using tree_ok_del [OF assms(2,3)] file_has_no_children [OF assms(2,6)] by simp
  have "from \<noteq> butlast to" using assms(5,6) by auto
  then have "tree_at (del from t) (butlast to) = Some Dir" using assms(3,5) by (simp add: tree_at_del)
  moreover have "tree_at (del from t) to \<noteq> Some Dir" using False assms(3) by (simp add: tree_at_del)
  ultimately have "tree_ok t1" using tree_ok_put [OF ok assms(4)] assms(7) t1 by simp
  with t1 assms(3,4) show ?thesis by (auto simp: file_at_def tree_at_put tree_at_del)
qed

section \<open>The disk is a map from keys to files\<close>

definition disk_ok :: "disk \<Rightarrow> bool" where
  "disk_ok d \<longleftrightarrow> tree_ok (dk_tree d) \<and> (\<not> dk_made d \<longrightarrow> dk_tree d = [])"

text \<open>The files of a disk, as its keys name them.\<close>

definition files :: "disk \<Rightarrow> string \<Rightarrow> (string \<times> instant) option" where
  "files d key = file_at (dk_tree d) (key_path key)"

lemma new_disk_ok: "disk_ok (new_disk dir)"
  by (simp add: disk_ok_def new_disk_def tree_ok_def)

lemma files_None: "disk_ok d \<Longrightarrow> \<not> dk_made d \<Longrightarrow> files d key = None"
  by (simp add: disk_ok_def files_def file_at_def tree_at_def)

lemma put_tree_keeps:
  assumes "put_tree now rnd key r n t = (e, t1)" "tree_ok t" "slash \<notin> set rnd"
  shows "tree_ok t1 \<and>
    (e = None \<longrightarrow> n \<le> length (rd_bytes r) \<and>
       (\<forall>q. file_at t1 q = (if q = key_path key then Some (take n (rd_bytes r), now) else file_at t q))) \<and>
    (e \<noteq> None \<longrightarrow> (\<forall>q. file_at t1 q = file_at t q))"
proof -
  obtain e0 t0 where m: "mkdirs t [] (butlast (key_path key)) = (e0, t0)" by fastforce
  have m0: "tree_ok t0" "\<And>q. file_at t0 q = file_at t q" "e0 = None \<Longrightarrow> tree_at t0 (butlast (key_path key)) = Some Dir"
    using mkdirs_keeps [OF m assms(2)] by auto
  show ?thesis
  proof (cases "e0 \<noteq> None \<or> tree_at t0 (put_path key rnd) \<noteq> None \<or> (\<exists>err. read_exactly n r = Inl err)")
    case True
    with assms(1) m have "t1 = t0" "e \<noteq> None" by (auto simp: put_tree_def split: option.splits sum.splits if_splits)
    with m0 show ?thesis by auto
  next
    case False
    then obtain bytes where b: "read_exactly n r = Inr bytes" by (cases "read_exactly n r") auto
    let ?tmp = "put_path key rnd"
    let ?t = "put ?tmp (File bytes now) t0"
    from False have dir: "tree_at t0 (butlast (key_path key)) = Some Dir" and tmp: "tree_at t0 ?tmp = None"
      using m0(3) by auto
    have tmp': "?tmp \<noteq> []" "butlast ?tmp = butlast (key_path key)" "plain_path ?tmp"
      using assms(3) by (auto simp: put_path_def putting_def slash_def)
    have ok: "tree_ok ?t" using tree_ok_put [OF m0(1) tmp'(1)] dir tmp tmp'(2,3) by simp
    have at: "tree_at ?t ?tmp = Some (File bytes now)" using tmp'(1) by (simp add: tree_at_put)
    have dir': "tree_at ?t (butlast (key_path key)) = Some Dir"
      using dir tmp tmp'(1) by (auto simp: tree_at_put)
    have fl: "file_at ?t q = (if q = ?tmp then Some (bytes, now) else file_at t q)" for q
      using m0(2) [of q] tmp'(1) by (auto simp: file_at_def tree_at_put)
    have gone: "file_at t ?tmp = None" using m0(2) [of ?tmp] tmp by (simp add: file_at_def)
    obtain e2 t2 where r: "rename_file ?t ?tmp (key_path key) = (e2, t2)" by fastforce
    note k = rename_keeps [OF r ok tmp'(1) key_path_nonempty dir' at plain_key_path]
    have bytes: "bytes = take n (rd_bytes r)" "n \<le> length (rd_bytes r)"
      using b by (auto simp: read_exactly_def split: if_splits)
    show ?thesis
    proof (cases e2)
      case None
      then have "t1 = t2" "e = None" using assms(1) m False b r by (auto simp: put_tree_def)
      with k None fl gone bytes show ?thesis by auto
    next
      case (Some err)
      then have t1: "t1 = del ?tmp ?t" "e \<noteq> None" using assms(1) m False b r k by (auto simp: put_tree_def)
      have "tree_ok t1" unfolding t1(1)
        using tree_ok_del [OF ok tmp'(1)] file_has_no_children [OF ok at] by blast
      moreover have "file_at t1 q = file_at t q" for q
        using fl [of q] gone tmp'(1) unfolding t1(1) by (auto simp: file_at_def tree_at_del)
      ultimately show ?thesis using t1(2) by auto
    qed
  qed
qed

lemma put_keeps:
  assumes "local_put now rnd key r n d = (e, d1)" "disk_ok d" "slash \<notin> set rnd"
  shows "disk_ok d1 \<and>
    (e = None \<longrightarrow> check_key key \<and> 0 \<le> n \<and> nat n \<le> length (rd_bytes r) \<and>
       files d1 = (files d)(key \<mapsto> (take (nat n) (rd_bytes r), now))) \<and>
    (e \<noteq> None \<longrightarrow> files d1 = files d)"
proof (cases "\<not> check_key key \<or> n < 0 \<or> dk_dir d = []")
  case True
  then have "d1 = d" "e \<noteq> None" using assms(1) by (auto simp: local_put_def disk_root_def split: if_splits)
  with assms(2) show ?thesis by auto
next
  case False
  obtain e1 t where p: "put_tree now rnd key r (nat n) (dk_tree d) = (e1, t)" by fastforce
  with False assms(1) have d1: "e = e1" "d1 = d\<lparr>dk_made := True, dk_tree := t\<rparr>"
    by (auto simp: local_put_def disk_root_def)
  from put_tree_keeps [OF p] assms(2,3) have "tree_ok t"
    "e1 = None \<longrightarrow> nat n \<le> length (rd_bytes r) \<and>
       (\<forall>q. file_at t q = (if q = key_path key then Some (take (nat n) (rd_bytes r), now) else file_at (dk_tree d) q))"
    "e1 \<noteq> None \<longrightarrow> (\<forall>q. file_at t q = file_at (dk_tree d) q)"
    by (simp_all add: disk_ok_def)
  with d1 False show ?thesis by (auto simp: disk_ok_def files_def fun_eq_iff)
qed

lemma open_file_files:
  assumes "disk_ok d" "dk_dir d \<noteq> []"
  shows "open_file key d = Inr bm \<longleftrightarrow> files d key = Some bm"
proof (cases "dk_made d")
  case True
  from assms(1) have "tree_ok (dk_tree d)" by (simp add: disk_ok_def)
  from walk_to_found [OF this, of "[]" "key_path key"] True assms(2) show ?thesis
    by (cases "walk_to (dk_tree d) [] (key_path key)")
      (auto simp: open_file_def disk_root_def files_def file_at_def split: node.splits option.splits)
next
  case False
  with files_None [OF assms(1) False] assms(2) show ?thesis by (simp add: open_file_def disk_root_def)
qed

lemma remove_keeps:
  assumes "remove_at t p = (e, t1)" "tree_ok t" "p \<noteq> []"
  shows "tree_ok t1 \<and> (e \<noteq> None \<longrightarrow> t1 = t) \<and> (e = None \<longrightarrow> (\<forall>q. file_at t1 q = (if q = p then None else file_at t q))) \<and>
    (e = Some Not_exist \<longrightarrow> file_at t p = None)"
proof (cases "walk_to t [] p")
  case (Inl err)
  have "tree_at t p = None" using walk_to_found [OF assms(2), of "[]" p] Inl by (cases "tree_at t p") auto
  with Inl assms show ?thesis by (simp add: remove_at_def file_at_def)
next
  case (Inr n)
  then have n: "tree_at t p = Some n" using walk_to_found [OF assms(2), of "[]" p] by simp
  show ?thesis
  proof (cases "n = Dir \<and> has_children t p")
    case True
    with Inr assms(1,2) show ?thesis by (auto simp: remove_at_def)
  next
    case False
    then have none: "\<not> has_children t p"
      using n file_has_no_children [OF assms(2), of p] by (cases n) auto
    from False Inr assms(1) have "e = None" "t1 = del p t" by (auto simp: remove_at_def)
    with tree_ok_del [OF assms(2,3) none] assms(3) show ?thesis by (auto simp: file_at_def tree_at_del)
  qed
qed

lemma delete_keeps:
  assumes "local_delete key d = (e, d1)" "disk_ok d"
  shows "disk_ok d1 \<and> (e = None \<longrightarrow> files d1 = (files d)(key := None)) \<and> (e \<noteq> None \<longrightarrow> files d1 = files d)"
proof (cases "check_key key \<and> dk_dir d \<noteq> [] \<and> dk_made d")
  case True
  obtain e1 t where r: "remove_at (dk_tree d) (key_path key) = (e1, t)" by fastforce
  with True assms(1) have d1: "e = (if e1 = Some Not_exist then None else e1)" "d1 = d\<lparr>dk_tree := t\<rparr>"
    by (auto simp: local_delete_def disk_root_def)
  from remove_keeps [OF r] assms(2) have "tree_ok t" "e1 \<noteq> None \<longrightarrow> t = dk_tree d"
    "e1 = None \<longrightarrow> (\<forall>q. file_at t q = (if q = key_path key then None else file_at (dk_tree d) q))"
    "e1 = Some Not_exist \<longrightarrow> file_at (dk_tree d) (key_path key) = None"
    by (simp_all add: disk_ok_def)
  with d1 True show ?thesis by (auto simp: disk_ok_def files_def fun_eq_iff)
next
  case False
  with assms files_None [OF assms(2)] show ?thesis
    by (auto simp: local_delete_def disk_root_def fun_eq_iff split: if_splits)
qed

lemma copy_keeps:
  assumes "local_copy now rnd from to d = (e, d1)" "disk_ok d" "slash \<notin> set rnd"
  shows "disk_ok d1 \<and>
    (e = None \<longrightarrow> files d1 = (if from = to then files d else (files d)(to := map_option (\<lambda>(b, m). (b, now)) (files d from))) \<and>
       (from \<noteq> to \<longrightarrow> files d from \<noteq> None)) \<and>
    (e \<noteq> None \<longrightarrow> files d1 = files d)"
proof (cases "check_key from \<and> from \<noteq> to \<and> (\<exists>bm. open_file from d = Inr bm)")
  case True
  then obtain b m where o: "open_file from d = Inr (b, m)" by auto
  with True assms(1) have p: "local_put now rnd to \<lparr>rd_bytes = b, rd_fails = False\<rparr> (int (length b)) d = (e, d1)"
    by (simp add: local_copy_def)
  have "dk_dir d \<noteq> []" using o by (auto simp: open_file_def disk_root_def)
  then have "files d from = Some (b, m)" using open_file_files [OF assms(2)] o by simp
  with put_keeps [OF p assms(2,3)] True show ?thesis by auto
next
  case False
  then have "d1 = d" "e = None \<longrightarrow> from = to"
    using assms(1) by (auto simp: local_copy_def split: if_splits sum.splits prod.splits)
  with assms(2) show ?thesis by auto
qed

lemma move_keeps:
  assumes "local_move from to d = (e, d1)" "disk_ok d"
  shows "disk_ok d1 \<and>
    (e = None \<longrightarrow> files d1 = (if from = to then files d else (files d)(to := files d from, from := None)) \<and>
       (from \<noteq> to \<longrightarrow> files d from \<noteq> None)) \<and>
    (e \<noteq> None \<longrightarrow> files d1 = files d)"
proof (cases "check_key from \<and> check_key to \<and> from \<noteq> to \<and> dk_dir d \<noteq> [] \<and> dk_made d \<and>
    (\<exists>b m. walk_to (dk_tree d) [] (key_path from) = Inr (File b m))")
  case True
  then obtain b m where w: "walk_to (dk_tree d) [] (key_path from) = Inr (File b m)" by blast
  have ok: "tree_ok (dk_tree d)" using assms(2) by (simp add: disk_ok_def)
  have f: "tree_at (dk_tree d) (key_path from) = Some (File b m)" using walk_to_found [OF ok, of "[]"] w by simp
  obtain e0 t0 where m: "mkdirs (dk_tree d) [] (butlast (key_path to)) = (e0, t0)" by fastforce
  have m0: "tree_ok t0" "\<And>q. file_at t0 q = file_at (dk_tree d) q"
    "tree_at t0 (key_path from) = Some (File b m)" "e0 = None \<Longrightarrow> tree_at t0 (butlast (key_path to)) = Some Dir"
    using mkdirs_keeps [OF m ok] f by auto
  show ?thesis
  proof (cases e0)
    case (Some err)
    with True w m assms(1) have "e \<noteq> None" "d1 = d\<lparr>dk_tree := t0\<rparr>" by (auto simp: local_move_def disk_root_def)
    with m0 True show ?thesis by (auto simp: disk_ok_def files_def)
  next
    case None
    obtain e2 t2 where r: "rename_file t0 (key_path from) (key_path to) = (e2, t2)" by fastforce
    with True w m None assms(1) have d1: "e = e2" "d1 = d\<lparr>dk_tree := t2\<rparr>" by (auto simp: local_move_def disk_root_def)
    from rename_keeps [OF r m0(1) key_path_nonempty key_path_nonempty m0(4) [OF None] m0(3) plain_key_path]
    have "tree_ok t2" "e2 \<noteq> None \<longrightarrow> t2 = t0"
      "e2 = None \<longrightarrow> (\<forall>q. file_at t2 q = (if q = key_path to then Some (b, m) else if q = key_path from then None else file_at t0 q))"
      by simp_all
    with d1 True m0 f show ?thesis by (auto simp: disk_ok_def files_def fun_eq_iff file_at_def)
  qed
next
  case False
  then have "d1 = d" "e = None \<longrightarrow> from = to"
    using assms(1) by (auto simp: local_move_def disk_root_def split: if_splits sum.splits prod.splits node.splits)
  with assms(2) show ?thesis by auto
qed

text \<open>The files a listing of a directory is of: every one under it. A name a put may write a file under is passed over.\<close>

definition under :: "string \<Rightarrow> string \<Rightarrow> bool" where
  "under dir key \<longleftrightarrow>
     (let at = (if dir = [] then [] else key_path dir)
      in take (length at) (key_path key) = at \<and> key_path key \<noteq> at)"

definition put_name :: "string \<Rightarrow> bool" where
  "put_name key \<longleftrightarrow> has_prefix (List.last (key_path key)) putting"

lemma take_prefix: "take (length a) k = a \<Longrightarrow> k \<noteq> a \<Longrightarrow> \<exists>rest. k = a @ rest \<and> rest \<noteq> []"
  by (metis append_Nil2 append_take_drop_id)

lemma list_has:
  assumes "local_list prefix d = Inr es" "list_prefix prefix = Some dir" "disk_ok d"
  shows "distinct (map en_key es) \<and> (\<forall>key. key \<in> en_key ` set es \<longleftrightarrow> files d key \<noteq> None \<and> under dir key \<and> \<not> put_name key)"
proof -
  let ?at = "if dir = [] then [] else key_path dir"
  have ok: "tree_ok (dk_tree d)" using assms(3) by (simp add: disk_ok_def)
  have files: "files d key \<noteq> None \<longleftrightarrow> (\<exists>b m. lookup (dk_tree d) (key_path key) = Some (File b m))" for key
    by (auto simp: files_def file_at_def tree_at_def split: option.splits node.splits)
  have above: "tree_at (dk_tree d) ?at = Some Dir" if "files d key \<noteq> None" "under dir key" for key
  proof -
    from that(2) have t: "take (length ?at) (key_path key) = ?at" "key_path key \<noteq> ?at"
      unfolding under_def Let_def by blast+
    from take_prefix [OF this] obtain rest where r: "key_path key = ?at @ rest" "rest \<noteq> []" by blast
    from that(1) obtain b m where "tree_at (dk_tree d) (?at @ rest) = Some (File b m)"
      unfolding files r(1) [symmetric] by (auto simp: tree_at_def)
    from tree_parents [OF ok this r(2)] show ?thesis .
  qed
  show ?thesis
  proof (cases "dk_made d \<and> walk_to (dk_tree d) [] ?at = Inr Dir")
    case True
    with assms(1,2) have es: "es = List.map_filter (listed ?at) (dk_tree d)"
      by (auto simp: local_list_def disk_root_def Let_def split: if_splits)
    have listed_key: "en_key e = path_key p" if "listed ?at (p, n) = Some e" for p n e
      using that by (cases n) (auto simp: listed_def split: if_splits)
    have "key \<in> en_key ` set es \<longleftrightarrow> files d key \<noteq> None \<and> under dir key \<and> \<not> put_name key" for key
    proof
      assume "key \<in> en_key ` set es"
      then obtain p n e where e: "(p, n) \<in> set (dk_tree d)" "listed ?at (p, n) = Some e" "key = en_key e"
        unfolding es by (auto simp: List.map_filter_def image_iff)
      then have l: "lookup (dk_tree d) p = Some n" using tree_okD(1) [OF ok] by (simp add: map_of_eq_Some_iff)
      then have p: "key_path key = p" using e(3) listed_key [OF e(2)] key_path_key tree_okD(2,4) [OF ok l] by simp
      with e(2) l show "files d key \<noteq> None \<and> under dir key \<and> \<not> put_name key"
        unfolding files by (auto simp: listed_def under_def put_name_def Let_def split: node.splits if_splits)
    next
      assume k: "files d key \<noteq> None \<and> under dir key \<and> \<not> put_name key"
      then obtain b m where l: "lookup (dk_tree d) (key_path key) = Some (File b m)" unfolding files by blast
      with k have "listed ?at (key_path key, File b m) = Some \<lparr>en_key = key, en_size = length b, en_at = m\<rparr>"
        by (auto simp: listed_def under_def put_name_def Let_def split: if_splits)
      with lookup_in_set [OF l] show "key \<in> en_key ` set es"
        unfolding es by (force simp: List.map_filter_def image_iff)
    qed
    moreover have "distinct (map en_key es)"
    proof -
      have "distinct (map en_key (List.map_filter (listed ?at) t))"
        if "gomap_ok t" "\<forall>(p, n) \<in> set t. p \<noteq> [] \<and> plain_path p" for t
        using that
      proof (induction t)
        case (Cons pn t)
        obtain p n where pn: "pn = (p, n)" by fastforce
        have "path_key q \<noteq> path_key p" if "(q, n') \<in> set t" for q n'
        proof -
          have "q \<noteq> p" using that Cons.prems(1) pn by force
          moreover have "q \<noteq> []" "plain_path q" "p \<noteq> []" "plain_path p" using that Cons.prems(2) pn by auto
          ultimately show ?thesis using key_path_key by metis
        qed
        then have "en_key e \<notin> en_key ` set (List.map_filter (listed ?at) t)" if "listed ?at (p, n) = Some e" for e
          using listed_key [OF that] listed_key by (fastforce simp: List.map_filter_def)
        with Cons pn show ?case by (auto simp: List.map_filter_simps split: option.splits)
      qed (simp add: List.map_filter_simps)
      moreover have "\<forall>(p, n) \<in> set (dk_tree d). p \<noteq> [] \<and> plain_path p"
        using tree_okD(2,4) [OF ok] tree_okD(1) [OF ok] by (auto simp: map_of_eq_Some_iff)
      ultimately show ?thesis unfolding es using tree_okD(1) [OF ok] by blast
    qed
    ultimately show ?thesis by blast
  next
    case False
    have "es = []"
      using assms(1,2) False by (auto simp: local_list_def disk_root_def Let_def split: if_splits sum.splits node.splits)
    moreover have "\<not> (files d key \<noteq> None \<and> under dir key)" for key
      using False above files_None [OF assms(3), of key] walk_to_found [OF ok, of "[]" ?at] by auto
    ultimately show ?thesis by auto
  qed
qed

section \<open>A run of the disk\<close>

datatype disk_op =
  DPut instant string string reader int
| DDelete string
| DCopy instant string string string
| DMove string string

fun disk_do :: "disk_op \<Rightarrow> disk \<Rightarrow> disk_error option \<times> disk" where
  "disk_do (DPut now rnd key r n) d = local_put now rnd key r n d"
| "disk_do (DDelete key) d = local_delete key d"
| "disk_do (DCopy now rnd from to) d = local_copy now rnd from to d"
| "disk_do (DMove from to) d = local_move from to d"

fun disk_run :: "disk_op list \<Rightarrow> disk \<Rightarrow> disk_error option list \<times> disk" where
  "disk_run [] d = ([], d)"
| "disk_run (op # ops) d =
     (case disk_do op d of (e, d1) \<Rightarrow> (case disk_run ops d1 of (es, d2) \<Rightarrow> (e # es, d2)))"

text \<open>What an operation that went well does to a map from keys to files, where it may; one that failed does nothing.\<close>

type_synonym key_files = "string \<Rightarrow> (string \<times> instant) option"

fun map_do :: "disk_op \<Rightarrow> key_files \<Rightarrow> key_files option" where
  "map_do (DPut now rnd key r n) f =
     (if check_key key \<and> 0 \<le> n \<and> nat n \<le> length (rd_bytes r) then Some (f(key \<mapsto> (take (nat n) (rd_bytes r), now))) else None)"
| "map_do (DDelete key) f = Some (f(key := None))"
| "map_do (DCopy now rnd from to) f =
     (if from = to then Some f
      else case f from of None \<Rightarrow> None | Some (b, m) \<Rightarrow> Some (f(to \<mapsto> (b, now))))"
| "map_do (DMove from to) f =
     (if from = to then Some f
      else case f from of None \<Rightarrow> None | Some bm \<Rightarrow> Some (f(to \<mapsto> bm, from := None)))"

fun map_run :: "disk_op list \<Rightarrow> disk_error option list \<Rightarrow> key_files \<Rightarrow> key_files option" where
  "map_run (op # ops) (None # es) f = (case map_do op f of None \<Rightarrow> None | Some f' \<Rightarrow> map_run ops es f')"
| "map_run (op # ops) (Some e # es) f = map_run ops es f"
| "map_run [] [] f = Some f"
| "map_run _ _ f = None"

text \<open>The text a put draws for its name has no slash: it is letters and digits.\<close>

fun plain_draw :: "disk_op \<Rightarrow> bool" where
  "plain_draw (DPut now rnd key r n) \<longleftrightarrow> slash \<notin> set rnd"
| "plain_draw (DCopy now rnd from to) \<longleftrightarrow> slash \<notin> set rnd"
| "plain_draw _ \<longleftrightarrow> True"

lemma disk_do_keeps:
  assumes "disk_do op d = (e, d1)" "disk_ok d" "plain_draw op"
  shows "disk_ok d1 \<and> (e = None \<longrightarrow> map_do op (files d) = Some (files d1)) \<and> (e \<noteq> None \<longrightarrow> files d1 = files d)"
proof (cases op)
  case (DPut now rnd key r n)
  with assms put_keeps [of now rnd key r n d e d1] show ?thesis by auto
next
  case (DDelete key)
  with assms delete_keeps [of key d e d1] show ?thesis by auto
next
  case (DCopy now rnd a b)
  with assms copy_keeps [of now rnd a b d e d1] show ?thesis by auto
next
  case (DMove a b)
  with assms move_keeps [of a b d e d1] show ?thesis by auto
qed

lemma disk_run_keeps:
  assumes "disk_run ops d = (es, d1)" "disk_ok d" "list_all plain_draw ops"
  shows "disk_ok d1 \<and> map_run ops es (files d) = Some (files d1)"
  using assms
proof (induction ops arbitrary: d es)
  case (Cons op ops)
  obtain e d0 where o: "disk_do op d = (e, d0)" by fastforce
  obtain es' d2 where r: "disk_run ops d0 = (es', d2)" by fastforce
  with o Cons.prems(1) have es: "es = e # es'" "d2 = d1" by simp_all
  have k: "disk_ok d0" "e = None \<longrightarrow> map_do op (files d) = Some (files d0)" "e \<noteq> None \<longrightarrow> files d0 = files d"
    using disk_do_keeps [OF o Cons.prems(2)] Cons.prems(3) by simp_all
  from Cons.IH [OF r [unfolded es(2)] k(1)] Cons.prems(3) es k(2,3) show ?case by (cases e) auto
qed simp

lemma disk_run_dir: "disk_run ops d = (es, d1) \<Longrightarrow> dk_dir d1 = dk_dir d"
proof (induction ops arbitrary: d es)
  case (Cons op ops)
  have "dk_dir (snd (disk_do op d)) = dk_dir d"
    by (cases op) (auto simp: local_put_def local_delete_def local_copy_def local_move_def disk_root_def
        split: sum.splits option.splits prod.splits node.splits if_splits)
  with Cons show ?case by (auto split: prod.splits)
qed simp

text \<open>The keys an operation puts a file at; a map has files at no others.\<close>

fun keys_put :: "disk_op \<Rightarrow> string list" where
  "keys_put (DPut now rnd key r n) = [key]"
| "keys_put (DDelete key) = []"
| "keys_put (DCopy now rnd from to) = [to]"
| "keys_put (DMove from to) = [to]"

lemma map_do_keys: "map_do op f = Some g \<Longrightarrow> g key \<noteq> None \<Longrightarrow> f key \<noteq> None \<or> key \<in> set (keys_put op)"
  by (cases op) (auto split: if_splits option.splits)

lemma map_run_keys:
  "map_run ops es f = Some g \<Longrightarrow> g key \<noteq> None \<Longrightarrow> f key \<noteq> None \<or> (\<exists>op \<in> set ops. key \<in> set (keys_put op))"
proof (induction ops es f rule: map_run.induct)
  case (1 op ops es f)
  then obtain f' where "map_do op f = Some f'" "map_run ops es f' = Some g" by (auto split: option.splits)
  with 1 map_do_keys [of op f f' key] show ?case by auto
qed auto

text \<open>
  C19. A local disk is a map from keys to files: after any operations, those that failed left every file
  as it was, and each that went well did to the files what it says, a put only with every byte of its
  size there, and a copy or a move only of a file there was. Open gives a key's file, and no other, and
  a listing every file under its directory, once, where no file was put at a key whose last part starts with ".put-": a
  listing passes those over, as below.
\<close>

theorem a_disk_is_a_map:
  assumes "disk_run ops (new_disk dir) = (es, d)" "list_all plain_draw ops" "dir \<noteq> []"
  shows "map_run ops es (\<lambda>key. None) = Some (files d) \<and>
    (check_key key \<longrightarrow> (local_open key d = Inr b \<longleftrightarrow> map_option fst (files d key) = Some b)) \<and>
    (local_list prefix d = Inr entries \<longrightarrow> list_all (\<lambda>op. list_all (\<lambda>k. \<not> put_name k) (keys_put op)) ops \<longrightarrow>
       distinct (map en_key entries) \<and>
       (\<exists>at. list_prefix prefix = Some at \<and> en_key ` set entries = {key. files d key \<noteq> None \<and> under at key}))"
proof -
  have none: "files (new_disk dir) = (\<lambda>key. None)"
    using files_None [OF new_disk_ok, of dir] by (simp add: new_disk_def fun_eq_iff)
  from disk_run_keeps [OF assms(1) new_disk_ok assms(2)]
  have ok: "disk_ok d" and run: "map_run ops es (\<lambda>key. None) = Some (files d)" by (simp_all add: none)
  have "dk_dir d \<noteq> []" using disk_run_dir [OF assms(1)] assms(3) by (simp add: new_disk_def)
  with open_file_files [OF ok] have "local_open key d = Inr b \<longleftrightarrow> map_option fst (files d key) = Some b" if "check_key key"
    using that by (auto simp: local_open_def map_sum_Inr_iff)
  moreover have "\<exists>at. list_prefix prefix = Some at" if "local_list prefix d = Inr entries"
    using that by (auto simp: local_list_def split: option.splits)
  moreover have "\<not> put_name k" if "files d k \<noteq> None" "list_all (\<lambda>op. list_all (\<lambda>k. \<not> put_name k) (keys_put op)) ops" for k
    using map_run_keys [OF run that(1)] that(2) by (auto simp: list_all_iff)
  ultimately show ?thesis using run list_has [OF _ _ ok, of prefix entries] by blast
qed

definition demo_disk_ops :: "disk_op list" where
  "demo_disk_ops =
     [DPut 5 ''r1'' ''photos/a'' \<lparr>rd_bytes = ''hi'', rd_fails = False\<rparr> 2,
      DPut 6 ''r2'' ''photos/a'' \<lparr>rd_bytes = ''h'', rd_fails = False\<rparr> 2,
      DCopy 7 ''r3'' ''photos/a'' ''b'', DMove ''photos/a'' ''c/d'', DDelete ''b'']"

lemma demo_disk_results:
  "fst (disk_run demo_disk_ops (new_disk ''files'')) = [None, Some Cut_short, None, None, None]"
  "map_option (\<lambda>f. (f ''c/d'', f ''b'', f ''photos/a''))
     (map_run demo_disk_ops [None, Some Cut_short, None, None, None] (\<lambda>key. None)) =
   Some (Some (''hi'', 5), None, None)"
  by code_simp+

theorem a_disk_is_a_map_witness:
  "\<exists>d. disk_run demo_disk_ops (new_disk ''files'') = ([None, Some Cut_short, None, None, None], d) \<and>
     files d ''c/d'' = Some (''hi'', 5) \<and> files d ''b'' = None \<and> files d ''photos/a'' = None"
proof -
  obtain d where d: "disk_run demo_disk_ops (new_disk ''files'') = ([None, Some Cut_short, None, None, None], d)"
    using demo_disk_results(1) by (metis prod.collapse)
  have "list_all plain_draw demo_disk_ops" by (simp add: demo_disk_ops_def slash_def)
  from a_disk_is_a_map [OF d this, of "[]" "[]" "[]" "[]"]
  have "map_run demo_disk_ops [None, Some Cut_short, None, None, None] (\<lambda>key. None) = Some (files d)" by simp
  with demo_disk_results(2) d show ?thesis by simp
qed

text \<open>A file kept at a key whose last part starts as the names of files being put do is opened, and not listed.\<close>

lemma a_file_with_a_put_name_is_not_listed:
  "let d = snd (local_put 5 ''r'' ''a/.put-b'' \<lparr>rd_bytes = ''hi'', rd_fails = False\<rparr> 2 (new_disk ''files''))
   in check_key ''a/.put-b'' \<and> local_open ''a/.put-b'' d = Inr ''hi'' \<and> local_list ''a'' d = Inr []"
  by code_simp

text \<open>
  A key below a file is not one that is not there: Open's error is not that there is none, and Delete and
  List of it fail, where a disk promises otherwise.
\<close>

lemma a_key_below_a_file:
  "let d = snd (local_put 5 ''r'' ''a'' \<lparr>rd_bytes = ''hi'', rd_fails = False\<rparr> 2 (new_disk ''files''))
   in local_open ''a/b'' d = Inl Not_dir \<and> fst (local_delete ''a/b'' d) = Some Not_dir \<and> local_list ''a/b'' d = Inl Not_dir"
  by code_simp

end
