(* ===== verification/Filetype.thy ===== *)
theory Filetype
  imports Go_Prelude
begin

text \<open>
  What a file is by its first bytes (internal/filetype/filetype.go): the table of the types
  \<open>http.DetectContentType\<close> tells, and what the framework says of them. The sniffing itself, of package
  net/http, is the argument \<open>detect\<close>.
\<close>

record file_kind =
  fk_name :: string
  fk_article :: string
  fk_ext :: string
  fk_image :: bool

definition kind_row :: "string \<Rightarrow> string \<Rightarrow> string \<Rightarrow> bool \<Rightarrow> file_kind" where
  "kind_row n a e i = \<lparr>fk_name = n, fk_article = a, fk_ext = e, fk_image = i\<rparr>"

definition file_kinds :: "(string, file_kind) gomap" where
  "file_kinds =
     [(''image/png'', kind_row ''PNG'' ''a'' ''.png'' True),
      (''image/jpeg'', kind_row ''JPEG'' ''a'' ''.jpg'' True),
      (''image/gif'', kind_row ''GIF'' ''a'' ''.gif'' True),
      (''image/webp'', kind_row ''WebP'' ''a'' ''.webp'' True),
      (''image/bmp'', kind_row ''BMP'' ''a'' ''.bmp'' True),
      (''image/x-icon'', kind_row ''ICO'' ''an'' ''.ico'' True),
      (''application/pdf'', kind_row ''PDF'' ''a'' ''.pdf'' False),
      (''application/postscript'', kind_row ''PostScript'' ''a'' ''.ps'' False),
      (''application/zip'', kind_row ''ZIP'' ''a'' ''.zip'' False),
      (''application/x-gzip'', kind_row ''gzip'' ''a'' ''.gz'' False),
      (''application/x-rar-compressed'', kind_row ''RAR'' ''a'' ''.rar'' False),
      (''application/wasm'', kind_row ''WebAssembly'' ''a'' ''.wasm'' False),
      (''application/ogg'', kind_row ''Ogg'' ''an'' ''.ogg'' False),
      (''application/vnd.ms-fontobject'', kind_row ''EOT'' ''an'' ''.eot'' False),
      (''application/octet-stream'', kind_row ''binary'' ''a'' '''' False),
      (''text/plain'', kind_row ''text'' ''a'' ''.txt'' False),
      (''text/html'', kind_row ''HTML'' ''an'' ''.html'' False),
      (''text/xml'', kind_row ''XML'' ''an'' ''.xml'' False),
      (''audio/mpeg'', kind_row ''MP3'' ''an'' ''.mp3'' False),
      (''audio/wave'', kind_row ''WAV'' ''a'' ''.wav'' False),
      (''audio/aiff'', kind_row ''AIFF'' ''an'' ''.aiff'' False),
      (''audio/midi'', kind_row ''MIDI'' ''a'' ''.mid'' False),
      (''video/mp4'', kind_row ''MP4'' ''an'' ''.mp4'' False),
      (''video/webm'', kind_row ''WebM'' ''a'' ''.webm'' False),
      (''video/avi'', kind_row ''AVI'' ''an'' ''.avi'' False),
      (''font/ttf'', kind_row ''TTF'' ''a'' ''.ttf'' False),
      (''font/otf'', kind_row ''OTF'' ''an'' ''.otf'' False),
      (''font/collection'', kind_row ''TTC'' ''a'' ''.ttc'' False),
      (''font/woff'', kind_row ''WOFF'' ''a'' ''.woff'' False),
      (''font/woff2'', kind_row ''WOFF2'' ''a'' ''.woff2'' False)]"

text \<open>A type the table has not reads as the zero kind.\<close>

definition kind_of :: "string \<Rightarrow> file_kind" where
  "kind_of t = (case lookup file_kinds t of Some k \<Rightarrow> k | None \<Rightarrow> kind_row [] [] [] False)"

definition file_head :: "string \<Rightarrow> string" where
  "file_head bytes = take 512 bytes"

definition type_of_head :: "(string \<Rightarrow> string) \<Rightarrow> string \<Rightarrow> string" where
  "type_of_head detect head = fst (cut CHR '';'' (detect head))"

definition sniff :: "(string \<Rightarrow> string) \<Rightarrow> string \<Rightarrow> string" where
  "sniff detect bytes = type_of_head detect (file_head bytes)"

definition known_type :: "string \<Rightarrow> bool" where
  "known_type t \<longleftrightarrow> lookup file_kinds t \<noteq> None"

definition type_ext :: "string \<Rightarrow> string" where
  "type_ext t = fk_ext (kind_of t)"

definition type_image :: "string \<Rightarrow> bool" where
  "type_image t = fk_image (kind_of t)"

definition type_names :: "string list \<Rightarrow> string" where
  "type_names types =
     (if types = [] then []
      else
        let names = map (\<lambda>t. fk_name (kind_of t)) types;
            several = (if 1 < length names
              then join_with '', '' (butlast names) @ '' or '' @ List.last names else hd names);
            noun = (if list_all (\<lambda>t. fk_image (kind_of t)) types then ''image'' else ''file'')
        in fk_article (kind_of (hd types)) @ '' '' @ several @ '' '' @ noun)"

text \<open>The table names each type once, and each extension but the empty one too.\<close>

lemma file_kinds_ok: "gomap_ok file_kinds"
  by code_simp

end
