(* ===== verification/Storage_Links.thy ===== *)
theory Storage_Links
  imports Signed_Parts Storage Filetype Middleware Session
begin

text \<open>
  The links of a local disk and the route that serves its files (storage/local.go: URL, UploadURL,
  ServeHTTP, put, sign, signed and signedUpload).
  HKDF, HMAC, \<open>url.Parse\<close>, \<open>http.DetectContentType\<close> and \<open>http.ServeContent\<close> are parameters, in a record.
\<close>

declare map_of_eq_Some_iff [simp del] Some_eq_map_of_iff [simp del]

section \<open>Links to files\<close>

record disk_request = http_request +
  dr_query :: url_values
  dr_length :: int
  dr_body :: reader

record disk_env =
  de_url_path :: "string \<Rightarrow> string option"
  de_hkdf :: "string \<Rightarrow> string \<Rightarrow> string"
  de_hmac :: "string \<Rightarrow> string \<Rightarrow> string"
  de_detect :: "string \<Rightarrow> string"
  de_serve :: "disk_request \<Rightarrow> instant \<Rightarrow> string \<Rightarrow> call list"

text \<open>A Local's fields that are not its directory's.\<close>

record local_disk =
  lo_base :: string
  lo_public :: bool
  lo_keys :: "string list"

definition trim_slash :: "string \<Rightarrow> string" where
  "trim_slash s = (if has_suffix s ''/'' then butlast s else s)"

definition base_path :: "disk_env \<Rightarrow> local_disk \<Rightarrow> string" where
  "base_path env l =
     trim_slash (case de_url_path env (lo_base l) of Some p \<Rightarrow> p | None \<Rightarrow> lo_base l)"

text \<open>What a link's signature is over, and the signature.\<close>

definition link_parts :: "disk_env \<Rightarrow> local_disk \<Rightarrow> string \<Rightarrow> string \<Rightarrow> string list \<Rightarrow> string" where
  "link_parts env l key u rest = parts_text ([base_path env l, key, u] @ rest)"

definition link_mac :: "disk_env \<Rightarrow> string \<Rightarrow> string \<Rightarrow> string" where
  "link_mac env app_key m = take 16 (de_hmac env (de_hkdf env app_key ''tug storage link'') m)"

definition sign_link :: "disk_env \<Rightarrow> local_disk \<Rightarrow> string \<Rightarrow> string \<Rightarrow> string \<Rightarrow> string list \<Rightarrow> string" where
  "sign_link env l app_key key u rest = link_mac env app_key (link_parts env l key u rest)"

datatype link_error = Link_bad_key | No_base_url | No_keys

definition local_url :: "disk_env \<Rightarrow> local_disk \<Rightarrow> string \<Rightarrow> instant \<Rightarrow> link_error + string" where
  "local_url env l key expires =
     (if \<not> check_key key then Inl Link_bad_key
      else if lo_base l = [] then Inl No_base_url
      else
        let link = trim_slash (lo_base l) @ ''/'' @ escape_key key
        in if lo_public l then Inr link
           else if lo_keys l = [] then Inl No_keys
           else
             let u = itoa (unix expires); sig = b64_encode (sign_link env l (hd (lo_keys l)) key u [])
             in Inr (link @ ''?expires='' @ u @ ''&signature='' @ sig))"

record conditions =
  cn_type :: string
  cn_max :: int

definition upload_url :: "disk_env \<Rightarrow> local_disk \<Rightarrow> string \<Rightarrow> instant \<Rightarrow> conditions \<Rightarrow> link_error + string" where
  "upload_url env l key expires c =
     (if \<not> check_key key then Inl Link_bad_key
      else if lo_base l = [] then Inl No_base_url
      else if lo_keys l = [] then Inl No_keys
      else
        let u = itoa (unix expires);
            sig = b64_encode (sign_link env l (hd (lo_keys l)) key u [''PUT'', cn_type c, itoa (cn_max c)])
        in Inr (trim_slash (lo_base l) @ ''/'' @ escape_key key @ ''?'' @
             query_encode [(''expires'', u), (''max'', itoa (cn_max c)), (''signature'', sig), (''type'', cn_type c)]))"

definition not_expired :: "instant \<Rightarrow> string \<Rightarrow> bool" where
  "not_expired now u = (case atoi u of None \<Rightarrow> False | Some n \<Rightarrow> now < of_unix n)"

definition signed_by :: "disk_env \<Rightarrow> local_disk \<Rightarrow> instant \<Rightarrow> string \<Rightarrow> url_values \<Rightarrow> string list \<Rightarrow> bool" where
  "signed_by env l now key q rest \<longleftrightarrow>
     not_expired now (q_get ''expires'' q) \<and>
     (case b64_decode (q_get ''signature'' q) of
        None \<Rightarrow> False
      | Some sig \<Rightarrow> list_ex (\<lambda>k. sig = sign_link env l k key (q_get ''expires'' q) rest) (lo_keys l))"

definition signed :: "disk_env \<Rightarrow> local_disk \<Rightarrow> instant \<Rightarrow> string \<Rightarrow> url_values \<Rightarrow> bool" where
  "signed env l now key q = signed_by env l now key q []"

definition signed_upload :: "disk_env \<Rightarrow> local_disk \<Rightarrow> instant \<Rightarrow> string \<Rightarrow> url_values \<Rightarrow> bool" where
  "signed_upload env l now key q =
     signed_by env l now key q [''PUT'', q_get ''type'' q, q_get ''max'' q]"

section \<open>The route\<close>

definition not_found :: "call list" where
  "not_found = http_error ''404 page not found'' 404"

definition bad_link :: "call list" where
  "bad_link = http_error ''this link has expired, or isn't one of the app's'' 403"

definition serve_file :: "disk_env \<Rightarrow> local_disk \<Rightarrow> string \<Rightarrow> disk_request \<Rightarrow> disk \<Rightarrow> call list" where
  "serve_file env l key r d =
     (case open_file key d of
        Inl Not_exist \<Rightarrow> not_found
      | Inl e \<Rightarrow> http_error ''the file can't be read'' 500
      | Inr (b, m) \<Rightarrow>
          let head = file_head b
          in [Set_header ''Content-Type'' (de_detect env head), Set_header ''X-Content-Type-Options'' ''nosniff'',
              Set_header ''Content-Security-Policy'' ''sandbox''] @
             (if type_image (type_of_head (de_detect env) head) then [] else [Set_header ''Content-Disposition'' ''attachment'']) @
             (if lo_public l then [] else [Set_header ''Cache-Control'' ''private'']) @
             de_serve env r m b)"

text \<open>\<open>ParseInt\<close>'s value where its error is not looked at: 0, or the end of the range it is past.\<close>

definition parse_int :: "string \<Rightarrow> int" where
  "parse_int s =
     (case atoi s of
        Some n \<Rightarrow> n
      | None \<Rightarrow>
          let neg = has_prefix s ''-''; ds = (if neg \<or> has_prefix s ''+'' then tl s else s)
          in if ds = [] \<or> \<not> list_all is_digit ds then 0 else if neg then - max_int - 1 else max_int)"

text \<open>\<open>http.MaxBytesReader\<close>.\<close>

definition max_bytes :: "nat \<Rightarrow> reader \<Rightarrow> reader" where
  "max_bytes n r = (if length (rd_bytes r) \<le> n then r else \<lparr>rd_bytes = take n (rd_bytes r), rd_fails = True\<rparr>)"

text \<open>The upload \<open>put\<close> keeps, with the text its Put draws.\<close>

definition put_upload ::
  "disk_env \<Rightarrow> local_disk \<Rightarrow> instant \<Rightarrow> string \<Rightarrow> string \<Rightarrow> disk_request \<Rightarrow> disk \<Rightarrow> call list \<times> disk" where
  "put_upload env l now rnd key r d =
     (let q = dr_query r; content_type = q_get ''type'' q;
          sent = trim_space (fst (cut CHR '';'' (h_get ''Content-Type'' (hr_header r))));
          limit = parse_int (q_get ''max'' q)
      in if \<not> signed_upload env l now key q then (bad_link, d)
         else if content_type \<noteq> [] \<and> to_lower sent \<noteq> to_lower content_type
           then (http_error (''this link takes a '' @ content_type) 403, d)
         else if dr_length r < 0 then (http_error ''an upload says how many bytes it is'' 411, d)
         else if 0 < limit \<and> limit < dr_length r
           then (http_error ''this file is bigger than the link takes'' 413, d)
         else
           let body = (if 0 < limit then max_bytes (nat limit) (dr_body r) else dr_body r)
           in case local_put now rnd key body (dr_length r) d of
                (Some e, d1) \<Rightarrow> (http_error ''the file can't be kept'' 500, d1)
              | (None, d1) \<Rightarrow> ([Write_header 204], d1))"

definition serve_disk ::
  "disk_env \<Rightarrow> local_disk \<Rightarrow> instant \<Rightarrow> string \<Rightarrow> disk_request \<Rightarrow> disk \<Rightarrow> call list \<times> disk" where
  "serve_disk env l now rnd r d =
     (let prefix = base_path env l @ ''/''; key = drop (length prefix) (hr_path r)
      in if hr_method r \<notin> {''GET'', ''HEAD'', ''PUT''}
         then (Set_header ''Allow'' ''GET, HEAD, PUT'' # http_error ''method not allowed'' 405, d)
         else if \<not> has_prefix (hr_path r) prefix \<or> \<not> check_key key then (not_found, d)
         else if hr_method r = ''PUT'' then put_upload env l now rnd key r d
         else if \<not> lo_public l \<and> \<not> signed env l now key (dr_query r) then (bad_link, d)
         else (serve_file env l key r d, d))"

section \<open>What a link is good for\<close>

text \<open>
  A link's signature is checked against those of the keys: what HMAC's are no good for is taken as what
  no one can do, a signature of one text that is also one of another.
\<close>

definition macs_apart :: "disk_env \<Rightarrow> string list \<Rightarrow> string \<Rightarrow> string \<Rightarrow> string \<Rightarrow> bool" where
  "macs_apart env keys k0 m0 m \<longleftrightarrow> (\<forall>k \<in> set keys. link_mac env k m = link_mac env k0 m0 \<longrightarrow> m = m0)"

lemma not_expired_itoa: "in_int64 n \<Longrightarrow> not_expired now (itoa n) \<longleftrightarrow> now < of_unix n"
  by (simp add: not_expired_def atoi_itoa)

lemma signed_by_link:
  assumes "q_get ''expires'' q = u" "q_get ''signature'' q = b64_encode (sign_link env l' k0 key' u' rest')"
    and "macs_apart env (lo_keys l) k0 (link_parts env l' key' u' rest') (link_parts env l key u rest)"
  shows "signed_by env l now key q rest \<Longrightarrow>
      not_expired now u \<and> base_path env l = base_path env l' \<and> key = key' \<and> u = u' \<and> rest = rest'"
    and "k0 \<in> set (lo_keys l) \<Longrightarrow> not_expired now u \<Longrightarrow> base_path env l = base_path env l' \<Longrightarrow> key = key' \<Longrightarrow>
      u = u' \<Longrightarrow> rest = rest' \<Longrightarrow> signed_by env l now key q rest"
proof -
  have d: "b64_decode (q_get ''signature'' q) = Some (sign_link env l' k0 key' u' rest')"
    using assms(2) by (simp add: b64_decode_encode)
  {
    assume s: "signed_by env l now key q rest"
    then obtain k where "k \<in> set (lo_keys l)" "sign_link env l' k0 key' u' rest' = sign_link env l k key u rest"
      using d assms(1) by (auto simp: signed_by_def list_ex_iff)
    with assms(3) have "link_parts env l key u rest = link_parts env l' key' u' rest'"
      by (auto simp: macs_apart_def sign_link_def)
    with s assms(1) show "not_expired now u \<and> base_path env l = base_path env l' \<and> key = key' \<and> u = u' \<and> rest = rest'"
      by (simp add: link_parts_def parts_text_inj signed_by_def)
  }
  assume "k0 \<in> set (lo_keys l)" "not_expired now u" "base_path env l = base_path env l'" "key = key'" "u = u'" "rest = rest'"
  with d assms(1) show "signed_by env l now key q rest"
    by (auto simp: signed_by_def list_ex_iff sign_link_def link_parts_def)
qed

text \<open>A request for a key of a disk's route.\<close>

lemma serve_key:
  assumes "hr_path r = base_path env l @ ''/'' @ key" "check_key key"
  shows "serve_disk env l now rnd r d =
    (if hr_method r \<notin> {''GET'', ''HEAD'', ''PUT''}
     then (Set_header ''Allow'' ''GET, HEAD, PUT'' # http_error ''method not allowed'' 405, d)
     else if hr_method r = ''PUT'' then put_upload env l now rnd key r d
     else if \<not> lo_public l \<and> \<not> signed env l now key (dr_query r) then (bad_link, d)
     else (serve_file env l key r d, d))"
proof -
  have "has_prefix (hr_path r) (base_path env l @ ''/'')" using assms(1) by (auto simp: has_prefix_iff)
  moreover have "drop (length (base_path env l @ ''/'')) (hr_path r) = key" using assms(1) by simp
  ultimately show ?thesis using assms(2) unfolding serve_disk_def Let_def by (simp del: length_append)
qed

lemma cut_link:
  assumes "list_all (\<lambda>c. unreserved c \<or> c = slash) base"
  shows "cut CHR ''?'' (base @ ''/'' @ escape_key key @ ''?'' @ q) = (base @ ''/'' @ escape_key key, q, True)"
proof -
  have "CHR ''?'' \<notin> set base" using assms unreserved_plain by (auto simp: list_all_iff slash_def)
  moreover have "CHR ''?'' \<notin> set (escape_key key)"
  proof -
    have "CHR ''?'' \<notin> set (percent c)" for c using percent_chars by blast
    then have "CHR ''?'' \<notin> set (escape_text w keep)" for w keep
      using unreserved_plain by (auto simp: escape_text_def slash_def split: if_splits)
    moreover have "c \<in> set (join_with ''/'' ws) \<Longrightarrow> c = CHR ''/'' \<or> c \<in> \<Union> (set ` set ws)" for c ws
      by (induction ws rule: induct_list012) auto
    ultimately show ?thesis unfolding escape_key_def by fastforce
  qed
  ultimately show ?thesis using cut_found [of "CHR ''?''" "base @ ''/'' @ escape_key key" q] by simp
qed

text \<open>
  C9. A private disk's link opens its own file, until it expires, and nothing else: followed to the disk
  it was made for, it has the file served; with its query on another key, on another disk's route, or once
  it has expired, the request is turned away, and never a byte of a file is sent.
\<close>

theorem a_link_opens_its_file_alone:
  assumes "local_url env l' key' expires = Inr link" "\<not> lo_public l'" "in_int64 (unix expires)"
    and "list_all (\<lambda>c. unreserved c \<or> c = slash) (lo_base l')" "de_url_path env (lo_base l') = Some (lo_base l')"
    and "cut CHR ''?'' link = (link_path, text, True)" "dr_query r = parse_query text"
    and "hr_method r \<in> {''GET'', ''HEAD''}" "hr_path r = base_path env l @ ''/'' @ key" "check_key key" "\<not> lo_public l"
    and "macs_apart env (lo_keys l) (hd (lo_keys l')) (link_parts env l' key' (itoa (unix expires)) [])
           (link_parts env l key (itoa (unix expires)) [])"
  shows "url_unescape False link_path = Some (base_path env l' @ ''/'' @ key') \<and>
    (if base_path env l = base_path env l' \<and> key = key' \<and> now < of_unix (unix expires)
     then hd (lo_keys l') \<in> set (lo_keys l) \<longrightarrow> serve_disk env l now rnd r d = (serve_file env l key r d, d)
     else serve_disk env l now rnd r d = (bad_link, d))"
proof -
  let ?u = "itoa (unix expires)" and ?k = "hd (lo_keys l')"
  let ?sig = "b64_encode (sign_link env l' ?k key' ?u [])"
  have link: "link = trim_slash (lo_base l') @ ''/'' @ escape_key key' @ ''?'' @ (''expires='' @ ?u @ ''&signature='' @ ?sig)"
    using assms(1,2) by (auto simp: local_url_def Let_def split: if_splits)
  have base: "base_path env l' = trim_slash (lo_base l')" using assms(5) by (simp add: base_path_def)
  have plain: "list_all (\<lambda>c. unreserved c \<or> c = slash) (trim_slash (lo_base l'))"
    using assms(4) by (auto simp: trim_slash_def list_all_iff dest: in_set_butlastD)
  have parts: "link_path = trim_slash (lo_base l') @ ''/'' @ escape_key key'" "text = ''expires='' @ ?u @ ''&signature='' @ ?sig"
    using cut_link [OF plain] assms(6) unfolding link by simp_all
  have q: "dr_query r = [(''expires'', [?u]), (''signature'', [?sig])]"
    using assms(7) parse_link_query [OF itoa_plain b64_plain] parts(2) by simp
  then have get: "q_get ''expires'' (dr_query r) = ?u" "q_get ''signature'' (dr_query r) = ?sig" by (simp_all add: q_get_def)
  have "url_unescape False link_path = Some (base_path env l' @ ''/'' @ key')"
    using unescape_plain [OF plain, of False "''/'' @ escape_key key'"] unescape_key [of False key' "[]"]
    by (simp add: parts(1) base)
  moreover have served: "serve_disk env l now rnd r d =
      (if \<not> signed_by env l now key (dr_query r) [] then (bad_link, d) else (serve_file env l key r d, d))"
    using assms(8,11) serve_key [OF assms(9,10)] by (auto simp: signed_def)
  moreover note good = signed_by_link [OF get assms(12), of now]
  note until = not_expired_itoa [OF assms(3), of now]
  have "if base_path env l = base_path env l' \<and> key = key' \<and> now < of_unix (unix expires)
     then hd (lo_keys l') \<in> set (lo_keys l) \<longrightarrow> serve_disk env l now rnd r d = (serve_file env l key r d, d)
     else serve_disk env l now rnd r d = (bad_link, d)"
  proof (cases "base_path env l = base_path env l' \<and> key = key' \<and> now < of_unix (unix expires)")
    case True
    with good(2) until have "hd (lo_keys l') \<in> set (lo_keys l) \<longrightarrow> signed_by env l now key (dr_query r) []" by blast
    with True show ?thesis unfolding served by simp
  next
    case False
    with good(1) until have "\<not> signed_by env l now key (dr_query r) []" by blast
    with False show ?thesis unfolding served by auto
  qed
  ultimately show ?thesis by blast
qed

text \<open>A link to read is no link to write, and a link to write none to read.\<close>

lemma a_link_to_read_writes_nothing:
  assumes "q_get ''signature'' (dr_query r) = b64_encode (sign_link env l' k0 key' u' [])"
    and "hr_method r = ''PUT''" "hr_path r = base_path env l @ ''/'' @ key" "check_key key"
    and "macs_apart env (lo_keys l) k0 (link_parts env l' key' u' [])
           (link_parts env l key (q_get ''expires'' (dr_query r)) [''PUT'', q_get ''type'' (dr_query r), q_get ''max'' (dr_query r)])"
  shows "serve_disk env l now rnd r d = (bad_link, d)"
  using signed_by_link(1) [OF refl assms(1,5), of now] assms(2)
  by (auto simp: serve_key [OF assms(3,4)] put_upload_def signed_upload_def Let_def)

lemma a_link_to_write_reads_nothing:
  assumes "q_get ''signature'' (dr_query r) = b64_encode (sign_link env l' k0 key' u' [''PUT'', t, n])"
    and "hr_method r \<in> {''GET'', ''HEAD''}" "hr_path r = base_path env l @ ''/'' @ key" "check_key key" "\<not> lo_public l"
    and "macs_apart env (lo_keys l) k0 (link_parts env l' key' u' [''PUT'', t, n])
           (link_parts env l key (q_get ''expires'' (dr_query r)) [])"
  shows "serve_disk env l now rnd r d = (bad_link, d)"
  using signed_by_link(1) [OF refl assms(1,6), of now] assms(2,5)
  by (auto simp: serve_key [OF assms(3,4)] signed_def)

lemma put_upload_keeps:
  assumes "put_upload env l now rnd key r d = (cs, d')" "disk_ok d" "slash \<notin> set rnd"
    and "limit = parse_int (q_get ''max'' (dr_query r))"
  shows "(cs = [Write_header 204] \<longrightarrow>
      (q_get ''type'' (dr_query r) \<noteq> [] \<longrightarrow>
        to_lower (trim_space (fst (cut CHR '';'' (h_get ''Content-Type'' (hr_header r))))) = to_lower (q_get ''type'' (dr_query r))) \<and>
      (\<exists>b. files d' = (files d)(key \<mapsto> (b, now)) \<and> int (length b) = dr_length r \<and> (0 < limit \<longrightarrow> int (length b) \<le> limit))) \<and>
    (cs \<noteq> [Write_header 204] \<longrightarrow> files d' = files d)"
proof -
  let ?sent = "trim_space (fst (cut CHR '';'' (h_get ''Content-Type'' (hr_header r))))"
  let ?body = "if 0 < limit then max_bytes (nat limit) (dr_body r) else dr_body r"
  consider "d' = d" "cs \<noteq> [Write_header 204]"
    | e where "local_put now rnd key ?body (dr_length r) d = (e, d')" "cs = [Write_header 204] \<longleftrightarrow> e = None"
        "q_get ''type'' (dr_query r) \<noteq> [] \<longrightarrow> to_lower ?sent = to_lower (q_get ''type'' (dr_query r))"
        "0 < limit \<longrightarrow> dr_length r \<le> limit"
    using assms(1,4)
    by (auto simp: put_upload_def bad_link_def http_error_def Let_def split: if_splits prod.splits option.splits)
  then show ?thesis
  proof cases
    case 2
    from put_keeps [OF 2(1) assms(2,3)] 2(2-4) show ?thesis by (cases e) auto
  qed simp
qed

text \<open>
  An upload link takes what it says and nothing else: a PUT with its signature, and anything else in
  its query, on another key, another disk's route, once it has expired, or with another type or size than
  the link's, is turned away; one that is taken is of the link's type and no bigger than it says, and
  changes that key's file alone, to bytes as many as the request said.
\<close>

theorem an_upload_link_takes_what_it_says:
  assumes "upload_url env l' key' expires c = Inr link" "in_int64 (unix expires)" "in_int64 (cn_max c)"
    and "list_all (\<lambda>c. unreserved c \<or> c = slash) (lo_base l')" "cut CHR ''?'' link = (link_path, text, True)"
    and "q = dr_query r" "q_get ''signature'' q = q_get ''signature'' (parse_query text)"
    and "hr_method r = ''PUT''" "hr_path r = base_path env l @ ''/'' @ key" "check_key key"
    and "macs_apart env (lo_keys l) (hd (lo_keys l'))
           (link_parts env l' key' (itoa (unix expires)) [''PUT'', cn_type c, itoa (cn_max c)])
           (link_parts env l key (q_get ''expires'' q) [''PUT'', q_get ''type'' q, q_get ''max'' q])"
    and "disk_ok d" "slash \<notin> set rnd" "serve_disk env l now rnd r d = (cs, d')"
  shows "if base_path env l = base_path env l' \<and> key = key' \<and> now < of_unix (unix expires) \<and>
       q_get ''expires'' q = itoa (unix expires) \<and> q_get ''type'' q = cn_type c \<and> q_get ''max'' q = itoa (cn_max c)
     then (cs = [Write_header 204] \<longrightarrow>
         (cn_type c \<noteq> [] \<longrightarrow>
           to_lower (trim_space (fst (cut CHR '';'' (h_get ''Content-Type'' (hr_header r))))) = to_lower (cn_type c)) \<and>
         (\<exists>b. files d' = (files d)(key \<mapsto> (b, now)) \<and> int (length b) = dr_length r \<and>
            (0 < cn_max c \<longrightarrow> int (length b) \<le> cn_max c))) \<and>
       (cs \<noteq> [Write_header 204] \<longrightarrow> files d' = files d)
     else cs = bad_link \<and> d' = d"
proof -
  let ?u = "itoa (unix expires)" and ?k = "hd (lo_keys l')" and ?max = "itoa (cn_max c)"
  let ?sig = "b64_encode (sign_link env l' ?k key' ?u [''PUT'', cn_type c, ?max])"
  let ?q = "[(''expires'', ?u), (''max'', ?max), (''signature'', ?sig), (''type'', cn_type c)]"
  have link: "link = trim_slash (lo_base l') @ ''/'' @ escape_key key' @ ''?'' @ query_encode ?q"
    using assms(1) by (auto simp: upload_url_def Let_def split: if_splits)
  have plain: "list_all (\<lambda>c. unreserved c \<or> c = slash) (trim_slash (lo_base l'))"
    using assms(4) by (auto simp: trim_slash_def list_all_iff dest: in_set_butlastD)
  have tx: "text = query_encode ?q" using cut_link [OF plain] assms(5) unfolding link by simp
  have sig: "q_get ''signature'' q = ?sig"
    unfolding assms(7) tx parse_query_encode [OF list.distinct(2)] by (simp add: add_value_def q_get_def)
  note good = signed_by_link(1) [OF refl sig assms(11), of now]
  have served: "serve_disk env l now rnd r d = put_upload env l now rnd key r d"
    using assms(8) by (simp add: serve_key [OF assms(9,10)])
  have put: "put_upload env l now rnd key r d = (cs, d')" using served assms(14) by simp
  note until = not_expired_itoa [OF assms(2), of now]
  show ?thesis
  proof (cases "signed_upload env l now key q")
    case True
    with good until have all: "base_path env l = base_path env l' \<and> key = key' \<and> now < of_unix (unix expires) \<and>
        q_get ''expires'' q = ?u \<and> q_get ''type'' q = cn_type c \<and> q_get ''max'' q = ?max"
      by (auto simp: signed_upload_def)
    have "parse_int ?max = cn_max c" using assms(3) by (simp add: parse_int_def atoi_itoa)
    with all put_upload_keeps [OF put assms(12,13) refl] show ?thesis unfolding assms(6) [symmetric] by simp
  next
    case False
    then have bad: "cs = bad_link \<and> d' = d" using put unfolding put_upload_def assms(6) Let_def by simp
    moreover have "bad_link \<noteq> [Write_header 204]" by (simp add: bad_link_def http_error_def)
    ultimately show ?thesis by simp
  qed
qed

definition demo_env :: disk_env where
  "demo_env =
     \<lparr>de_url_path = Some, de_hkdf = (\<lambda>k info. k), de_hmac = (\<lambda>k m. rev m), de_detect = (\<lambda>b. ''text/plain''),
      de_serve = (\<lambda>r m b. [Write_body b])\<rparr>"

definition demo_local :: local_disk where
  "demo_local = \<lparr>lo_base = ''/files'', lo_public = False, lo_keys = [''k'']\<rparr>"

definition demo_ask :: "string \<Rightarrow> string \<Rightarrow> url_values \<Rightarrow> disk_request" where
  "demo_ask method key q =
     \<lparr>hr_method = method, hr_path = ''/files/'' @ key, hr_uri = [], hr_header = [(''Content-Type'', [''image/png''])],
      hr_remote = [], hr_request_id = [], hr_nonce = [], dr_query = q, dr_length = 2,
      dr_body = \<lparr>rd_bytes = ''hi'', rd_fails = False\<rparr>\<rparr>"

text \<open>A link to read the file a, until the Unix time 100, and one to upload it.\<close>

definition demo_text :: string where
  "demo_text = ''expires='' @ itoa 100 @ ''&signature='' @ b64_encode (sign_link demo_env demo_local ''k'' ''a'' (itoa 100) [])"

definition demo_conditions :: conditions where
  "demo_conditions = \<lparr>cn_type = ''image/png'', cn_max = 10\<rparr>"

definition demo_upload :: "(string \<times> string) list" where
  "demo_upload =
     [(''expires'', itoa 100), (''max'', itoa 10),
      (''signature'', b64_encode (sign_link demo_env demo_local ''k'' ''a'' (itoa 100) [''PUT'', ''image/png'', itoa 10])),
      (''type'', ''image/png'')]"

lemma unix_of_unix [simp]: "unix (of_unix n) = n"
  by (simp add: unix_def of_unix_def second_def)

lemma demo_keys: "check_key ''a''" "check_key ''b''" "escape_key ''a'' = ''a''" "trim_slash ''/files'' = ''/files''"
  by code_simp+

lemma demo_urls:
  "local_url demo_env demo_local ''a'' (of_unix 100) = Inr (''/files/a?'' @ demo_text)"
  "upload_url demo_env demo_local ''a'' (of_unix 100) demo_conditions = Inr (''/files/a?'' @ query_encode demo_upload)"
  by (simp_all add: local_url_def upload_url_def demo_keys demo_text_def demo_upload_def demo_conditions_def Let_def,
      simp_all add: demo_local_def demo_keys)

lemma demo_bases:
  "base_path demo_env demo_local = ''/files''" "lo_keys demo_local = [''k'']" "\<not> lo_public demo_local"
  "list_all (\<lambda>c. unreserved c \<or> c = slash) (lo_base demo_local)" "de_url_path demo_env (lo_base demo_local) = Some (lo_base demo_local)"
  by code_simp+

lemma demo_apart:
  "macs_apart demo_env [''k''] ''k'' (link_parts demo_env demo_local ''a'' (itoa 100) [])
     (link_parts demo_env demo_local ''b'' (itoa 100) [])"
  "macs_apart demo_env [''k''] ''k'' (link_parts demo_env demo_local ''a'' (itoa 100) [''PUT'', ''image/png'', itoa 10])
     (link_parts demo_env demo_local ''a'' (itoa 100) [''PUT'', ''image/png'', itoa 99])"
  by code_simp+

theorem a_link_opens_its_file_alone_witness:
  "serve_disk demo_env demo_local (of_unix 50) [] (demo_ask ''GET'' ''a'' (parse_query demo_text)) (new_disk ''d'') =
     (serve_file demo_env demo_local ''a'' (demo_ask ''GET'' ''a'' (parse_query demo_text)) (new_disk ''d''), new_disk ''d'') \<and>
   serve_disk demo_env demo_local (of_unix 50) [] (demo_ask ''GET'' ''b'' (parse_query demo_text)) (new_disk ''d'') =
     (bad_link, new_disk ''d'')"
proof
  have cut: "cut CHR ''?'' (''/files/a?'' @ demo_text) = (''/files/a'', demo_text, True)" by simp
  have in100: "in_int64 (unix (of_unix 100))" by (simp add: in_int64_def)
  have time: "of_unix 50 < of_unix (unix (of_unix 100))" unfolding unix_of_unix by (simp add: of_unix_def)
  have same: "macs_apart demo_env [''k''] ''k'' m m" for m by (simp add: macs_apart_def)
  note link = a_link_opens_its_file_alone [OF demo_urls(1) demo_bases(3) in100 demo_bases(4,5) cut]
  show "serve_disk demo_env demo_local (of_unix 50) [] (demo_ask ''GET'' ''a'' (parse_query demo_text)) (new_disk ''d'') =
     (serve_file demo_env demo_local ''a'' (demo_ask ''GET'' ''a'' (parse_query demo_text)) (new_disk ''d''), new_disk ''d'')"
    using link [of "demo_ask ''GET'' ''a'' (parse_query demo_text)" demo_local "''a''" "of_unix 50" "[]" "new_disk ''d''"] time
    by (simp add: demo_ask_def demo_bases demo_keys same)
  show "serve_disk demo_env demo_local (of_unix 50) [] (demo_ask ''GET'' ''b'' (parse_query demo_text)) (new_disk ''d'') =
     (bad_link, new_disk ''d'')"
    using link [of "demo_ask ''GET'' ''b'' (parse_query demo_text)" demo_local "''b''" "of_unix 50" "[]" "new_disk ''d''"]
    by (simp add: demo_ask_def demo_bases demo_keys demo_apart)
qed

text \<open>The link's own query is taken, and one with a greater size is not.\<close>

definition demo_values :: "int \<Rightarrow> url_values" where
  "demo_values n = add_value ''max'' (itoa n) (del ''max'' (parse_query (query_encode demo_upload)))"

lemma demo_values_get:
  "q_get ''expires'' (demo_values n) = itoa 100" "q_get ''max'' (demo_values n) = itoa n" "q_get ''type'' (demo_values n) = ''image/png''"
  "q_get ''signature'' (demo_values n) = q_get ''signature'' (parse_query (query_encode demo_upload))"
proof -
  have "parse_query (query_encode demo_upload) = map (\<lambda>(k, v). (k, [v])) demo_upload"
    using parse_query_encode [of demo_upload] by (simp add: demo_upload_def add_value_def)
  then show "q_get ''expires'' (demo_values n) = itoa 100" "q_get ''max'' (demo_values n) = itoa n"
    "q_get ''type'' (demo_values n) = ''image/png''"
    "q_get ''signature'' (demo_values n) = q_get ''signature'' (parse_query (query_encode demo_upload))"
    by (simp_all add: demo_values_def demo_upload_def add_value_def q_get_def)
qed

theorem an_upload_link_takes_what_it_says_witness:
  "serve_disk demo_env demo_local (of_unix 50) [] (demo_ask ''PUT'' ''a'' (demo_values 99)) (new_disk ''d'') = (bad_link, new_disk ''d'')"
proof -
  let ?r = "demo_ask ''PUT'' ''a'' (demo_values 99)"
  have cut: "cut CHR ''?'' (''/files/a?'' @ query_encode demo_upload) = (''/files/a'', query_encode demo_upload, True)" by simp
  have in100: "in_int64 (unix (of_unix 100))" "in_int64 (cn_max demo_conditions)"
    by (simp_all add: in_int64_def demo_conditions_def)
  obtain cs d' where s: "serve_disk demo_env demo_local (of_unix 50) [] ?r (new_disk ''d'') = (cs, d')" by fastforce
  have "itoa 99 \<noteq> itoa 10" using itoa_nat_inj [of 99 10] by simp
  with an_upload_link_takes_what_it_says
      [OF demo_urls(2) in100 demo_bases(4) cut refl _ _ _ demo_keys(1) _ new_disk_ok _ s] demo_apart(2) s
  show ?thesis by (simp add: demo_ask_def demo_bases demo_values_get demo_conditions_def)
qed

lemma demo_upload_is_taken:
  "fst (serve_disk demo_env demo_local (of_unix 50) [] (demo_ask ''PUT'' ''a'' (demo_values 10)) (new_disk ''d'')) = [Write_header 204]"
  by code_simp

end
