(* ===== verification/Login.thy ===== *)
theory Login
  imports Session
begin

text \<open>
  Who a session is logged in as (auth/auth.go): \<open>Login\<close>, \<open>Logout\<close>, a login held back for its second factor,
  the password confirmed lately, and the page to go on to. What they keep is in the session's values,
  which the cookie's JSON changes the types of between two requests; the refinement at the end says what
  it stands for after any run of them. SHA-256 and the parsing of a Referer are parameters.
\<close>

section \<open>What a session keeps\<close>

text \<open>
  The values auth keeps, of Go's type any. A float64 is known by the integer it truncates to, which is
  all that is read of one.
\<close>

datatype kept =
  K_str string | K_int int | K_float int | K_strs "string list" | K_list "kept list" | K_map "(string \<times> kept) list" |
  K_other

text \<open>What encoding/json makes of a value that is written and read back.\<close>

fun through_json :: "kept \<Rightarrow> kept" where
  "through_json (K_int n) = K_float n"
| "through_json (K_strs ss) = K_list (map K_str ss)"
| "through_json (K_list vs) = K_list (map through_json vs)"
| "through_json (K_map m) = K_map (map (\<lambda>(k, v). (k, through_json v)) m)"
| "through_json v = v"

type_synonym visitor_session = "kept session"

datatype 'a call_end = Panicked | Returned 'a

definition as_str :: "kept option \<Rightarrow> string" where
  "as_str v = (case v of Some (K_str s) \<Rightarrow> s | _ \<Rightarrow> [])"

definition as_map :: "kept option \<Rightarrow> (string \<times> kept) list" where
  "as_map v = (case v of Some (K_map m) \<Rightarrow> m | _ \<Rightarrow> [])"

definition unix_time :: "kept option \<Rightarrow> instant option" where
  "unix_time v = (case v of Some (K_int n) \<Rightarrow> Some (of_unix n) | Some (K_float n) \<Rightarrow> Some (of_unix n) | _ \<Rightarrow> None)"

definition id_key :: string where "id_key = ''tug.auth.id''"
definition check_key_name :: string where "check_key_name = ''tug.auth.check''"
definition login_key :: string where "login_key = ''tug.auth.login''"
definition intended_key :: string where "intended_key = ''tug.auth.intended''"
definition confirmed_key :: string where "confirmed_key = ''tug.auth.confirmed''"
definition pending_key :: string where "pending_key = ''tug.auth.pending''"
definition passkey_key :: string where "passkey_key = ''tug.auth.passkey''"

lemmas auth_keys = id_key_def check_key_name_def login_key_def intended_key_def confirmed_key_def pending_key_def
  passkey_key_def

definition pending_for :: duration where "pending_for = 10 * minute"

section \<open>Logging in and out\<close>

text \<open>\<open>sha\<close> is \<open>sha256.Sum256\<close>, and \<open>text\<close> below what \<open>rand.Text\<close> draws. A session that is nil is None.\<close>

definition fingerprint :: "(string \<Rightarrow> string) \<Rightarrow> string \<Rightarrow> string" where
  "fingerprint sha password_hash = b64_encode (take 12 (sha (''tug login'' @ [CHR 0x00] @ password_hash)))"

definition login ::
  "(string \<Rightarrow> string) \<Rightarrow> string \<Rightarrow> string \<Rightarrow> string \<Rightarrow> visitor_session option \<Rightarrow> visitor_session call_end" where
  "login sha drawn uid password_hash s =
     (case s of
        None \<Rightarrow> Panicked
      | Some s \<Rightarrow> Returned
          (session_set login_key (K_str drawn)
          (session_set check_key_name (K_str (fingerprint sha password_hash))
          (session_set id_key (K_str uid)
          (session_delete passkey_key (session_delete pending_key (session_delete confirmed_key (rotate_id s))))))))"

definition login_id :: "visitor_session option \<Rightarrow> string option" where
  "login_id s =
     (case s of
        None \<Rightarrow> None
      | Some s \<Rightarrow> let i = as_str (session_get login_key s) in if i = [] then None else Some i)"

definition logout :: "visitor_session option \<Rightarrow> visitor_session option" where
  "logout s = map_option session_clear s"

definition user_id :: "visitor_session option \<Rightarrow> string option" where
  "user_id s =
     (case s of
        None \<Rightarrow> None
      | Some s \<Rightarrow> let i = as_str (session_get id_key s) in if i = [] then None else Some i)"

definition current :: "(string \<Rightarrow> string) \<Rightarrow> string \<Rightarrow> visitor_session option \<Rightarrow> bool" where
  "current sha password_hash s =
     (case s of
        None \<Rightarrow> False
      | Some s \<Rightarrow> as_str (session_get check_key_name s) = fingerprint sha password_hash)"

section \<open>The page to go on to\<close>

text \<open>What is read of a request: its method, URI and host, and its Referer as \<open>url.Parse\<close> has it.\<close>

record referer =
  rf_host :: string
  rf_path :: string
  rf_uri :: string

record visit_request =
  vr_method :: string
  vr_uri :: string
  vr_host :: string
  vr_referer :: "referer option"

definition set_intended :: "visit_request \<Rightarrow> visitor_session option \<Rightarrow> visitor_session option" where
  "set_intended r s =
     (case s of
        None \<Rightarrow> None
      | Some s \<Rightarrow>
          if vr_method r = ''GET'' \<or> vr_method r = ''HEAD'' then Some (session_set intended_key (K_str (vr_uri r)) s)
          else (case vr_referer r of
                  None \<Rightarrow> Some s
                | Some ref \<Rightarrow>
                    if rf_host ref = vr_host r \<and> rf_path ref \<noteq> [] then Some (session_set intended_key (K_str (rf_uri ref)) s)
                    else Some s))"

definition own_path :: "string \<Rightarrow> bool" where
  "own_path u \<longleftrightarrow> has_prefix u ''/'' \<and> \<not> has_prefix u ''//'' \<and> \<not> has_prefix u [CHR 0x2F, CHR 0x5C]"

definition intended :: "string \<Rightarrow> visitor_session option \<Rightarrow> string \<times> visitor_session option" where
  "intended fallback s =
     (case s of
        None \<Rightarrow> (fallback, None)
      | Some s \<Rightarrow>
          let u = as_str (session_get intended_key s); s' = session_delete intended_key s
          in (if own_path u then u else fallback, Some s'))"

section \<open>The password confirmed, and the second factor\<close>

definition set_password_confirmed :: "instant \<Rightarrow> visitor_session option \<Rightarrow> visitor_session option" where
  "set_password_confirmed now s = map_option (session_set confirmed_key (K_int (unix now))) s"

definition password_confirmed :: "instant \<Rightarrow> duration \<Rightarrow> visitor_session option \<Rightarrow> bool" where
  "password_confirmed now within s =
     (case s of
        None \<Rightarrow> False
      | Some s \<Rightarrow> (case unix_time (session_get confirmed_key s) of None \<Rightarrow> False | Some t \<Rightarrow> now - t < within))"

definition start_two_factor :: "instant \<Rightarrow> string \<Rightarrow> visitor_session option \<Rightarrow> visitor_session call_end" where
  "start_two_factor now uid s =
     (case s of
        None \<Rightarrow> Panicked
      | Some s \<Rightarrow> Returned
          (session_set pending_key (K_map [(''id'', K_str uid), (''at'', K_int (unix now))])
          (session_delete confirmed_key (session_delete check_key_name (session_delete id_key s)))))"

definition two_factor_pending :: "instant \<Rightarrow> visitor_session option \<Rightarrow> string option" where
  "two_factor_pending now s =
     (case s of
        None \<Rightarrow> None
      | Some s \<Rightarrow>
          let pending = as_map (session_get pending_key s); i = as_str (lookup pending ''id'')
          in (case unix_time (lookup pending ''at'') of
                None \<Rightarrow> None
              | Some t \<Rightarrow> if i = [] \<or> pending_for \<le> now - t then None else Some i))"


section \<open>What the session stands for\<close>

text \<open>
  What a visitor is to the site, apart from any session: the user they are logged in as, with the password
  hash of then and the login's own ID, the user whose second factor is awaited, since when, when they
  last typed their password, and the page they mean to go on to. Times are in whole seconds, as kept.
\<close>

record visitor =
  vt_user :: "(string \<times> string \<times> string) option"
  vt_pending :: "(string \<times> int) option"
  vt_confirmed :: "int option"
  vt_intended :: "string option"

definition guest :: visitor where
  "guest = \<lparr>vt_user = None, vt_pending = None, vt_confirmed = None, vt_intended = None\<rparr>"

datatype auth_event =
  Logs_in string string string | Logs_out | Holds_back instant string | Confirms instant |
  Means_to visit_request | Goes_on | App_does "kept session_op" | Next_request

text \<open>What a handler of the app does to the session apart from auth's keys.\<close>

fun apart :: "auth_event \<Rightarrow> bool" where
  "apart (App_does (Set_value k v)) = (\<not> has_prefix k ''tug.auth.'')"
| "apart (App_does (Delete_value k)) = (\<not> has_prefix k ''tug.auth.'')"
| "apart (App_does Clear_all) = False"
| "apart _ = True"

text \<open>The page a request means, by the doc of \<open>SetIntended\<close>.\<close>

definition page_meant :: "visit_request \<Rightarrow> string option" where
  "page_meant r =
     (if vr_method r \<in> {''GET'', ''HEAD''} then Some (vr_uri r)
      else case vr_referer r of
             Some ref \<Rightarrow> if rf_host ref = vr_host r \<and> rf_path ref \<noteq> [] then Some (rf_uri ref) else None
           | None \<Rightarrow> None)"

fun visitor_does :: "auth_event \<Rightarrow> visitor \<Rightarrow> visitor" where
  "visitor_does (Logs_in drawn uid h) v = v\<lparr>vt_user := Some (uid, h, drawn), vt_pending := None, vt_confirmed := None\<rparr>"
| "visitor_does Logs_out v = guest"
| "visitor_does (Holds_back t uid) v = v\<lparr>vt_user := None, vt_pending := Some (uid, unix t), vt_confirmed := None\<rparr>"
| "visitor_does (Confirms t) v = v\<lparr>vt_confirmed := Some (unix t)\<rparr>"
| "visitor_does (Means_to r) v = (case page_meant r of None \<Rightarrow> v | Some u \<Rightarrow> v\<lparr>vt_intended := Some u\<rparr>)"
| "visitor_does Goes_on v = v\<lparr>vt_intended := None\<rparr>"
| "visitor_does (App_does op) v = v"
| "visitor_does Next_request v = v"

text \<open>The same events on a session; between two requests its values go through JSON.\<close>

definition next_request :: "visitor_session \<Rightarrow> visitor_session" where
  "next_request s =
     s\<lparr>s_values := map (\<lambda>(k, v). (k, through_json v)) (s_values s),
       s_now := map (\<lambda>(k, v). (k, through_json v)) (s_next s), s_next := []\<rparr>"

definition returned :: "visitor_session \<Rightarrow> visitor_session call_end \<Rightarrow> visitor_session" where
  "returned s r = (case r of Returned s' \<Rightarrow> s' | Panicked \<Rightarrow> s)"

fun auth_do :: "(string \<Rightarrow> string) \<Rightarrow> auth_event \<Rightarrow> visitor_session \<Rightarrow> visitor_session" where
  "auth_do sha (Logs_in drawn uid h) s = returned s (login sha drawn uid h (Some s))"
| "auth_do sha Logs_out s = the (logout (Some s))"
| "auth_do sha (Holds_back t uid) s = returned s (start_two_factor t uid (Some s))"
| "auth_do sha (Confirms t) s = the (set_password_confirmed t (Some s))"
| "auth_do sha (Means_to r) s = the (set_intended r (Some s))"
| "auth_do sha Goes_on s = the (snd (intended [] (Some s)))"
| "auth_do sha (App_does op) s = session_do op s"
| "auth_do sha Next_request s = next_request s"

definition stands_for :: "(string \<Rightarrow> string) \<Rightarrow> visitor \<Rightarrow> visitor_session \<Rightarrow> bool" where
  "stands_for sha v s \<longleftrightarrow>
     as_str (session_get id_key s) = (case vt_user v of None \<Rightarrow> [] | Some (i, _) \<Rightarrow> i) \<and>
     as_str (session_get check_key_name s) = (case vt_user v of None \<Rightarrow> [] | Some (_, h, _) \<Rightarrow> fingerprint sha h) \<and>
     (vt_pending v = None \<longrightarrow> as_str (session_get login_key s) = (case vt_user v of None \<Rightarrow> [] | Some (_, _, l) \<Rightarrow> l)) \<and>
     as_str (session_get intended_key s) = (case vt_intended v of None \<Rightarrow> [] | Some u \<Rightarrow> u) \<and>
     unix_time (session_get confirmed_key s) = map_option of_unix (vt_confirmed v) \<and>
     as_str (lookup (as_map (session_get pending_key s)) ''id'') = (case vt_pending v of None \<Rightarrow> [] | Some (i, _) \<Rightarrow> i) \<and>
     unix_time (lookup (as_map (session_get pending_key s)) ''at'') = map_option (of_unix \<circ> snd) (vt_pending v)"

lemma lookup_mapped: "map_of (map (\<lambda>(k, v). (k, f v)) m) k = map_option f (map_of m k)"
  by (simp add: map_of_map)

lemma through_json_reads [simp]:
  "as_str (map_option through_json v) = as_str v"
  "unix_time (map_option through_json v) = unix_time v"
  "as_map (map_option through_json v) = map (\<lambda>(k, v). (k, through_json v)) (as_map v)"
  by (cases v; cases "the v"; simp add: as_str_def unix_time_def as_map_def)+

lemma session_get_ops [simp]:
  "session_get k (session_set k' v s) = (if k = k' then Some v else session_get k s)"
  "session_get k (session_delete k' s) = (if k = k' then None else session_get k s)"
  "session_get k (session_clear s) = None"
  "session_get k (rotate_id s) = session_get k s"
  "session_get k (flash_set k' v s) = session_get k s"
  "session_get k (unflash k' s) = session_get k s"
  "session_get k (session_pass s) = session_get k s"
  "session_get k (reflash s) = session_get k s"
  "session_get k (set_lifetime d s) = session_get k s"
  "session_get k (next_request s) = map_option through_json (session_get k s)"
  by (simp_all add: session_get_def session_set_def session_delete_def session_clear_def rotate_id_def flash_set_def
      unflash_def session_pass_def reflash_def set_lifetime_def next_request_def lookup_mapped)

lemma kept_reads [simp]:
  "as_str (Some (K_str x)) = x" "as_str None = []" "as_map None = []" "as_map (Some (K_map m)) = m"
  "unix_time None = None" "unix_time (Some (K_int n)) = Some (of_unix n)"
  by (simp_all add: as_str_def as_map_def unix_time_def)


lemma auth_prefix [simp]:
  "has_prefix id_key ''tug.auth.''" "has_prefix check_key_name ''tug.auth.''" "has_prefix login_key ''tug.auth.''"
  "has_prefix intended_key ''tug.auth.''" "has_prefix confirmed_key ''tug.auth.''"
  "has_prefix pending_key ''tug.auth.''" "has_prefix passkey_key ''tug.auth.''"
  by (simp_all add: auth_keys)

lemma app_leaves: "apart (App_does op) \<Longrightarrow> has_prefix k ''tug.auth.'' \<Longrightarrow> session_get k (session_do op s) = session_get k s"
  by (cases op) auto

lemma key_names [simp]:
  "id_key \<noteq> check_key_name" "id_key \<noteq> login_key" "id_key \<noteq> intended_key" "id_key \<noteq> confirmed_key" "id_key \<noteq> pending_key"
  "id_key \<noteq> passkey_key" "check_key_name \<noteq> login_key" "check_key_name \<noteq> intended_key" "check_key_name \<noteq> confirmed_key"
  "check_key_name \<noteq> pending_key" "check_key_name \<noteq> passkey_key" "login_key \<noteq> intended_key" "login_key \<noteq> confirmed_key"
  "login_key \<noteq> pending_key" "login_key \<noteq> passkey_key" "intended_key \<noteq> confirmed_key" "intended_key \<noteq> pending_key"
  "intended_key \<noteq> passkey_key" "confirmed_key \<noteq> pending_key" "confirmed_key \<noteq> passkey_key" "pending_key \<noteq> passkey_key"
  by (simp_all add: auth_keys)

lemmas key_names_sym [simp] = key_names [symmetric]

lemma login_step:
  assumes "apart e" "stands_for sha v s"
  shows "stands_for sha (visitor_does e v) (auth_do sha e s)"
proof (cases e)
  case (Means_to r)
  with assms show ?thesis
    by (cases "vr_referer r") (auto simp: stands_for_def set_intended_def page_meant_def)
next
  case (App_does op)
  with assms app_leaves [of op _ s] show ?thesis by (simp add: stands_for_def)
next
  case Next_request
  with assms show ?thesis by (simp add: stands_for_def lookup_mapped)
next
  case Goes_on
  with assms show ?thesis by (simp add: stands_for_def intended_def Let_def)
qed (use assms in \<open>simp_all add: stands_for_def login_def logout_def start_two_factor_def set_password_confirmed_def
      returned_def guest_def\<close>)

definition visits :: "auth_event list \<Rightarrow> visitor" where
  "visits es = foldl (\<lambda>v e. visitor_does e v) guest es"

definition auth_run :: "(string \<Rightarrow> string) \<Rightarrow> auth_event list \<Rightarrow> visitor_session \<Rightarrow> visitor_session" where
  "auth_run sha es s = foldl (\<lambda>s e. auth_do sha e s) s es"

lemma login_steps:
  "list_all apart es \<Longrightarrow> stands_for sha v s \<Longrightarrow>
     stands_for sha (foldl (\<lambda>v e. visitor_does e v) v es) (foldl (\<lambda>s e. auth_do sha e s) s es)"
  by (induction es arbitrary: v s) (auto simp: login_step)

lemma fingerprint_nonempty: "length (sha (''tug login'' @ [CHR 0x00] @ h)) = 32 \<Longrightarrow> fingerprint sha h \<noteq> []"
  using b64_length [of "take 12 (sha (''tug login'' @ [CHR 0x00] @ h))"] by (auto simp: fingerprint_def)

lemma guest_stands: "s_values s = [] \<Longrightarrow> stands_for sha guest s"
  by (simp add: stands_for_def guest_def session_get_def)

text \<open>
  C21. Whatever logins, logouts, logins held back for a second factor, confirmed passwords, pages meant and
  gone on to, and doings of the app with keys of its own a session goes through, in whatever order, and
  through whichever requests' cookies, it says of its visitor what they make of one: who is logged in,
  by which login, unless a second factor has been asked for since, and whether with the password of now; whose second factor is awaited, and for ten minutes; whether the
  password was confirmed lately enough, after the login; and where to go on to, a path of this site or else
  the fallback.
\<close>

theorem a_session_says_who_visits:
  assumes "list_all apart es" "s_values s = []" "\<And>x. length (sha x) = 32"
  shows "(user_id (Some (auth_run sha es s)) =
      (case vt_user (visits es) of None \<Rightarrow> None | Some (i, _) \<Rightarrow> if i = [] then None else Some i)) \<and>
    (current sha h (Some (auth_run sha es s)) \<longleftrightarrow>
      (\<exists>i h' l. vt_user (visits es) = Some (i, h', l) \<and> fingerprint sha h' = fingerprint sha h)) \<and>
    (vt_pending (visits es) = None \<longrightarrow> login_id (Some (auth_run sha es s)) =
      (case vt_user (visits es) of None \<Rightarrow> None | Some (_, _, l) \<Rightarrow> if l = [] then None else Some l)) \<and>
    (two_factor_pending now (Some (auth_run sha es s)) =
      (case vt_pending (visits es) of None \<Rightarrow> None
       | Some (i, t) \<Rightarrow> if i \<noteq> [] \<and> now - of_unix t < 10 * minute then Some i else None)) \<and>
    (password_confirmed now d (Some (auth_run sha es s)) \<longleftrightarrow>
      (\<exists>t. vt_confirmed (visits es) = Some t \<and> now - of_unix t < d)) \<and>
    (fst (intended fallback (Some (auth_run sha es s))) =
      (case vt_intended (visits es) of None \<Rightarrow> fallback | Some u \<Rightarrow> if own_path u then u else fallback))"
proof -
  let ?s = "auth_run sha es s" and ?v = "visits es"
  have st: "stands_for sha ?v ?s"
    using login_steps [OF assms(1) guest_stands [OF assms(2)]] by (simp add: visits_def auth_run_def)
  have f: "fingerprint sha h \<noteq> []" by (rule fingerprint_nonempty) (rule assms(3))
  have own: "\<not> own_path []" by (simp add: own_path_def)
  from st have part1: "user_id (Some ?s) = (case vt_user ?v of None \<Rightarrow> None | Some (i, _) \<Rightarrow> if i = [] then None else Some i)"
    by (auto simp: stands_for_def user_id_def Let_def split: option.splits)
  from st f have part2: "current sha h (Some ?s) \<longleftrightarrow> (\<exists>i h' l. vt_user ?v = Some (i, h', l) \<and> fingerprint sha h' = fingerprint sha h)"
    by (auto simp: stands_for_def current_def split: option.splits)
  from st have part3: "vt_pending ?v = None \<longrightarrow>
      login_id (Some ?s) = (case vt_user ?v of None \<Rightarrow> None | Some (_, _, l) \<Rightarrow> if l = [] then None else Some l)"
    by (auto simp: stands_for_def login_id_def Let_def split: option.splits)
  from st have part4: "two_factor_pending now (Some ?s) =
      (case vt_pending ?v of None \<Rightarrow> None | Some (i, t) \<Rightarrow> if i \<noteq> [] \<and> now - of_unix t < 10 * minute then Some i else None)"
    by (auto simp: stands_for_def two_factor_pending_def pending_for_def Let_def split: option.splits)
  from st have part5: "password_confirmed now d (Some ?s) \<longleftrightarrow> (\<exists>t. vt_confirmed ?v = Some t \<and> now - of_unix t < d)"
    by (auto simp: stands_for_def password_confirmed_def split: option.splits)
  from st own have part6: "fst (intended fallback (Some ?s)) =
      (case vt_intended ?v of None \<Rightarrow> fallback | Some u \<Rightarrow> if own_path u then u else fallback)"
    by (auto simp: stands_for_def intended_def Let_def split: option.splits)
  show ?thesis by (rule conjI [OF part1 conjI [OF part2 conjI [OF part3 conjI [OF part4 conjI [OF part5 part6]]]]])
qed


text \<open>A session as a first request has it.\<close>

definition first_visit :: visitor_session where
  "first_visit =
     \<lparr>s_values = [], s_now = [], s_next = [], s_had = False, s_lifetime = 0, s_base = 2 * hour, s_id = [],
      s_wrote = zero_time, s_rotated = False, s_lost = False, s_changed = False, s_passed = False\<rparr>"

theorem a_session_says_who_visits_witness:
  "user_id (Some (auth_run (\<lambda>x. replicate 32 (CHR ''x''))
     [Holds_back unix_epoch ''7'', Next_request, Logs_in ''L'' ''7'' ''hash'', App_does (Set_value ''cart'' (K_int 1)), Next_request]
     first_visit)) = Some ''7'' \<and>
   two_factor_pending (unix_epoch + minute) (Some (auth_run (\<lambda>x. replicate 32 (CHR ''x''))
     [Logs_in ''L'' ''7'' ''hash'', Holds_back unix_epoch ''8'', Next_request] first_visit)) = Some ''8''"
  using a_session_says_who_visits [THEN conjunct1, of
      "[Holds_back unix_epoch ''7'', Next_request, Logs_in ''L'' ''7'' ''hash'', App_does (Set_value ''cart'' (K_int 1)), Next_request]"
      first_visit "\<lambda>x. replicate 32 (CHR ''x'')"]
    a_session_says_who_visits [THEN conjunct2, THEN conjunct2, THEN conjunct2, THEN conjunct1, of "[Logs_in ''L'' ''7'' ''hash'', Holds_back unix_epoch ''8'', Next_request]"
      first_visit "\<lambda>x. replicate 32 (CHR ''x'')" "unix_epoch + minute"]
  by (simp add: first_visit_def visits_def guest_def unix_def of_unix_def minute_def second_def)

text \<open>
  While a second factor is awaited of someone whose session was logged in before, the session is logged in as no one, and
  still has the ID of the login before.
\<close>

lemma a_held_back_login_keeps_its_id:
  "let s = auth_run (\<lambda>x. replicate 32 (CHR ''x'')) [Logs_in ''L'' ''7'' ''hash'', Holds_back unix_epoch ''8''] first_visit
   in user_id (Some s) = None \<and> login_id (Some s) = Some ''L''"
  by (simp add: auth_run_def login_def start_two_factor_def returned_def user_id_def login_id_def first_visit_def Let_def)

end
