(* ===== verification/Cbor.thy ===== *)
theory Cbor
  imports Utf8
begin

text \<open>
  The CBOR of a passkey's answer (auth/cbor.go): integers, byte and text strings, lists, maps, and true,
  false and null, of definite lengths, nesting at most 8 deep. Each branch of \<open>cborDecoder.item\<close> is one
  of \<open>cbor_item\<close>, and its two loops are \<open>cbor_list\<close> and \<open>cbor_map\<close>. What the decoder takes is set
  out apart from it, as a grammar of RFC 8949's encodings, which it is shown to read, all of it and nothing else.
\<close>

section \<open>The decoder\<close>

text \<open>The items \<open>decodeCBOR\<close> makes: int64, []byte, string, []any, map[any]any, bool and nil.\<close>

datatype cbor =
  C_int int | C_bytes string | C_text string | C_list "cbor list" | C_map "(cbor \<times> cbor) list" |
  C_bool bool | C_null

datatype cbor_error =
  Too_deep | Ends_early | Other_simple | Int_too_big | Int_too_small | Not_utf8 | Bad_key | Key_twice cbor |
  A_tag | Open_length

definition cbor_max_depth :: nat where "cbor_max_depth = 8"

definition max_int64 :: nat where "max_int64 = 2 ^ 63 - 1"

text \<open>A \<open>uint64\<close> shifted by a byte, and the byte put in: past 64 bits, the top ones are lost.\<close>

definition shift_in :: "nat \<Rightarrow> char \<Rightarrow> nat" where
  "shift_in n c = (n * 256 + of_char c) mod 2 ^ 64"

definition cbor_argument :: "nat \<Rightarrow> string \<Rightarrow> cbor_error + nat \<times> string" where
  "cbor_argument info b =
     (if info < 24 then Inr (info, b)
      else if 27 < info then Inl Open_length
      else let size = 2 ^ (info - 24)
           in if length b < size then Inl Ends_early
              else Inr (foldl shift_in 0 (take size b), drop size b))"

definition is_key :: "cbor \<Rightarrow> bool" where
  "is_key k = (case k of C_int _ \<Rightarrow> True | C_text _ \<Rightarrow> True | _ \<Rightarrow> False)"

definition cbor_simple :: "nat \<Rightarrow> cbor_error + cbor" where
  "cbor_simple info =
     (if info = 20 then Inr (C_bool False) else if info = 21 then Inr (C_bool True)
      else if info = 22 then Inr C_null else Inl Other_simple)"

text \<open>The strings and integers, majors 0 to 3, which hold no other item.\<close>

definition cbor_scalar :: "nat \<Rightarrow> nat \<Rightarrow> string \<Rightarrow> cbor_error + cbor \<times> string" where
  "cbor_scalar major n b =
     (if major = 0 then (if max_int64 < n then Inl Int_too_big else Inr (C_int (int n), b))
      else if major = 1 then (if max_int64 < n then Inl Int_too_small else Inr (C_int (- 1 - int n), b))
      else if length b < n then Inl Ends_early
      else if major = 2 then Inr (C_bytes (take n b), drop n b)
      else if \<not> utf8_valid (take n b) then Inl Not_utf8
      else Inr (C_text (take n b), drop n b))"

function cbor_item :: "nat \<Rightarrow> string \<Rightarrow> cbor_error + cbor \<times> string"
  and cbor_list :: "nat \<Rightarrow> nat \<Rightarrow> string \<Rightarrow> cbor_error + cbor list \<times> string"
  and cbor_map :: "nat \<Rightarrow> nat \<Rightarrow> (cbor \<times> cbor) list \<Rightarrow> string \<Rightarrow> cbor_error + (cbor \<times> cbor) list \<times> string" where
  "cbor_item depth b =
     (if cbor_max_depth < depth then Inl Too_deep
      else case b of
             [] \<Rightarrow> Inl Ends_early
           | c # b1 \<Rightarrow>
               let major = of_char c div 32; info = of_char c mod 32
               in if major = 7 then (case cbor_simple info of Inl e \<Rightarrow> Inl e | Inr v \<Rightarrow> Inr (v, b1))
                  else (case cbor_argument info b1 of
                          Inl e \<Rightarrow> Inl e
                        | Inr (n, b2) \<Rightarrow>
                            if major < 4 then cbor_scalar major n b2
                            else if major = 4 then
                              (if length b2 < n then Inl Ends_early
                               else case cbor_list (depth + 1) n b2 of
                                      Inl e \<Rightarrow> Inl e | Inr (vs, rest) \<Rightarrow> Inr (C_list vs, rest))
                            else if major = 5 then
                              (if length b2 div 2 < n then Inl Ends_early
                               else case cbor_map (depth + 1) n [] b2 of
                                      Inl e \<Rightarrow> Inl e | Inr (m, rest) \<Rightarrow> Inr (C_map m, rest))
                            else Inl A_tag))"
| "cbor_list depth 0 b = Inr ([], b)"
| "cbor_list depth (Suc n) b =
     (case cbor_item depth b of
        Inl e \<Rightarrow> Inl e
      | Inr (v, b1) \<Rightarrow>
          (case cbor_list depth n b1 of Inl e \<Rightarrow> Inl e | Inr (vs, rest) \<Rightarrow> Inr (v # vs, rest)))"
| "cbor_map depth 0 m b = Inr (m, b)"
| "cbor_map depth (Suc n) m b =
     (case cbor_item depth b of
        Inl e \<Rightarrow> Inl e
      | Inr (k, b1) \<Rightarrow>
          if \<not> is_key k then Inl Bad_key
          else if map_of m k \<noteq> None then Inl (Key_twice k)
          else (case cbor_item depth b1 of
                  Inl e \<Rightarrow> Inl e
                | Inr (v, b2) \<Rightarrow> cbor_map depth n (m @ [(k, v)]) b2))"
  by pat_completeness auto
termination
  by (relation
        "measures [\<lambda>c. case c of Inl (d, _) \<Rightarrow> 10 - d | Inr (Inl (d, _, _)) \<Rightarrow> 10 - d | Inr (Inr (d, _, _, _)) \<Rightarrow> 10 - d,
                   \<lambda>c. case c of Inl _ \<Rightarrow> 0 | Inr (Inl (_, n, _)) \<Rightarrow> Suc n | Inr (Inr (_, n, _, _)) \<Rightarrow> Suc n]")
     (auto simp: cbor_max_depth_def)

declare cbor_item.simps [simp del]

definition decode_cbor :: "string \<Rightarrow> cbor_error + cbor \<times> string" where
  "decode_cbor b = cbor_item 0 b"


section \<open>What CBOR is\<close>

text \<open>
  A number's bytes, the first the highest; an item's head, whose argument is in its first byte or in the
  1, 2, 4 or 8 after it, however small it is; and the encodings of items, lists of them and pairs of them,
  inside \<open>d\<close> lists and maps.
\<close>

fun be_bytes :: "nat \<Rightarrow> nat \<Rightarrow> string" where
  "be_bytes 0 n = []"
| "be_bytes (Suc k) n = be_bytes k (n div 256) @ [char_of (n mod 256)]"

inductive cbor_head :: "nat \<Rightarrow> nat \<Rightarrow> string \<Rightarrow> bool" where
  short: "n < 24 \<Longrightarrow> cbor_head major n [char_of (major * 32 + n)]"
| long: "k < 4 \<Longrightarrow> n < 256 ^ 2 ^ k \<Longrightarrow>
    cbor_head major n (char_of (major * 32 + (24 + k)) # be_bytes (2 ^ k) n)"

definition keys_ok :: "cbor list \<Rightarrow> bool" where
  "keys_ok ks \<longleftrightarrow> distinct ks \<and> list_all is_key ks"

inductive enc :: "nat \<Rightarrow> cbor \<Rightarrow> string \<Rightarrow> bool"
  and encs :: "nat \<Rightarrow> cbor list \<Rightarrow> string \<Rightarrow> bool"
  and enc_pairs :: "nat \<Rightarrow> (cbor \<times> cbor) list \<Rightarrow> string \<Rightarrow> bool" where
  e_nat: "d \<le> 8 \<Longrightarrow> n < 2 ^ 63 \<Longrightarrow> cbor_head 0 n h \<Longrightarrow> enc d (C_int (int n)) h"
| e_neg: "d \<le> 8 \<Longrightarrow> n < 2 ^ 63 \<Longrightarrow> cbor_head 1 n h \<Longrightarrow> enc d (C_int (- 1 - int n)) h"
| e_bytes: "d \<le> 8 \<Longrightarrow> cbor_head 2 (length s) h \<Longrightarrow> enc d (C_bytes s) (h @ s)"
| e_text: "d \<le> 8 \<Longrightarrow> cbor_head 3 (length s) h \<Longrightarrow> utf8_valid s \<Longrightarrow> enc d (C_text s) (h @ s)"
| e_list: "d \<le> 8 \<Longrightarrow> cbor_head 4 (length vs) h \<Longrightarrow> encs (d + 1) vs p \<Longrightarrow> enc d (C_list vs) (h @ p)"
| e_map: "d \<le> 8 \<Longrightarrow> cbor_head 5 (length m) h \<Longrightarrow> keys_ok (map fst m) \<Longrightarrow> enc_pairs (d + 1) m p \<Longrightarrow>
    enc d (C_map m) (h @ p)"
| e_false: "d \<le> 8 \<Longrightarrow> enc d (C_bool False) [CHR 0xF4]"
| e_true: "d \<le> 8 \<Longrightarrow> enc d (C_bool True) [CHR 0xF5]"
| e_null: "d \<le> 8 \<Longrightarrow> enc d C_null [CHR 0xF6]"
| e_none: "encs d [] []"
| e_some: "enc d v p \<Longrightarrow> encs d vs q \<Longrightarrow> encs d (v # vs) (p @ q)"
| e_no_pair: "enc_pairs d [] []"
| e_pair: "enc d k p \<Longrightarrow> enc d v q \<Longrightarrow> enc_pairs d m r \<Longrightarrow> enc_pairs d ((k, v) # m) (p @ q @ r)"

lemmas enc_intros = e_nat e_neg e_bytes e_text e_list e_map e_false e_true e_null e_none e_some e_no_pair e_pair

section \<open>Heads\<close>

lemma be_bytes_length [simp]: "length (be_bytes k n) = k"
  by (induction k n rule: be_bytes.induct) simp_all

lemma byte_step: "a < b \<Longrightarrow> a * 256 + of_char c < 256 * (b::nat)"
proof -
  have "x < 256 \<Longrightarrow> a < b \<Longrightarrow> a * 256 + x < 256 * b" for x :: nat by linarith
  then show "a < b \<Longrightarrow> ?thesis" by (simp add: of_char_def)
qed

lemma shift_ins_small: "length bs \<le> 8 \<Longrightarrow> foldl shift_in 0 bs < 256 ^ length bs"
proof (induction bs rule: rev_induct)
  case (snoc c bs)
  let ?n = "foldl shift_in 0 bs"
  have "?n < 256 ^ length bs" using snoc by simp
  then have "?n * 256 + of_char c < 256 ^ length (bs @ [c])" using byte_step by simp
  then show ?case unfolding shift_in_def by (simp add: shift_in_def order.strict_trans1 [OF mod_less_eq_dividend])
qed simp

lemma shift_in_small: "n < 256 ^ k \<Longrightarrow> k < 8 \<Longrightarrow> shift_in n c = n * 256 + of_char c"
proof -
  assume a: "n < 256 ^ k" "k < 8"
  have "n * 256 + of_char c < 256 ^ Suc k" using byte_step [OF a(1)] by simp
  also have "\<dots> \<le> 256 ^ 8" using a(2) by (intro power_increasing) auto
  finally show ?thesis by (simp add: shift_in_def)
qed

lemma be_bytes_shift: "n < 256 ^ k \<Longrightarrow> k \<le> 8 \<Longrightarrow> foldl shift_in 0 (be_bytes k n) = n"
proof (induction k n rule: be_bytes.induct)
  case (2 k n)
  then have "n div 256 < 256 ^ k" by (simp add: less_mult_imp_div_less mult.commute)
  with 2 show ?case by (simp add: shift_in_small [of "n div 256" k])
qed simp

lemma shift_be_bytes: "length bs \<le> 8 \<Longrightarrow> be_bytes (length bs) (foldl shift_in 0 bs) = bs"
proof (induction bs rule: rev_induct)
  case (snoc c bs)
  have "foldl shift_in 0 (bs @ [c]) = foldl shift_in 0 bs * 256 + of_char c"
    using snoc.prems shift_ins_small [of bs] by (simp add: shift_in_small [of _ "length bs"])
  moreover have "of_char c < (256::nat)" by (simp add: of_char_def)
  ultimately show ?case using snoc by simp
qed simp

lemma head_nonempty: "cbor_head major n h \<Longrightarrow> Suc 0 \<le> length h"
  by (induction rule: cbor_head.induct) simp_all

lemma head_is_read:
  assumes "cbor_head major n h" "major < 8"
  shows "\<exists>c h'. h = c # h' \<and> of_char c div 32 = major \<and> cbor_argument (of_char c mod 32) (h' @ b) = Inr (n, b)"
  using assms
proof (induction rule: cbor_head.induct)
  case (short n major)
  then show ?case by (auto simp: cbor_argument_def)
next
  case (long k n major)
  have "(2::nat) ^ k \<le> 2 ^ 3" using long.hyps(1) by (intro power_increasing) auto
  with long show ?case by (simp add: cbor_argument_def be_bytes_shift)
qed

lemma read_is_head:
  assumes "cbor_argument (of_char c mod 32) b = Inr (n, rest)"
  shows "\<exists>h. b = h @ rest \<and> cbor_head (of_char c div 32) n (c # h)"
proof -
  let ?i = "of_char c mod 32 :: nat" let ?m = "of_char c div 32 :: nat"
  have c: "char_of (?m * 32 + ?i) = c" by simp
  show ?thesis
  proof (cases "?i < 24")
    case True
    with assms cbor_head.short [OF True, of ?m] c show ?thesis by (auto simp: cbor_argument_def)
  next
    case False
    define k where "k = ?i - 24"
    from False assms have k: "?i = 24 + k" "k < 4" "2 ^ k \<le> length b"
      "n = foldl shift_in 0 (take (2 ^ k) b)" "rest = drop (2 ^ k) b"
      by (auto simp: cbor_argument_def k_def Let_def split: if_splits)
    have "(2::nat) ^ k \<le> 2 ^ 3" using k(2) by (intro power_increasing) auto
    with k(3,4) shift_ins_small [of "take (2 ^ k) b"] shift_be_bytes [of "take (2 ^ k) b"]
    have n: "n < 256 ^ 2 ^ k" "be_bytes (2 ^ k) n = take (2 ^ k) b" by (simp_all add: min_absorb2)
    from cbor_head.long [OF k(2) n(1), of ?m] n(2) c k(1)
    have "cbor_head ?m n (c # take (2 ^ k) b)" by simp
    with k(5) show ?thesis by (intro exI [of _ "take (2 ^ k) b"]) simp
  qed
qed


section \<open>The decoder reads the grammar\<close>

lemma scalar_read:
  assumes "cbor_scalar major n b = Inr (v, rest)" "major < 4" "cbor_head major n h" "d \<le> 8"
  shows "\<exists>p. b = p @ rest \<and> enc d v (h @ p)"
proof -
  consider "major = 0" | "major = 1" | "major = 2" | "major = 3" using assms(2) by linarith
  then show ?thesis
  proof cases
    case 1
    with assms show ?thesis
      by (auto simp: cbor_scalar_def max_int64_def split: if_splits intro!: e_nat)
  next
    case 2
    with assms show ?thesis
      by (auto simp: cbor_scalar_def max_int64_def split: if_splits intro!: e_neg)
  next
    case 3
    with assms show ?thesis
      by (intro exI [of _ "take n b"]) (auto simp: cbor_scalar_def split: if_splits intro!: e_bytes)
  next
    case 4
    with assms show ?thesis
      by (intro exI [of _ "take n b"]) (auto simp: cbor_scalar_def split: if_splits intro!: e_text)
  qed
qed

lemma simple_bytes [simp]: "char_of (244::nat) = CHR 0xF4" "char_of (245::nat) = CHR 0xF5" "char_of (246::nat) = CHR 0xF6"
  by code_simp+

lemma simple_read: "cbor_simple (of_char c mod 32) = Inr v \<Longrightarrow> of_char c div 32 = (7::nat) \<Longrightarrow> d \<le> 8 \<Longrightarrow> enc d v [c]"
proof -
  assume a: "cbor_simple (of_char c mod 32) = Inr v" "of_char c div 32 = (7::nat)" "d \<le> 8"
  have "of_char c = (of_char c div 32) * 32 + (of_char c mod 32 :: nat)" by simp
  with a(2) have c: "c = char_of (7 * 32 + (of_char c mod 32 :: nat))"
    by (metis char_of_char)
  from a(1) consider "of_char c mod 32 = (20::nat)" "v = C_bool False" | "of_char c mod 32 = (21::nat)" "v = C_bool True"
    | "of_char c mod 32 = (22::nat)" "v = C_null"
    by (auto simp: cbor_simple_def split: if_splits)
  then show ?thesis
    by cases (use c a(3) in \<open>simp_all add: enc_intros\<close>)
qed

lemma cbor_read:
  "cbor_item d b = Inr (v, rest) \<Longrightarrow> \<exists>p. b = p @ rest \<and> enc d v p"
  "cbor_list d n b = Inr (vs, rest) \<Longrightarrow> \<exists>p. b = p @ rest \<and> encs d vs p \<and> length vs = n"
  "cbor_map d n m b = Inr (m', rest) \<Longrightarrow> keys_ok (map fst m) \<Longrightarrow>
     \<exists>new p. m' = m @ new \<and> b = p @ rest \<and> enc_pairs d new p \<and> keys_ok (map fst m') \<and> length new = n"
proof (induction d b and d n b and d n m b arbitrary: v rest and vs rest and m' rest
    rule: cbor_item_cbor_list_cbor_map.induct)
  case (1 d b)
  from 1(3) have d: "d \<le> 8" and "b \<noteq> []"
    by (auto simp: cbor_item.simps [of d b] cbor_max_depth_def split: if_splits)
  then obtain c b1 where b: "b = c # b1" by (cases b) auto
  let ?m = "of_char c div 32 :: nat" let ?i = "of_char c mod 32 :: nat"
  have small: "\<not> cbor_max_depth < d" using d by (simp add: cbor_max_depth_def)
  show ?case
  proof (cases "?m = 7")
    case True
    with 1(3) b small have "cbor_simple ?i = Inr v" "rest = b1"
      by (auto simp: cbor_item.simps [of d "c # b1"] Let_def split: sum.splits)
    then show ?thesis using simple_read [OF _ True d] b by auto
  next
    case False
    with 1(3) b small obtain n b2 where n: "cbor_argument ?i b1 = Inr (n, b2)"
      by (auto simp: cbor_item.simps [of d "c # b1"] Let_def split: sum.splits)
    from read_is_head [OF this] obtain h where h: "b1 = h @ b2" "cbor_head ?m n (c # h)" by auto
    consider "?m < 4" | "?m = 4" | "?m = 5" | "\<not> ?m < 4" "?m \<noteq> 4" "?m \<noteq> 5" by blast
    then show ?thesis
    proof cases
      case 1
      with \<open>cbor_item d b = _\<close> b small n have "cbor_scalar ?m n b2 = Inr (v, rest)"
        by (simp add: cbor_item.simps [of d "c # b1"] Let_def)
      from scalar_read [OF this 1 h(2) d] b h(1) show ?thesis by auto
    next
      case 2
      with \<open>cbor_item d b = _\<close> b small n obtain vs where
        vs: "length b2 \<ge> n" "cbor_list (d + 1) n b2 = Inr (vs, rest)" "v = C_list vs"
        by (auto simp: cbor_item.simps [of d "c # b1"] Let_def split: if_splits sum.splits)
      obtain p where "b2 = p @ rest" "encs (d + 1) vs p" "length vs = n"
        using "1.IH"(1) [OF small b refl refl False n refl _ 2] vs 2 by auto
      then show ?thesis using e_list [OF d, of vs "c # h" p] h 2 b vs(3) by auto
    next
      case 3
      with \<open>cbor_item d b = _\<close> b small n obtain m where
        m: "length b2 div 2 \<ge> n" "cbor_map (d + 1) n [] b2 = Inr (m, rest)" "v = C_map m"
        by (auto simp: cbor_item.simps [of d "c # b1"] Let_def split: if_splits sum.splits)
      obtain p where "b2 = p @ rest" "enc_pairs (d + 1) m p" "keys_ok (map fst m)" "length m = n"
        using "1.IH"(2) [OF small b refl refl False n refl _ _ 3] m 3 by (auto simp: keys_ok_def)
      then show ?thesis using e_map [OF d, of m "c # h" p] h 3 b m(3) by auto
    next
      case 4
      with \<open>cbor_item d b = _\<close> b small n False show ?thesis by (simp add: cbor_item.simps [of d "c # b1"] Let_def)
    qed
  qed
next
  case (3 d n b)
  from "3.prems" obtain v b1 vs1 where v: "cbor_item d b = Inr (v, b1)" "cbor_list d n b1 = Inr (vs1, rest)" "vs = v # vs1"
    by (auto split: sum.splits)
  with 3 obtain p q where "b = p @ b1" "enc d v p" "b1 = q @ rest" "encs d vs1 q" "length vs1 = n" by fastforce
  then show ?case using v(3) e_some [of d v p vs1 q] by auto
next
  case (5 d n m b)
  from "5.prems" obtain k b1 v b2 where k: "cbor_item d b = Inr (k, b1)" "is_key k" "map_of m k = None"
    "cbor_item d b1 = Inr (v, b2)" "cbor_map d n (m @ [(k, v)]) b2 = Inr (m', rest)"
    by (auto split: sum.splits if_splits)
  have "keys_ok (map fst (m @ [(k, v)]))"
    using "5.prems"(2) k(2,3) by (auto simp: keys_ok_def map_of_eq_None_iff)
  with "5.IH" k obtain p q new r where
    "b = p @ b1" "enc d k p" "b1 = q @ b2" "enc d v q" "b2 = r @ rest" "m' = (m @ [(k, v)]) @ new"
    "enc_pairs d new r" "keys_ok (map fst m')" "length new = n" by fastforce
  then show ?case using e_pair [of d k p v q new r] by auto
qed (auto simp: enc_intros)


lemma item_head:
  assumes "d \<le> 8" "cbor_head major n h" "major < 6"
  shows "cbor_item d (h @ b) =
    (if major < 4 then cbor_scalar major n b
     else if major = 4 then
       (if length b < n then Inl Ends_early
        else case cbor_list (d + 1) n b of Inl e \<Rightarrow> Inl e | Inr (vs, rest) \<Rightarrow> Inr (C_list vs, rest))
     else (if length b div 2 < n then Inl Ends_early
           else case cbor_map (d + 1) n [] b of Inl e \<Rightarrow> Inl e | Inr (m, rest) \<Rightarrow> Inr (C_map m, rest)))"
proof -
  obtain c h' where "h = c # h'" "of_char c div 32 = major" "cbor_argument (of_char c mod 32) (h' @ b) = Inr (n, b)"
    using head_is_read [OF assms(2), of b] assms(3) by auto
  with assms show ?thesis by (simp add: cbor_item.simps [of d "c # h' @ b"] cbor_max_depth_def Let_def)
qed

lemma cbor_list_2 [simp]: "cbor_list d 2 b = cbor_list d (Suc (Suc 0)) b"
  and cbor_map_2 [simp]: "cbor_map d 2 m b = cbor_map d (Suc (Suc 0)) m b"
  and cbor_list_1 [simp]: "cbor_list d 1 b = cbor_list d (Suc 0) b"
  and cbor_map_1 [simp]: "cbor_map d 1 m b = cbor_map d (Suc 0) m b"
  by (simp_all add: numeral_2_eq_2)

lemma simple_items:
  assumes "d \<le> 8"
  shows "cbor_item d (CHR 0xF4 # b) = Inr (C_bool False, b)" "cbor_item d (CHR 0xF5 # b) = Inr (C_bool True, b)"
    "cbor_item d (CHR 0xF6 # b) = Inr (C_null, b)"
  using assms
  by (simp_all add: cbor_item.simps [of d "CHR 0xF4 # b"] cbor_item.simps [of d "CHR 0xF5 # b"]
      cbor_item.simps [of d "CHR 0xF6 # b"] cbor_max_depth_def cbor_simple_def)

lemma read_cbor:
  "enc d v p \<Longrightarrow> Suc 0 \<le> length p \<and> (\<forall>b. cbor_item d (p @ b) = Inr (v, b))"
  "encs d vs p \<Longrightarrow> length vs \<le> length p \<and> (\<forall>b. cbor_list d (length vs) (p @ b) = Inr (vs, b))"
  "enc_pairs d m p \<Longrightarrow> 2 * length m \<le> length p \<and>
     (\<forall>b acc. keys_ok (map fst (acc @ m)) \<longrightarrow> cbor_map d (length m) acc (p @ b) = Inr (acc @ m, b))"
proof (induction rule: enc_encs_enc_pairs.inducts)
  case (e_nat d n h)
  then show ?case using head_nonempty [OF e_nat(3)] by (simp add: item_head [of d 0 n h] cbor_scalar_def max_int64_def)
next
  case (e_neg d n h)
  then show ?case using head_nonempty [OF e_neg(3)] by (simp add: item_head [of d 1 n h] cbor_scalar_def max_int64_def)
next
  case (e_bytes d s h)
  then show ?case using head_nonempty [OF e_bytes(2)]
    by (simp add: item_head [of d 2 "length s" h] cbor_scalar_def)
next
  case (e_text d s h)
  then show ?case using head_nonempty [OF e_text(2)]
    by (simp add: item_head [of d 3 "length s" h] cbor_scalar_def)
next
  case (e_list d vs h p)
  then show ?case using head_nonempty [OF e_list(2)] by (simp add: item_head [of d 4 "length vs" h])
next
  case (e_map d m h p)
  then show ?case using head_nonempty [OF e_map(2)] by (simp add: item_head [of d 5 "length m" h] div_less_iff_less_mult)
next
  case (e_pair d k p v q m r)
  have "is_key k \<and> map_of acc k = None" if "keys_ok (map fst (acc @ (k, v) # m))" for acc
    using that by (auto simp: keys_ok_def map_of_eq_None_iff)
  with e_pair show ?case by auto
next
  case (e_some d v p vs q)
  then show ?case by auto
qed (simp_all add: simple_items)

section \<open>What decodes\<close>

text \<open>
  The items that the decoder may return, inside \<open>d\<close> lists and maps; and how much they hold, a unit for
  each of them and for each byte of their strings.
\<close>

fun cbor_ok :: "nat \<Rightarrow> cbor \<Rightarrow> bool" where
  "cbor_ok d (C_int i) = (d \<le> 8 \<and> in_int64 i)"
| "cbor_ok d (C_bytes s) = (d \<le> 8)"
| "cbor_ok d (C_text s) = (d \<le> 8 \<and> utf8_valid s)"
| "cbor_ok d (C_list vs) = (d \<le> 8 \<and> list_all (cbor_ok (d + 1)) vs)"
| "cbor_ok d (C_map m) = (d \<le> 8 \<and> keys_ok (map fst m) \<and> list_all (\<lambda>(k, v). cbor_ok (d + 1) k \<and> cbor_ok (d + 1) v) m)"
| "cbor_ok d (C_bool b) = (d \<le> 8)"
| "cbor_ok d C_null = (d \<le> 8)"

fun cbor_size :: "cbor \<Rightarrow> nat" where
  "cbor_size (C_bytes s) = 1 + length s"
| "cbor_size (C_text s) = 1 + length s"
| "cbor_size (C_list vs) = 1 + sum_list (map cbor_size vs)"
| "cbor_size (C_map m) = 1 + sum_list (map (\<lambda>(k, v). cbor_size k + cbor_size v) m)"
| "cbor_size _ = 1"

lemma enc_ok:
  "enc d v p \<Longrightarrow> cbor_ok d v \<and> cbor_size v \<le> length p"
  "encs d vs p \<Longrightarrow> list_all (cbor_ok d) vs \<and> sum_list (map cbor_size vs) \<le> length p"
  "enc_pairs d m p \<Longrightarrow> list_all (\<lambda>(k, v). cbor_ok d k \<and> cbor_ok d v) m \<and>
     sum_list (map (\<lambda>(k, v). cbor_size k + cbor_size v) m) \<le> length p"
proof (induction rule: enc_encs_enc_pairs.inducts)
qed (auto simp: in_int64_def dest!: head_nonempty)


section \<open>An encoder\<close>

text \<open>
  The encoding CTAP2 writes, each head as short as may be, which the decoder reads back. The code has no
  encoder of its own; an authenticator has.
\<close>

definition head_bytes :: "nat \<Rightarrow> nat \<Rightarrow> string" where
  "head_bytes major n =
     (if n < 24 then [char_of (major * 32 + n)]
      else let k = (if n < 256 then 0 else if n < 256 ^ 2 then 1 else if n < 256 ^ 4 then 2 else 3)
           in char_of (major * 32 + (24 + k)) # be_bytes (2 ^ k) n)"

fun cbor_bytes :: "cbor \<Rightarrow> string" where
  "cbor_bytes (C_int i) = (if 0 \<le> i then head_bytes 0 (nat i) else head_bytes 1 (nat (- 1 - i)))"
| "cbor_bytes (C_bytes s) = head_bytes 2 (length s) @ s"
| "cbor_bytes (C_text s) = head_bytes 3 (length s) @ s"
| "cbor_bytes (C_list vs) = head_bytes 4 (length vs) @ concat (map cbor_bytes vs)"
| "cbor_bytes (C_map m) = head_bytes 5 (length m) @ concat (map (\<lambda>(k, v). cbor_bytes k @ cbor_bytes v) m)"
| "cbor_bytes (C_bool b) = (if b then [CHR 0xF5] else [CHR 0xF4])"
| "cbor_bytes C_null = [CHR 0xF6]"

lemma head_bytes_head: "n < 2 ^ 64 \<Longrightarrow> cbor_head major n (head_bytes major n)"
  using cbor_head.short [of n major] cbor_head.long [of 0 n major] cbor_head.long [of 1 n major]
    cbor_head.long [of 2 n major] cbor_head.long [of 3 n major]
  by (simp add: head_bytes_def Let_def)

lemma size_lengths: "length vs \<le> sum_list (map cbor_size vs)"
  "length m \<le> sum_list (map (\<lambda>(k, v). cbor_size k + cbor_size v) m)"
proof -
  have pos: "Suc 0 \<le> cbor_size v" for v by (cases v) auto
  show "length vs \<le> sum_list (map cbor_size vs)"
    by (induction vs) (use pos in \<open>auto intro!: add_le_mono [of "Suc 0", simplified]\<close>)
  show "length m \<le> sum_list (map (\<lambda>(k, v). cbor_size k + cbor_size v) m)"
  proof (induction m)
    case (Cons a m)
    then show ?case using pos [of "fst a"] by (cases a) simp
  qed simp
qed

lemma encs_bytes: "(\<And>v. v \<in> set vs \<Longrightarrow> enc d v (cbor_bytes v)) \<Longrightarrow> encs d vs (concat (map cbor_bytes vs))"
  by (induction vs) (auto intro!: e_none e_some)

lemma enc_pairs_bytes:
  "\<forall>(k, v) \<in> set m. enc d k (cbor_bytes k) \<and> enc d v (cbor_bytes v) \<Longrightarrow>
     enc_pairs d m (concat (map (\<lambda>(k, v). cbor_bytes k @ cbor_bytes v) m))"
  by (induction m) (auto intro!: e_no_pair e_pair)

lemma enc_bytes: "cbor_ok d v \<Longrightarrow> cbor_size v < 2 ^ 64 \<Longrightarrow> enc d v (cbor_bytes v)"
proof (induction v arbitrary: d rule: cbor_bytes.induct)
  case (1 i)
  show ?case
  proof (cases "0 \<le> i")
    case True
    with 1 e_nat [of d "nat i"] head_bytes_head [of "nat i" 0] show ?thesis
      by (auto simp: in_int64_def nat_less_iff)
  next
    case False
    with 1 e_neg [of d "nat (- 1 - i)"] head_bytes_head [of "nat (- 1 - i)" 1] show ?thesis
      by (auto simp: in_int64_def nat_less_iff)
  qed
next
  case (4 vs)
  have "enc (d + 1) v (cbor_bytes v)" if "v \<in> set vs" for v
  proof (rule 4(1) [OF that])
    show "cbor_ok (d + 1) v" using 4(2) that by (simp add: list_all_iff)
    show "cbor_size v < 2 ^ 64" using 4(3) member_le_sum_list [of "cbor_size v" "map cbor_size vs"] that by auto
  qed
  then have "encs (d + 1) vs (concat (map cbor_bytes vs))" by (rule encs_bytes)
  with 4(2,3) size_lengths(1) [of vs] show ?case by (auto intro!: e_list head_bytes_head)
next
  case (5 m)
  have "enc (d + 1) k (cbor_bytes k) \<and> enc (d + 1) v (cbor_bytes v)" if "(k, v) \<in> set m" for k v
  proof -
    have ok: "cbor_ok (d + 1) k" "cbor_ok (d + 1) v" using 5(3) that by (auto simp: list_all_iff)
    have "cbor_size k + cbor_size v \<le> sum_list (map (\<lambda>(k, v). cbor_size k + cbor_size v) m)"
      using member_le_sum_list [of "cbor_size k + cbor_size v" "map (\<lambda>(k, v). cbor_size k + cbor_size v) m"] that
      by force
    with 5(4) have "cbor_size k < 2 ^ 64" "cbor_size v < 2 ^ 64" by simp_all
    with ok 5(1) [OF that refl] 5(2) [OF that refl] show ?thesis by blast
  qed
  then have "enc_pairs (d + 1) m (concat (map (\<lambda>(k, v). cbor_bytes k @ cbor_bytes v) m))" by (intro enc_pairs_bytes) blast
  with 5(3,4) size_lengths(2) [of m] show ?case by (auto intro!: e_map head_bytes_head)
qed (auto intro!: enc_intros head_bytes_head)

lemma decode_encoded: "cbor_ok 0 v \<Longrightarrow> cbor_size v < 2 ^ 64 \<Longrightarrow> decode_cbor (cbor_bytes v @ rest) = Inr (v, rest)"
  using read_cbor(1) [OF enc_bytes] by (simp add: decode_cbor_def)

section \<open>Properties\<close>

text \<open>
  C26. What decodeCBOR reads at the front of some bytes is the item that a prefix of them encodes, of
  definite lengths, with arguments as short or as long as they please, with every text UTF-8, every
  integer of 64 bits, no key twice, none that is neither an integer nor text, and at most 8 deep; it
  takes every such encoding, and leaves the bytes after it.
\<close>

theorem decode_reads_the_grammar:
  "decode_cbor b = Inr (v, rest) \<longleftrightarrow> (\<exists>p. b = p @ rest \<and> enc 0 v p)"
  unfolding decode_cbor_def using cbor_read(1) read_cbor(1) by blast

text \<open>
  C27. What decodeCBOR returns of any bytes is of the type it promises: integers of 64 bits, texts that
  are UTF-8, maps whose keys are integers and texts, each once, nesting 8 deep at most; and it holds no
  more items and bytes of strings than the bytes it was read of, so no length that lies makes it grow.
\<close>

theorem decoded_is_of_its_type:
  assumes "decode_cbor b = Inr (v, rest)"
  shows "cbor_ok 0 v \<and> cbor_size v + length rest \<le> length b"
  using assms cbor_read(1) [of 0 b v rest] enc_ok(1) [of 0 v] by (auto simp: decode_cbor_def)

theorem decoded_is_of_its_type_witness:
  "decode_cbor [CHR 0xA2, CHR 0x01, CHR 0x20, CHR 0x61, CHR ''k'', CHR 0x82, CHR 0x41, CHR 0xFF, CHR 0xF5, CHR 0x00] =
     Inr (C_map [(C_int 1, C_int (- 1)), (C_text ''k'', C_list [C_bytes [CHR 0xFF], C_bool True])], [CHR 0x00]) \<and>
   cbor_ok 0 (C_map [(C_int 1, C_int (- 1)), (C_text ''k'', C_list [C_bytes [CHR 0xFF], C_bool True])])"
proof -
  have a: "decode_cbor [CHR 0xA2, CHR 0x01, CHR 0x20, CHR 0x61, CHR ''k'', CHR 0x82, CHR 0x41, CHR 0xFF, CHR 0xF5, CHR 0x00] =
     Inr (C_map [(C_int 1, C_int (- 1)), (C_text ''k'', C_list [C_bytes [CHR 0xFF], C_bool True])], [CHR 0x00])"
    by (simp add: decode_cbor_def cbor_item.simps cbor_max_depth_def cbor_argument_def cbor_scalar_def cbor_simple_def
        max_int64_def is_key_def utf8_ascii)
  from a decoded_is_of_its_type [OF this] show ?thesis by blast
qed

end
