(* ===== verification/Cose.thy ===== *)
theory Cose
  imports Cbor
begin

text \<open>
  A passkey's public key (auth/cose.go): the COSE keys of three algorithms, read from CBOR, and the
  checking of a signature. The curves, RSA and SHA-256 are of Go's crypto packages, and parameters; a
  key's shape, and what of it is refused, is here.
\<close>

datatype 'p public_key = Ec_key 'p | Ed_key string | Rsa_key nat int

record 'p cose_key =
  ck_alg :: int
  ck_key :: "'p public_key option"

datatype cose_error =
  Not_cbor cbor_error | Not_a_map | Not_p256 | Off_curve | Not_ed25519 | Not_rsa | Key_kind int int

definition alg_es256 :: int where "alg_es256 = -7"
definition alg_eddsa :: int where "alg_eddsa = -8"
definition alg_rs256 :: int where "alg_rs256 = -257"

text \<open>A value of a map with a type assertion: 0 and no bytes for what is not there, or of another type.\<close>

definition int_at :: "(cbor \<times> cbor) list \<Rightarrow> int \<Rightarrow> int" where
  "int_at m label = (case map_of m (C_int label) of Some (C_int i) \<Rightarrow> i | _ \<Rightarrow> 0)"

definition bytes_at :: "(cbor \<times> cbor) list \<Rightarrow> int \<Rightarrow> string" where
  "bytes_at m label = (case map_of m (C_int label) of Some (C_bytes s) \<Rightarrow> s | _ \<Rightarrow> [])"

text \<open>\<open>big.Int.SetBytes\<close> and \<open>BitLen\<close>.\<close>

definition big_of :: "string \<Rightarrow> nat" where
  "big_of s = foldl (\<lambda>n c. n * 256 + of_char c) 0 s"

fun bit_len :: "nat \<Rightarrow> nat" where
  "bit_len n = (if n = 0 then 0 else Suc (bit_len (n div 2)))"

declare bit_len.simps [simp del]

definition rsa_ok :: "nat \<Rightarrow> nat \<Rightarrow> bool" where
  "rsa_ok n e \<longleftrightarrow>
     \<not> (bit_len n < 2048 \<or> 8192 < bit_len n \<or> \<not> e < 2 ^ 63 \<or> e < 3 \<or> 2 ^ 31 - 1 < e \<or> even e)"

text \<open>\<open>p256\<close> is \<open>ecdsa.ParseUncompressedPublicKey\<close> on P-256.\<close>

definition parse_cose_key ::
  "(string \<Rightarrow> 'p option) \<Rightarrow> string \<Rightarrow> cose_error + 'p cose_key \<times> string" where
  "parse_cose_key p256 b =
     (case decode_cbor b of
        Inl e \<Rightarrow> Inl (Not_cbor e)
      | Inr (v, rest) \<Rightarrow>
          (case v of
             C_map m \<Rightarrow>
               let kty = int_at m 1; alg = int_at m 3
               in if kty = 2 \<and> alg = alg_es256 then
                    (let x = bytes_at m (-2); y = bytes_at m (-3)
                     in if int_at m (-1) \<noteq> 1 \<or> length x \<noteq> 32 \<or> length y \<noteq> 32 then Inl Not_p256
                        else case p256 (CHR 0x04 # x @ y) of
                               None \<Rightarrow> Inl Off_curve
                             | Some k \<Rightarrow> Inr (\<lparr>ck_alg = alg, ck_key = Some (Ec_key k)\<rparr>, rest))
                  else if kty = 1 \<and> alg = alg_eddsa then
                    (let x = bytes_at m (-2)
                     in if int_at m (-1) \<noteq> 6 \<or> length x \<noteq> 32 then Inl Not_ed25519
                        else Inr (\<lparr>ck_alg = alg, ck_key = Some (Ed_key x)\<rparr>, rest))
                  else if kty = 3 \<and> alg = alg_rs256 then
                    (let n = big_of (bytes_at m (-1)); e = big_of (bytes_at m (-2))
                     in if \<not> rsa_ok n e then Inl Not_rsa
                        else Inr (\<lparr>ck_alg = alg, ck_key = Some (Rsa_key n (int e))\<rparr>, rest))
                  else Inl (Key_kind kty alg)
           | _ \<Rightarrow> Inl Not_a_map))"

text \<open>
  The checks of signatures the crypto packages have: of a digest with an ECDSA key, of data with an
  Ed25519 key, and of a digest with an RSA key.
\<close>

record 'p signature_checks =
  sc_ecdsa :: "'p \<Rightarrow> string \<Rightarrow> string \<Rightarrow> bool"
  sc_ed25519 :: "string \<Rightarrow> string \<Rightarrow> string \<Rightarrow> bool"
  sc_rsa :: "nat \<Rightarrow> int \<Rightarrow> string \<Rightarrow> string \<Rightarrow> bool"

text \<open>A key of another type than its algorithm's, which \<open>parseCOSEKey\<close> never makes, would panic: None.\<close>

definition cose_verify ::
  "(string \<Rightarrow> string) \<Rightarrow> 'p signature_checks \<Rightarrow> 'p cose_key \<Rightarrow> string \<Rightarrow> string \<Rightarrow> bool option" where
  "cose_verify sha sc k data sig =
     (if ck_alg k = alg_es256 then
        (case ck_key k of Some (Ec_key p) \<Rightarrow> Some (sc_ecdsa sc p (sha data) sig) | _ \<Rightarrow> None)
      else if ck_alg k = alg_eddsa then
        (case ck_key k of Some (Ed_key x) \<Rightarrow> Some (sc_ed25519 sc x data sig) | _ \<Rightarrow> None)
      else if ck_alg k = alg_rs256 then
        (case ck_key k of Some (Rsa_key n e) \<Rightarrow> Some (sc_rsa sc n e (sha data) sig) | _ \<Rightarrow> None)
      else Some False)"

section \<open>What is taken\<close>

text \<open>A key the package takes: of one of the three algorithms, of its type, an RSA key of a sound size.\<close>

definition key_ok :: "'p cose_key \<Rightarrow> bool" where
  "key_ok k \<longleftrightarrow>
     (case ck_key k of
        Some (Ec_key p) \<Rightarrow> ck_alg k = alg_es256
      | Some (Ed_key x) \<Rightarrow> ck_alg k = alg_eddsa \<and> length x = 32
      | Some (Rsa_key n e) \<Rightarrow> ck_alg k = alg_rs256 \<and> 2048 \<le> bit_len n \<and> bit_len n \<le> 8192 \<and> 3 \<le> e \<and> e < 2 ^ 31 \<and> odd e
      | None \<Rightarrow> False)"

lemma bit_len_bounds: "n < 2 ^ bit_len n \<and> (0 < n \<longrightarrow> 2 ^ (bit_len n - 1) \<le> n)"
proof (induction n rule: bit_len.induct)
  case (1 n)
  show ?case
  proof (cases "n = 0")
    case False
    then have b: "bit_len n = Suc (bit_len (n div 2))" by (subst bit_len.simps) simp
    from 1 False have i: "n div 2 < 2 ^ bit_len (n div 2)" "0 < n div 2 \<longrightarrow> 2 ^ (bit_len (n div 2) - 1) \<le> n div 2" by auto
    have "2 ^ (bit_len n - 1) \<le> n"
    proof (cases "n div 2 = 0")
      case True
      then show ?thesis using False b by (simp add: bit_len.simps)
    next
      case half: False
      then have "bit_len (n div 2) = Suc (bit_len (n div 2) - 1)" by (simp add: bit_len.simps [of "n div 2"])
      with i(2) half b have "2 ^ (bit_len n - 1) \<le> 2 * (n div 2)" by (metis diff_Suc_1 mult_le_mono2 neq0_conv power_Suc)
      then show ?thesis by (meson div_times_less_eq_dividend dual_order.trans mult.commute le_refl times_div_less_eq_dividend)
    qed
    with i(1) b show ?thesis by auto
  qed (simp add: bit_len.simps)
qed

lemma parsed_key_ok: "parse_cose_key p256 b = Inr (k, rest) \<Longrightarrow> key_ok k"
proof -
  assume "parse_cose_key p256 b = Inr (k, rest)"
  then show ?thesis
    by (auto simp: parse_cose_key_def Let_def key_ok_def rsa_ok_def split: sum.splits prod.splits cbor.splits if_splits option.splits)
qed

end
