(* ===== verification/Passkeys.thy ===== *)
theory Passkeys
  imports Login Cose
begin

text \<open>
  Logging in with passkeys (auth/passkeys.go): the two requests of a registration and of a login, with
  the challenge the session keeps between them, the reading of a browser's answer, of its client data and of
  an authenticator's data, and the checks they go through. The JSON of an answer and of its client data is
  read by parameters of the site, as are the digests, the curve and the signatures; what the options say is
  kept as the records that are written as JSON.
\<close>

section \<open>A passkey, and an authenticator's data\<close>

record passkey =
  pk_id :: string
  pk_public :: string
  pk_count :: nat
  pk_user :: string
  pk_transports :: "string list"
  pk_backed_up :: bool

record passkey_user =
  pu_handle :: string
  pu_name :: string
  pu_display :: string

definition challenge_for :: duration where "challenge_for = 5 * minute"

definition flag_up :: nat where "flag_up = 0x01"
definition flag_uv :: nat where "flag_uv = 0x04"
definition flag_be :: nat where "flag_be = 0x08"
definition flag_bs :: nat where "flag_bs = 0x10"
definition flag_at :: nat where "flag_at = 0x40"
definition flag_ed :: nat where "flag_ed = 0x80"

text \<open>Whether a bit of the flags is set; \<open>f\<close> is a power of 2.\<close>

definition has_flag :: "nat \<Rightarrow> nat \<Rightarrow> bool" where
  "has_flag flags f \<longleftrightarrow> flags div f mod 2 = 1"

record auth_data =
  ad_site :: string
  ad_flags :: nat
  ad_count :: nat
  ad_id :: string
  ad_key :: string

datatype passkey_error =
  Bad_handle | No_challenge | Bad_answer_json | Bad_base64 | Bad_id | Bad_client_json | Other_ceremony string |
  Other_challenge | Other_origin string | Cross_origin | Bad_attestation | Too_short | Ends_in_passkey |
  Bad_id_length | Key_not_cbor | Bad_extensions | Bytes_left_over | Other_site | No_one_there | Not_unlocked |
  Syncs_and_cannot | Not_the_passkey_named | Bad_key_of cose_error | Not_allowed | Not_found string |
  Names_no_user | Names_another_user | Bad_signature | Count_went_back nat nat | Key_type_panics

text \<open>The passkey that comes with the data, and what comes after it.\<close>

definition auth_passkey :: "string \<Rightarrow> passkey_error + (string \<times> string) \<times> string" where
  "auth_passkey rest =
     (if length rest < 18 then Inl Ends_in_passkey
      else let n = big_of (take 2 (drop 16 rest)); rest1 = drop 18 rest
           in if n = 0 \<or> 1023 < n \<or> length rest1 < n then Inl Bad_id_length
              else let rest2 = drop n rest1
                   in case decode_cbor rest2 of
                        Inl _ \<Rightarrow> Inl Key_not_cbor
                      | Inr (_, after) \<Rightarrow> Inr ((take n rest1, take (length rest2 - length after) rest2), after))"

definition auth_extensions :: "string \<Rightarrow> passkey_error + string" where
  "auth_extensions rest =
     (case decode_cbor rest of
        Inr (C_map _, after) \<Rightarrow> Inr after
      | _ \<Rightarrow> Inl Bad_extensions)"

definition parse_auth_data :: "string \<Rightarrow> passkey_error + auth_data" where
  "parse_auth_data b =
     (if length b < 37 then Inl Too_short
      else let ad = \<lparr>ad_site = take 32 b, ad_flags = of_char (b ! 32), ad_count = big_of (take 4 (drop 33 b)),
                     ad_id = [], ad_key = []\<rparr>
           in case (if has_flag (ad_flags ad) flag_at
                    then (case auth_passkey (drop 37 b) of
                            Inl e \<Rightarrow> Inl e
                          | Inr ((i, k), after) \<Rightarrow> Inr (ad\<lparr>ad_id := i, ad_key := k\<rparr>, after))
                    else Inr (ad, drop 37 b)) of
                Inl e \<Rightarrow> Inl e
              | Inr (ad1, rest) \<Rightarrow>
                  (case (if has_flag (ad_flags ad) flag_ed then auth_extensions rest else Inr rest) of
                     Inl e \<Rightarrow> Inl e
                   | Inr rest1 \<Rightarrow> if rest1 \<noteq> [] then Inl Bytes_left_over else Inr ad1))"

section \<open>A browser's answer\<close>

text \<open>The fields of an answer's JSON, of its client data's, and the credential made of the answer.\<close>

record answer_fields =
  an_id :: string
  an_raw_id :: string
  an_type :: string
  an_client_data :: string
  an_attestation :: string
  an_auth_data :: string
  an_signature :: string
  an_user :: "string option"
  an_transports :: "string list"

record client_fields =
  cl_type :: string
  cl_challenge :: string
  cl_origin :: string
  cl_cross :: bool

record credential =
  cr_id :: string
  cr_client_data :: string
  cr_attestation :: string
  cr_auth_data :: string
  cr_signature :: string
  cr_user :: "string option"
  cr_transports :: "string list"

definition unb64url :: "string \<Rightarrow> string option" where
  "unb64url s = b64_decode (rev (dropWhile (\<lambda>c. c = CHR ''='') (rev s)))"

definition known_transports :: "string list" where
  "known_transports = [''ble'', ''hybrid'', ''internal'', ''nfc'', ''smart-card'', ''usb'']"

definition take_transports :: "string list \<Rightarrow> string list" where
  "take_transports ts = foldl (\<lambda>seen t. if t \<in> set known_transports \<and> t \<notin> set seen then seen @ [t] else seen) [] ts"

text \<open>A user handle that is empty is one that is not there.\<close>

definition parse_user :: "string option \<Rightarrow> string option option" where
  "parse_user h =
     (case h of
        None \<Rightarrow> Some None
      | Some u \<Rightarrow> if u = [] then Some None else (case unb64url u of None \<Rightarrow> None | Some b \<Rightarrow> Some (Some b)))"

definition parse_credential :: "(string \<Rightarrow> answer_fields option) \<Rightarrow> string \<Rightarrow> passkey_error + credential" where
  "parse_credential json answer =
     (case json answer of
        None \<Rightarrow> Inl Bad_answer_json
      | Some j \<Rightarrow>
          if an_type j \<noteq> ''public-key'' then Inl Bad_answer_json
          else case (unb64url (an_raw_id j), unb64url (an_client_data j), unb64url (an_attestation j),
                     unb64url (an_auth_data j), unb64url (an_signature j)) of
                 (Some raw, Some client, Some att, Some ad, Some sig) \<Rightarrow>
                   if raw = [] \<or> unb64url (an_id j) \<noteq> Some raw then Inl Bad_id
                   else (case parse_user (an_user j) of
                           None \<Rightarrow> Inl Bad_base64
                         | Some u \<Rightarrow> Inr \<lparr>cr_id = raw, cr_client_data = client, cr_attestation = att, cr_auth_data = ad,
                                        cr_signature = sig, cr_user = u,
                                        cr_transports = take_transports (an_transports j)\<rparr>)
               | _ \<Rightarrow> Inl Bad_base64)"


section \<open>The site, and what it checks\<close>

text \<open>
  \<open>Passkeys\<close>: the site's domain, origin and name; and with them the parameters of the model, the JSON of
  answers and of client data, SHA-256, the points of P-256 and the checks of signatures.
\<close>

record 'p site =
  ps_rpid :: string
  ps_origin :: string
  ps_name :: string
  ps_answer :: "string \<Rightarrow> answer_fields option"
  ps_client :: "string \<Rightarrow> client_fields option"
  ps_sha :: "string \<Rightarrow> string"
  ps_p256 :: "string \<Rightarrow> 'p option"
  ps_checks :: "'p signature_checks"

definition check_client_data :: "'p site \<Rightarrow> string \<Rightarrow> string \<Rightarrow> string \<Rightarrow> passkey_error option" where
  "check_client_data p raw kind challenge =
     (case ps_client p raw of
        None \<Rightarrow> Some Bad_client_json
      | Some c \<Rightarrow>
          if cl_type c \<noteq> kind then Some (Other_ceremony (cl_type c))
          else if unb64url (cl_challenge c) \<noteq> Some challenge then Some Other_challenge
          else if cl_origin c \<noteq> ps_origin p then Some (Other_origin (cl_origin c))
          else if cl_cross c then Some Cross_origin
          else None)"

definition check_auth_data :: "'p site \<Rightarrow> auth_data \<Rightarrow> passkey_error option" where
  "check_auth_data p ad =
     (if ad_site ad \<noteq> ps_sha p (ps_rpid p) then Some Other_site
      else if \<not> has_flag (ad_flags ad) flag_up then Some No_one_there
      else if \<not> has_flag (ad_flags ad) flag_uv then Some Not_unlocked
      else if has_flag (ad_flags ad) flag_bs \<and> \<not> has_flag (ad_flags ad) flag_be then Some Syncs_and_cannot
      else None)"

section \<open>The ceremony a session keeps\<close>

record ceremony =
  ce_challenge :: string
  ce_user :: string
  ce_allow :: "string list"

text \<open>\<open>newChallenge\<close>: what it draws is \<open>challenge\<close>.\<close>

definition new_challenge ::
  "instant \<Rightarrow> string \<Rightarrow> (string \<times> kept) list \<Rightarrow> visitor_session \<Rightarrow> visitor_session" where
  "new_challenge now challenge m s =
     session_set passkey_key
       (K_map (put ''at'' (K_int (unix now)) (put ''challenge'' (K_str (b64_encode challenge)) m))) s"

text \<open>The passkeys a login allows, as the session keeps them, before and after the cookie's JSON.\<close>

definition kept_list :: "kept option \<Rightarrow> kept list" where
  "kept_list v = (case v of Some (K_strs ss) \<Rightarrow> map K_str ss | Some (K_list vs) \<Rightarrow> vs | _ \<Rightarrow> [])"

fun take_ids :: "kept list \<Rightarrow> string list option" where
  "take_ids [] = Some []"
| "take_ids (v # vs) =
     (case unb64url (as_str (Some v)) of
        None \<Rightarrow> None
      | Some b \<Rightarrow> if b = [] then None else map_option ((#) b) (take_ids vs))"

definition read_ceremony :: "(string \<times> kept) list \<Rightarrow> ceremony option" where
  "read_ceremony m =
     (case unb64url (as_str (lookup m ''challenge'')) of
        None \<Rightarrow> None
      | Some challenge \<Rightarrow>
          if challenge = [] then None
          else case unb64url (as_str (lookup m ''user'')) of
                 None \<Rightarrow> None
               | Some user \<Rightarrow>
                   map_option (\<lambda>allow. \<lparr>ce_challenge = challenge, ce_user = user, ce_allow = allow\<rparr>)
                     (take_ids (kept_list (lookup m ''allow''))))"

definition take_ceremony ::
  "instant \<Rightarrow> string \<Rightarrow> visitor_session option \<Rightarrow> ceremony option \<times> visitor_session option" where
  "take_ceremony now kind s =
     (case s of
        None \<Rightarrow> (None, None)
      | Some s \<Rightarrow>
          let m = as_map (session_get passkey_key s); s' = Some (session_delete passkey_key s)
          in (if lookup m ''ceremony'' \<noteq> Some (K_str kind) then None
              else case unix_time (lookup m ''at'') of
                     None \<Rightarrow> None
                   | Some t \<Rightarrow> if challenge_for \<le> now - t then None else read_ceremony m, s'))"

section \<open>Registration\<close>

text \<open>The options of a registration and of a login, before they are written as JSON.\<close>

record cred_descriptor =
  cd_id :: string
  cd_transports :: "string list"

record creation_options =
  co_rp_id :: string
  co_rp_name :: string
  co_user :: string
  co_user_name :: string
  co_display :: string
  co_challenge :: string
  co_params :: "int list"
  co_timeout :: int
  co_exclude :: "cred_descriptor list"
  co_resident :: string
  co_require_resident :: bool
  co_verification :: string
  co_attestation :: string

record request_options =
  ro_challenge :: string
  ro_timeout :: int
  ro_rp_id :: string
  ro_allow :: "cred_descriptor list"
  ro_verification :: string

definition start_registration ::
  "'p site \<Rightarrow> instant \<Rightarrow> string \<Rightarrow> passkey_user \<Rightarrow> string list \<Rightarrow> visitor_session option \<Rightarrow>
   ((passkey_error + creation_options) \<times> visitor_session) call_end" where
  "start_registration p now challenge user exclude s =
     (case s of
        None \<Rightarrow> Panicked
      | Some s \<Rightarrow> Returned
          (if pu_handle user = [] \<or> 64 < length (pu_handle user) then (Inl Bad_handle, s)
           else (Inr \<lparr>co_rp_id = ps_rpid p, co_rp_name = ps_name p, co_user = b64_encode (pu_handle user),
                     co_user_name = pu_name user, co_display = pu_display user, co_challenge = b64_encode challenge,
                     co_params = [alg_eddsa, alg_es256, alg_rs256], co_timeout = challenge_for div 1000000,
                     co_exclude = map (\<lambda>i. \<lparr>cd_id = b64_encode i, cd_transports = []\<rparr>) exclude,
                     co_resident = ''required'', co_require_resident = True, co_verification = ''required'',
                     co_attestation = ''none''\<rparr>,
                 new_challenge now challenge
                   [(''ceremony'', K_str ''create''), (''user'', K_str (b64_encode (pu_handle user)))] s)))"

definition check_registration ::
  "'p site \<Rightarrow> ceremony \<Rightarrow> string \<Rightarrow> passkey_error + passkey" where
  "check_registration p c answer =
     (case parse_credential (ps_answer p) answer of
        Inl e \<Rightarrow> Inl e
      | Inr cred \<Rightarrow>
          (case check_client_data p (cr_client_data cred) ''webauthn.create'' (ce_challenge c) of
             Some e \<Rightarrow> Inl e
           | None \<Rightarrow>
               (case decode_cbor (cr_attestation cred) of
                  Inr (C_map m, []) \<Rightarrow>
                    (case parse_auth_data (case map_of m (C_text ''authData'') of Some (C_bytes raw) \<Rightarrow> raw | _ \<Rightarrow> []) of
                       Inl e \<Rightarrow> Inl e
                     | Inr ad \<Rightarrow>
                         (case check_auth_data p ad of
                            Some e \<Rightarrow> Inl e
                          | None \<Rightarrow>
                              if \<not> has_flag (ad_flags ad) flag_at \<or> ad_id ad \<noteq> cr_id cred then Inl Not_the_passkey_named
                              else (case parse_cose_key (ps_p256 p) (ad_key ad) of
                                      Inl e \<Rightarrow> Inl (Bad_key_of e)
                                    | Inr _ \<Rightarrow> Inr \<lparr>pk_id = ad_id ad, pk_public = ad_key ad, pk_count = ad_count ad,
                                                pk_user = ce_user c, pk_transports = cr_transports cred,
                                                pk_backed_up = has_flag (ad_flags ad) flag_bs\<rparr>)))
                | _ \<Rightarrow> Inl Bad_attestation)))"

definition finish_registration ::
  "'p site \<Rightarrow> instant \<Rightarrow> string \<Rightarrow> visitor_session option \<Rightarrow> (passkey_error + passkey) \<times> visitor_session option" where
  "finish_registration p now answer s =
     (case take_ceremony now ''create'' s of
        (None, s') \<Rightarrow> (Inl No_challenge, s')
      | (Some c, s') \<Rightarrow> (check_registration p c answer, s'))"

section \<open>Logging in\<close>

definition start_login ::
  "'p site \<Rightarrow> instant \<Rightarrow> string \<Rightarrow> passkey list \<Rightarrow> visitor_session option \<Rightarrow>
   (request_options \<times> visitor_session) call_end" where
  "start_login p now challenge allow s =
     (case s of
        None \<Rightarrow> Panicked
      | Some s \<Rightarrow> Returned
          (\<lparr>ro_challenge = b64_encode challenge, ro_timeout = challenge_for div 1000000, ro_rp_id = ps_rpid p,
            ro_allow = map (\<lambda>k. \<lparr>cd_id = b64_encode (pk_id k), cd_transports = pk_transports k\<rparr>) allow,
            ro_verification = ''required''\<rparr>,
           new_challenge now challenge
             (if allow = [] then [(''ceremony'', K_str ''get'')]
              else [(''ceremony'', K_str ''get''), (''allow'', K_strs (map (\<lambda>k. b64_encode (pk_id k)) allow))]) s))"

definition count_went_back :: "nat \<Rightarrow> nat \<Rightarrow> bool" where
  "count_went_back new old \<longleftrightarrow> (new \<noteq> 0 \<or> old \<noteq> 0) \<and> new \<le> old"

text \<open>What is checked of the signed part of a login, for the passkey found.\<close>

definition check_signed :: "'p site \<Rightarrow> credential \<Rightarrow> passkey \<Rightarrow> auth_data \<Rightarrow> passkey_error + passkey" where
  "check_signed p cred pk ad =
     (case parse_cose_key (ps_p256 p) (pk_public pk) of
        Inl e \<Rightarrow> Inl (Bad_key_of e)
      | Inr (key, _) \<Rightarrow>
          (case cose_verify (ps_sha p) (ps_checks p) key (cr_auth_data cred @ ps_sha p (cr_client_data cred)) (cr_signature cred) of
             None \<Rightarrow> Inl Key_type_panics
           | Some ok \<Rightarrow>
               if \<not> ok then Inl Bad_signature
               else if count_went_back (ad_count ad) (pk_count pk) then Inl (Count_went_back (pk_count pk) (ad_count ad))
               else Inr (pk\<lparr>pk_count := ad_count ad, pk_backed_up := has_flag (ad_flags ad) flag_bs\<rparr>)))"

definition check_login ::
  "'p site \<Rightarrow> (string \<Rightarrow> string + passkey) \<Rightarrow> ceremony \<Rightarrow> string \<Rightarrow> passkey_error + passkey" where
  "check_login p lookup_passkey c answer =
     (case parse_credential (ps_answer p) answer of
        Inl e \<Rightarrow> Inl e
      | Inr cred \<Rightarrow>
          if ce_allow c \<noteq> [] \<and> cr_id cred \<notin> set (ce_allow c) then Inl Not_allowed
          else (case lookup_passkey (cr_id cred) of
                  Inl e \<Rightarrow> Inl (Not_found e)
                | Inr pk \<Rightarrow>
                    if cr_user cred = None \<and> ce_allow c = [] then Inl Names_no_user
                    else if cr_user cred \<noteq> None \<and> cr_user cred \<noteq> Some (pk_user pk) then Inl Names_another_user
                    else (case check_client_data p (cr_client_data cred) ''webauthn.get'' (ce_challenge c) of
                            Some e \<Rightarrow> Inl e
                          | None \<Rightarrow>
                              (case parse_auth_data (cr_auth_data cred) of
                                 Inl e \<Rightarrow> Inl e
                               | Inr ad \<Rightarrow>
                                   (case check_auth_data p ad of
                                      Some e \<Rightarrow> Inl e
                                    | None \<Rightarrow> check_signed p cred pk ad)))))"

definition finish_login ::
  "'p site \<Rightarrow> (string \<Rightarrow> string + passkey) \<Rightarrow> instant \<Rightarrow> string \<Rightarrow> visitor_session option \<Rightarrow>
   (passkey_error + passkey) \<times> visitor_session option" where
  "finish_login p lookup_passkey now answer s =
     (case take_ceremony now ''get'' s of
        (None, s') \<Rightarrow> (Inl No_challenge, s')
      | (Some c, s') \<Rightarrow> (check_login p lookup_passkey c answer, s'))"


section \<open>What a session has asked for\<close>

text \<open>
  The requests of a session, passkeys' among the rest of auth's, and what they leave asked for, apart from any
  session: the kind of the ceremony, its challenge, its user, the passkeys allowed, and since when.
\<close>

datatype passkey_event =
  Site_does auth_event | Starts_registration instant string passkey_user "string list" |
  Starts_login instant string "passkey list" | Answers_registration instant string | Answers_login instant string

record asking =
  as_kind :: string
  as_challenge :: string
  as_user :: string
  as_allow :: "string list"
  as_since :: int

fun starts :: "passkey_event \<Rightarrow> asking option" where
  "starts (Starts_registration t challenge u exclude) =
     (if pu_handle u = [] \<or> 64 < length (pu_handle u) then None
      else Some \<lparr>as_kind = ''create'', as_challenge = challenge, as_user = pu_handle u, as_allow = [], as_since = unix t\<rparr>)"
| "starts (Starts_login t challenge allow) =
     Some \<lparr>as_kind = ''get'', as_challenge = challenge, as_user = [], as_allow = map pk_id allow, as_since = unix t\<rparr>"
| "starts _ = None"

text \<open>An answer ends what was asked for, right or not, and so do a login and a logout.\<close>

fun ends_asking :: "passkey_event \<Rightarrow> bool" where
  "ends_asking (Answers_registration _ _) = True"
| "ends_asking (Answers_login _ _) = True"
| "ends_asking (Site_does (Logs_in _ _ _)) = True"
| "ends_asking (Site_does Logs_out) = True"
| "ends_asking _ = False"

definition asks :: "passkey_event \<Rightarrow> asking option \<Rightarrow> asking option" where
  "asks e q = (if ends_asking e then None else case starts e of Some a \<Rightarrow> Some a | None \<Rightarrow> q)"

fun passkeys_apart :: "passkey_event \<Rightarrow> bool" where
  "passkeys_apart (Site_does e) = apart e"
| "passkeys_apart _ = True"

fun passkeys_do ::
  "'p site \<Rightarrow> (string \<Rightarrow> string + passkey) \<Rightarrow> passkey_event \<Rightarrow> visitor_session \<Rightarrow> visitor_session" where
  "passkeys_do p fd (Site_does e) s = auth_do (ps_sha p) e s"
| "passkeys_do p fd (Starts_registration t challenge u exclude) s =
     (case start_registration p t challenge u exclude (Some s) of Returned (_, s') \<Rightarrow> s' | Panicked \<Rightarrow> s)"
| "passkeys_do p fd (Starts_login t challenge allow) s =
     (case start_login p t challenge allow (Some s) of Returned (_, s') \<Rightarrow> s' | Panicked \<Rightarrow> s)"
| "passkeys_do p fd (Answers_registration t answer) s = the (snd (finish_registration p t answer (Some s)))"
| "passkeys_do p fd (Answers_login t answer) s = the (snd (finish_login p fd t answer (Some s)))"

definition passkeys_run ::
  "'p site \<Rightarrow> (string \<Rightarrow> string + passkey) \<Rightarrow> passkey_event list \<Rightarrow> visitor_session \<Rightarrow> visitor_session" where
  "passkeys_run p fd es s = foldl (\<lambda>s e. passkeys_do p fd e s) s es"

definition kept_asking :: "asking \<Rightarrow> kept" where
  "kept_asking a = K_map
     ((''ceremony'', K_str (as_kind a)) #
      (if as_kind a = ''create'' then [(''user'', K_str (b64_encode (as_user a)))]
       else if as_allow a = [] then [] else [(''allow'', K_strs (map b64_encode (as_allow a)))]) @
      [(''challenge'', K_str (b64_encode (as_challenge a))), (''at'', K_int (as_since a))])"

text \<open>A registration allows no passkeys, and a login is no user's.\<close>

definition starts_like :: "asking \<Rightarrow> bool" where
  "starts_like a \<longleftrightarrow> (as_kind a = ''create'' \<and> as_allow a = []) \<or> (as_kind a = ''get'' \<and> as_user a = [])"

definition keeps :: "asking option \<Rightarrow> visitor_session \<Rightarrow> bool" where
  "keeps q s \<longleftrightarrow>
     (case q of
        None \<Rightarrow> session_get passkey_key s = None
      | Some a \<Rightarrow> starts_like a \<and>
          (session_get passkey_key s = Some (kept_asking a) \<or> session_get passkey_key s = Some (through_json (kept_asking a))))"


lemma no_padding: "CHR ''='' \<notin> set (b64_encode s)"
proof -
  have "list_all (\<lambda>n. b64_char n \<noteq> CHR ''='') [0..<64]" by code_simp
  then have c: "n < 64 \<Longrightarrow> b64_char n \<noteq> CHR ''=''" for n by (simp add: list_all_iff)
  have "list_all (\<lambda>v. v < 64) (b64_sextets (map of_char s))"
    by (rule b64_sextets_small) (simp add: list_all_iff of_char_def)
  with c show ?thesis by (force simp: b64_encode_def list_all_iff)
qed

lemma unb64url_encode [simp]: "unb64url (b64_encode s) = Some s"
proof -
  have "dropWhile (\<lambda>c. c = CHR ''='') (rev (b64_encode s)) = rev (b64_encode s)"
    using no_padding [of s] by (cases "rev (b64_encode s)") (auto dest: arg_cong [where f = set])
  then show ?thesis by (simp add: unb64url_def)
qed

lemma take_ids_encoded: "take_ids (map (K_str \<circ> b64_encode) is) = (if [] \<in> set is then None else Some is)"
  by (induction "is") auto

lemma unb64url_empty [simp]: "unb64url [] = Some []"
  by (simp add: unb64url_def b64_decode_def)

lemma keeps_taken:
  assumes "keeps (Some a) s"
  shows "take_ceremony now kind (Some s) =
    (if kind = as_kind a \<and> now - of_unix (as_since a) < challenge_for \<and> as_challenge a \<noteq> [] \<and> [] \<notin> set (as_allow a)
     then Some \<lparr>ce_challenge = as_challenge a, ce_user = as_user a, ce_allow = as_allow a\<rparr> else None,
     Some (session_delete passkey_key s))"
  using assms
  by (auto simp: keeps_def starts_like_def take_ceremony_def kept_asking_def read_ceremony_def unix_time_def kept_list_def
      as_str_def as_map_def take_ids_encoded Let_def not_le split: if_splits)

lemma keeps_none: "keeps None s \<Longrightarrow> take_ceremony now kind (Some s) = (None, Some (session_delete passkey_key s))"
  by (simp add: keeps_def take_ceremony_def)

lemma take_ceremony_forgets: "snd (take_ceremony now kind (Some s)) = Some (session_delete passkey_key s)"
  by (simp add: take_ceremony_def Let_def)


lemma through_json_twice: "through_json (through_json (kept_asking a)) = through_json (kept_asking a)"
  by (simp add: kept_asking_def comp_def)

lemma site_event_keeps:
  assumes "apart e" "keeps q s"
  shows "keeps (asks (Site_does e) q) (auth_do sha e s)"
proof (cases e)
  case (Means_to r)
  with assms show ?thesis
    by (cases "vr_referer r") (auto simp: asks_def keeps_def set_intended_def split: option.splits)
next
  case (App_does op)
  with assms app_leaves [of op passkey_key s] show ?thesis by (simp add: asks_def keeps_def split: option.splits)
next
  case Next_request
  with assms show ?thesis by (auto simp: asks_def keeps_def through_json_twice split: option.splits)
next
  case Goes_on
  with assms show ?thesis by (auto simp: asks_def keeps_def intended_def Let_def split: option.splits)
qed (use assms in \<open>auto simp: asks_def keeps_def login_def logout_def start_two_factor_def set_password_confirmed_def
      returned_def split: option.splits\<close>)

lemma passkeys_step:
  assumes "passkeys_apart e" "keeps q s"
  shows "keeps (asks e q) (passkeys_do p fd e s)"
proof (cases e)
  case (Site_does e')
  with assms show ?thesis by (simp add: site_event_keeps)
next
  case (Starts_registration t challenge u exclude)
  with assms show ?thesis
    by (auto simp: asks_def keeps_def start_registration_def new_challenge_def kept_asking_def starts_like_def)
next
  case (Starts_login t challenge allow)
  then show ?thesis
    by (auto simp: asks_def keeps_def start_login_def new_challenge_def kept_asking_def starts_like_def comp_def)
next
  case (Answers_registration t answer)
  then show ?thesis
    using take_ceremony_forgets [of t "''create''" s]
    by (auto simp: asks_def keeps_def finish_registration_def split: prod.splits option.splits)
next
  case (Answers_login t answer)
  then show ?thesis
    using take_ceremony_forgets [of t "''get''" s]
    by (auto simp: asks_def keeps_def finish_login_def split: prod.splits option.splits)
qed

definition asked :: "passkey_event list \<Rightarrow> asking option" where
  "asked es = foldl (\<lambda>q e. asks e q) None es"

lemma passkeys_keep:
  assumes "list_all passkeys_apart es" "s_values s = []"
  shows "keeps (asked es) (passkeys_run p fd es s)"
proof -
  have "keeps q s \<Longrightarrow> list_all passkeys_apart es \<Longrightarrow>
      keeps (foldl (\<lambda>q e. asks e q) q es) (foldl (\<lambda>s e. passkeys_do p fd e s) s es)" for q s
    by (induction es arbitrary: q s) (auto simp: passkeys_step)
  moreover have "keeps None s" using assms(2) by (simp add: keeps_def session_get_def)
  ultimately show ?thesis using assms(1) by (simp add: asked_def passkeys_run_def)
qed

text \<open>What is asked for was started, and nothing since has ended it or asked for another.\<close>

lemma asked_since:
  "asked es = Some a \<Longrightarrow>
     \<exists>es1 e es2. es = es1 @ e # es2 \<and> starts e = Some a \<and> list_all (\<lambda>e. \<not> ends_asking e \<and> starts e = None) es2"
proof (induction es arbitrary: a rule: rev_induct)
  case (snoc e es)
  then show ?case
  proof (cases "starts e")
    case None
    with snoc.prems have q: "asked es = Some a" "\<not> ends_asking e" by (auto simp: asked_def asks_def split: if_splits)
    from snoc.IH [OF q(1)] obtain es1 e1 es2 where
      "es = es1 @ e1 # es2" "starts e1 = Some a" "list_all (\<lambda>e. \<not> ends_asking e \<and> starts e = None) es2" by blast
    with None q(2) show ?thesis by (intro exI [of _ es1] exI [of _ e1] exI [of _ "es2 @ [e]"]) simp
  next
    case (Some a')
    with snoc.prems have "a' = a" by (auto simp: asked_def asks_def split: if_splits)
    with Some show ?thesis by (intro exI [of _ es] exI [of _ e] exI [of _ "[]"]) simp
  qed
qed (simp add: asked_def)


section \<open>Properties\<close>

text \<open>What the site has checked of an answer, for a challenge: the browser's client data, and the authenticator's.\<close>

definition answers_the_site :: "'p site \<Rightarrow> string \<Rightarrow> string \<Rightarrow> string \<Rightarrow> auth_data \<Rightarrow> bool" where
  "answers_the_site p kind challenge client ad \<longleftrightarrow>
     (\<exists>c. ps_client p client = Some c \<and> cl_type c = kind \<and> unb64url (cl_challenge c) = Some challenge \<and>
          cl_origin c = ps_origin p \<and> \<not> cl_cross c) \<and>
     ad_site ad = ps_sha p (ps_rpid p) \<and> has_flag (ad_flags ad) flag_up \<and> has_flag (ad_flags ad) flag_uv"

lemma checks_answer:
  "check_client_data p client kind challenge = None \<Longrightarrow> check_auth_data p ad = None \<Longrightarrow>
     answers_the_site p kind challenge client ad"
  by (auto simp: check_client_data_def check_auth_data_def answers_the_site_def split: option.splits if_splits)

lemma check_signed_ok:
  assumes "check_signed p cred pk ad = Inr pk'"
  shows "\<exists>key rest. parse_cose_key (ps_p256 p) (pk_public pk) = Inr (key, rest) \<and> key_ok key \<and>
      cose_verify (ps_sha p) (ps_checks p) key (cr_auth_data cred @ ps_sha p (cr_client_data cred)) (cr_signature cred) = Some True"
    and "pk_count pk < ad_count ad \<or> (pk_count pk = 0 \<and> ad_count ad = 0)"
    and "pk' = pk\<lparr>pk_count := ad_count ad, pk_backed_up := has_flag (ad_flags ad) flag_bs\<rparr>"
  using assms parsed_key_ok [of "ps_p256 p" "pk_public pk"]
  by (auto simp: check_signed_def count_went_back_def split: sum.splits prod.splits option.splits if_splits)

lemma signed_never_panics: "check_signed p cred pk ad \<noteq> Inl Key_type_panics"
  using parsed_key_ok [of "ps_p256 p" "pk_public pk"]
  by (auto simp: check_signed_def key_ok_def cose_verify_def alg_es256_def alg_eddsa_def alg_rs256_def
      split: sum.splits prod.splits option.splits public_key.splits)

lemma check_login_ok:
  assumes "check_login p fd c answer = Inr pk'"
  shows "\<exists>cred pk ad. parse_credential (ps_answer p) answer = Inr cred \<and> fd (cr_id cred) = Inr pk \<and>
      (ce_allow c = [] \<or> cr_id cred \<in> set (ce_allow c)) \<and>
      (cr_user cred = Some (pk_user pk) \<or> (cr_user cred = None \<and> ce_allow c \<noteq> [])) \<and>
      parse_auth_data (cr_auth_data cred) = Inr ad \<and>
      answers_the_site p ''webauthn.get'' (ce_challenge c) (cr_client_data cred) ad \<and>
      check_signed p cred pk ad = Inr pk'"
  using assms checks_answer [of p _ "''webauthn.get''" "ce_challenge c"]
  by (auto simp: check_login_def split: sum.splits option.splits if_splits)

text \<open>What a Finish takes from the session was put there by the Start it answers, and nothing else came between.\<close>

lemma ceremony_taken:
  assumes "list_all passkeys_apart es" "s_values s = []"
    and "fst (take_ceremony now kind (Some (passkeys_run p fd es s))) = Some c"
  shows "\<exists>es1 e es2 a. es = es1 @ e # es2 \<and> starts e = Some a \<and> list_all (\<lambda>e. \<not> ends_asking e \<and> starts e = None) es2 \<and>
      as_kind a = kind \<and> now - of_unix (as_since a) < 5 * minute \<and>
      c = \<lparr>ce_challenge = as_challenge a, ce_user = as_user a, ce_allow = as_allow a\<rparr>"
proof -
  have k: "keeps (asked es) (passkeys_run p fd es s)" using passkeys_keep [OF assms(1,2)] .
  then obtain a where some: "asked es = Some a"
    using assms(3) by (cases "asked es") (simp_all add: keeps_none)
  from k assms(3) have "as_kind a = kind \<and> now - of_unix (as_since a) < 5 * minute \<and>
      c = \<lparr>ce_challenge = as_challenge a, ce_user = as_user a, ce_allow = as_allow a\<rparr>"
    by (simp add: some keeps_taken challenge_for_def split: if_splits)
  with asked_since [OF some] show ?thesis by blast
qed

lemma login_taken:
  assumes "list_all passkeys_apart es" "s_values s = []"
    and "finish_login p fd now answer (Some (passkeys_run p fd es s)) = (Inr pk', s')"
  shows "\<exists>es1 t challenge allow es2. es = es1 @ Starts_login t challenge allow # es2 \<and>
      list_all (\<lambda>e. \<not> ends_asking e \<and> starts e = None) es2 \<and> now - of_unix (unix t) < 5 * minute \<and>
      check_login p fd \<lparr>ce_challenge = challenge, ce_user = [], ce_allow = map pk_id allow\<rparr> answer = Inr pk'"
proof -
  from assms(3) obtain c where c: "fst (take_ceremony now ''get'' (Some (passkeys_run p fd es s))) = Some c"
    "check_login p fd c answer = Inr pk'"
    by (auto simp: finish_login_def split: prod.splits option.splits)
  from ceremony_taken [OF assms(1,2) c(1)] obtain es1 e es2 a where
    es: "es = es1 @ e # es2" "starts e = Some a" "list_all (\<lambda>e. \<not> ends_asking e \<and> starts e = None) es2" "as_kind a = ''get''"
      "now - of_unix (as_since a) < 5 * minute" "c = \<lparr>ce_challenge = as_challenge a, ce_user = as_user a, ce_allow = as_allow a\<rparr>"
    by blast
  from es(2,4) obtain t challenge allow where "e = Starts_login t challenge allow"
    "a = \<lparr>as_kind = ''get'', as_challenge = challenge, as_user = [], as_allow = map pk_id allow, as_since = unix t\<rparr>"
    by (cases e) (auto split: if_splits)
  with es(1,3,5,6) c(2) show ?thesis by fastforce
qed

lemma registration_taken:
  assumes "list_all passkeys_apart es" "s_values s = []"
    and "finish_registration p now answer (Some (passkeys_run p fd es s)) = (Inr pk, s')"
  shows "\<exists>es1 t challenge u exclude es2. es = es1 @ Starts_registration t challenge u exclude # es2 \<and>
      list_all (\<lambda>e. \<not> ends_asking e \<and> starts e = None) es2 \<and> now - of_unix (unix t) < 5 * minute \<and>
      check_registration p \<lparr>ce_challenge = challenge, ce_user = pu_handle u, ce_allow = []\<rparr> answer = Inr pk"
proof -
  from assms(3) obtain c where c: "fst (take_ceremony now ''create'' (Some (passkeys_run p fd es s))) = Some c"
    "check_registration p c answer = Inr pk"
    by (auto simp: finish_registration_def split: prod.splits option.splits)
  from ceremony_taken [OF assms(1,2) c(1)] obtain es1 e es2 a where
    es: "es = es1 @ e # es2" "starts e = Some a" "list_all (\<lambda>e. \<not> ends_asking e \<and> starts e = None) es2" "as_kind a = ''create''"
      "now - of_unix (as_since a) < 5 * minute" "c = \<lparr>ce_challenge = as_challenge a, ce_user = as_user a, ce_allow = as_allow a\<rparr>"
    by blast
  from es(2,4) obtain t challenge u exclude where "e = Starts_registration t challenge u exclude"
    "a = \<lparr>as_kind = ''create'', as_challenge = challenge, as_user = pu_handle u, as_allow = [], as_since = unix t\<rparr>"
    by (cases e) (auto split: if_splits)
  with es(1,3,5,6) c(2) show ?thesis by fastforce
qed

lemma auth_passkey_bounds: "auth_passkey rest = Inr ((i, k), after) \<Longrightarrow> 0 < length i \<and> length i \<le> 1023"
  by (auto simp: auth_passkey_def Let_def split: if_splits sum.splits)

lemma auth_data_id:
  "parse_auth_data b = Inr ad \<Longrightarrow> has_flag (ad_flags ad) flag_at \<Longrightarrow> 0 < length (ad_id ad) \<and> length (ad_id ad) \<le> 1023"
  by (auto simp: parse_auth_data_def Let_def dest: auth_passkey_bounds split: if_splits sum.splits prod.splits)

lemma check_registration_ok:
  assumes "check_registration p c answer = Inr pk"
  shows "\<exists>cred ad key rest. parse_credential (ps_answer p) answer = Inr cred \<and>
      answers_the_site p ''webauthn.create'' (ce_challenge c) (cr_client_data cred) ad \<and>
      parse_cose_key (ps_p256 p) (pk_public pk) = Inr (key, rest) \<and> key_ok key \<and>
      pk_id pk = cr_id cred \<and> 0 < length (pk_id pk) \<and> length (pk_id pk) \<le> 1023 \<and>
      pk_user pk = ce_user c \<and> pk_count pk = ad_count ad"
proof -
  from assms obtain cred raw ad key rest where c: "parse_credential (ps_answer p) answer = Inr cred"
    "check_client_data p (cr_client_data cred) ''webauthn.create'' (ce_challenge c) = None"
    "parse_auth_data raw = Inr ad" "check_auth_data p ad = None" "has_flag (ad_flags ad) flag_at" "ad_id ad = cr_id cred"
    "parse_cose_key (ps_p256 p) (ad_key ad) = Inr (key, rest)"
    "pk = \<lparr>pk_id = ad_id ad, pk_public = ad_key ad, pk_count = ad_count ad, pk_user = ce_user c,
           pk_transports = cr_transports cred, pk_backed_up = has_flag (ad_flags ad) flag_bs\<rparr>"
    by (auto simp: check_registration_def split: sum.splits option.splits if_splits prod.splits cbor.splits list.splits)
  have "answers_the_site p ''webauthn.create'' (ce_challenge c) (cr_client_data cred) ad" using checks_answer c(2,4) .
  moreover have "key_ok key" using parsed_key_ok [OF c(7)] .
  ultimately show ?thesis
    using c(1,6-8) auth_data_id [OF c(3,5)]
    by (intro exI [of _ cred] exI [of _ ad] exI [of _ key] exI [of _ rest]) simp
qed

text \<open>
  C2. In a session whose keys of auth the app itself leaves alone, whoever FinishLogin lets in answered a challenge of a StartLogin in the same session, less than five
  minutes old, which no other answer, login, logout or Start came after; with a passkey the app knows, one of those allowed
  when some were named, of the user it names, or who was known; by a browser on the site's own origin, outside any
  other's frame, and an authenticator that says it is for this site's domain, that someone was there and
  unlocked it; under the passkey's own key, of a kind the package takes, over the authenticator's data and the digest
  of the client data; with a count that has gone on, or with the count zero where the passkey's was
  zero too, as for one that keeps none. The passkey comes back with the new count,
  and the challenge is gone.
\<close>

theorem a_login_answers_its_challenge:
  assumes "list_all passkeys_apart es" "s_values s = []"
    and "finish_login p fd now answer (Some (passkeys_run p fd es s)) = (Inr pk', s')"
  shows "(\<exists>es1 t challenge allow es2 cred pk ad key rest.
      es = es1 @ Starts_login t challenge allow # es2 \<and> list_all (\<lambda>e. \<not> ends_asking e \<and> starts e = None) es2 \<and>
      now - of_unix (unix t) < 5 * minute \<and>
      parse_credential (ps_answer p) answer = Inr cred \<and> fd (cr_id cred) = Inr pk \<and>
      (allow = [] \<or> cr_id cred \<in> pk_id ` set allow) \<and>
      (cr_user cred = Some (pk_user pk) \<or> (cr_user cred = None \<and> allow \<noteq> [])) \<and>
      parse_auth_data (cr_auth_data cred) = Inr ad \<and>
      answers_the_site p ''webauthn.get'' challenge (cr_client_data cred) ad \<and>
      parse_cose_key (ps_p256 p) (pk_public pk) = Inr (key, rest) \<and> key_ok key \<and>
      cose_verify (ps_sha p) (ps_checks p) key (cr_auth_data cred @ ps_sha p (cr_client_data cred)) (cr_signature cred) = Some True \<and>
      (pk_count pk < ad_count ad \<or> (pk_count pk = 0 \<and> ad_count ad = 0)) \<and>
      pk' = pk\<lparr>pk_count := ad_count ad, pk_backed_up := has_flag (ad_flags ad) flag_bs\<rparr>) \<and>
    (\<exists>v. s' = Some v \<and> session_get passkey_key v = None)"
proof -
  let ?s = "passkeys_run p fd es s"
  have part1: "\<exists>v. s' = Some v \<and> session_get passkey_key v = None"
    using assms(3) take_ceremony_forgets [of now "''get''" ?s] by (auto simp: finish_login_def split: prod.splits option.splits)
  obtain es1 t challenge allow es2 where
    es: "es = es1 @ Starts_login t challenge allow # es2" "list_all (\<lambda>e. \<not> ends_asking e \<and> starts e = None) es2"
      "now - of_unix (unix t) < 5 * minute"
    and c: "check_login p fd \<lparr>ce_challenge = challenge, ce_user = [], ce_allow = map pk_id allow\<rparr> answer = Inr pk'"
    using login_taken [OF assms] by blast
  from check_login_ok [OF c] obtain cred pk ad where w:
    "parse_credential (ps_answer p) answer = Inr cred" "fd (cr_id cred) = Inr pk"
    "allow = [] \<or> cr_id cred \<in> pk_id ` set allow" "cr_user cred = Some (pk_user pk) \<or> (cr_user cred = None \<and> allow \<noteq> [])"
    "parse_auth_data (cr_auth_data cred) = Inr ad" "answers_the_site p ''webauthn.get'' challenge (cr_client_data cred) ad"
    "check_signed p cred pk ad = Inr pk'" by auto
  note signed = check_signed_ok [OF w(7)]
  from signed(1) obtain key rest where key:
    "parse_cose_key (ps_p256 p) (pk_public pk) = Inr (key, rest)" "key_ok key"
    "cose_verify (ps_sha p) (ps_checks p) key (cr_auth_data cred @ ps_sha p (cr_client_data cred)) (cr_signature cred) = Some True"
    by blast
  have part2: "\<exists>es1 t challenge allow es2 cred pk ad key rest.
      es = es1 @ Starts_login t challenge allow # es2 \<and> list_all (\<lambda>e. \<not> ends_asking e \<and> starts e = None) es2 \<and>
      now - of_unix (unix t) < 5 * minute \<and>
      parse_credential (ps_answer p) answer = Inr cred \<and> fd (cr_id cred) = Inr pk \<and>
      (allow = [] \<or> cr_id cred \<in> pk_id ` set allow) \<and>
      (cr_user cred = Some (pk_user pk) \<or> (cr_user cred = None \<and> allow \<noteq> [])) \<and>
      parse_auth_data (cr_auth_data cred) = Inr ad \<and>
      answers_the_site p ''webauthn.get'' challenge (cr_client_data cred) ad \<and>
      parse_cose_key (ps_p256 p) (pk_public pk) = Inr (key, rest) \<and> key_ok key \<and>
      cose_verify (ps_sha p) (ps_checks p) key (cr_auth_data cred @ ps_sha p (cr_client_data cred)) (cr_signature cred) = Some True \<and>
      (pk_count pk < ad_count ad \<or> (pk_count pk = 0 \<and> ad_count ad = 0)) \<and>
      pk' = pk\<lparr>pk_count := ad_count ad, pk_backed_up := has_flag (ad_flags ad) flag_bs\<rparr>"
    by (rule exI [of _ es1], rule exI [of _ t], rule exI [of _ challenge], rule exI [of _ allow], rule exI [of _ es2],
        rule exI [of _ cred], rule exI [of _ pk], rule exI [of _ ad], rule exI [of _ key], rule exI [of _ rest])
       (intro conjI es w key signed(2,3))
  show ?thesis by (rule conjI [OF part2 part1])
qed


text \<open>
  A passkey that FinishRegistration returns is for the user of the StartRegistration it answers, in the same
  session, less than five minutes before, with no other answer, login, logout or Start between; its ID is the one
  the browser named, of 1 to 1023 bytes, its key one that logins can be checked with; and the answer was to the
  challenge, on the site's own origin, from an authenticator that someone unlocked for the site.
\<close>

theorem a_registration_answers_its_challenge:
  assumes "list_all passkeys_apart es" "s_values s = []"
    and "finish_registration p now answer (Some (passkeys_run p fd es s)) = (Inr pk, s')"
  shows "\<exists>es1 t challenge u exclude es2 cred ad key rest.
      es = es1 @ Starts_registration t challenge u exclude # es2 \<and>
      list_all (\<lambda>e. \<not> ends_asking e \<and> starts e = None) es2 \<and> now - of_unix (unix t) < 5 * minute \<and>
      parse_credential (ps_answer p) answer = Inr cred \<and>
      answers_the_site p ''webauthn.create'' challenge (cr_client_data cred) ad \<and>
      parse_cose_key (ps_p256 p) (pk_public pk) = Inr (key, rest) \<and> key_ok key \<and>
      pk_id pk = cr_id cred \<and> 0 < length (pk_id pk) \<and> length (pk_id pk) \<le> 1023 \<and> pk_user pk = pu_handle u \<and>
      pk_count pk = ad_count ad"
proof -
  from registration_taken [OF assms] obtain es1 t challenge u exclude es2 where
    es: "es = es1 @ Starts_registration t challenge u exclude # es2"
      "list_all (\<lambda>e. \<not> ends_asking e \<and> starts e = None) es2" "now - of_unix (unix t) < 5 * minute"
    and c: "check_registration p \<lparr>ce_challenge = challenge, ce_user = pu_handle u, ce_allow = []\<rparr> answer = Inr pk"
    by blast
  from check_registration_ok [OF c] es show ?thesis by fastforce
qed


section \<open>At concrete inputs\<close>

text \<open>A site, its Ed25519 passkey, and an authenticator's answers to a registration and a login.\<close>

definition ex_key :: cbor where
  "ex_key = C_map [(C_int 1, C_int 1), (C_int 3, C_int (-8)), (C_int (-1), C_int 6), (C_int (-2), C_bytes (replicate 32 (CHR ''x'')))]"

definition ex_cose :: string where
  "ex_cose = cbor_bytes ex_key"

definition ex_auth :: "char \<Rightarrow> char \<Rightarrow> string" where
  "ex_auth flags count = replicate 32 (CHR ''h'') @ [flags, CHR 0x00, CHR 0x00, CHR 0x00, count]"

definition ex_made :: string where
  "ex_made = ex_auth (CHR 0x45) (CHR 0x00) @ replicate 16 (CHR ''m'') @ [CHR 0x00, CHR 0x01, CHR ''k''] @ ex_cose"

definition ex_att :: string where
  "ex_att = cbor_bytes (C_map [(C_text ''authData'', C_bytes ex_made)])"

definition ex_answer :: "string \<Rightarrow> string \<Rightarrow> answer_fields" where
  "ex_answer att ad = \<lparr>an_id = b64_encode ''k'', an_raw_id = b64_encode ''k'', an_type = ''public-key'',
     an_client_data = b64_encode ''client'', an_attestation = b64_encode att, an_auth_data = b64_encode ad,
     an_signature = b64_encode ''sig'', an_user = Some (b64_encode ''u''), an_transports = [''usb'']\<rparr>"

definition ex_site :: "string \<Rightarrow> unit site" where
  "ex_site kind = \<lparr>ps_rpid = ''localhost'', ps_origin = ''http://localhost'', ps_name = ''Blog'',
     ps_answer = (\<lambda>a. Some (ex_answer ex_att (ex_auth (CHR 0x05) (CHR 0x01)))),
     ps_client = (\<lambda>c. Some \<lparr>cl_type = kind, cl_challenge = b64_encode ''c'', cl_origin = ''http://localhost'', cl_cross = False\<rparr>),
     ps_sha = (\<lambda>x. replicate 32 (CHR ''h'')), ps_p256 = (\<lambda>x. None),
     ps_checks = \<lparr>sc_ecdsa = (\<lambda>k d g. True), sc_ed25519 = (\<lambda>k d g. g = ''sig''), sc_rsa = (\<lambda>n e d g. True)\<rparr>\<rparr>"

definition ex_passkey :: passkey where
  "ex_passkey = \<lparr>pk_id = ''k'', pk_public = ex_cose, pk_count = 0, pk_user = ''u'', pk_transports = [''usb''], pk_backed_up = False\<rparr>"

lemma ex_cose_read: "decode_cbor (ex_cose @ rest) = Inr (ex_key, rest)"
  unfolding ex_cose_def by (rule decode_encoded) (simp_all add: ex_key_def in_int64_def keys_ok_def is_key_def)

lemma ex_key_parsed: "parse_cose_key f ex_cose = Inr (\<lparr>ck_alg = -8, ck_key = Some (Ed_key (replicate 32 (CHR ''x'')))\<rparr>, [])"
  using ex_cose_read [of "[]"]
  by (simp add: parse_cose_key_def ex_key_def int_at_def bytes_at_def alg_es256_def alg_eddsa_def)

lemma ex_auth_parsed:
  "parse_auth_data (ex_auth (CHR 0x05) c) =
     Inr \<lparr>ad_site = replicate 32 (CHR ''h''), ad_flags = 5, ad_count = of_char c, ad_id = [], ad_key = []\<rparr>"
  by (simp add: parse_auth_data_def ex_auth_def big_of_def has_flag_def flag_at_def flag_ed_def nth_append)

lemma ex_made_parsed:
  "parse_auth_data ex_made =
     Inr \<lparr>ad_site = replicate 32 (CHR ''h''), ad_flags = 0x45, ad_count = 0, ad_id = ''k'', ad_key = ex_cose\<rparr>"
  using ex_cose_read [of "[]"]
  by (simp add: parse_auth_data_def ex_made_def ex_auth_def big_of_def has_flag_def flag_at_def flag_ed_def nth_append
      auth_passkey_def)


lemma ex_attestation: "decode_cbor ex_att =
    Inr (C_map [(C_text ''authData'', C_bytes ex_made)], [])"
proof -
  have "length ex_cose \<le> 100"
    by (simp add: ex_cose_def ex_key_def head_bytes_def)
  then have "length ex_made < 1000" by (simp add: ex_made_def ex_auth_def)
  then show ?thesis
    using decode_encoded [of "C_map [(C_text ''authData'', C_bytes ex_made)]" "[]"]
    by (simp add: ex_att_def keys_ok_def is_key_def utf8_ascii)
qed

lemma ex_credential:
  "parse_credential (ps_answer (ex_site kind)) a = Inr \<lparr>cr_id = ''k'', cr_client_data = ''client'',
     cr_attestation = ex_att, cr_auth_data = ex_auth (CHR 0x05) (CHR 0x01),
     cr_signature = ''sig'', cr_user = Some ''u'', cr_transports = [''usb'']\<rparr>"
proof -
  have "b64_encode ''u'' \<noteq> []" using b64_length [of "''u''"] by auto
  then show ?thesis
    by (simp add: parse_credential_def ex_site_def ex_answer_def parse_user_def take_transports_def known_transports_def)
qed

lemma ex_client: "check_client_data (ex_site kind) client kind ''c'' = None"
  by (simp add: check_client_data_def ex_site_def)

lemma ex_answers:
  "check_registration (ex_site ''webauthn.create'') \<lparr>ce_challenge = ''c'', ce_user = ''u'', ce_allow = []\<rparr> a = Inr ex_passkey"
  "check_login (ex_site ''webauthn.get'') (\<lambda>i. Inr ex_passkey) \<lparr>ce_challenge = ''c'', ce_user = [], ce_allow = []\<rparr> a =
     Inr (ex_passkey\<lparr>pk_count := 1\<rparr>)"
   apply (simp add: check_registration_def ex_credential ex_client ex_attestation ex_made_parsed ex_key_parsed)
   apply (simp add: check_auth_data_def ex_site_def has_flag_def flag_up_def flag_uv_def flag_bs_def flag_at_def ex_passkey_def
      ex_key_parsed)
  apply (simp add: check_login_def ex_credential ex_client ex_auth_parsed)
  apply (simp add: check_auth_data_def ex_site_def has_flag_def flag_up_def flag_uv_def flag_bs_def flag_at_def ex_passkey_def
      check_signed_def ex_key_parsed cose_verify_def alg_es256_def alg_eddsa_def count_went_back_def)
  done

text \<open>What a session is, once a registration or a login was started in it and its cookie came back.\<close>

definition ex_registering :: "passkey_event list" where
  "ex_registering =
     [Starts_registration unix_epoch ''c'' \<lparr>pu_handle = ''u'', pu_name = ''ann'', pu_display = ''Ann''\<rparr> [], Site_does Next_request]"

definition ex_logging_in :: "passkey_event list" where
  "ex_logging_in = [Site_does Logs_out, Starts_login unix_epoch ''c'' [], Site_does Next_request]"

lemma ex_finished:
  "finish_registration (ex_site ''webauthn.create'') (unix_epoch + minute) a
     (Some (passkeys_run (ex_site ''webauthn.create'') fd ex_registering first_visit)) =
   (Inr ex_passkey, Some (session_delete passkey_key (passkeys_run (ex_site ''webauthn.create'') fd ex_registering first_visit)))"
  "finish_login (ex_site ''webauthn.get'') (\<lambda>i. Inr ex_passkey) (unix_epoch + minute) a
     (Some (passkeys_run (ex_site ''webauthn.get'') fd ex_logging_in first_visit)) =
   (Inr (ex_passkey\<lparr>pk_count := 1\<rparr>),
    Some (session_delete passkey_key (passkeys_run (ex_site ''webauthn.get'') fd ex_logging_in first_visit)))"
  using keeps_taken [of _ "passkeys_run (ex_site ''webauthn.create'') fd ex_registering first_visit"]
    passkeys_keep [of ex_registering first_visit "ex_site ''webauthn.create''" fd]
    keeps_taken [of _ "passkeys_run (ex_site ''webauthn.get'') fd ex_logging_in first_visit"]
    passkeys_keep [of ex_logging_in first_visit "ex_site ''webauthn.get''" fd]
  by (simp_all add: finish_registration_def finish_login_def ex_answers ex_registering_def ex_logging_in_def asked_def asks_def
      first_visit_def unix_def of_unix_def challenge_for_def minute_def second_def)

theorem a_login_answers_its_challenge_witness:
  "fst (finish_login (ex_site ''webauthn.get'') (\<lambda>i. Inr ex_passkey) (unix_epoch + minute) ''answer''
     (Some (passkeys_run (ex_site ''webauthn.get'') (\<lambda>i. Inr ex_passkey) ex_logging_in first_visit))) =
   Inr (ex_passkey\<lparr>pk_count := 1\<rparr>) \<and>
   (\<exists>es1 t challenge allow es2. ex_logging_in = es1 @ Starts_login t challenge allow # es2 \<and>
      unix_epoch + minute - of_unix (unix t) < 5 * minute)"
proof -
  have apart: "list_all passkeys_apart ex_logging_in" "s_values first_visit = []"
    by (simp_all add: ex_logging_in_def first_visit_def)
  note finished = ex_finished(2) [where a = "''answer''" and fd = "\<lambda>i. Inr ex_passkey"]
  from a_login_answers_its_challenge [THEN conjunct1, OF apart finished] finished show ?thesis by fastforce
qed

theorem a_registration_answers_its_challenge_witness:
  "fst (finish_registration (ex_site ''webauthn.create'') (unix_epoch + minute) ''answer''
     (Some (passkeys_run (ex_site ''webauthn.create'') (\<lambda>i. Inr ex_passkey) ex_registering first_visit))) = Inr ex_passkey \<and>
   (\<exists>es1 t challenge u exclude es2. ex_registering = es1 @ Starts_registration t challenge u exclude # es2 \<and>
      unix_epoch + minute - of_unix (unix t) < 5 * minute \<and> pk_user ex_passkey = pu_handle u)"
proof -
  have apart: "list_all passkeys_apart ex_registering" "s_values first_visit = []"
    by (simp_all add: ex_registering_def first_visit_def)
  note finished = ex_finished(1) [where a = "''answer''" and fd = "\<lambda>i. Inr ex_passkey"]
  from a_registration_answers_its_challenge [OF apart finished] finished show ?thesis by fastforce
qed

end
