(* ===== verification/Tokens.thy ===== *)
theory Tokens
  imports Signed_Parts Urls Session
begin

text \<open>
  What the app signs and keeps nowhere: the tokens of links in mail (auth/tokens.go, with the reset,
  verification and registration tokens made of them), the links to its own routes (links.go), and the
  API's access tokens, kept by their hash (auth/access.go). HKDF, HMAC and SHA-256 are parameters.
\<close>

section \<open>Numbers in base 36\<close>

text \<open>\<open>strconv.FormatInt\<close> and \<open>ParseInt\<close>, of 64 bits, in base 36.\<close>

definition digit36 :: "nat \<Rightarrow> char" where
  "digit36 d = ''0123456789abcdefghijklmnopqrstuvwxyz'' ! d"

fun digits36 :: "nat \<Rightarrow> string" where
  "digits36 n = (if n < 36 then [digit36 n] else digits36 (n div 36) @ [digit36 (n mod 36)])"

declare digits36.simps [simp del]

definition format36 :: "int \<Rightarrow> string" where
  "format36 n = (if n < 0 then CHR ''-'' # digits36 (nat (- n)) else digits36 (nat n))"

definition val36 :: "char \<Rightarrow> nat option" where
  "val36 c =
     (if is_digit c then Some (of_char c - 48)
      else if is_lower c then Some (of_char c - 87)
      else if is_upper c then Some (of_char c - 55) else None)"

definition value36 :: "string \<Rightarrow> nat option" where
  "value36 s =
     (if s = [] then None
      else foldl (\<lambda>n c. case (n, val36 c) of (Some n, Some v) \<Rightarrow> Some (36 * n + v) | _ \<Rightarrow> None) (Some 0) s)"

definition parse36 :: "string \<Rightarrow> int option" where
  "parse36 s =
     (let (neg, ds) =
        (case s of [] \<Rightarrow> (False, [])
         | c # r \<Rightarrow> if c = CHR ''-'' then (True, r) else if c = CHR ''+'' then (False, r) else (False, s))
      in case value36 ds of
           None \<Rightarrow> None
         | Some n \<Rightarrow> let v = (if neg then - int n else int n) in if in_int64 v then Some v else None)"

lemma digit36_ok: "n < 36 \<Longrightarrow> val36 (digit36 n) = Some n \<and> digit36 n \<notin> set ''-+.''"
proof -
  have "list_all (\<lambda>n. val36 (digit36 n) = Some n \<and> digit36 n \<notin> set ''-+.'') [0..<36]" by code_simp
  then show "n < 36 \<Longrightarrow> ?thesis" by (simp add: list_all_iff)
qed

lemma digits36_value:
  "digits36 n \<noteq> [] \<and> list_all (\<lambda>c. c \<notin> set ''-+.'') (digits36 n) \<and>
     foldl (\<lambda>n c. case (n, val36 c) of (Some n, Some v) \<Rightarrow> Some (36 * n + v) | _ \<Rightarrow> None) (Some 0) (digits36 n) = Some n"
proof (induction n rule: digits36.induct)
  case (1 n)
  show ?case
  proof (cases "n < 36")
    case True
    then show ?thesis using digit36_ok [of n] by (simp add: digits36.simps [of n])
  next
    case False
    with 1 show ?thesis using digit36_ok [of "n mod 36"] by (simp add: digits36.simps [of n])
  qed
qed

lemma parse36_format: "in_int64 n \<Longrightarrow> parse36 (format36 n) = Some n"
proof -
  assume n: "in_int64 n"
  have v: "value36 (digits36 m) = Some m" for m using digits36_value [of m] by (simp add: value36_def)
  obtain c cs where c: "digits36 (nat n) = c # cs" "c \<noteq> CHR ''-''" "c \<noteq> CHR ''+''"
    using digits36_value [of "nat n"] by (cases "digits36 (nat n)") auto
  show ?thesis
  proof (cases "n < 0")
    case True
    then show ?thesis using n v [of "nat (- n)"] by (simp add: parse36_def format36_def)
  next
    case False
    with c have "parse36 (format36 n) = (case value36 (digits36 (nat n)) of None \<Rightarrow> None
        | Some m \<Rightarrow> if in_int64 (int m) then Some (int m) else None)"
      by (simp add: parse36_def format36_def split: option.split)
    then show ?thesis using n v [of "nat n"] False by simp
  qed
qed

lemma format36_no_dot: "CHR ''.'' \<notin> set (format36 n)"
  using digits36_value by (auto simp: format36_def list_all_iff)

section \<open>Tokens\<close>

text \<open>HKDF of a key for a purpose, HMAC of a text under a key.\<close>

record macs =
  mc_hkdf :: "string \<Rightarrow> string \<Rightarrow> string"
  mc_hmac :: "string \<Rightarrow> string \<Rightarrow> string"

record tokens =
  tk_purpose :: string
  tk_keys :: "string list"
  tk_lifetime :: duration

definition token_sign :: "macs \<Rightarrow> tokens \<Rightarrow> string \<Rightarrow> string \<Rightarrow> string list \<Rightarrow> string" where
  "token_sign mc tk app_key expires parts =
     take 16 (mc_hmac mc (mc_hkdf mc app_key (tk_purpose tk)) (parts_text (expires # parts)))"

definition token_make :: "macs \<Rightarrow> instant \<Rightarrow> tokens \<Rightarrow> string list \<Rightarrow> string" where
  "token_make mc now tk parts =
     (let expires = format36 (unix (now + tk_lifetime tk))
      in expires @ ''.'' @ b64_encode (token_sign mc tk (tk_keys tk ! 0) expires parts))"

definition token_check :: "macs \<Rightarrow> instant \<Rightarrow> tokens \<Rightarrow> string \<Rightarrow> string list \<Rightarrow> bool" where
  "token_check mc now tk token parts =
     (case cut CHR ''.'' token of
        (expires, sig, ok) \<Rightarrow>
          if \<not> ok then False
          else (case parse36 expires of
                  None \<Rightarrow> False
                | Some u \<Rightarrow>
                    if u \<le> unix now then False
                    else (case b64_decode sig of
                            None \<Rightarrow> False
                          | Some got \<Rightarrow> list_ex (\<lambda>k. got = token_sign mc tk k expires parts) (tk_keys tk))))"

definition lifetime_or :: "duration \<Rightarrow> duration \<Rightarrow> duration" where
  "lifetime_or d def = (if d \<le> 0 then def else d)"

text \<open>The three of them, as their Keys and Lifetime make them; no keys make no token, and panic: None.\<close>

definition resets :: "string list \<Rightarrow> duration \<Rightarrow> tokens" where
  "resets keys lifetime = \<lparr>tk_purpose = ''tug password reset'', tk_keys = keys, tk_lifetime = lifetime_or lifetime hour\<rparr>"

definition verifications :: "string list \<Rightarrow> duration \<Rightarrow> tokens" where
  "verifications keys lifetime =
     \<lparr>tk_purpose = ''tug email verification'', tk_keys = keys, tk_lifetime = lifetime_or lifetime (24 * hour)\<rparr>"

definition registrations :: "string list \<Rightarrow> duration \<Rightarrow> tokens" where
  "registrations keys lifetime =
     \<lparr>tk_purpose = ''tug registration'', tk_keys = keys, tk_lifetime = lifetime_or lifetime (24 * hour)\<rparr>"

definition reset_token :: "macs \<Rightarrow> instant \<Rightarrow> string list \<Rightarrow> duration \<Rightarrow> string \<Rightarrow> string \<Rightarrow> string option" where
  "reset_token mc now keys lifetime uid password_hash =
     (if keys = [] then None else Some (token_make mc now (resets keys lifetime) [uid, password_hash]))"

definition reset_check :: "macs \<Rightarrow> instant \<Rightarrow> string list \<Rightarrow> duration \<Rightarrow> string \<Rightarrow> string \<Rightarrow> string \<Rightarrow> bool" where
  "reset_check mc now keys lifetime token uid password_hash =
     token_check mc now (resets keys lifetime) token [uid, password_hash]"

definition verification_token :: "macs \<Rightarrow> instant \<Rightarrow> string list \<Rightarrow> duration \<Rightarrow> string \<Rightarrow> string \<Rightarrow> string option" where
  "verification_token mc now keys lifetime uid email =
     (if keys = [] then None else Some (token_make mc now (verifications keys lifetime) [uid, email]))"

definition verification_check :: "macs \<Rightarrow> instant \<Rightarrow> string list \<Rightarrow> duration \<Rightarrow> string \<Rightarrow> string \<Rightarrow> string \<Rightarrow> bool" where
  "verification_check mc now keys lifetime token uid email =
     token_check mc now (verifications keys lifetime) token [uid, email]"

definition registration_token :: "macs \<Rightarrow> instant \<Rightarrow> string list \<Rightarrow> duration \<Rightarrow> string \<Rightarrow> string \<Rightarrow> string option" where
  "registration_token mc now keys lifetime email name =
     (if keys = [] then None else Some (token_make mc now (registrations keys lifetime) [email, name]))"

definition registration_check :: "macs \<Rightarrow> instant \<Rightarrow> string list \<Rightarrow> duration \<Rightarrow> string \<Rightarrow> string \<Rightarrow> string \<Rightarrow> bool" where
  "registration_check mc now keys lifetime token email name =
     token_check mc now (registrations keys lifetime) token [email, name]"


section \<open>Links to the app's own routes\<close>

text \<open>
  What the app has for its links: its address and its keys. \<open>App.URL\<close>'s path to a route, or its error, is an
  argument.
\<close>

record link_app =
  la_url :: string
  la_keys :: "string list"

datatype app_link_error = No_address | No_app_keys | Route_error string

definition absolute_url :: "link_app \<Rightarrow> string + string \<Rightarrow> app_link_error + string" where
  "absolute_url app route =
     (if la_url app = [] then Inl No_address
      else case route of Inl e \<Rightarrow> Inl (Route_error e) | Inr path \<Rightarrow> Inr (la_url app @ path))"

definition link_sign :: "macs \<Rightarrow> string \<Rightarrow> string \<Rightarrow> string \<Rightarrow> string" where
  "link_sign mc app_key path u = take 16 (mc_hmac mc (mc_hkdf mc app_key ''tug signed link'') (parts_text [path, u]))"

definition signed_url :: "macs \<Rightarrow> link_app \<Rightarrow> string + string \<Rightarrow> instant \<Rightarrow> app_link_error + string" where
  "signed_url mc app route expires =
     (if la_keys app = [] then Inl No_app_keys
      else case absolute_url app route of
             Inl e \<Rightarrow> Inl e
           | Inr link \<Rightarrow>
               let path = drop (length (la_url app)) link; u = itoa (unix expires);
                   sig = b64_encode (link_sign mc (la_keys app ! 0) path u)
               in Inr (link @ ''?expires='' @ u @ ''&signature='' @ sig))"

text \<open>\<open>url.ParseQuery\<close>, whose error is of any part that does not parse.\<close>

definition part_ok :: "string \<Rightarrow> bool" where
  "part_ok w \<longleftrightarrow>
     w = [] \<or> (CHR '';'' \<notin> set w \<and> (case cut CHR ''='' w of (k, v, _) \<Rightarrow> url_unescape True k \<noteq> None \<and> url_unescape True v \<noteq> None))"

definition parse_query_strictly :: "string \<Rightarrow> url_values option" where
  "parse_query_strictly raw = (if list_all part_ok (split_on CHR ''&'' raw) then Some (parse_query raw) else None)"

text \<open>What \<open>checkSigned\<close> answers: nil, a 403 of one kind or the other, or an error of no keys.\<close>

datatype link_answer = Link_good | Link_invalid | Link_expired | Link_keyless

definition check_link :: "macs \<Rightarrow> instant \<Rightarrow> string list \<Rightarrow> string \<Rightarrow> string \<Rightarrow> link_answer" where
  "check_link mc now keys path raw =
     (if keys = [] then Link_keyless
      else case parse_query_strictly raw of
             None \<Rightarrow> Link_invalid
           | Some q \<Rightarrow>
               (case (lookup q ''expires'', lookup q ''signature'') of
                  (Some [u], Some [sig]) \<Rightarrow>
                    if length q \<noteq> 2 then Link_invalid
                    else (case (atoi u, b64_decode sig) of
                            (Some n, Some got) \<Rightarrow>
                              if list_ex (\<lambda>k. got = link_sign mc k path u) keys
                              then (if now < of_unix n then Link_good else Link_expired)
                              else Link_invalid
                          | _ \<Rightarrow> Link_invalid)
                | _ \<Rightarrow> Link_invalid))"

text \<open>\<open>Signed\<close>: the handler runs for a good link alone.\<close>

definition signed_route :: "macs \<Rightarrow> instant \<Rightarrow> string list \<Rightarrow> (string \<Rightarrow> 'r) \<Rightarrow> string \<Rightarrow> string \<Rightarrow> link_answer + 'r" where
  "signed_route mc now keys h path raw =
     (case check_link mc now keys path raw of Link_good \<Rightarrow> Inr (h path) | e \<Rightarrow> Inl e)"

section \<open>Access tokens\<close>

definition lower32 :: string where "lower32 = ''abcdefghijklmnopqrstuvwxyz234567''"

definition token_len :: nat where "token_len = 52"

text \<open>The Prefix and an underscore; one that is not letters and digits panics: None.\<close>

definition access_prefix :: "string \<Rightarrow> string option" where
  "access_prefix prefix =
     (if prefix = [] \<or> \<not> list_all (\<lambda>c. is_lower c \<or> is_upper c \<or> is_digit c) prefix then None else Some (prefix @ ''_''))"

definition access_hash :: "(string \<Rightarrow> string) \<Rightarrow> string \<Rightarrow> string \<Rightarrow> string option option" where
  "access_hash sha prefix token =
     (case access_prefix prefix of
        None \<Rightarrow> None
      | Some p \<Rightarrow>
          Some (if has_prefix token p \<and> length (drop (length p) token) = token_len \<and> all_in (drop (length p) token) lower32
                then Some (sha token) else None))"

text \<open>RFC 4648's base32 of bytes, five bits a letter, lower case, as \<open>New\<close> writes 32 random bytes.\<close>

definition bits_of :: "string \<Rightarrow> bool list" where
  "bits_of s = concat (map (\<lambda>c. map (\<lambda>i. of_char c div 2 ^ (7 - i) mod (2::nat) = 1) [0..<8]) s)"

definition bits_val :: "bool list \<Rightarrow> nat" where
  "bits_val bs = foldl (\<lambda>n b. 2 * n + (if b then 1 else 0)) 0 (bs @ replicate (5 - length bs) False)"

fun fives :: "bool list \<Rightarrow> nat list" where
  "fives [] = []"
| "fives (b # bs) = bits_val (take 5 (b # bs)) # fives (drop 5 (b # bs))"

definition base32_lower :: "string \<Rightarrow> string" where
  "base32_lower s = map (\<lambda>n. lower32 ! n) (fives (bits_of s))"

definition access_new :: "(string \<Rightarrow> string) \<Rightarrow> string \<Rightarrow> string \<Rightarrow> (string \<times> string option) option" where
  "access_new sha prefix random =
     (case access_prefix prefix of
        None \<Rightarrow> None
      | Some p \<Rightarrow>
          let token = p @ base32_lower random
          in map_option (\<lambda>h. (token, h)) (access_hash sha prefix token))"

definition bearer_token :: "string \<Rightarrow> string option" where
  "bearer_token authorization =
     (case cut CHR '' '' (trim_space authorization) of
        (scheme, token, ok) \<Rightarrow>
          let t = trim_space token
          in if \<not> ok \<or> to_lower scheme \<noteq> ''bearer'' \<or> t = [] then None else Some t)"

definition abilities_can :: "string list \<Rightarrow> string \<Rightarrow> bool" where
  "abilities_can as ability \<longleftrightarrow> ability \<in> set as \<or> ''*'' \<in> set as"


section \<open>What tokens and links are good for\<close>

text \<open>
  What HMAC is taken to keep anyone from: the token made of one purpose and parts being, under a key of
  those that check, the signature of another's too.
\<close>

definition mac16 :: "macs \<Rightarrow> string \<Rightarrow> string \<Rightarrow> string \<Rightarrow> string" where
  "mac16 mc key info m = take 16 (mc_hmac mc (mc_hkdf mc key info) m)"

definition tokens_apart :: "macs \<Rightarrow> tokens \<Rightarrow> string list \<Rightarrow> string \<Rightarrow> tokens \<Rightarrow> string list \<Rightarrow> bool" where
  "tokens_apart mc tk parts expires tk' parts' \<longleftrightarrow>
     (\<forall>k \<in> set (tk_keys tk').
        mac16 mc k (tk_purpose tk') (parts_text (expires # parts')) =
        mac16 mc (tk_keys tk ! 0) (tk_purpose tk) (parts_text (expires # parts)) \<longrightarrow>
        tk_purpose tk' = tk_purpose tk \<and> parts_text (expires # parts') = parts_text (expires # parts))"

lemma token_checks:
  assumes "in_int64 (unix (now + tk_lifetime tk))"
    and "tokens_apart mc tk parts (format36 (unix (now + tk_lifetime tk))) tk' parts'"
    and "tk_keys tk ! 0 \<in> set (tk_keys tk')"
  shows "token_check mc now' tk' (token_make mc now tk parts) parts' \<longleftrightarrow>
    unix now' < unix (now + tk_lifetime tk) \<and> tk_purpose tk' = tk_purpose tk \<and> parts' = parts"
proof -
  let ?e = "format36 (unix (now + tk_lifetime tk))" let ?sig = "token_sign mc tk (tk_keys tk ! 0) ?e parts"
  have "cut CHR ''.'' (token_make mc now tk parts) = (?e, b64_encode ?sig, True)"
    using cut_found [OF format36_no_dot] by (simp add: token_make_def Let_def)
  then have "token_check mc now' tk' (token_make mc now tk parts) parts' \<longleftrightarrow>
      unix now' < unix (now + tk_lifetime tk) \<and> (\<exists>k \<in> set (tk_keys tk'). ?sig = token_sign mc tk' k ?e parts')"
    by (simp add: token_check_def parse36_format [OF assms(1)] list_ex_iff not_le)
  moreover have "(\<exists>k \<in> set (tk_keys tk'). ?sig = token_sign mc tk' k ?e parts') \<longleftrightarrow>
      tk_purpose tk' = tk_purpose tk \<and> parts' = parts"
  proof
    assume "\<exists>k \<in> set (tk_keys tk'). ?sig = token_sign mc tk' k ?e parts'"
    then obtain k where k: "k \<in> set (tk_keys tk')" "token_sign mc tk' k ?e parts' = ?sig" by auto
    from assms(2) k have "tk_purpose tk' = tk_purpose tk \<and> parts_text (?e # parts') = parts_text (?e # parts)"
      unfolding tokens_apart_def mac16_def token_sign_def by blast
    then show "tk_purpose tk' = tk_purpose tk \<and> parts' = parts" by (simp add: parts_text_inj)
  next
    assume "tk_purpose tk' = tk_purpose tk \<and> parts' = parts"
    then have "?sig = token_sign mc tk' (tk_keys tk ! 0) ?e parts'" by (simp add: token_sign_def)
    with assms(3) show "\<exists>k \<in> set (tk_keys tk'). ?sig = token_sign mc tk' k ?e parts'" by blast
  qed
  ultimately show ?thesis by blast
qed

lemma token_purposes [simp]:
  "tk_keys (resets keys d) = keys" "tk_keys (verifications keys d) = keys" "tk_keys (registrations keys d) = keys"
  "tk_purpose (resets keys d) = ''tug password reset''" "tk_purpose (verifications keys d) = ''tug email verification''"
  "tk_purpose (registrations keys d) = ''tug registration''"
  "tk_lifetime (resets keys d) = lifetime_or d hour" "tk_lifetime (verifications keys d) = lifetime_or d (24 * hour)"
  "tk_lifetime (registrations keys d) = lifetime_or d (24 * hour)"
  by (simp_all add: resets_def verifications_def registrations_def)

text \<open>
  C24. A password reset token that the app made for a user and their password hash works for that user, with
  that hash still, until its lifetime is up, and for no other, whichever of the app's keys have been added
  since; it verifies no email and finishes no registration.
\<close>

theorem a_reset_token_is_for_one_password:
  assumes "reset_token mc now keys d uid hash = Some token" "keys ! 0 \<in> set keys'"
    and "in_int64 (unix (now + lifetime_or d hour))"
    and "tokens_apart mc (resets keys d) [uid, hash] (format36 (unix (now + lifetime_or d hour))) (resets keys' d') [uid', hash']"
    and "tokens_apart mc (resets keys d) [uid, hash] (format36 (unix (now + lifetime_or d hour))) (verifications keys' d') [uid', hash']"
    and "tokens_apart mc (resets keys d) [uid, hash] (format36 (unix (now + lifetime_or d hour))) (registrations keys' d') [uid', hash']"
  shows "(reset_check mc now' keys' d' token uid' hash' \<longleftrightarrow>
      unix now' < unix (now + lifetime_or d hour) \<and> uid' = uid \<and> hash' = hash) \<and>
    (\<not> verification_check mc now' keys' d' token uid' hash') \<and>
    (\<not> registration_check mc now' keys' d' token uid' hash')"
proof -
  have t: "token = token_make mc now (resets keys d) [uid, hash]"
    using assms(1) by (simp add: reset_token_def split: if_splits)
  note checks = token_checks [of now "resets keys d" mc "[uid, hash]", simplified, OF assms(3)]
  have part1: "reset_check mc now' keys' d' token uid' hash' \<longleftrightarrow>
      unix now' < unix (now + lifetime_or d hour) \<and> uid' = uid \<and> hash' = hash"
    using checks [OF assms(4)] assms(2) by (simp add: t reset_check_def)
  have part2: "\<not> verification_check mc now' keys' d' token uid' hash'"
    using checks [OF assms(5)] assms(2) by (simp add: t verification_check_def)
  have part3: "\<not> registration_check mc now' keys' d' token uid' hash'"
    using checks [OF assms(6)] assms(2) by (simp add: t registration_check_def)
  show ?thesis by (rule conjI [OF part1 conjI [OF part2 part3]])
qed

text \<open>A signature that is the purpose's alone, which tells the three kinds of token apart.\<close>

definition ex_macs :: macs where
  "ex_macs = \<lparr>mc_hkdf = (\<lambda>k p. p), mc_hmac = (\<lambda>k m. k)\<rparr>"

theorem a_reset_token_is_for_one_password_witness:
  "reset_check ex_macs (unix_epoch + minute) [''new'', ''key''] 0 (token_make ex_macs unix_epoch (resets [''key''] 0) [''7'', ''old'']) ''7'' ''old'' \<and>
   \<not> reset_check ex_macs (unix_epoch + hour) [''new'', ''key''] 0 (token_make ex_macs unix_epoch (resets [''key''] 0) [''7'', ''old'']) ''7'' ''old'' \<and>
   \<not> verification_check ex_macs unix_epoch [''new'', ''key''] 0 (token_make ex_macs unix_epoch (resets [''key''] 0) [''7'', ''old'']) ''7'' ''old''"
proof -
  have apart: "tokens_apart ex_macs (resets [''key''] 0) [''7'', ''old''] e (resets [''new'', ''key''] 0) [''7'', ''old'']"
    "tokens_apart ex_macs (resets [''key''] 0) [''7'', ''old''] e (verifications [''new'', ''key''] 0) [''7'', ''old'']"
    "tokens_apart ex_macs (resets [''key''] 0) [''7'', ''old''] e (registrations [''new'', ''key''] 0) [''7'', ''old'']" for e
    by (simp_all add: tokens_apart_def ex_macs_def mac16_def)
  have "reset_token ex_macs unix_epoch [''key''] 0 ''7'' ''old'' = Some (token_make ex_macs unix_epoch (resets [''key''] 0) [''7'', ''old''])"
    by (simp add: reset_token_def)
  note all = a_reset_token_is_for_one_password [OF this _ _ apart(1) apart(2) apart(3)]
  note good = all [THEN conjunct1] all [THEN conjunct2, THEN conjunct1]
  have "unix (unix_epoch + lifetime_or 0 hour) = 3600" "unix (unix_epoch + minute) = 60" "unix (unix_epoch + hour) = 3600"
    by (simp_all add: unix_def lifetime_or_def hour_def minute_def second_def)
  with good(1) [of "unix_epoch + minute"] good(1) [of "unix_epoch + hour"] good(2) [of unix_epoch] show ?thesis
    by (simp add: in_int64_def)
qed

text \<open>The same of the tokens that verify an email, and of those that finish a registration.\<close>

lemma a_verification_token_is_for_one_email:
  assumes "verification_token mc now keys d uid email = Some token" "keys ! 0 \<in> set keys'"
    and "in_int64 (unix (now + lifetime_or d (24 * hour)))"
    and "tokens_apart mc (verifications keys d) [uid, email] (format36 (unix (now + lifetime_or d (24 * hour))))
           (verifications keys' d') [uid', email']"
  shows "verification_check mc now' keys' d' token uid' email' \<longleftrightarrow>
      unix now' < unix (now + lifetime_or d (24 * hour)) \<and> uid' = uid \<and> email' = email"
  using token_checks [of now "verifications keys d" mc "[uid, email]" "verifications keys' d'" "[uid', email']"] assms
  by (simp add: verification_token_def verification_check_def split: if_splits)

lemma a_registration_token_is_for_one_email:
  assumes "registration_token mc now keys d email name = Some token" "keys ! 0 \<in> set keys'"
    and "in_int64 (unix (now + lifetime_or d (24 * hour)))"
    and "tokens_apart mc (registrations keys d) [email, name] (format36 (unix (now + lifetime_or d (24 * hour))))
           (registrations keys' d') [email', name']"
  shows "registration_check mc now' keys' d' token email' name' \<longleftrightarrow>
      unix now' < unix (now + lifetime_or d (24 * hour)) \<and> email' = email \<and> name' = name"
  using token_checks [of now "registrations keys d" mc "[email, name]" "registrations keys' d'" "[email', name']"] assms
  by (simp add: registration_token_def registration_check_def split: if_splits)

section \<open>Signed links\<close>

definition links_apart :: "macs \<Rightarrow> string \<Rightarrow> string \<Rightarrow> string \<Rightarrow> string list \<Rightarrow> string \<Rightarrow> bool" where
  "links_apart mc key path u keys path' \<longleftrightarrow>
     (\<forall>k \<in> set keys. mac16 mc k ''tug signed link'' (parts_text [path', u]) = mac16 mc key ''tug signed link'' (parts_text [path, u]) \<longrightarrow>
        parts_text [path', u] = parts_text [path, u])"

lemma strict_link_query:
  assumes "list_all unreserved u" "list_all unreserved sig"
  shows "parse_query_strictly (''expires='' @ u @ ''&signature='' @ sig) = Some [(''expires'', [u]), (''signature'', [sig])]"
proof -
  have plain: "c \<notin> set u" "c \<notin> set sig" if "c \<in> set ''&;=''" for c
    using that assms unreserved_plain [of c] by (auto simp: list_all_iff)
  have "split_on CHR ''&'' (''expires='' @ u @ ''&signature='' @ sig) = [''expires='' @ u, ''signature='' @ sig]"
    using split_on_append [of "CHR ''&''" "''expires='' @ u"] split_on_single [of "CHR ''&''" "''signature='' @ sig"] plain
    by simp
  moreover have "part_ok (''expires='' @ u)" "part_ok (''signature='' @ sig)"
    using plain plain_unescape [OF assms(1)] plain_unescape [OF assms(2)]
      cut_found [of "CHR ''=''" "''expires''" u] cut_found [of "CHR ''=''" "''signature''" sig]
    by (simp_all add: part_ok_def)
  ultimately show ?thesis using parse_link_query [OF assms] by (simp add: parse_query_strictly_def)
qed

text \<open>
  C31. A link that SignedURL made for a route lets a request to that path through Signed until it expires, and
  afterwards is answered as expired; on any other path it is not valid. It is the app's address, the path the
  request is made to, and the query the check reads.
\<close>

theorem a_signed_link_opens_its_route:
  assumes "signed_url mc app (Inr path) expires = Inr link" "in_int64 (unix expires)" "la_keys app ! 0 \<in> set keys'"
  shows "\<exists>raw. link = la_url app @ path @ ''?'' @ raw \<and>
      (\<forall>h now path'. links_apart mc (la_keys app ! 0) path (itoa (unix expires)) keys' path' \<longrightarrow>
         signed_route mc now keys' h path' raw =
           (if path' \<noteq> path then Inl Link_invalid
            else if now < of_unix (unix expires) then Inr (h path) else Inl Link_expired))"
proof -
  let ?u = "itoa (unix expires)" let ?sig = "link_sign mc (la_keys app ! 0) path ?u"
  let ?raw = "''expires='' @ ?u @ ''&signature='' @ b64_encode ?sig"
  have link: "link = la_url app @ path @ ''?'' @ ?raw"
    using assms(1) by (auto simp: signed_url_def absolute_url_def Let_def split: if_splits)
  have q: "parse_query_strictly ?raw = Some [(''expires'', [?u]), (''signature'', [b64_encode ?sig])]"
    by (rule strict_link_query [OF itoa_plain b64_plain])
  have keys: "keys' \<noteq> []" using assms(3) by auto
  have "signed_route mc now keys' h path' ?raw =
      (if path' \<noteq> path then Inl Link_invalid
       else if now < of_unix (unix expires) then Inr (h path) else Inl Link_expired)"
    if apart: "links_apart mc (la_keys app ! 0) path ?u keys' path'" for h :: "string \<Rightarrow> 'r" and now path'
  proof -
    have "list_ex (\<lambda>k. ?sig = link_sign mc k path' ?u) keys' \<longleftrightarrow> path' = path"
      using apart assms(3) by (auto simp: links_apart_def mac16_def link_sign_def list_ex_iff parts_text_inj eq_commute)
    then have "check_link mc now keys' path' ?raw =
        (if path' = path then if now < of_unix (unix expires) then Link_good else Link_expired else Link_invalid)"
      unfolding check_link_def q using keys assms(2) by (simp add: atoi_itoa)
    then show ?thesis by (simp add: signed_route_def)
  qed
  with link show ?thesis by blast
qed


theorem a_signed_link_opens_its_route_witness:
  "\<exists>raw. signed_url ex_macs \<lparr>la_url = ''https://a.example'', la_keys = [''key'']\<rparr> (Inr ''/i/1'') (unix_epoch + hour) =
       Inr (''https://a.example/i/1?'' @ raw) \<and>
     signed_route ex_macs (unix_epoch + minute) [''new'', ''key''] length ''/i/1'' raw = Inr 4 \<and>
     signed_route ex_macs (unix_epoch + hour) [''new'', ''key''] length ''/i/1'' raw = Inl Link_expired"
proof -
  let ?app = "\<lparr>la_url = ''https://a.example'', la_keys = [''key'']\<rparr>"
  obtain link where link: "signed_url ex_macs ?app (Inr ''/i/1'') (unix_epoch + hour) = Inr link"
    by (simp add: signed_url_def absolute_url_def Let_def)
  have u: "unix (unix_epoch + hour) = 3600" "of_unix 3600 = unix_epoch + hour"
    by (simp_all add: unix_def of_unix_def hour_def minute_def second_def)
  have "links_apart ex_macs (la_keys ?app ! 0) ''/i/1'' v [''new'', ''key''] ''/i/1''" for v by (simp add: links_apart_def)
  moreover obtain raw where "link = la_url ?app @ ''/i/1'' @ ''?'' @ raw"
    and "\<forall>(h :: string \<Rightarrow> nat) now path'. links_apart ex_macs (la_keys ?app ! 0) ''/i/1'' (itoa (unix (unix_epoch + hour))) [''new'', ''key''] path' \<longrightarrow>
         signed_route ex_macs now [''new'', ''key''] h path' raw =
           (if path' \<noteq> ''/i/1'' then Inl Link_invalid
            else if now < of_unix (unix (unix_epoch + hour)) then Inr (h ''/i/1'') else Inl Link_expired)"
    using a_signed_link_opens_its_route [OF link, of "[''new'', ''key'']"] u by (auto simp: in_int64_def)
  ultimately have "link = ''https://a.example/i/1?'' @ raw"
    "signed_route ex_macs now [''new'', ''key''] length ''/i/1'' raw = (if now < unix_epoch + hour then Inr 4 else Inl Link_expired)" for now
    by (simp_all add: u)
  with link show ?thesis by (auto simp: hour_def)
qed

section \<open>Access tokens are what their hash takes\<close>

lemma bits_val_small: "length bs \<le> 5 \<Longrightarrow> bits_val bs < 32"
proof -
  have "foldl (\<lambda>n b. 2 * n + (if b then 1 else 0)) a bs < (a + 1) * 2 ^ length bs" for bs :: "bool list" and a :: nat
  proof (induction bs arbitrary: a)
    case (Cons b bs)
    let ?a = "2 * a + (if b then 1 else 0)"
    have "foldl (\<lambda>n b. 2 * n + (if b then 1 else 0)) ?a bs < (?a + 1) * 2 ^ length bs" by (rule Cons)
    also have "\<dots> \<le> (2 * (a + 1)) * 2 ^ length bs" by (intro mult_right_mono) auto
    finally show ?case by (simp add: mult.assoc mult.left_commute)
  qed simp
  from this [of 0 "bs @ replicate (5 - length bs) False"] show "length bs \<le> 5 \<Longrightarrow> ?thesis" by (simp add: bits_val_def)
qed

lemma fives_small: "list_all (\<lambda>n. n < 32) (fives bs)"
  by (induction bs rule: fives.induct) (simp_all add: bits_val_small)

lemma fives_length: "length (fives bs) = (length bs + 4) div 5"
  by (induction bs rule: fives.induct) auto

lemma base32_letters: "all_in (base32_lower s) lower32"
proof -
  have "length lower32 = 32" by (simp add: lower32_def)
  then have "lower32 ! n \<in> set lower32" if "n < 32" for n using that by (intro nth_mem) simp
  with fives_small [of "bits_of s"] show ?thesis by (auto simp: all_in_def base32_lower_def list_all_iff)
qed

lemma base32_length: "length (base32_lower s) = (8 * length s + 4) div 5"
proof -
  have "length (bits_of s) = 8 * length s" by (induction s) (simp_all add: bits_of_def)
  then show ?thesis by (simp add: base32_lower_def fives_length)
qed

text \<open>A token that New makes is one that Hash takes, for the app to find it by.\<close>

lemma a_new_access_token_is_found:
  assumes "length random = 32" "access_prefix prefix = Some p"
  shows "access_new sha prefix random = Some (p @ base32_lower random, Some (sha (p @ base32_lower random)))"
    and "access_hash sha prefix (p @ base32_lower random) = Some (Some (sha (p @ base32_lower random)))"
  using assms base32_letters [of random] base32_length [of random]
  by (simp_all add: access_new_def access_hash_def token_len_def has_prefix_iff Let_def)

end
