(* ===== verification/Seals.thy ===== *)
theory Seals
  imports Signed_Parts Session "HOL-Library.Multiset"
begin

text \<open>
  Sealed values (internal/seal/seal.go), as the app's own (crypt/crypt.go) and the two-factor secrets and
  recovery codes of package auth (auth/twofactor.go) are, each under a key for its purpose. AES-GCM and HKDF are
  parameters, what a nonce draws an argument.
\<close>

declare map_of_eq_Some_iff [simp del] Some_eq_map_of_iff [simp del]

section \<open>A box\<close>

datatype box_error = Box_no_keys | Box_key_length nat | Box_key_error string | Box_no_purpose

text \<open>\<open>derive\<close> is HKDF for what the keys are for, and AES-GCM made of its key, or their error.\<close>

fun derive_boxes :: "(string \<Rightarrow> string \<Rightarrow> string + aead) \<Rightarrow> string list \<Rightarrow> string \<Rightarrow> box_error + aead list" where
  "derive_boxes derive [] info = Inr []"
| "derive_boxes derive (k # ks) info =
     (if length k \<noteq> 32 then Inl (Box_key_length (length k))
      else case derive k info of
             Inl e \<Rightarrow> Inl (Box_key_error e)
           | Inr a \<Rightarrow> (case derive_boxes derive ks info of Inl e \<Rightarrow> Inl e | Inr as \<Rightarrow> Inr (a # as)))"

definition seal_new :: "(string \<Rightarrow> string \<Rightarrow> string + aead) \<Rightarrow> string list \<Rightarrow> string \<Rightarrow> box_error + aead list" where
  "seal_new derive keys info = (if keys = [] then Inl Box_no_keys else derive_boxes derive keys info)"

definition box_seal :: "aead list \<Rightarrow> string \<Rightarrow> string \<Rightarrow> string \<Rightarrow> string" where
  "box_seal as nonce v ad = b64_encode (nonce @ ae_seal (as ! 0) nonce v ad)"

text \<open>The value, and the index of the key that sealed it.\<close>

fun box_open_from :: "nat \<Rightarrow> aead list \<Rightarrow> string \<Rightarrow> string \<Rightarrow> (string \<times> nat) option" where
  "box_open_from i [] raw ad = None"
| "box_open_from i (a # as) raw ad =
     (if length raw < nonce_size then None
      else case ae_open a (take nonce_size raw) (drop nonce_size raw) ad of
             Some v \<Rightarrow> Some (v, i)
           | None \<Rightarrow> box_open_from (Suc i) as raw ad)"

definition box_open :: "aead list \<Rightarrow> string \<Rightarrow> string \<Rightarrow> (string \<times> nat) option" where
  "box_open as sealed ad = (case b64_decode sealed of None \<Rightarrow> None | Some raw \<Rightarrow> box_open_from 0 as raw ad)"

section \<open>The app's own values\<close>

definition crypt_new :: "(string \<Rightarrow> string \<Rightarrow> string + aead) \<Rightarrow> string list \<Rightarrow> string \<Rightarrow> box_error + aead list" where
  "crypt_new derive keys purpose =
     (if purpose = [] then Inl Box_no_purpose else seal_new derive keys (''tug crypt '' @ purpose))"

definition owner_ad :: "string list \<Rightarrow> string" where
  "owner_ad owner = parts_text owner"

definition crypt_seal :: "aead list \<Rightarrow> string \<Rightarrow> string \<Rightarrow> string list \<Rightarrow> string" where
  "crypt_seal box nonce v owner = box_seal box nonce v (owner_ad owner)"

definition crypt_open :: "aead list \<Rightarrow> string \<Rightarrow> string list \<Rightarrow> string option" where
  "crypt_open box sealed owner = map_option fst (box_open box sealed (owner_ad owner))"

definition crypt_stale :: "aead list \<Rightarrow> string \<Rightarrow> string list \<Rightarrow> bool" where
  "crypt_stale box sealed owner = (case box_open box sealed (owner_ad owner) of None \<Rightarrow> False | Some (_, i) \<Rightarrow> 0 < i)"

section \<open>Two-factor logins\<close>

text \<open>
  What \<open>TwoFactor\<close> uses of the library: base32's decoding, HMAC-SHA1, which is of 20 bytes, and
  \<open>url.PathEscape\<close> and \<open>url.Values.Encode\<close> for an account's URL.
\<close>

record totp_env =
  te_b32 :: "string \<Rightarrow> string option"
  te_hmac :: "string \<Rightarrow> string \<Rightarrow> string"

definition be_nat :: "string \<Rightarrow> nat" where
  "be_nat s = foldl (\<lambda>n c. n * 256 + of_char c) 0 s"

text \<open>\<open>binary.BigEndian.PutUint64\<close> of a step, which wraps as uint64 does below 0.\<close>

fun be_out :: "nat \<Rightarrow> nat \<Rightarrow> string" where
  "be_out 0 n = []"
| "be_out (Suc k) n = be_out k (n div 256) @ [char_of (n mod 256)]"

lemma be_out_numeral [simp]:
  "be_out (numeral k) n = be_out (pred_numeral k) (n div 256) @ [char_of (n mod 256)]"
  by (simp only: numeral_eq_Suc [of k] be_out.simps)

definition step_bytes :: "int \<Rightarrow> string" where
  "step_bytes step = be_out 8 (nat (step mod 2 ^ 64))"

definition six_digits :: "nat \<Rightarrow> string" where
  "six_digits n = map (\<lambda>i. digit_char (n div 10 ^ (5 - i) mod 10)) [0..<6]"

definition totp :: "totp_env \<Rightarrow> string \<Rightarrow> int \<Rightarrow> string" where
  "totp env key step =
     (let sum = te_hmac env key (step_bytes step);
          offset = of_char (sum ! (length sum - 1)) mod 16;
          n = be_nat (take 4 (drop offset sum)) mod 2 ^ 31
      in six_digits (n mod 1000000))"

definition trim_eq :: "string \<Rightarrow> string" where
  "trim_eq s = rev (dropWhile (\<lambda>c. c = CHR ''='') (rev s))"

definition secret_key :: "totp_env \<Rightarrow> string \<Rightarrow> string option" where
  "secret_key env secret = (case te_b32 env (to_upper (trim_eq secret)) of None \<Rightarrow> None | Some k \<Rightarrow> if k = [] then None else Some k)"

text \<open>The steps tried are those of now, and of 30 seconds before and after; \<open>time.Time.Unix\<close> over 30 truncates.\<close>

definition try_steps :: "totp_env \<Rightarrow> string \<Rightarrow> string \<Rightarrow> int \<Rightarrow> int list \<Rightarrow> int option" where
  "try_steps env key code after steps = List.find (\<lambda>s. after < s \<and> totp env key s = code) steps"

definition totp_check :: "totp_env \<Rightarrow> instant \<Rightarrow> string \<Rightarrow> string \<Rightarrow> int \<Rightarrow> int option" where
  "totp_check env now secret code after =
     (let c = filter (\<lambda>x. x \<noteq> CHR '' '') code
      in case secret_key env secret of
           None \<Rightarrow> None
         | Some key \<Rightarrow>
             if length c \<noteq> 6 then None
             else let n = go_div (unix now) 30 in try_steps env key c after [n - 1, n, n + 1])"

definition totp_code :: "totp_env \<Rightarrow> string \<Rightarrow> instant \<Rightarrow> string option" where
  "totp_code env secret t = map_option (\<lambda>key. totp env key (go_div (unix t) 30)) (secret_key env secret)"

text \<open>The box of two-factor values; its panic, for keys that are none or not 32 bytes, is its error.\<close>

definition two_factor_box :: "(string \<Rightarrow> string \<Rightarrow> string + aead) \<Rightarrow> string list \<Rightarrow> box_error + aead list" where
  "two_factor_box derive keys = seal_new derive keys ''tug two-factor''"

definition two_factor_seal :: "aead list \<Rightarrow> string \<Rightarrow> string \<Rightarrow> string" where
  "two_factor_seal box nonce v = box_seal box nonce v []"

definition two_factor_open :: "aead list \<Rightarrow> string \<Rightarrow> (string \<times> nat) option" where
  "two_factor_open box sealed = box_open box sealed []"

definition two_factor_stale :: "aead list \<Rightarrow> string \<Rightarrow> bool" where
  "two_factor_stale box sealed = (case two_factor_open box sealed of None \<Rightarrow> False | Some (_, i) \<Rightarrow> 0 < i)"

text \<open>Recovery codes: \<open>drawn\<close> is what \<open>rand.Text\<close> draws for each.\<close>

definition recovery_code :: "string \<Rightarrow> string" where
  "recovery_code drawn = (let t = to_lower drawn in take 5 t @ ''-'' @ take 5 (drop 5 t))"

definition new_recovery_codes :: "string list \<Rightarrow> string list" where
  "new_recovery_codes drawn = map recovery_code (take 8 drawn)"

definition plain_code :: "string \<Rightarrow> string" where
  "plain_code code = to_lower (filter (\<lambda>c. c \<noteq> CHR ''-'' \<and> c \<noteq> CHR '' '') code)"

fun first_index :: "('a \<Rightarrow> bool) \<Rightarrow> 'a list \<Rightarrow> nat option" where
  "first_index P [] = None"
| "first_index P (x # xs) = (if P x then Some 0 else map_option Suc (first_index P xs))"

definition use_recovery_code :: "string list \<Rightarrow> string \<Rightarrow> string list \<times> bool" where
  "use_recovery_code codes code =
     (let want = plain_code code
      in case first_index (\<lambda>c. plain_code c = want) codes of
           None \<Rightarrow> (codes, False)
         | Some i \<Rightarrow> if want = [] then (codes, False) else (take i codes @ drop (Suc i) codes, True))"


section \<open>Sealed values open for their owner\<close>

text \<open>
  What AES-GCM is taken to give: under the key it was sealed with, a text opens with the data it was sealed
  with, and no other; under the other keys of the box it does not open.
\<close>

definition seals_apart :: "aead \<Rightarrow> aead list \<Rightarrow> string \<Rightarrow> string \<Rightarrow> string \<Rightarrow> string \<Rightarrow> bool" where
  "seals_apart a others nonce v ad ad' \<longleftrightarrow>
     ae_open a nonce (ae_seal a nonce v ad) ad' = (if ad' = ad then Some v else None) \<and>
     (\<forall>b \<in> set others. ae_open b nonce (ae_seal a nonce v ad) ad' = None)"

lemma box_open_others:
  "length nonce = nonce_size \<Longrightarrow> \<forall>b \<in> set bs. ae_open b nonce text ad = None \<Longrightarrow>
     box_open_from i (bs @ as) (nonce @ text) ad = box_open_from (i + length bs) as (nonce @ text) ad"
  by (induction bs arbitrary: i) auto

lemma box_opens:
  assumes "length nonce = nonce_size" "seals_apart a (newer @ older) nonce v ad ad'"
  shows "box_open (newer @ a # older) (box_seal (a # as) nonce v ad) ad' =
    (if ad' = ad then Some (v, length newer) else None)"
proof -
  let ?text = "ae_seal a nonce v ad"
  have newer: "\<forall>b \<in> set newer. ae_open b nonce ?text ad' = None" and older: "\<forall>b \<in> set older. ae_open b nonce ?text ad' = None"
    using assms(2) by (auto simp: seals_apart_def)
  have "box_open (newer @ a # older) (box_seal (a # as) nonce v ad) ad' = box_open_from (length newer) (a # older) (nonce @ ?text) ad'"
    using box_open_others [OF assms(1) newer, of 0 "a # older"] by (simp add: box_open_def box_seal_def)
  also have "\<dots> = (if ad' = ad then Some (v, length newer) else None)"
    using assms box_open_others [OF assms(1) older, of "Suc (length newer)" "[]"] by (simp add: seals_apart_def)
  finally show ?thesis .
qed

text \<open>
  A value the app sealed for an owner opens for that owner, and for no other, for as long as its key is among
  the app's, whichever keys have come before it and after it; and it is stale, to be sealed again, exactly when
  another key has come first.
\<close>

theorem a_sealed_value_opens_for_its_owner:
  assumes "length nonce = nonce_size" "seals_apart a (newer @ older) nonce v (owner_ad owner) (owner_ad owner')"
  shows "crypt_open (newer @ a # older) (crypt_seal (a # as) nonce v owner) owner' = (if owner' = owner then Some v else None) \<and>
    (crypt_stale (newer @ a # older) (crypt_seal (a # as) nonce v owner) owner' \<longleftrightarrow> owner' = owner \<and> newer \<noteq> [])"
  using box_opens [OF assms] by (auto simp: crypt_open_def crypt_seal_def crypt_stale_def owner_ad_def parts_text_inj)

text \<open>An AEAD for a key: its text is the key, the data's length, the data and the value.\<close>

definition ex_aead :: "string \<Rightarrow> aead" where
  "ex_aead key = \<lparr>
     ae_open = (\<lambda>n c ad. if has_prefix c (parts_text [key, ad]) then Some (drop (length (parts_text [key, ad])) c) else None),
     ae_seal = (\<lambda>n v ad. parts_text [key, ad] @ v)\<rparr>"

theorem a_sealed_value_opens_for_its_owner_witness:
  "crypt_open [ex_aead ''new'', ex_aead ''old''] (crypt_seal [ex_aead ''old''] ''0123456789ab'' ''token'' [''users'', ''42'']) [''users'', ''42''] = Some ''token'' \<and>
   crypt_open [ex_aead ''new'', ex_aead ''old''] (crypt_seal [ex_aead ''old''] ''0123456789ab'' ''token'' [''users'', ''42'']) [''users4'', ''2''] = None"
proof -
  have "seals_apart (ex_aead ''old'') ([ex_aead ''new''] @ []) ''0123456789ab'' ''token'' (owner_ad [''users'', ''42'']) (owner_ad [''users'', ''42''])"
    "seals_apart (ex_aead ''old'') ([ex_aead ''new''] @ []) ''0123456789ab'' ''token'' (owner_ad [''users'', ''42'']) (owner_ad [''users4'', ''2''])"
    by (simp_all add: seals_apart_def ex_aead_def owner_ad_def parts_text_def part_text_def itoa_def nat_digits.simps)
  note opens = this [THEN a_sealed_value_opens_for_its_owner [rotated], of "[]"]
  from opens show ?thesis by (simp add: nonce_size_def)
qed

section \<open>A code works once\<close>

text \<open>
  What a user's tries let in, from the step of the last code that worked: the app keeps the step Check returns.
\<close>

fun totp_logins :: "totp_env \<Rightarrow> string \<Rightarrow> int \<Rightarrow> (instant \<times> string) list \<Rightarrow> (instant \<times> string \<times> int) list" where
  "totp_logins env secret after [] = []"
| "totp_logins env secret after ((t, code) # tries) =
     (case totp_check env t secret code after of
        None \<Rightarrow> totp_logins env secret after tries
      | Some s \<Rightarrow> (t, code, s) # totp_logins env secret s tries)"

lemma totp_check_step:
  assumes "totp_check env t secret code after = Some s"
  shows "after < s" "\<bar>s - go_div (unix t) 30\<bar> \<le> 1"
    "\<exists>key. secret_key env secret = Some key \<and> filter (\<lambda>x. x \<noteq> CHR '' '') code = totp env key s"
  using assms by (auto simp: totp_check_def try_steps_def Let_def split: option.splits if_splits)

text \<open>
  C15. Of all the codes a user's second factor ever takes, each is the one their secret makes for a step of 30
  seconds at most one away from then, and each step is later than that of the code before: so a code lets
  someone in once, and none from before it does after it.
\<close>

theorem a_code_works_once:
  "sorted_wrt (<) (after # map (snd \<circ> snd) (totp_logins env secret after tries)) \<and>
   (\<forall>t code s. (t, code, s) \<in> set (totp_logins env secret after tries) \<longrightarrow>
      (t, code) \<in> set tries \<and> \<bar>s - go_div (unix t) 30\<bar> \<le> 1 \<and>
      (\<exists>key. secret_key env secret = Some key \<and> filter (\<lambda>x. x \<noteq> CHR '' '') code = totp env key s))"
proof -
  have rising: "sorted_wrt (<) (after # map (snd \<circ> snd) (totp_logins env secret after tries))"
  proof (induction env secret after tries rule: totp_logins.induct)
    case (2 env secret after t code tries)
    show ?case
    proof (cases "totp_check env t secret code after")
      case None
      with 2 show ?thesis by simp
    next
      case (Some s)
      from 2(2) [OF Some] totp_check_step(1) [OF Some] show ?thesis
        by (auto simp: Some dest: order.strict_trans)
    qed
  qed simp
  have "(t, code, s) \<in> set (totp_logins env secret after tries) \<Longrightarrow>
    (t, code) \<in> set tries \<and> \<bar>s - go_div (unix t) 30\<bar> \<le> 1 \<and>
    (\<exists>key. secret_key env secret = Some key \<and> filter (\<lambda>x. x \<noteq> CHR '' '') code = totp env key s)" for t code s
    by (induction env secret after tries rule: totp_logins.induct)
       (auto dest: totp_check_step(2,3) split: option.splits)
  with rising show ?thesis by blast
qed


text \<open>A user's tries: a code, the same again, and the next in the next half minute.\<close>

definition ex_totp :: totp_env where
  "ex_totp = \<lparr>te_b32 = (\<lambda>x. Some x), te_hmac = (\<lambda>k m. replicate 19 (CHR 0x00) @ drop 7 m)\<rparr>"

lemma ex_totp_login:
  "totp_logins ex_totp ''S'' 0 [(unix_epoch + 60 * second, ''000 000''), (unix_epoch + 60 * second, ''123456'')] =
     [(unix_epoch + 60 * second, ''000 000'', 1)]"
proof -
  have u: "unix (unix_epoch + 60 * second) = 60" by (simp add: unix_def second_def)
  have four: "replicate 4 (CHR 0x00) = [CHR 0x00, CHR 0x00, CHR 0x00, CHR 0x00]" by (simp add: numeral_eq_Suc)
  have code: "totp ex_totp ''S'' n = ''000000''" if "n \<in> {1, 2, 3}" for n
    using that by (auto simp: totp_def ex_totp_def step_bytes_def be_nat_def six_digits_def upt_rec four Let_def)
  have key: "secret_key ex_totp ''S'' = Some ''S''"
    by (simp add: secret_key_def ex_totp_def trim_eq_def to_upper_def upper_char_def is_lower_def)
  have "totp_check ex_totp (unix_epoch + 60 * second) ''S'' ''000 000'' 0 = Some 1"
    "totp_check ex_totp (unix_epoch + 60 * second) ''S'' ''123456'' 1 = None"
    by (simp_all add: totp_check_def try_steps_def u code key)
  then show ?thesis by simp
qed

theorem a_code_works_once_witness:
  "\<bar>1 - go_div (unix (unix_epoch + 60 * second)) 30\<bar> \<le> 1 \<and>
   (unix_epoch + 60 * second, ''000 000'', 1) \<in> set (totp_logins ex_totp ''S'' 0 [(unix_epoch + 60 * second, ''000 000''), (unix_epoch + 60 * second, ''123456'')])"
proof -
  have "(unix_epoch + 60 * second, ''000 000'', 1) \<in>
      set (totp_logins ex_totp ''S'' 0 [(unix_epoch + 60 * second, ''000 000''), (unix_epoch + 60 * second, ''123456'')])"
    unfolding ex_totp_login by simp
  with a_code_works_once [of 0 ex_totp "''S''" "[(unix_epoch + 60 * second, ''000 000''), (unix_epoch + 60 * second, ''123456'')]"]
  show ?thesis by blast
qed

section \<open>A recovery code works once\<close>

text \<open>The codes a user has left, and those that let them in.\<close>

fun recoveries :: "string list \<Rightarrow> string list \<Rightarrow> string list \<times> string list" where
  "recoveries codes [] = (codes, [])"
| "recoveries codes (t # tries) =
     (case use_recovery_code codes t of
        (left, True) \<Rightarrow> (case recoveries left tries of (l, used) \<Rightarrow> (l, t # used))
      | (left, False) \<Rightarrow> recoveries left tries)"

lemma first_index_Some:
  "first_index P xs = Some i \<Longrightarrow> i < length xs \<and> P (xs ! i)"
  by (induction xs arbitrary: i) (auto split: if_splits)

lemma use_recovery_code_used:
  "use_recovery_code codes t = (left, True) \<Longrightarrow>
     image_mset plain_code (mset codes) = add_mset (plain_code t) (image_mset plain_code (mset left)) \<and> plain_code t \<noteq> []"
proof -
  assume u: "use_recovery_code codes t = (left, True)"
  then obtain i where i: "first_index (\<lambda>c. plain_code c = plain_code t) codes = Some i"
    "left = take i codes @ drop (Suc i) codes" "plain_code t \<noteq> []"
    by (auto simp: use_recovery_code_def Let_def split: option.splits if_splits)
  from first_index_Some [OF i(1)] have n: "i < length codes" "plain_code (codes ! i) = plain_code t" by auto
  from id_take_nth_drop [OF n(1)] have "mset codes = add_mset (codes ! i) (mset left)"
    using i(2) by (metis add_mset_add_single mset.simps(2) mset_append union_mset_add_mset_right)
  then show ?thesis using n(2) i(3) by simp
qed

text \<open>However often codes are tried, each that a user has is taken once, and is then gone from those they have.\<close>

lemma a_recovery_code_works_once:
  "recoveries codes tries = (left, used) \<Longrightarrow>
     image_mset plain_code (mset codes) = image_mset plain_code (mset used) + image_mset plain_code (mset left)"
proof (induction codes tries arbitrary: left used rule: recoveries.induct)
  case (2 codes t tries)
  obtain left1 ok where u: "use_recovery_code codes t = (left1, ok)" by fastforce
  show ?case
  proof (cases ok)
    case True
    with 2 u use_recovery_code_used [of codes t left1] show ?thesis by (auto split: prod.splits)
  next
    case False
    with u have "left1 = codes" by (auto simp: use_recovery_code_def Let_def split: option.splits if_splits)
    with False 2 u show ?thesis by simp
  qed
qed simp

end
