(* ===== verification/Migrate.thy ===== *)
theory Migrate
  imports Go_Prelude "HOL-Library.List_Lexorder" "HOL-Library.Char_ord" "HOL-Library.DAList"
begin

text \<open>
  An app's migrations (migrate/migrate.go): the files of SQL read, and Up, Down and Status over a Store, whose
  promises are the locale \<open>migration_store\<close>. The Store that tug new writes for SQLite
  (cmd/tug/sqlite/migrations_db.go.tmpl), a table in the database itself and each migration in a
  transaction, interprets it. SHA-256 and the database's own SQL are parameters.
\<close>

declare map_of_eq_Some_iff [simp del] Some_eq_map_of_iff [simp del]

section \<open>Files\<close>

record migration =
  mg_name :: string
  mg_up :: string
  mg_down :: string

record ran_row =
  rn_name :: string
  rn_hash :: string
  rn_at :: instant

definition lower_hex :: "nat \<Rightarrow> char" where
  "lower_hex n = ''0123456789abcdef'' ! n"

definition hex_text :: "string \<Rightarrow> string" where
  "hex_text s = concat (map (\<lambda>c. [lower_hex (of_char c div 16), lower_hex (of_char c mod 16)]) s)"

definition mg_hash :: "(string \<Rightarrow> string) \<Rightarrow> migration \<Rightarrow> string" where
  "mg_hash sha m = hex_text (sha (mg_up m))"

definition migration_name :: "string \<Rightarrow> bool" where
  "migration_name name =
     (case cut CHR ''_'' name of
        (made, what, ok) \<Rightarrow>
          ok \<and> length made = 14 \<and> list_all is_digit made \<and> what \<noteq> [] \<and>
          list_all (\<lambda>c. is_lower c \<or> is_digit c \<or> c = CHR ''_'') what)"

definition newline :: char where "newline = CHR 0x0A"

text \<open>\<open>strings.ReplaceAll(file, "\\r\\n", "\\n")\<close>.\<close>

fun unix_lines :: "string \<Rightarrow> string" where
  "unix_lines [] = []"
| "unix_lines [c] = [c]"
| "unix_lines (c # d # s) =
     (if c = CHR 0x0D \<and> d = newline then newline # unix_lines s else c # unix_lines (d # s))"

definition has_sql :: "string \<Rightarrow> bool" where
  "has_sql sql \<longleftrightarrow> list_ex (\<lambda>l. let t = trim_space l in t \<noteq> [] \<and> \<not> has_prefix t ''--'') (split_on newline sql)"

text \<open>The lines before the down line, and those after it, when there is one.\<close>

fun at_down :: "string list \<Rightarrow> (string list \<times> string list) option" where
  "at_down [] = None"
| "at_down (l # ls) =
     (if trim_space l = ''-- down'' then Some ([], ls)
      else map_option (\<lambda>(a, b). (l # a, b)) (at_down ls))"

definition split_file :: "string \<Rightarrow> string \<times> string" where
  "split_file file =
     (case at_down (split_on newline (unix_lines file)) of
        Some (a, b) \<Rightarrow>
          let up = join_with [newline] a; down = join_with [newline] b
          in (trim_space up, trim_space (if has_sql down then down else []))
      | None \<Rightarrow> (trim_space file, []))"

datatype load_error = Read_dir string | Bad_name string | Read_file string | No_sql string

text \<open>A directory's entries, in the order of their names, as \<open>fs.ReadDir\<close> gives them.\<close>

record dir_entry =
  de_name :: string
  de_dir :: bool
  de_data :: "string + string"

fun load_entries :: "dir_entry list \<Rightarrow> load_error + migration list" where
  "load_entries [] = Inr []"
| "load_entries (e # es) =
     (if \<not> has_suffix (de_name e) ''.sql'' \<or> de_dir e then load_entries es
      else let name = take (length (de_name e) - 4) (de_name e)
           in if \<not> migration_name name then Inl (Bad_name (de_name e))
              else case de_data e of
                     Inl err \<Rightarrow> Inl (Read_file err)
                   | Inr data \<Rightarrow>
                       (case split_file data of
                          (up, down) \<Rightarrow>
                            if \<not> has_sql up then Inl (No_sql (de_name e))
                            else case load_entries es of
                                   Inl err \<Rightarrow> Inl err
                                 | Inr ms \<Rightarrow> Inr (\<lparr>mg_name = name, mg_up = up, mg_down = down\<rparr> # ms)))"

definition load :: "string + dir_entry list \<Rightarrow> load_error + migration list" where
  "load dir = (case dir of Inl err \<Rightarrow> Inl (Read_dir err) | Inr es \<Rightarrow> load_entries es)"

section \<open>Over a Store\<close>

text \<open>A Store's methods, over its own state: an error, or none, and the state after.\<close>

record 's migration_ops =
  so_lock :: "'s \<Rightarrow> string option \<times> 's"
  so_unlock :: "'s \<Rightarrow> 's"
  so_ran :: "'s \<Rightarrow> (string + ran_row list) \<times> 's"
  so_run :: "migration \<Rightarrow> 's \<Rightarrow> string option \<times> 's"
  so_undo :: "migration \<Rightarrow> 's \<Rightarrow> string option \<times> 's"

datatype migrate_error =
  Store_error string | Changed string | Run_failed string string | None_ran | No_file string | No_down string |
  Undo_failed string string

definition ran_by_name :: "ran_row list \<Rightarrow> (string, ran_row) gomap" where
  "ran_by_name rs = foldl (\<lambda>m r. put (rn_name r) r m) [] rs"

text \<open>The first of \<open>ms\<close> that has changed since it ran.\<close>

definition first_changed :: "(string \<Rightarrow> string) \<Rightarrow> (string, ran_row) gomap \<Rightarrow> migration list \<Rightarrow> migration option" where
  "first_changed sha by_name ms =
     List.find (\<lambda>m. case lookup by_name (mg_name m) of None \<Rightarrow> False | Some r \<Rightarrow> rn_hash r \<noteq> mg_hash sha m) ms"

fun run_each ::
  "'s migration_ops \<Rightarrow> (string, ran_row) gomap \<Rightarrow> migration list \<Rightarrow> 's \<Rightarrow> (migrate_error option \<times> string list) \<times> 's" where
  "run_each ops by_name [] s = ((None, []), s)"
| "run_each ops by_name (m # ms) s =
     (if lookup by_name (mg_name m) \<noteq> None then run_each ops by_name ms s
      else case so_run ops m s of
             (Some err, s1) \<Rightarrow> ((Some (Run_failed (mg_name m) err), []), s1)
           | (None, s1) \<Rightarrow>
               (case run_each ops by_name ms s1 of ((e, done), s2) \<Rightarrow> ((e, mg_name m # done), s2)))"

definition up_locked ::
  "'s migration_ops \<Rightarrow> (string \<Rightarrow> string) \<Rightarrow> migration list \<Rightarrow> 's \<Rightarrow> (migrate_error option \<times> string list) \<times> 's" where
  "up_locked ops sha ms s =
     (case so_ran ops s of
        (Inl err, s1) \<Rightarrow> ((Some (Store_error err), []), s1)
      | (Inr rs, s1) \<Rightarrow>
          (case first_changed sha (ran_by_name rs) ms of
             Some m \<Rightarrow> ((Some (Changed (mg_name m)), []), s1)
           | None \<Rightarrow> run_each ops (ran_by_name rs) ms s1))"

definition up ::
  "'s migration_ops \<Rightarrow> (string \<Rightarrow> string) \<Rightarrow> migration list \<Rightarrow> 's \<Rightarrow> (migrate_error option \<times> string list) \<times> 's" where
  "up ops sha ms s =
     (case so_lock ops s of
        (Some err, s1) \<Rightarrow> ((Some (Store_error err), []), s1)
      | (None, s1) \<Rightarrow> (case up_locked ops sha ms s1 of (r, s2) \<Rightarrow> (r, so_unlock ops s2)))"

text \<open>\<open>slices.MaxFunc\<close> by name, of a list that is not empty: the first of those that are the last.\<close>

definition last_ran :: "ran_row list \<Rightarrow> ran_row" where
  "last_ran rs = foldl (\<lambda>a b. if rn_name a < rn_name b then b else a) (hd rs) (tl rs)"

definition down_locked ::
  "'s migration_ops \<Rightarrow> (string \<Rightarrow> string) \<Rightarrow> migration list \<Rightarrow> 's \<Rightarrow> (migrate_error + string) \<times> 's" where
  "down_locked ops sha ms s =
     (case so_ran ops s of
        (Inl err, s1) \<Rightarrow> (Inl (Store_error err), s1)
      | (Inr rs, s1) \<Rightarrow>
          if rs = [] then (Inl None_ran, s1)
          else let r = last_ran rs
               in case List.find (\<lambda>m. mg_name m = rn_name r) ms of
                    None \<Rightarrow> (Inl (No_file (rn_name r)), s1)
                  | Some m \<Rightarrow>
                      if mg_hash sha m \<noteq> rn_hash r then (Inl (Changed (mg_name m)), s1)
                      else if mg_down m = [] then (Inl (No_down (rn_name r)), s1)
                      else (case so_undo ops m s1 of
                              (Some err, s2) \<Rightarrow> (Inl (Undo_failed (rn_name r) err), s2)
                            | (None, s2) \<Rightarrow> (Inr (rn_name r), s2)))"

definition down ::
  "'s migration_ops \<Rightarrow> (string \<Rightarrow> string) \<Rightarrow> migration list \<Rightarrow> 's \<Rightarrow> (migrate_error + string) \<times> 's" where
  "down ops sha ms s =
     (case so_lock ops s of
        (Some err, s1) \<Rightarrow> (Inl (Store_error err), s1)
      | (None, s1) \<Rightarrow> (case down_locked ops sha ms s1 of (r, s2) \<Rightarrow> (r, so_unlock ops s2)))"

record mg_state =
  ms_name :: string
  ms_ran :: bool
  ms_at :: instant
  ms_changed :: bool
  ms_no_file :: bool

definition state_of :: "(string \<Rightarrow> string) \<Rightarrow> (string, ran_row) gomap \<Rightarrow> migration \<Rightarrow> mg_state" where
  "state_of sha by_name m =
     (case lookup by_name (mg_name m) of
        None \<Rightarrow> \<lparr>ms_name = mg_name m, ms_ran = False, ms_at = zero_time, ms_changed = False, ms_no_file = False\<rparr>
      | Some r \<Rightarrow> \<lparr>ms_name = mg_name m, ms_ran = True, ms_at = rn_at r, ms_changed = (rn_hash r \<noteq> mg_hash sha m),
                  ms_no_file = False\<rparr>)"

fun file_states ::
  "(string \<Rightarrow> string) \<Rightarrow> (string, ran_row) gomap \<Rightarrow> migration list \<Rightarrow> mg_state list \<times> (string, ran_row) gomap" where
  "file_states sha by_name [] = ([], by_name)"
| "file_states sha by_name (m # ms) =
     (case file_states sha (del (mg_name m) by_name) ms of (ss, left) \<Rightarrow> (state_of sha by_name m # ss, left))"

definition states :: "(string \<Rightarrow> string) \<Rightarrow> (string, ran_row) gomap \<Rightarrow> migration list \<Rightarrow> mg_state list" where
  "states sha by_name ms =
     (case file_states sha by_name ms of
        (ss, left) \<Rightarrow>
          sort_key ms_name (ss @
            map (\<lambda>(n, r). \<lparr>ms_name = rn_name r, ms_ran = True, ms_at = rn_at r, ms_changed = False, ms_no_file = True\<rparr>) left))"

definition status ::
  "'s migration_ops \<Rightarrow> (string \<Rightarrow> string) \<Rightarrow> migration list \<Rightarrow> 's \<Rightarrow> (migrate_error + mg_state list) \<times> 's" where
  "status ops sha ms s =
     (case so_lock ops s of
        (Some err, s1) \<Rightarrow> (Inl (Store_error err), s1)
      | (None, s1) \<Rightarrow>
          (case so_ran ops s1 of
             (Inl err, s2) \<Rightarrow> (Inl (Store_error err), so_unlock ops s2)
           | (Inr rs, s2) \<Rightarrow> (Inr (states sha (ran_by_name rs) ms), so_unlock ops s2)))"


section \<open>What a Store promises\<close>

text \<open>What the SQL of some migrations, one after another, makes of what the database holds, if it runs at all.\<close>

definition ran_in_turn :: "(string \<Rightarrow> 'd \<Rightarrow> 'd option) \<Rightarrow> migration list \<Rightarrow> 'd \<Rightarrow> 'd option" where
  "ran_in_turn exec ms r = foldl (\<lambda>x m. Option.bind x (exec (mg_up m))) (Some r) ms"

lemma ran_in_turn_Nil [simp]: "ran_in_turn exec [] r = Some r"
  by (simp add: ran_in_turn_def)

lemma ran_in_turn_Cons: "exec (mg_up m) r = Some r1 \<Longrightarrow> ran_in_turn exec (m # ms) r = ran_in_turn exec ms r1"
  by (simp add: ran_in_turn_def)

text \<open>
  What a Store keeps is which migrations have run, with the hash each had, beside the rest of its database. Running one that
  has not runs its SQL on the rest and records it, and running one that has does nothing; undoing one runs the SQL that undoes it;
  and an error leaves all as it was.
\<close>

locale migration_store =
  fixes ops :: "'s migration_ops"
    and sha :: "string \<Rightarrow> string"
    and kept :: "'s \<Rightarrow> (string \<rightharpoonup> string)"
    and exec :: "string \<Rightarrow> 'd \<Rightarrow> 'd option"
    and rest :: "'s \<Rightarrow> 'd"
  assumes kept_lock: "kept (snd (so_lock ops s)) = kept s"
    and kept_unlock: "kept (so_unlock ops s) = kept s"
    and kept_ran: "kept (snd (so_ran ops s)) = kept s"
    and ran_kept: "so_ran ops s = (Inr rs, s') \<Longrightarrow>
      distinct (map rn_name rs) \<and> map_of (map (\<lambda>r. (rn_name r, rn_hash r)) rs) = kept s"
    and run_kept: "so_run ops m s = (None, s') \<Longrightarrow>
      kept s' = (if kept s (mg_name m) = None then (kept s)(mg_name m \<mapsto> mg_hash sha m) else kept s)"
    and run_failed: "so_run ops m s = (Some e, s') \<Longrightarrow> kept s' = kept s"
    and undo_kept: "so_undo ops m s = (None, s') \<Longrightarrow> kept s' = (kept s)(mg_name m := None)"
    and undo_failed: "so_undo ops m s = (Some e, s') \<Longrightarrow> kept s' = kept s"
    and rest_lock: "rest (snd (so_lock ops s)) = rest s"
    and rest_unlock: "rest (so_unlock ops s) = rest s"
    and rest_ran: "rest (snd (so_ran ops s)) = rest s"
    and run_rest: "so_run ops m s = (None, s') \<Longrightarrow>
      (if kept s (mg_name m) = None then exec (mg_up m) (rest s) = Some (rest s') else rest s' = rest s)"
    and run_failed_rest: "so_run ops m s = (Some e, s') \<Longrightarrow> rest s' = rest s"
    and undo_rest: "so_undo ops m s = (None, s') \<Longrightarrow> exec (mg_down m) (rest s) = Some (rest s')"
    and undo_failed_rest: "so_undo ops m s = (Some e, s') \<Longrightarrow> rest s' = rest s"

definition hashes :: "(string \<Rightarrow> string) \<Rightarrow> migration list \<Rightarrow> (string \<rightharpoonup> string)" where
  "hashes sha ms = map_of (map (\<lambda>m. (mg_name m, mg_hash sha m)) ms)"

lemma hashes_Nil [simp]: "hashes sha [] = Map.empty"
  by (simp add: hashes_def)

lemma hashes_None: "hashes sha ms n = None \<longleftrightarrow> n \<notin> mg_name ` set ms"
  by (auto simp: hashes_def map_of_eq_None_iff image_image)

lemma ran_by_name_snoc: "ran_by_name (rs @ [r]) = put (rn_name r) r (ran_by_name rs)"
  by (simp add: ran_by_name_def)

lemma lookup_ran_by_name:
  "distinct (map rn_name rs) \<Longrightarrow> lookup (ran_by_name rs) n = map_of (map (\<lambda>r. (rn_name r, r)) rs) n"
proof (induction rs rule: rev_induct)
  case (snoc r rs)
  then have "map_of (map (\<lambda>r. (rn_name r, r)) rs) (rn_name r) = None" by (simp add: map_of_eq_None_iff image_image)
  with snoc show ?case by (auto simp: ran_by_name_snoc map_add_def split: option.splits)
qed (simp add: ran_by_name_def)

lemma ran_hashes:
  "map_of (map (\<lambda>r. (rn_name r, rn_hash r)) rs) n = map_option rn_hash (map_of (map (\<lambda>r. (rn_name r, r)) rs) n)"
  by (induction rs) auto

lemma first_changed_None:
  "first_changed sha bn ms = None \<longleftrightarrow>
     list_all (\<lambda>m. case lookup bn (mg_name m) of None \<Rightarrow> True | Some r \<Rightarrow> rn_hash r = mg_hash sha m) ms"
  unfolding first_changed_def find_None_iff by (auto simp: list_all_iff split: option.splits)

lemma last_ran_last:
  assumes "rs \<noteq> []"
  shows "last_ran rs \<in> set rs" and "r \<in> set rs \<Longrightarrow> rn_name r \<le> rn_name (last_ran rs)"
proof -
  have "foldl (\<lambda>a b. if rn_name a < rn_name b then b else a) a xs \<in> insert a (set xs) \<and>
      (\<forall>x \<in> insert a (set xs). rn_name x \<le> rn_name (foldl (\<lambda>a b. if rn_name a < rn_name b then b else a) a xs))" for a xs
  proof (induction xs arbitrary: a)
    case (Cons x xs)
    show ?case using Cons [of a] Cons [of x] by (auto intro: order_trans less_imp_le)
  qed simp
  from this [of "hd rs" "tl rs"] assms show "last_ran rs \<in> set rs" "r \<in> set rs \<Longrightarrow> rn_name r \<le> rn_name (last_ran rs)"
    by (cases rs; auto simp: last_ran_def)+
qed

context migration_store
begin

lemma run_each_runs:
  assumes "run_each ops bn ms s = ((e, done), s')" "distinct (map mg_name ms)"
    and "\<And>m. m \<in> set ms \<Longrightarrow> lookup bn (mg_name m) = None \<longleftrightarrow> kept s (mg_name m) = None"
  shows "\<exists>pre post. filter (\<lambda>m. kept s (mg_name m) = None) ms = pre @ post \<and> done = map mg_name pre \<and>
      kept s' = kept s ++ hashes sha pre \<and> ran_in_turn exec pre (rest s) = Some (rest s') \<and>
      (case e of None \<Rightarrow> post = [] | Some x \<Rightarrow> \<exists>m post' err. post = m # post' \<and> x = Run_failed (mg_name m) err)"
  using assms
proof (induction ms arbitrary: s e "done" s')
  case Nil
  then show ?case by (auto simp: hashes_def)
next
  case (Cons m ms)
  show ?case
  proof (cases "kept s (mg_name m) = None")
    case False
    with Cons.prems have r: "run_each ops bn ms s = ((e, done), s')" by (auto simp: Cons.prems(3))
    from Cons.IH [OF r] Cons.prems(2,3) False show ?thesis by auto
  next
    case True
    with Cons.prems have n: "lookup bn (mg_name m) = None" by simp
    obtain x s1 where r: "so_run ops m s = (x, s1)" by fastforce
    show ?thesis
    proof (cases x)
      case (Some err)
      with Cons.prems(1) n r run_failed [of m s err s1] run_failed_rest [of m s err s1] True show ?thesis
        by (intro exI [of _ "[]"] exI [of _ "m # filter (\<lambda>m. kept s (mg_name m) = None) ms"]) (auto simp: hashes_def)
    next
      case None
      with r run_kept [of m s s1] True have k: "kept s1 = (kept s)(mg_name m \<mapsto> mg_hash sha m)" by simp
      have ran: "exec (mg_up m) (rest s) = Some (rest s1)" using r None run_rest [of m s s1] True by simp
      from Cons.prems(1) n r None obtain done1 where d: "run_each ops bn ms s1 = ((e, done1), s')" "done = mg_name m # done1"
        by (auto split: prod.splits)
      have other: "mg_name m' \<noteq> mg_name m" if "m' \<in> set ms" for m' using Cons.prems(2) that by (auto simp: image_iff dest: sym)
      have "lookup bn (mg_name m') = None \<longleftrightarrow> kept s1 (mg_name m') = None" if "m' \<in> set ms" for m'
        using other [OF that] Cons.prems(3) [of m'] that k by simp
      with Cons.IH [OF d(1)] Cons.prems(2) obtain pre post where p:
        "filter (\<lambda>m. kept s1 (mg_name m) = None) ms = pre @ post" "done1 = map mg_name pre" "kept s' = kept s1 ++ hashes sha pre"
        "ran_in_turn exec pre (rest s1) = Some (rest s')"
        "case e of None \<Rightarrow> post = [] | Some x \<Rightarrow> \<exists>m post' err. post = m # post' \<and> x = Run_failed (mg_name m) err" by auto
      have "filter (\<lambda>m. kept s1 (mg_name m) = None) ms = filter (\<lambda>m. kept s (mg_name m) = None) ms"
        by (rule filter_cong) (use other k in auto)
      moreover have "set pre \<subseteq> set ms" using arg_cong [OF p(1), of set] by auto
      then have "hashes sha pre (mg_name m) = None"
        unfolding hashes_None using other by (metis (no_types, lifting) imageE subsetD)
      then have "kept s' = kept s ++ hashes sha (m # pre)"
        using p(3) k by (auto simp: hashes_def map_add_def fun_eq_iff split: option.splits)
      ultimately show ?thesis using p d(2) True ran_in_turn_Cons [of exec m, OF ran, of pre]
        by (intro exI [of _ "m # pre"] exI [of _ post]) auto
    qed
  qed
qed

lemma kept_by_name: "so_ran ops s = (Inr rs, s') \<Longrightarrow> map_option rn_hash (lookup (ran_by_name rs) n) = kept s n"
proof -
  assume "so_ran ops s = (Inr rs, s')"
  from ran_kept [OF this] have r: "distinct (map rn_name rs)" "map_of (map (\<lambda>r. (rn_name r, rn_hash r)) rs) = kept s" by auto
  have "map_option rn_hash (lookup (ran_by_name rs) n) = map_of (map (\<lambda>r. (rn_name r, rn_hash r)) rs) n"
    by (simp add: lookup_ran_by_name [OF r(1)] ran_hashes)
  then show ?thesis unfolding r(2) .
qed

lemma unchanged_kept:
  assumes "so_ran ops s = (Inr rs, s')"
  shows "first_changed sha (ran_by_name rs) ms = None \<longleftrightarrow>
    (\<forall>m \<in> set ms. kept s (mg_name m) = None \<or> kept s (mg_name m) = Some (mg_hash sha m))"
proof -
  have "(case lookup (ran_by_name rs) (mg_name m) of None \<Rightarrow> True | Some r \<Rightarrow> rn_hash r = mg_hash sha m) \<longleftrightarrow>
      kept s (mg_name m) = None \<or> kept s (mg_name m) = Some (mg_hash sha m)" for m
    using kept_by_name [OF assms, of "mg_name m"] by (cases "lookup (ran_by_name rs) (mg_name m)") auto
  then show ?thesis by (simp add: first_changed_None list_all_iff)
qed

lemma up_locked_runs:
  assumes "up_locked ops sha ms s = ((e, done), s')" "distinct (map mg_name ms)"
  shows "\<exists>pre post. filter (\<lambda>m. kept s (mg_name m) = None) ms = pre @ post \<and> done = map mg_name pre \<and>
      kept s' = kept s ++ hashes sha pre \<and> ran_in_turn exec pre (rest s) = Some (rest s') \<and>
      (e = None \<longrightarrow> post = [] \<and> (\<forall>m \<in> set ms. kept s (mg_name m) = None \<or> kept s (mg_name m) = Some (mg_hash sha m))) \<and>
      (\<forall>x. e = Some x \<longrightarrow> pre \<noteq> [] \<longrightarrow> (\<exists>m post' err. post = m # post' \<and> x = Run_failed (mg_name m) err) \<and>
         (\<forall>m \<in> set ms. kept s (mg_name m) = None \<or> kept s (mg_name m) = Some (mg_hash sha m)))"
proof -
  obtain r s1 where r: "so_ran ops s = (r, s1)" by fastforce
  have k: "kept s1 = kept s" "rest s1 = rest s" using kept_ran [of s] rest_ran [of s] r by simp_all
  show ?thesis
  proof (cases r)
    case (Inl err)
    with assms(1) r have "e = Some (Store_error err)" "done = []" "s' = s1" by (auto simp: up_locked_def)
    then show ?thesis
      by - (rule exI [of _ "[]"], rule exI [of _ "filter (\<lambda>m. kept s (mg_name m) = None) ms"], simp add: k)
  next
    case (Inr rs)
    show ?thesis
    proof (cases "first_changed sha (ran_by_name rs) ms")
      case (Some m)
      with assms(1) r Inr have "e = Some (Changed (mg_name m))" "done = []" "s' = s1" by (auto simp: up_locked_def)
      then show ?thesis
        by - (rule exI [of _ "[]"], rule exI [of _ "filter (\<lambda>m. kept s (mg_name m) = None) ms"], simp add: k)
    next
      case None
      with assms(1) r Inr have run: "run_each ops (ran_by_name rs) ms s1 = ((e, done), s')" by (simp add: up_locked_def)
      have "lookup (ran_by_name rs) n = None \<longleftrightarrow> kept s1 n = None" for n
        using kept_by_name [of s rs s1 n] r Inr k by auto
      from run_each_runs [OF run assms(2) this] k obtain pre post where
        "filter (\<lambda>m. kept s (mg_name m) = None) ms = pre @ post" "done = map mg_name pre" "kept s' = kept s ++ hashes sha pre"
        "ran_in_turn exec pre (rest s) = Some (rest s')"
        "case e of None \<Rightarrow> post = [] | Some x \<Rightarrow> \<exists>m post' err. post = m # post' \<and> x = Run_failed (mg_name m) err" by auto
      moreover have "\<forall>m \<in> set ms. kept s (mg_name m) = None \<or> kept s (mg_name m) = Some (mg_hash sha m)"
        using unchanged_kept [of s rs s1 ms] r Inr None by simp
      ultimately show ?thesis by (intro exI [of _ pre] exI [of _ post]) (auto split: option.splits)
    qed
  qed
qed

text \<open>Up runs the first of those that wait, in order, all of them when it ends well, and none when one has changed.\<close>

lemma up_runs:
  assumes "up ops sha ms s = ((e, done), s')" "distinct (map mg_name ms)"
  shows "\<exists>pre post. filter (\<lambda>m. kept s (mg_name m) = None) ms = pre @ post \<and> done = map mg_name pre \<and>
      kept s' = kept s ++ hashes sha pre \<and> ran_in_turn exec pre (rest s) = Some (rest s') \<and>
      (e = None \<longrightarrow> post = [] \<and> (\<forall>m \<in> set ms. kept s (mg_name m) = None \<or> kept s (mg_name m) = Some (mg_hash sha m))) \<and>
      (\<forall>x. e = Some x \<longrightarrow> pre \<noteq> [] \<longrightarrow> (\<exists>m post' err. post = m # post' \<and> x = Run_failed (mg_name m) err) \<and>
         (\<forall>m \<in> set ms. kept s (mg_name m) = None \<or> kept s (mg_name m) = Some (mg_hash sha m)))"
proof -
  obtain l s1 where l: "so_lock ops s = (l, s1)" by fastforce
  have k: "kept s1 = kept s" "rest s1 = rest s" using kept_lock [of s] rest_lock [of s] l by simp_all
  show ?thesis
  proof (cases l)
    case (Some err)
    with assms(1) l have "e = Some (Store_error err)" "done = []" "s' = s1" by (auto simp: up_def)
    with k show ?thesis
      by (intro exI [of _ "[]"] exI [of _ "filter (\<lambda>m. kept s (mg_name m) = None) ms"]) simp
  next
    case None
    with assms(1) l obtain s2 where "up_locked ops sha ms s1 = ((e, done), s2)" "s' = so_unlock ops s2"
      by (auto simp: up_def split: prod.splits)
    with up_locked_runs [OF this(1) assms(2)] k kept_unlock [of s2] rest_unlock [of s2] show ?thesis by simp
  qed
qed

lemma up_again_runs_nothing:
  assumes "up ops sha ms s = ((None, done), s')" "distinct (map mg_name ms)" "m \<in> set ms"
  shows "kept s' (mg_name m) = Some (mg_hash sha m)"
proof -
  from up_runs [OF assms(1,2)] have u: "kept s' = kept s ++ hashes sha (filter (\<lambda>m. kept s (mg_name m) = None) ms)"
    "\<forall>m \<in> set ms. kept s (mg_name m) = None \<or> kept s (mg_name m) = Some (mg_hash sha m)" by auto
  let ?p = "filter (\<lambda>m. kept s (mg_name m) = None) ms"
  have d: "distinct (map fst (map (\<lambda>m. (mg_name m, mg_hash sha m)) ?p))"
    using assms(2) by (simp add: comp_def distinct_map_filter)
  show ?thesis
  proof (cases "kept s (mg_name m) = None")
    case True
    with assms(3) have "hashes sha ?p (mg_name m) = Some (mg_hash sha m)"
      unfolding hashes_def by (intro map_of_is_SomeI [OF d]) auto
    with u(1) show ?thesis by simp
  next
    case False
    then have "hashes sha ?p (mg_name m) = None" by (auto simp: hashes_def map_of_eq_None_iff)
    with u False assms(3) show ?thesis by (auto simp: map_add_def)
  qed
qed

lemma down_undoes:
  assumes "down ops sha ms s = (r, s')"
  shows "case r of
      Inl _ \<Rightarrow> kept s' = kept s \<and> rest s' = rest s
    | Inr n \<Rightarrow> kept s' = (kept s)(n := None) \<and> (\<forall>n' \<in> dom (kept s). n' \<le> n) \<and>
        (\<exists>m \<in> set ms. mg_name m = n \<and> kept s n = Some (mg_hash sha m) \<and> mg_down m \<noteq> [] \<and>
          exec (mg_down m) (rest s) = Some (rest s'))"
proof -
  obtain l s1 where l: "so_lock ops s = (l, s1)" by fastforce
  obtain q s2 where q: "so_ran ops s1 = (q, s2)" by fastforce
  have k: "kept s1 = kept s" "kept s2 = kept s" using kept_lock [of s] kept_ran [of s1] l q by simp_all
  have kr: "rest s1 = rest s" "rest s2 = rest s" using rest_lock [of s] rest_ran [of s1] l q by simp_all
  show ?thesis
  proof (cases r)
    case (Inl e)
    have "kept s' = kept s \<and> rest s' = rest s"
      using assms l q k kr kept_unlock rest_unlock undo_failed [of _ s2] undo_failed_rest [of _ s2]
      by (auto simp: Inl down_def down_locked_def Let_def split: option.splits sum.splits if_splits prod.splits)
    then show ?thesis by (simp add: Inl)
  next
    case (Inr n)
    with assms l q obtain rs m s3 where d: "q = Inr rs" "rs \<noteq> []" "n = rn_name (last_ran rs)"
      "List.find (\<lambda>m. mg_name m = n) ms = Some m" "mg_hash sha m = rn_hash (last_ran rs)" "mg_down m \<noteq> []"
      "so_undo ops m s2 = (None, s3)" "s' = so_unlock ops s3"
      by (auto simp: down_def down_locked_def Let_def split: option.splits sum.splits if_splits prod.splits)
    have m: "m \<in> set ms" "mg_name m = n" using d(4) by (auto simp: find_Some_iff)
    have rs: "distinct (map rn_name rs)" "map_of (map (\<lambda>r. (rn_name r, rn_hash r)) rs) = kept s"
      using ran_kept [of s1 rs s2] q d(1) k by auto
    have "kept s n = Some (mg_hash sha m)"
      unfolding rs(2) [symmetric] d(5) using rs(1) last_ran_last(1) [OF d(2)] d(3)
      by (intro map_of_is_SomeI) (auto simp: comp_def)
    moreover have "\<forall>n' \<in> dom (kept s). n' \<le> n"
      unfolding rs(2) [symmetric] using last_ran_last(2) [OF d(2)] d(3) by (auto dest!: map_of_SomeD)
    moreover have "kept s' = (kept s)(n := None)" using undo_kept [OF d(7)] kept_unlock d(8) k m(2) by simp
    moreover have "exec (mg_down m) (rest s) = Some (rest s')" using undo_rest [OF d(7)] rest_unlock d(8) kr by simp
    ultimately show ?thesis using m d(6) by (auto simp: Inr)
  qed
qed

end


section \<open>The Store in SQLite\<close>

text \<open>
  A database: its table of migrations, when it has been made, and the rest of it, which a migration's SQL
  changes, or fails on; and what fails of its own accord as a transaction begins or commits, or a query is made,
  in turn. A migration's own SQL leaves the migrations' table alone.
\<close>

record 'd database =
  db_rest :: 'd
  db_table :: "(string, string \<times> int) alist option"
  db_faults :: "string option list"
  db_now :: instant

definition next_fault :: "'d database \<Rightarrow> string option \<times> 'd database" where
  "next_fault db = (case db_faults db of [] \<Rightarrow> (None, db) | f # fs \<Rightarrow> (f, db\<lparr>db_faults := fs\<rparr>))"

definition unix_milli :: "instant \<Rightarrow> int" where
  "unix_milli t = (t - 62135596800 * second) div 1000000"

definition of_milli :: "int \<Rightarrow> instant" where
  "of_milli n = 62135596800 * second + n * 1000000"

definition in_tx :: "('d database \<Rightarrow> string + 'd database) \<Rightarrow> 'd database \<Rightarrow> string option \<times> 'd database" where
  "in_tx fn db =
     (case next_fault db of
        (Some e, db1) \<Rightarrow> (Some e, db1)
      | (None, db1) \<Rightarrow>
          (case fn db1 of
             Inl e \<Rightarrow> (Some e, db1)
           | Inr db2 \<Rightarrow>
               (case next_fault db2 of
                  (Some e, db3) \<Rightarrow> (Some e, db1\<lparr>db_faults := db_faults db3\<rparr>)
                | (None, db3) \<Rightarrow> (None, db3))))"

definition sqlite_lock :: "'d database \<Rightarrow> string option \<times> 'd database" where
  "sqlite_lock db =
     in_tx (\<lambda>d. Inr (d\<lparr>db_table := Some (case db_table d of None \<Rightarrow> DAList.empty | Some t \<Rightarrow> t)\<rparr>)) db"

definition sqlite_ran :: "'d database \<Rightarrow> (string + ran_row list) \<times> 'd database" where
  "sqlite_ran db =
     (case next_fault db of
        (Some e, db1) \<Rightarrow> (Inl e, db1)
      | (None, db1) \<Rightarrow>
          (case db_table db1 of
             None \<Rightarrow> (Inl ''no such table: migrations'', db1)
           | Some t \<Rightarrow> (Inr (sort_key rn_name
               (map (\<lambda>(n, h, ms). \<lparr>rn_name = n, rn_hash = h, rn_at = of_milli ms\<rparr>) (DAList.impl_of t))), db1)))"

definition run_tx ::
  "(string \<Rightarrow> 'd \<Rightarrow> 'd option) \<Rightarrow> (string \<Rightarrow> string) \<Rightarrow> migration \<Rightarrow> 'd database \<Rightarrow> string + 'd database" where
  "run_tx exec sha m d =
     (case db_table d of
        None \<Rightarrow> Inl ''no such table: migrations''
      | Some t \<Rightarrow>
          (case DAList.lookup t (mg_name m) of
             Some _ \<Rightarrow> Inr d
           | None \<Rightarrow>
               (case exec (mg_up m) (db_rest d) of
                  None \<Rightarrow> Inl ''SQL logic error''
                | Some rest \<Rightarrow>
                    Inr (d\<lparr>db_rest := rest, db_table := Some (DAList.update (mg_name m) (mg_hash sha m, unix_milli (db_now d)) t)\<rparr>))))"

definition sqlite_run ::
  "(string \<Rightarrow> 'd \<Rightarrow> 'd option) \<Rightarrow> (string \<Rightarrow> string) \<Rightarrow> migration \<Rightarrow> 'd database \<Rightarrow> string option \<times> 'd database" where
  "sqlite_run exec sha m db = in_tx (run_tx exec sha m) db"

definition sqlite_undo ::
  "(string \<Rightarrow> 'd \<Rightarrow> 'd option) \<Rightarrow> migration \<Rightarrow> 'd database \<Rightarrow> string option \<times> 'd database" where
  "sqlite_undo exec m db =
     in_tx (\<lambda>d.
       case exec (mg_down m) (db_rest d) of
         None \<Rightarrow> Inl ''SQL logic error''
       | Some rest \<Rightarrow>
           (case db_table d of
              None \<Rightarrow> Inl ''no such table: migrations''
            | Some t \<Rightarrow> Inr (d\<lparr>db_rest := rest, db_table := Some (DAList.delete (mg_name m) t)\<rparr>)))
       db"

definition sqlite_ops :: "(string \<Rightarrow> 'd \<Rightarrow> 'd option) \<Rightarrow> (string \<Rightarrow> string) \<Rightarrow> 'd database migration_ops" where
  "sqlite_ops exec sha =
     \<lparr>so_lock = sqlite_lock, so_unlock = (\<lambda>db. db), so_ran = sqlite_ran, so_run = sqlite_run exec sha,
      so_undo = sqlite_undo exec\<rparr>"

definition sqlite_kept :: "'d database \<Rightarrow> (string \<rightharpoonup> string)" where
  "sqlite_kept db n = (case db_table db of None \<Rightarrow> None | Some t \<Rightarrow> map_option fst (DAList.lookup t n))"

lemma next_fault_table [simp]:
  "next_fault db = (f, db') \<Longrightarrow> db_table db' = db_table db \<and> db_rest db' = db_rest db \<and> db_now db' = db_now db"
  by (auto simp: next_fault_def split: list.splits)

lemma in_tx_fails: "in_tx fn db = (Some e, db') \<Longrightarrow> db_table db' = db_table db \<and> db_rest db' = db_rest db"
  by (auto simp: in_tx_def dest: next_fault_table split: prod.splits option.splits sum.splits)

lemma in_tx_commits:
  "in_tx fn db = (None, db') \<Longrightarrow>
     \<exists>d1 d2. db_table d1 = db_table db \<and> db_rest d1 = db_rest db \<and> db_now d1 = db_now db \<and> fn d1 = Inr d2 \<and>
       db_table db' = db_table d2 \<and> db_rest db' = db_rest d2"
  by (auto simp: in_tx_def dest!: next_fault_table split: prod.splits option.splits sum.splits)

lemma impl_of_hashes:
  "map_of (map (\<lambda>r. (rn_name r, rn_hash r)) (map (\<lambda>(n, h, ms). \<lparr>rn_name = n, rn_hash = h, rn_at = of_milli ms\<rparr>) t)) n =
     map_option fst (map_of t n)"
  by (induction t) (auto simp: case_prod_unfold)

lemma distinct_sorted: "distinct (map rn_name rs) \<Longrightarrow> distinct (map rn_name (sort_key rn_name rs))"
  by (simp add: distinct_map)

lemma map_of_sorted:
  "distinct (map rn_name rs) \<Longrightarrow>
     map_of (map (\<lambda>r. (rn_name r, rn_hash r)) (sort_key rn_name rs)) = map_of (map (\<lambda>r. (rn_name r, rn_hash r)) rs)"
  by (subst map_of_inject_set) (auto simp: comp_def distinct_map)

interpretation sqlite: migration_store "sqlite_ops exec sha" sha sqlite_kept exec db_rest
proof (unfold_locales, goal_cases)
  case (1 s)
  then show ?case
    by (cases "so_lock (sqlite_ops exec sha) s"; cases "fst (so_lock (sqlite_ops exec sha) s)")
       (auto simp: sqlite_ops_def sqlite_lock_def sqlite_kept_def fun_eq_iff dest!: in_tx_fails in_tx_commits split: option.splits)
next
  case (2 s)
  then show ?case by (simp add: sqlite_ops_def)
next
  case (3 s)
  then show ?case
    by (auto simp: sqlite_ops_def sqlite_ran_def sqlite_kept_def fun_eq_iff dest!: next_fault_table split: prod.splits option.splits)
next
  case (4 s rs s')
  then obtain db t where t: "next_fault s = (None, db)" "db_table db = Some t"
    "rs = sort_key rn_name (map (\<lambda>(n, h, ms). \<lparr>rn_name = n, rn_hash = h, rn_at = of_milli ms\<rparr>) (DAList.impl_of t))"
    by (auto simp: sqlite_ops_def sqlite_ran_def split: prod.splits option.splits)
  let ?rs = "map (\<lambda>(n, h, ms). \<lparr>rn_name = n, rn_hash = h, rn_at = of_milli ms\<rparr>) (DAList.impl_of t)"
  have names: "map rn_name ?rs = map fst (DAList.impl_of t)" by (simp add: case_prod_unfold comp_def)
  have d: "distinct (map rn_name ?rs)" unfolding names by simp
  have "distinct (map rn_name rs)" unfolding t(3) by (rule distinct_sorted [OF d])
  moreover have "map_of (map (\<lambda>r. (rn_name r, rn_hash r)) rs) = sqlite_kept s"
  proof
    fix n
    have "db_table s = Some t" using next_fault_table [OF t(1)] t(2) by simp
    then show "map_of (map (\<lambda>r. (rn_name r, rn_hash r)) rs) n = sqlite_kept s n"
      unfolding t(3) map_of_sorted [OF d] impl_of_hashes by (simp add: sqlite_kept_def DAList.lookup.rep_eq)
  qed
  ultimately show ?case ..
next
  case (5 m s s')
  then show ?case
    by (auto simp: sqlite_ops_def sqlite_run_def run_tx_def sqlite_kept_def fun_eq_iff DAList.lookup_update
        dest!: in_tx_commits split: option.splits if_splits)
next
  case (6 m s e s')
  then show ?case by (auto simp: sqlite_ops_def sqlite_run_def sqlite_kept_def fun_eq_iff dest!: in_tx_fails)
next
  case (7 m s s')
  then show ?case
    by (auto simp: sqlite_ops_def sqlite_undo_def sqlite_kept_def fun_eq_iff dest!: in_tx_commits split: option.splits)
next
  case (8 m s e s')
  then show ?case by (auto simp: sqlite_ops_def sqlite_undo_def sqlite_kept_def fun_eq_iff dest!: in_tx_fails)
next
  case (9 s)
  then show ?case
    by (cases "so_lock (sqlite_ops exec sha) s"; cases "fst (so_lock (sqlite_ops exec sha) s)")
       (auto simp: sqlite_ops_def sqlite_lock_def dest!: in_tx_fails in_tx_commits)
next
  case (10 s)
  then show ?case by (simp add: sqlite_ops_def)
next
  case (11 s)
  then show ?case by (auto simp: sqlite_ops_def sqlite_ran_def dest!: next_fault_table split: prod.splits option.splits)
next
  case (12 m s s')
  then show ?case
    by (auto simp: sqlite_ops_def sqlite_run_def run_tx_def sqlite_kept_def dest!: in_tx_commits split: option.splits)
next
  case (13 m s e s')
  then show ?case by (auto simp: sqlite_ops_def sqlite_run_def dest!: in_tx_fails)
next
  case (14 m s s')
  then show ?case
    by (auto simp: sqlite_ops_def sqlite_undo_def dest!: in_tx_commits split: option.splits)
next
  case (15 m s e s')
  then show ?case by (auto simp: sqlite_ops_def sqlite_undo_def dest!: in_tx_fails)
qed


section \<open>Properties\<close>

text \<open>
  C12. Up runs migrations that have not run, in the order of their files: every one of them, when it returns no
  error, and then each file is kept with its hash, so that Up again has nothing to run; or those before one that
  failed, which it names. The SQL of each of them has taken effect on the database, in that order and once, and nothing else
  has. When a file has changed since it ran, or the Store has failed, none runs. It returns the names of
  those it ran, and what had run before is kept as it was.
\<close>

theorem up_runs_what_has_not_run:
  assumes "up (sqlite_ops exec sha) sha ms db = ((e, done), db')" "distinct (map mg_name ms)"
  shows "\<exists>pre post. filter (\<lambda>m. sqlite_kept db (mg_name m) = None) ms = pre @ post \<and> done = map mg_name pre \<and>
      sqlite_kept db' = sqlite_kept db ++ hashes sha pre \<and>
      ran_in_turn exec pre (db_rest db) = Some (db_rest db') \<and>
      (e = None \<longrightarrow> post = [] \<and> (\<forall>m \<in> set ms. sqlite_kept db' (mg_name m) = Some (mg_hash sha m))) \<and>
      (e \<noteq> None \<longrightarrow> pre \<noteq> [] \<longrightarrow> (\<exists>m post' err. post = m # post' \<and> e = Some (Run_failed (mg_name m) err))) \<and>
      ((\<exists>m \<in> set ms. sqlite_kept db (mg_name m) \<noteq> None \<and> sqlite_kept db (mg_name m) \<noteq> Some (mg_hash sha m)) \<longrightarrow>
         pre = [] \<and> e \<noteq> None)"
proof -
  from sqlite.up_runs [OF assms] obtain pre post where
    "filter (\<lambda>m. sqlite_kept db (mg_name m) = None) ms = pre @ post" "done = map mg_name pre"
    "sqlite_kept db' = sqlite_kept db ++ hashes sha pre"
    "ran_in_turn exec pre (db_rest db) = Some (db_rest db')"
    "e = None \<longrightarrow> post = [] \<and> (\<forall>m \<in> set ms. sqlite_kept db (mg_name m) = None \<or> sqlite_kept db (mg_name m) = Some (mg_hash sha m))"
    "\<forall>x. e = Some x \<longrightarrow> pre \<noteq> [] \<longrightarrow> (\<exists>m post' err. post = m # post' \<and> x = Run_failed (mg_name m) err) \<and>
       (\<forall>m \<in> set ms. sqlite_kept db (mg_name m) = None \<or> sqlite_kept db (mg_name m) = Some (mg_hash sha m))" by blast
  moreover have "e = None \<longrightarrow> (\<forall>m \<in> set ms. sqlite_kept db' (mg_name m) = Some (mg_hash sha m))"
    using sqlite.up_again_runs_nothing assms by blast
  ultimately show ?thesis by (intro exI [of _ pre] exI [of _ post]) (cases e; auto)
qed

text \<open>
  What the instances of an app, starting at once, ask of the database they share: its table made, what has
  run, and migrations run, in whatever order their calls come to it.
\<close>

datatype store_call = Lock_call | Ran_call | Run_call migration

fun sqlite_do :: "(string \<Rightarrow> 'd \<Rightarrow> 'd option) \<Rightarrow> (string \<Rightarrow> string) \<Rightarrow> store_call \<Rightarrow> 'd database \<Rightarrow> 'd database" where
  "sqlite_do exec sha Lock_call db = snd (so_lock (sqlite_ops exec sha) db)"
| "sqlite_do exec sha Ran_call db = snd (so_ran (sqlite_ops exec sha) db)"
| "sqlite_do exec sha (Run_call m) db = snd (so_run (sqlite_ops exec sha) m db)"

lemma call_runs_at_most_one:
  "(db_rest (sqlite_do exec sha c db) = db_rest db \<and> sqlite_kept (sqlite_do exec sha c db) = sqlite_kept db) \<or>
   (\<exists>m. c = Run_call m \<and> sqlite_kept db (mg_name m) = None \<and> exec (mg_up m) (db_rest db) = Some (db_rest (sqlite_do exec sha c db)) \<and>
      sqlite_kept (sqlite_do exec sha c db) = (sqlite_kept db)(mg_name m \<mapsto> mg_hash sha m))"
proof (cases c)
  case Lock_call
  obtain x db' where l: "so_lock (sqlite_ops exec sha) db = (x, db')" by fastforce
  have "db_rest db' = db_rest db"
    using l by (cases x) (auto simp: sqlite_ops_def sqlite_lock_def dest!: in_tx_fails in_tx_commits)
  then show ?thesis using sqlite.kept_lock [of exec sha db] by (simp add: Lock_call l)
next
  case Ran_call
  have "db_rest (snd (sqlite_ran db)) = db_rest db"
    by (auto simp: sqlite_ran_def dest!: next_fault_table split: prod.splits option.splits)
  then show ?thesis using sqlite.kept_ran [of exec sha db] by (simp add: Ran_call sqlite_ops_def)
next
  case (Run_call m)
  obtain x db' where r: "so_run (sqlite_ops exec sha) m db = (x, db')" by fastforce
  show ?thesis
  proof (cases x)
    case (Some e)
    with r have "db_rest db' = db_rest db" by (auto simp: sqlite_ops_def sqlite_run_def dest!: in_tx_fails)
    then show ?thesis using sqlite.run_failed [of exec sha m db e db'] r Some by (simp add: Run_call)
  next
    case None
    with r obtain d1 d2 where d: "db_table d1 = db_table db" "db_rest d1 = db_rest db" "run_tx exec sha m d1 = Inr d2"
      "db_table db' = db_table d2" "db_rest db' = db_rest d2"
      using in_tx_commits [of "run_tx exec sha m" db db'] by (auto simp: sqlite_ops_def sqlite_run_def)
    then have "db_rest db' = db_rest db \<and> sqlite_kept db (mg_name m) \<noteq> None \<or>
        sqlite_kept db (mg_name m) = None \<and> exec (mg_up m) (db_rest db) = Some (db_rest db')"
      by (auto simp: sqlite_kept_def run_tx_def split: option.splits if_splits)
    then show ?thesis using sqlite.run_kept [of exec sha m db db'] r None by (auto simp: Run_call split: if_splits)
  qed
qed

text \<open>
  C17. However the calls of an app's instances starting at once come to the database, each migration's SQL has
  taken effect on it once, if at all: the database is what the migrations kept as run make of it, one after
  another, each once, and it keeps their hashes.
\<close>

theorem instances_run_each_migration_once:
  assumes "sqlite_kept db = Map.empty"
  shows "\<exists>ms. let db' = foldl (\<lambda>d c. sqlite_do exec sha c d) db calls in
      distinct (map mg_name ms) \<and> Run_call ` set ms \<subseteq> set calls \<and>
      ran_in_turn exec ms (db_rest db) = Some (db_rest db') \<and> sqlite_kept db' = hashes sha ms"
proof (induction calls rule: rev_induct)
  case Nil
  then show ?case using assms by (intro exI [of _ "[]"]) (simp add: ran_in_turn_def)
next
  case (snoc c calls)
  let ?db = "foldl (\<lambda>d c. sqlite_do exec sha c d) db calls"
  from snoc obtain ms where ms: "distinct (map mg_name ms)" "Run_call ` set ms \<subseteq> set calls"
    "ran_in_turn exec ms (db_rest db) = Some (db_rest ?db)" "sqlite_kept ?db = hashes sha ms"
    by (auto simp: Let_def)
  from call_runs_at_most_one [of exec sha c ?db] show ?case
  proof (elim disjE exE conjE)
    assume "db_rest (sqlite_do exec sha c ?db) = db_rest ?db" "sqlite_kept (sqlite_do exec sha c ?db) = sqlite_kept ?db"
    with ms show ?thesis by (intro exI [of _ ms]) (auto simp: Let_def)
  next
    fix m
    assume m: "c = Run_call m" "sqlite_kept ?db (mg_name m) = None"
      "exec (mg_up m) (db_rest ?db) = Some (db_rest (sqlite_do exec sha c ?db))"
      "sqlite_kept (sqlite_do exec sha c ?db) = (sqlite_kept ?db)(mg_name m \<mapsto> mg_hash sha m)"
    have "hashes sha (ms @ [m]) = (hashes sha ms)(mg_name m \<mapsto> mg_hash sha m)"
      using m(2) ms(4) by (auto simp: hashes_def fun_eq_iff map_add_def split: option.splits)
    with m ms show ?thesis
      by (intro exI [of _ "ms @ [m]"]) (auto simp: Let_def ran_in_turn_def hashes_None)
  qed
qed

text \<open>
  Down undoes the migration whose name comes last of those that have run, and no other, and only when its file
  is there, unchanged since it ran, with a part that undoes it; when it returns an error, what has run is as it was.
\<close>

theorem down_undoes_the_last:
  assumes "down (sqlite_ops exec sha) sha ms db = (r, db')"
  shows "case r of
      Inl _ \<Rightarrow> sqlite_kept db' = sqlite_kept db \<and> db_rest db' = db_rest db
    | Inr n \<Rightarrow> sqlite_kept db' = (sqlite_kept db)(n := None) \<and> (\<forall>n' \<in> dom (sqlite_kept db). n' \<le> n) \<and>
        (\<exists>m \<in> set ms. mg_name m = n \<and> sqlite_kept db n = Some (mg_hash sha m) \<and> mg_down m \<noteq> [] \<and>
          exec (mg_down m) (db_rest db) = Some (db_rest db'))"
  using sqlite.down_undoes [OF assms] .

section \<open>At concrete inputs\<close>

text \<open>A database that logs its SQL, with none of it run, and the migrations of an app.\<close>

definition ex_exec :: "string \<Rightarrow> string list \<Rightarrow> string list option" where
  "ex_exec sql log = (if sql = ''bad'' then None else Some (log @ [sql]))"

definition ex_db :: "string list database" where
  "ex_db = \<lparr>db_rest = [], db_table = None, db_faults = [], db_now = 0\<rparr>"

definition ex_files :: "migration list" where
  "ex_files = [\<lparr>mg_name = ''1'', mg_up = ''a'', mg_down = ''b''\<rparr>, \<lparr>mg_name = ''2'', mg_up = ''c'', mg_down = ''d''\<rparr>]"

lemma ex_up: "fst (up (sqlite_ops ex_exec id) id ex_files ex_db) = (None, [''1'', ''2''])"
  by code_simp

lemma ex_down: "fst (down (sqlite_ops ex_exec id) id ex_files (snd (up (sqlite_ops ex_exec id) id ex_files ex_db))) = Inr ''2''"
  by code_simp


theorem up_runs_what_has_not_run_witness:
  "fst (up (sqlite_ops ex_exec id) id ex_files ex_db) = (None, [''1'', ''2'']) \<and>
   db_rest (snd (up (sqlite_ops ex_exec id) id ex_files ex_db)) = [''a'', ''c''] \<and>
   sqlite_kept (snd (up (sqlite_ops ex_exec id) id ex_files ex_db)) ''1'' = Some (mg_hash id \<lparr>mg_name = ''1'', mg_up = ''a'', mg_down = ''b''\<rparr>) \<and>
   sqlite_kept (snd (up (sqlite_ops ex_exec id) id ex_files ex_db)) ''2'' = Some (mg_hash id \<lparr>mg_name = ''2'', mg_up = ''c'', mg_down = ''d''\<rparr>)"
proof -
  obtain db' where u: "up (sqlite_ops ex_exec id) id ex_files ex_db = ((None, [''1'', ''2'']), db')"
    using ex_up by (cases "up (sqlite_ops ex_exec id) id ex_files ex_db") auto
  have "distinct (map mg_name ex_files)" by (simp add: ex_files_def)
  moreover have "sqlite_kept ex_db n = None" for n by (simp add: sqlite_kept_def ex_db_def)
  ultimately show ?thesis
    using up_runs_what_has_not_run [OF u] u by (auto simp: ex_files_def ran_in_turn_def ex_exec_def ex_db_def)
qed

theorem instances_run_each_migration_once_witness:
  "\<exists>ms. ran_in_turn ex_exec ms [] = Some (db_rest (foldl (\<lambda>d c. sqlite_do ex_exec id c d) ex_db
      [Lock_call, Lock_call, Run_call (ex_files ! 0), Run_call (ex_files ! 0), Run_call (ex_files ! 1)])) \<and> distinct (map mg_name ms)"
proof -
  have "sqlite_kept ex_db = Map.empty" by (simp add: fun_eq_iff sqlite_kept_def ex_db_def)
  from instances_run_each_migration_once [OF this, of ex_exec id
      "[Lock_call, Lock_call, Run_call (ex_files ! 0), Run_call (ex_files ! 0), Run_call (ex_files ! 1)]"]
  show ?thesis by (auto simp: Let_def ex_db_def)
qed

theorem down_undoes_the_last_witness:
  "fst (down (sqlite_ops ex_exec id) id ex_files (snd (up (sqlite_ops ex_exec id) id ex_files ex_db))) = Inr ''2'' \<and>
   sqlite_kept (snd (down (sqlite_ops ex_exec id) id ex_files (snd (up (sqlite_ops ex_exec id) id ex_files ex_db)))) ''2'' = None"
proof -
  let ?db = "snd (up (sqlite_ops ex_exec id) id ex_files ex_db)"
  obtain db' where d: "down (sqlite_ops ex_exec id) id ex_files ?db = (Inr ''2'', db')"
    using ex_down by (cases "down (sqlite_ops ex_exec id) id ex_files ?db") auto
  from down_undoes_the_last [OF d] d show ?thesis by simp
qed

section \<open>Line ends\<close>

text \<open>
  A file checked out on Windows, with the same lines as on Unix, is split the same when it has a down line; one
  without keeps its line ends, and so hashes otherwise.
\<close>

fun dos_lines :: "string \<Rightarrow> string" where
  "dos_lines [] = []"
| "dos_lines (c # s) = (if c = newline then CHR 0x0D # newline # dos_lines s else c # dos_lines s)"

lemma unix_dos: "CHR 0x0D \<notin> set s \<Longrightarrow> unix_lines (dos_lines s) = s"
proof (induction s)
  case (Cons c s)
  then show ?case by (cases "dos_lines s") auto
qed simp

lemma unix_unix: "CHR 0x0D \<notin> set s \<Longrightarrow> unix_lines s = s"
  by (induction s rule: unix_lines.induct) auto

lemma a_file_with_a_down_line_splits_the_same:
  assumes "CHR 0x0D \<notin> set s" "at_down (split_on newline s) \<noteq> None"
  shows "split_file (dos_lines s) = split_file s"
  using assms by (auto simp: split_file_def unix_dos unix_unix)

lemma a_file_without_one_does_not:
  "split_file (dos_lines (''A;'' @ [newline] @ ''B;'')) = (''A;'' @ [CHR 0x0D, newline] @ ''B;'', [])"
  "split_file (''A;'' @ [newline] @ ''B;'') = (''A;'' @ [newline] @ ''B;'', [])"
  by code_simp+

end
