(* ===== verification/Lang.thy ===== *)
theory Lang
  imports Utf8 Complex_Main "HOL-Library.List_Lexorder" "HOL-Library.Char_ord"
begin

text \<open>
  Package lang: an app's texts in its languages. The catalog and the choice of a language (lang.go), the texts
  with their placeholders filled, the form a count takes (plural.go), how a language writes a number (number.go)
  and which way it runs (dir.go). JSON, and the case folding of letters outside ASCII, are parameters.
\<close>

declare map_of_eq_Some_iff [simp del] Some_eq_map_of_iff [simp del]

section \<open>Tags\<close>

text \<open>\<open>strings.FieldsFunc\<close>, and \<open>ReplaceAll\<close> of one byte by another.\<close>

fun fields_by :: "(char \<Rightarrow> bool) \<Rightarrow> string \<Rightarrow> string \<Rightarrow> string list" where
  "fields_by P w [] = (if w = [] then [] else [w])"
| "fields_by P w (c # s) = (if P c then (if w = [] then [] else [w]) @ fields_by P [] s else fields_by P (w @ [c]) s)"

definition swap_char :: "char \<Rightarrow> char \<Rightarrow> string \<Rightarrow> string" where
  "swap_char a b s = map (\<lambda>c. if c = a then b else c) s"

definition is_letter :: "char \<Rightarrow> bool" where
  "is_letter c \<longleftrightarrow> is_lower c \<or> is_upper c"

definition canonical_part :: "string \<Rightarrow> string" where
  "canonical_part p =
     (if length p = 2 then to_upper p
      else if length p = 4 then to_upper (take 1 p) @ to_lower (drop 1 p)
      else to_lower p)"

definition canonical :: "string \<Rightarrow> string" where
  "canonical tag =
     (case fields_by (\<lambda>c. c = CHR ''-'' \<or> c = CHR ''_'') [] (trim_space tag) of
        [] \<Rightarrow> []
      | p # ps \<Rightarrow> join_with ''-'' (to_lower p # map canonical_part ps))"

definition valid_tag :: "string \<Rightarrow> bool" where
  "valid_tag tag =
     (case split_on CHR ''-'' tag of
        [] \<Rightarrow> False
      | p # ps \<Rightarrow>
          2 \<le> length p \<and> length p \<le> 3 \<and> list_all is_letter p \<and>
          list_all (\<lambda>q. q \<noteq> [] \<and> length q \<le> 8 \<and> list_all (\<lambda>c. is_letter c \<or> is_digit c) q) ps)"

definition base_tag :: "string \<Rightarrow> string" where
  "base_tag tag = to_lower (fst (cut CHR ''-'' tag))"

section \<open>The catalog\<close>

type_synonym text_map = "(string, string) gomap"

record catalog =
  ct_def :: string
  ct_langs :: "string list"
  ct_texts :: "(string, text_map) gomap"

datatype lang_error = Bad_default | Lang_dir string | Bad_file string | Two_files string | Lang_read string | Not_texts string | No_default

text \<open>A directory's entries: the name, whether it is a directory, and what reading it gives.\<close>

record lang_entry =
  le_name :: string
  le_dir :: bool
  le_data :: "string + string"

text \<open>\<open>path.Ext\<close> of a file's name: from its last dot, or nothing.\<close>

definition file_ext :: "string \<Rightarrow> string" where
  "file_ext name =
     (let r = takeWhile (\<lambda>c. c \<noteq> CHR ''.'') (rev name)
      in if length r = length name then [] else CHR ''.'' # rev r)"

fun read_langs ::
  "(string \<Rightarrow> text_map option) \<Rightarrow> lang_entry list \<Rightarrow> (string, text_map) gomap \<Rightarrow> string list \<Rightarrow>
   lang_error + (string, text_map) gomap \<times> string list" where
  "read_langs json [] texts langs = Inr (texts, langs)"
| "read_langs json (e # es) texts langs =
     (if le_dir e \<or> has_prefix (le_name e) ''.'' \<or> file_ext (le_name e) \<noteq> ''.json'' then read_langs json es texts langs
      else let tag = canonical (take (length (le_name e) - 5) (le_name e))
           in if \<not> valid_tag tag then Inl (Bad_file (le_name e))
              else if lookup texts (to_lower tag) \<noteq> None then Inl (Two_files tag)
              else case le_data e of
                     Inl err \<Rightarrow> Inl (Lang_read err)
                   | Inr data \<Rightarrow>
                       (case json data of
                          None \<Rightarrow> Inl (Not_texts (le_name e))
                        | Some m \<Rightarrow> read_langs json es (put (to_lower tag) m texts) (langs @ [tag])))"

text \<open>\<open>Load\<close>: no file system is None, and an error of reading its directory Inl.\<close>

definition load_catalog ::
  "(string \<Rightarrow> text_map option) \<Rightarrow> (string + lang_entry list) option \<Rightarrow> string \<Rightarrow> lang_error + catalog" where
  "load_catalog json fs d =
     (let def = canonical d
      in if \<not> valid_tag def then Inl Bad_default
         else case (case fs of None \<Rightarrow> Inr [] | Some r \<Rightarrow> r) of
                Inl err \<Rightarrow> Inl (Lang_dir err)
              | Inr es \<Rightarrow>
                  (case read_langs json es [] [] of
                     Inl err \<Rightarrow> Inl err
                   | Inr (texts, langs) \<Rightarrow>
                       if lookup texts (to_lower def) = None \<and> base_tag def \<noteq> ''en'' then Inl No_default
                       else Inr \<lparr>ct_def = def, ct_langs = def # sort (filter (\<lambda>l. to_lower l \<noteq> to_lower def) langs),
                                ct_texts = texts\<rparr>))"

definition default_lang :: "catalog option \<Rightarrow> string" where
  "default_lang c = (case c of None \<Rightarrow> ''en'' | Some c \<Rightarrow> ct_def c)"

definition languages :: "catalog option \<Rightarrow> string list" where
  "languages c = (case c of None \<Rightarrow> [''en''] | Some c \<Rightarrow> ct_langs c)"

definition find_lang :: "catalog option \<Rightarrow> string \<Rightarrow> string option" where
  "find_lang c tag =
     (let t = to_lower (canonical tag); langs = languages c
      in if t = [] then None
         else case List.find (\<lambda>l. to_lower l = t) langs of
                Some l \<Rightarrow> Some l
              | None \<Rightarrow>
                  (case List.find (\<lambda>l. to_lower l = base_tag t) langs of
                     Some l \<Rightarrow> Some l
                   | None \<Rightarrow> List.find (\<lambda>l. to_lower (base_tag l) = base_tag t) langs))"

definition max_accepted :: nat where "max_accepted = 32"

text \<open>
  A part's weight: 1, or what the last of its q parameters says, \<open>weight\<close> being what \<open>strconv.ParseFloat\<close> reads,
  0 for what is not a number.
\<close>

definition part_weight :: "(string \<Rightarrow> rat) \<Rightarrow> string \<Rightarrow> rat" where
  "part_weight weight params =
     foldl (\<lambda>q p.
         case cut CHR ''='' p of (k, v, ok) \<Rightarrow>
           if ok \<and> to_lower (trim_space k) = ''q''
           then (let w = weight (trim_space v) in if 1 < w then 0 else w) else q)
       1 (split_on CHR '';'' params)"

fun weigh :: "(string \<Rightarrow> rat) \<Rightarrow> string list \<Rightarrow> (string \<times> rat) list \<Rightarrow> (string \<times> rat) list" where
  "weigh weight [] ws = ws"
| "weigh weight (part # parts) ws =
     (if length ws = max_accepted then ws
      else case cut CHR '';'' part of
             (t, params, _) \<Rightarrow>
               let tag = trim_space t; q = part_weight weight params
               in weigh weight parts (if tag \<noteq> [] \<and> 0 < q then ws @ [(tag, q)] else ws))"

definition accepted :: "(string \<Rightarrow> rat) \<Rightarrow> string \<Rightarrow> string list" where
  "accepted weight header = map fst (sort_key (\<lambda>w. - snd w) (weigh weight (split_on CHR '','' header) []))"

fun match_tags :: "catalog option \<Rightarrow> string list \<Rightarrow> string" where
  "match_tags c [] = default_lang c"
| "match_tags c (tag # tags) =
     (if tag = ''*'' then default_lang c
      else case find_lang c tag of Some l \<Rightarrow> l | None \<Rightarrow> match_tags c tags)"

definition match_lang :: "(string \<Rightarrow> rat) \<Rightarrow> catalog option \<Rightarrow> string \<Rightarrow> string" where
  "match_lang weight c header = match_tags c (accepted weight header)"

section \<open>Words\<close>

record lang_words =
  wd_catalog :: "catalog option"
  wd_locale :: string

definition words_in :: "catalog option \<Rightarrow> string \<Rightarrow> lang_words" where
  "words_in c locale =
     \<lparr>wd_catalog = c, wd_locale = (case find_lang c locale of Some l \<Rightarrow> l | None \<Rightarrow> default_lang c)\<rparr>"

definition words_locale :: "lang_words \<Rightarrow> string" where
  "words_locale w = (if wd_locale w = [] then ''en'' else wd_locale w)"

text \<open>What a map of texts has for one: the empty text for none.\<close>

definition text_in :: "catalog \<Rightarrow> string \<Rightarrow> string \<Rightarrow> string" where
  "text_in c l text =
     (case lookup (ct_texts c) (to_lower l) of
        None \<Rightarrow> []
      | Some m \<Rightarrow> (case lookup m text of None \<Rightarrow> [] | Some s \<Rightarrow> s))"

definition word_langs :: "lang_words \<Rightarrow> string list" where
  "word_langs w = [wd_locale w, base_tag (wd_locale w), ''en'']"

definition lookup_text :: "lang_words \<Rightarrow> string \<Rightarrow> string \<times> string" where
  "lookup_text w text =
     (case wd_catalog w of
        None \<Rightarrow> (text, ''en'')
      | Some c \<Rightarrow>
          (case List.find (\<lambda>l. text_in c l text \<noteq> []) (word_langs w) of
             Some l \<Rightarrow> (text_in c l text, l)
           | None \<Rightarrow> (text, ''en'')))"

section \<open>Placeholders\<close>

text \<open>
  The arguments are taken as the texts \<open>fmt.Sprint\<close> makes of them. \<open>upper\<close> is \<open>strings.ToUpper\<close> on a value,
  whose letters may be any; a placeholder's name is of ASCII.
\<close>

fun args_values :: "string list \<Rightarrow> (string, string) gomap \<Rightarrow> (string, string) gomap" where
  "args_values (k # v # args) vs = args_values args (put k v vs)"
| "args_values _ vs = vs"

definition replacement_char :: string where
  "replacement_char = [CHR 0xEF, CHR 0xBF, CHR 0xBD]"

text \<open>\<open>utf8.DecodeRuneInString\<close>, and the text of the rune: the one for an error, of no bytes or of one.\<close>

definition first_rune :: "string \<Rightarrow> string \<times> nat" where
  "first_rune v =
     (case List.find (\<lambda>n. n \<le> length v \<and> utf8_valid (take n v)) [1, 2, 3, 4] of
        Some n \<Rightarrow> (take n v, n)
      | None \<Rightarrow> (replacement_char, min 1 (length v)))"

definition fill_value :: "(string \<Rightarrow> string) \<Rightarrow> (string, string) gomap \<Rightarrow> string \<Rightarrow> string option" where
  "fill_value upper vs name =
     (case lookup vs name of
        Some v \<Rightarrow> Some v
      | None \<Rightarrow>
          (case lookup vs (to_lower name) of
             None \<Rightarrow> None
           | Some v \<Rightarrow>
               Some (if 1 < length name \<and> name = to_upper name then upper v
                     else case first_rune v of (r, size_of) \<Rightarrow> upper r @ drop size_of v)))"

definition name_char :: "char \<Rightarrow> bool" where
  "name_char c \<longleftrightarrow> is_letter c \<or> is_digit c \<or> c = CHR ''_''"

function fill_from :: "(string \<Rightarrow> string) \<Rightarrow> (string, string) gomap \<Rightarrow> string \<Rightarrow> string" where
  "fill_from upper vs [] = []"
| "fill_from upper vs (c # s) =
     (if c \<noteq> CHR '':'' \<or> s = [] \<or> \<not> is_letter (hd s) then c # fill_from upper vs s
      else (case fill_value upper vs (takeWhile name_char s) of
              Some v \<Rightarrow> v
            | None \<Rightarrow> CHR '':'' # takeWhile name_char s)
           @ fill_from upper vs (dropWhile name_char s))"
  by pat_completeness auto
termination
  by (relation "measure (\<lambda>(u, vs, s). length s)") (auto simp: le_imp_less_Suc length_dropWhile_le)

definition fill_text :: "(string \<Rightarrow> string) \<Rightarrow> string \<Rightarrow> string list \<Rightarrow> string" where
  "fill_text upper text args =
     (if length args < 2 \<or> CHR '':'' \<notin> set text then text else fill_from upper (args_values args []) text)"

section \<open>Forms\<close>

text \<open>\<open>interval\<close>: the form without its counts, whether it names any, and whether they take n.\<close>

definition interval :: "string \<Rightarrow> int \<Rightarrow> string \<times> bool \<times> bool" where
  "interval form n =
     (case form of
        [] \<Rightarrow> (form, False, False)
      | c # body \<Rightarrow>
          if c \<noteq> CHR ''{'' \<and> c \<noteq> CHR ''['' then (form, False, False)
          else let counts = takeWhile (\<lambda>d. d \<noteq> CHR ''}'' \<and> d \<noteq> CHR '']'') body
               in if length counts = length body \<or> contains_any counts ''{['' then (form, False, False)
                  else let rest = drop (length counts + 1) body
                       in case cut CHR '','' counts of
                            (lo_text, hi_text, is_range) \<Rightarrow>
                              if \<not> is_range then (rest, True, atoi (trim_space counts) = Some n)
                              else let lo = trim_space lo_text; hi = trim_space hi_text
                                   in if lo = ''*'' \<and> atoi hi \<noteq> None then (rest, True, n \<le> the (atoi hi))
                                      else if hi = ''*'' \<and> atoi lo \<noteq> None then (rest, True, the (atoi lo) \<le> n)
                                      else if atoi lo \<noteq> None \<and> atoi hi \<noteq> None
                                        then (rest, True, the (atoi lo) \<le> n \<and> n \<le> the (atoi hi))
                                      else (rest, True, False))"

definition pick_form :: "bool \<Rightarrow> int" where
  "pick_form b = (if b then 0 else 1)"

definition one_rule :: "int \<Rightarrow> int" where "one_rule n = 0"

definition two_rule :: "int \<Rightarrow> int" where "two_rule n = pick_form (n = 1)"

definition french_rule :: "int \<Rightarrow> int" where "french_rule n = pick_form (n = 0 \<or> n = 1)"

definition russian_rule :: "int \<Rightarrow> int" where
  "russian_rule n =
     (if go_mod n 10 = 1 \<and> go_mod n 100 \<noteq> 11 then 0
      else if 2 \<le> go_mod n 10 \<and> go_mod n 10 \<le> 4 \<and> (go_mod n 100 < 10 \<or> 20 \<le> go_mod n 100) then 1 else 2)"

definition czech_rule :: "int \<Rightarrow> int" where
  "czech_rule n = (if n = 1 then 0 else if 2 \<le> n \<and> n \<le> 4 then 1 else 2)"

definition irish_rule :: "int \<Rightarrow> int" where
  "irish_rule n = (if n = 1 then 0 else if n = 2 then 1 else 2)"

definition lithuanian_rule :: "int \<Rightarrow> int" where
  "lithuanian_rule n =
     (if go_mod n 10 = 1 \<and> go_mod n 100 \<noteq> 11 then 0
      else if 2 \<le> go_mod n 10 \<and> (go_mod n 100 < 10 \<or> 20 \<le> go_mod n 100) then 1 else 2)"

definition slovenian_rule :: "int \<Rightarrow> int" where
  "slovenian_rule n =
     (if go_mod n 100 = 1 then 0 else if go_mod n 100 = 2 then 1
      else if go_mod n 100 = 3 \<or> go_mod n 100 = 4 then 2 else 3)"

definition macedonian_rule :: "int \<Rightarrow> int" where
  "macedonian_rule n = pick_form (go_mod n 10 = 1)"

definition maltese_rule :: "int \<Rightarrow> int" where
  "maltese_rule n =
     (if n = 1 then 0
      else if n = 0 \<or> 1 < go_mod n 100 \<and> go_mod n 100 < 11 then 1
      else if 10 < go_mod n 100 \<and> go_mod n 100 < 20 then 2 else 3)"

definition latvian_rule :: "int \<Rightarrow> int" where
  "latvian_rule n = (if n = 0 then 0 else if go_mod n 10 = 1 \<and> go_mod n 100 \<noteq> 11 then 1 else 2)"

definition polish_rule :: "int \<Rightarrow> int" where
  "polish_rule n =
     (if n = 1 then 0
      else if 2 \<le> go_mod n 10 \<and> go_mod n 10 \<le> 4 \<and> (go_mod n 100 < 12 \<or> 14 < go_mod n 100) then 1 else 2)"

definition welsh_rule :: "int \<Rightarrow> int" where
  "welsh_rule n = (if n = 1 then 0 else if n = 2 then 1 else if n = 8 \<or> n = 11 then 2 else 3)"

definition romanian_rule :: "int \<Rightarrow> int" where
  "romanian_rule n =
     (if n = 1 then 0 else if n = 0 \<or> 0 < go_mod n 100 \<and> go_mod n 100 < 20 then 1 else 2)"

definition arabic_rule :: "int \<Rightarrow> int" where
  "arabic_rule n =
     (if n = 0 then 0 else if n = 1 then 1 else if n = 2 then 2
      else if 3 \<le> go_mod n 100 \<and> go_mod n 100 \<le> 10 then 3
      else if 11 \<le> go_mod n 100 \<and> go_mod n 100 \<le> 99 then 4 else 5)"

definition plural_rules :: "(string list \<times> (int \<Rightarrow> int)) list" where
  "plural_rules =
     [([''az'', ''bo'', ''dz'', ''id'', ''ja'', ''jv'', ''ka'', ''km'', ''kn'', ''ko'', ''ms'', ''th'', ''tr'', ''vi'',
        ''zh''], one_rule),
      ([''af'', ''bn'', ''bg'', ''ca'', ''da'', ''de'', ''el'', ''en'', ''eo'', ''es'', ''et'', ''eu'', ''fa'', ''fi'',
        ''fo'', ''fur'', ''fy'', ''gl'', ''gu'', ''ha'', ''he'', ''hu'', ''is'', ''it'', ''ku'', ''lb'', ''ml'', ''mn'',
        ''mr'', ''nah'', ''nb'', ''ne'', ''nl'', ''nn'', ''no'', ''oc'', ''om'', ''or'', ''pa'', ''pap'', ''ps'', ''pt'',
        ''so'', ''sq'', ''sv'', ''sw'', ''ta'', ''te'', ''tk'', ''ur'', ''zu''], two_rule),
      ([''am'', ''bh'', ''fil'', ''fr'', ''gun'', ''hi'', ''hy'', ''ln'', ''mg'', ''nso'', ''pt_br'', ''ti'', ''wa'',
        ''xbr''], french_rule),
      ([''be'', ''bs'', ''hr'', ''ru'', ''sh'', ''sr'', ''uk''], russian_rule),
      ([''cs'', ''sk''], czech_rule), ([''ga''], irish_rule), ([''lt''], lithuanian_rule), ([''sl''], slovenian_rule),
      ([''mk''], macedonian_rule), ([''mt''], maltese_rule), ([''lv''], latvian_rule), ([''pl''], polish_rule),
      ([''cy''], welsh_rule), ([''ro''], romanian_rule), ([''ar''], arabic_rule)]"

text \<open>What the maps of rules have for a language.\<close>

definition rule_for :: "(string list \<times> 'a) list \<Rightarrow> string \<Rightarrow> 'a option" where
  "rule_for rules l = map_option snd (List.find (\<lambda>r. l \<in> set (fst r)) rules)"

text \<open>A rule by the whole tag, and else by its language.\<close>

definition rule_of :: "(string list \<times> 'a) list \<Rightarrow> string \<Rightarrow> 'a option" where
  "rule_of rules locale =
     (let l = to_lower (swap_char CHR ''-'' CHR ''_'' locale)
      in case rule_for rules l of Some r \<Rightarrow> Some r | None \<Rightarrow> rule_for rules (fst (cut CHR ''_'' l)))"

definition plural_index :: "string \<Rightarrow> int \<Rightarrow> int" where
  "plural_index locale n =
     (let n = (if n < 0 then wrap64 (- n) else n)
      in case rule_of plural_rules locale of None \<Rightarrow> 0 | Some rule \<Rightarrow> rule n)"

text \<open>The first form whose own counts take n, or the forms without theirs.\<close>

fun take_form :: "string list \<Rightarrow> int \<Rightarrow> string list \<Rightarrow> string + string list" where
  "take_form [] n seen = Inr seen"
| "take_form (f # fs) n seen =
     (case interval (trim_space f) n of
        (rest, named, takes) \<Rightarrow>
          if takes then Inl (trim_space rest) else take_form fs n (seen @ [if named then rest else f]))"

definition choose_form :: "string \<Rightarrow> int \<Rightarrow> string \<Rightarrow> string" where
  "choose_form text n locale =
     (if CHR ''|'' \<notin> set text then text
      else case take_form (split_on CHR ''|'' text) n [] of
             Inl form \<Rightarrow> form
           | Inr forms \<Rightarrow>
               let i = plural_index locale n
               in trim_space (forms ! nat (if int (length forms) \<le> i then 0 else i)))"

section \<open>Numbers\<close>

definition nbsp :: string where "nbsp = [CHR 0xC2, CHR 0xA0]"

definition narrow_space :: string where "narrow_space = [CHR 0xE2, CHR 0x80, CHR 0xAF]"

record numbers =
  nm_group :: string
  nm_point :: string

definition number_rules :: "(string list \<times> numbers) list" where
  "number_rules =
     [([''en'', ''es_mx'', ''he'', ''ja'', ''km'', ''ko'', ''lo'', ''ms'', ''my'', ''sw'', ''th'', ''zh'', ''zu''],
       \<lparr>nm_group = '','', nm_point = ''.''\<rparr>),
      ([''af'', ''ca'', ''da'', ''de'', ''el'', ''es'', ''gl'', ''hr'', ''id'', ''is'', ''it'', ''nl'', ''pt'', ''ro'',
        ''sl'', ''sr'', ''tr'', ''vi''], \<lparr>nm_group = ''.'', nm_point = '',''\<rparr>),
      ([''bg'', ''cs'', ''et'', ''fi'', ''hu'', ''lt'', ''lv'', ''nb'', ''nn'', ''no'', ''pl'', ''ru'', ''sk'', ''sv'',
        ''uk''], \<lparr>nm_group = nbsp, nm_point = '',''\<rparr>),
      ([''fr''], \<lparr>nm_group = narrow_space, nm_point = '',''\<rparr>)]"

definition numbers_of :: "string \<Rightarrow> numbers" where
  "numbers_of locale =
     (case rule_of number_rules locale of None \<Rightarrow> \<lparr>nm_group = '','', nm_point = ''.''\<rparr> | Some n \<Rightarrow> n)"

text \<open>The digits left to say, a group before each whole three of them but the first.\<close>

fun grouped_digits :: "string \<Rightarrow> string \<Rightarrow> bool \<Rightarrow> string" where
  "grouped_digits g [] started = []"
| "grouped_digits g (d # ds) started =
     (if started \<and> length (d # ds) mod 3 = 0 then g else []) @ d # grouped_digits g ds True"

definition grouped :: "string \<Rightarrow> string \<Rightarrow> string" where
  "grouped digits g =
     (let start = (if digits \<noteq> [] \<and> (hd digits = CHR ''-'' \<or> hd digits = CHR ''+'') then 1 else 0); rest = drop start digits
      in if g = [] \<or> length rest < 4 then digits else take start digits @ grouped_digits g rest False)"

definition number_text :: "lang_words \<Rightarrow> int \<Rightarrow> string" where
  "number_text w n = grouped (itoa n) (nm_group (numbers_of (wd_locale w)))"

text \<open>\<open>Decimal\<close>, of what \<open>strconv.FormatFloat\<close> makes of the number.\<close>

definition decimal_text :: "lang_words \<Rightarrow> string \<Rightarrow> string" where
  "decimal_text w formatted =
     (let nums = numbers_of (wd_locale w)
      in case cut CHR ''.'' formatted of
           (whole, fraction, ok) \<Rightarrow>
             if ok then grouped whole (nm_group nums) @ nm_point nums @ fraction else grouped whole (nm_group nums))"

section \<open>Directions\<close>

definition right_to_left :: "string list" where
  "right_to_left =
     [''ar'', ''arc'', ''ckb'', ''dv'', ''fa'', ''he'', ''iw'', ''ks'', ''mzn'', ''nqo'', ''prs'', ''ps'', ''sd'', ''syr'',
      ''ug'', ''ur'', ''yi'', ''ji'']"

definition right_to_left_scripts :: "string list" where
  "right_to_left_scripts = [''adlm'', ''arab'', ''hebr'', ''mand'', ''nkoo'', ''rohg'', ''samr'', ''syrc'', ''thaa'']"

definition lang_dir :: "string \<Rightarrow> string" where
  "lang_dir locale =
     (let subtags = split_on CHR ''_'' (to_lower (swap_char CHR ''-'' CHR ''_'' locale))
      in case List.find (\<lambda>s. length s = 4) (tl subtags) of
           Some s \<Rightarrow> if s \<in> set right_to_left_scripts then ''rtl'' else ''ltr''
         | None \<Rightarrow> if hd subtags \<in> set right_to_left then ''rtl'' else ''ltr'')"

section \<open>What is said\<close>

definition say_text :: "(string \<Rightarrow> string) \<Rightarrow> lang_words \<Rightarrow> string \<Rightarrow> string list \<Rightarrow> string" where
  "say_text upper w text args = fill_text upper (fst (lookup_text w text)) args"

definition say_choice :: "(string \<Rightarrow> string) \<Rightarrow> lang_words \<Rightarrow> string \<Rightarrow> int \<Rightarrow> string list \<Rightarrow> string" where
  "say_choice upper w text n args =
     (case lookup_text w text of
        (s, locale) \<Rightarrow> fill_text upper (choose_form s n locale) ([''count'', number_text w n] @ args))"

record page_texts =
  pt_locale :: string
  pt_words :: text_map
  pt_from :: text_map
  pt_dir :: string

text \<open>One language's texts put in what a page is sent.\<close>

fun add_texts :: "string \<Rightarrow> text_map \<Rightarrow> page_texts \<Rightarrow> page_texts" where
  "add_texts l [] t = t"
| "add_texts l ((text, said) # m) t =
     add_texts l m
       (if said = [] \<or> (case lookup (pt_words t) text of None \<Rightarrow> False | Some s \<Rightarrow> s \<noteq> []) then t
        else t\<lparr>pt_words := put text said (pt_words t),
               pt_from := (if to_lower l \<noteq> to_lower (pt_locale t) then put text l (pt_from t) else pt_from t)\<rparr>)"

definition words_texts :: "lang_words \<Rightarrow> page_texts" where
  "words_texts w =
     (let t = \<lparr>pt_locale = words_locale w, pt_words = [], pt_from = [], pt_dir = lang_dir (wd_locale w)\<rparr>
      in case wd_catalog w of
           None \<Rightarrow> t
         | Some c \<Rightarrow>
             foldl (\<lambda>t l. add_texts l (case lookup (ct_texts c) (to_lower l) of None \<Rightarrow> [] | Some m \<Rightarrow> m) t) t (word_langs w))"

section \<open>What a page says\<close>

text \<open>
  The TypeScript \<open>tug gen\<close> writes (internal/typegen/lang.go): a table of the forms each of the catalog's languages
  gives the counts below 200, and what a page looks its words and their form up with. A count is a whole number a
  page's numbers hold exactly.
\<close>

definition table_counts :: nat where "table_counts = 200"

definition normalized :: "string \<Rightarrow> string" where
  "normalized tag = to_lower (swap_char CHR ''-'' CHR ''_'' tag)"

definition form_table :: "string \<Rightarrow> string" where
  "form_table l = concat (map (\<lambda>n. itoa (go_mod (plural_index l (int n)) 10)) [0..<table_counts])"

fun form_tables :: "string list \<Rightarrow> (string, string) gomap \<Rightarrow> (string, string) gomap" where
  "form_tables [] tables = tables"
| "form_tables (l # ls) tables =
     form_tables ls (case lookup tables (normalized l) of
                       Some _ \<Rightarrow> tables
                     | None \<Rightarrow> tables @ [(normalized l, form_table l)])"

definition page_words :: "page_texts \<Rightarrow> string \<Rightarrow> string \<times> string" where
  "page_words t text =
     (case lookup (pt_words t) text of
        None \<Rightarrow> (text, ''en'')
      | Some said \<Rightarrow>
          if said = [] then (text, ''en'')
          else (said, case lookup (pt_from t) text of Some l \<Rightarrow> l | None \<Rightarrow> pt_locale t))"

definition page_index :: "(string, string) gomap \<Rightarrow> string \<Rightarrow> int \<Rightarrow> int" where
  "page_index forms locale count =
     (let n = \<bar>count\<bar>; tag = normalized locale
      in case (case lookup forms tag of Some t \<Rightarrow> Some t | None \<Rightarrow> lookup forms (fst (cut CHR ''_'' tag))) of
           None \<Rightarrow> 0
         | Some table \<Rightarrow> of_char (table ! nat (if n < 100 then n else 100 + n mod 100)) - 48)"

section \<open>The forms of a count\<close>

lemmas rule_defs = one_rule_def two_rule_def french_rule_def russian_rule_def czech_rule_def irish_rule_def
  lithuanian_rule_def slovenian_rule_def macedonian_rule_def maltese_rule_def latvian_rule_def polish_rule_def
  welsh_rule_def romanian_rule_def arabic_rule_def pick_form_def

text \<open>Two hundred counts say every form: a rule goes by the last two digits, and by the counts below 100.\<close>

definition short_count :: "int \<Rightarrow> int" where
  "short_count n = (if n < 100 then n else 100 + n mod 100)"

lemma short_count_mod [simp]:
  assumes "0 \<le> n"
  shows "short_count n mod 10 = n mod 10" and "short_count n mod 100 = n mod 100"
proof -
  have "(100 + k) mod 10 = k mod 10" for k :: int using mod_mult_self4 [of 10 10 k] by simp
  moreover have "n mod 100 mod 10 = n mod (10::int)" by (rule mod_mod_cancel) simp
  ultimately show "short_count n mod 10 = n mod 10" by (simp add: short_count_def)
  show "short_count n mod 100 = n mod 100" by (simp add: short_count_def)
qed

lemma short_count_small [simp]: "0 \<le> n \<Longrightarrow> m < 100 \<Longrightarrow> short_count n = m \<longleftrightarrow> n = m"
  by (auto simp: short_count_def)

lemma short_count_bounds: "0 \<le> n \<Longrightarrow> 0 \<le> short_count n" "0 \<le> n \<Longrightarrow> short_count n < 200"
  by (auto simp: short_count_def)

lemma short_count_between: "0 \<le> n \<Longrightarrow> 2 \<le> short_count n \<and> short_count n \<le> 4 \<longleftrightarrow> 2 \<le> n \<and> n \<le> 4"
  by (auto simp: short_count_def)

definition same_form :: "int \<Rightarrow> int \<Rightarrow> bool" where
  "same_form m n \<longleftrightarrow>
     0 \<le> m \<and> 0 \<le> n \<and> go_mod m 10 = go_mod n 10 \<and> go_mod m 100 = go_mod n 100 \<and> (m < 100 \<and> m = n \<or> 100 \<le> m \<and> 100 \<le> n)"

lemma same_form_short_count: "0 \<le> n \<Longrightarrow> same_form (short_count n) n"
  by (simp add: same_form_def short_count_bounds) (simp add: short_count_def)

lemma same_form_eq: "same_form m n \<Longrightarrow> k < 100 \<Longrightarrow> m = k \<longleftrightarrow> n = k"
  by (auto simp: same_form_def)

lemma rule_same_form:
  assumes "same_form m n"
  shows "one_rule m = one_rule n" "two_rule m = two_rule n" "french_rule m = french_rule n"
    "russian_rule m = russian_rule n" "czech_rule m = czech_rule n" "irish_rule m = irish_rule n"
    "lithuanian_rule m = lithuanian_rule n" "slovenian_rule m = slovenian_rule n" "macedonian_rule m = macedonian_rule n"
    "maltese_rule m = maltese_rule n" "latvian_rule m = latvian_rule n" "polish_rule m = polish_rule n"
    "welsh_rule m = welsh_rule n" "romanian_rule m = romanian_rule n" "arabic_rule m = arabic_rule n"
proof -
  have between: "2 \<le> m \<and> m \<le> 4 \<longleftrightarrow> 2 \<le> n \<and> n \<le> 4" using assms by (auto simp: same_form_def)
  have mods: "go_mod m 10 = go_mod n 10" "go_mod m 100 = go_mod n 100" using assms by (simp_all add: same_form_def)
  note facts = rule_defs mods same_form_eq [OF assms] between
  show "one_rule m = one_rule n" by (simp only: facts)
  show "two_rule m = two_rule n" by (simp add: facts)
  show "french_rule m = french_rule n" by (simp add: facts)
  show "russian_rule m = russian_rule n" by (simp only: facts)
  show "czech_rule m = czech_rule n" by (simp add: facts)
  show "irish_rule m = irish_rule n" by (simp add: facts)
  show "lithuanian_rule m = lithuanian_rule n" by (simp only: facts)
  show "slovenian_rule m = slovenian_rule n" by (simp only: facts)
  show "macedonian_rule m = macedonian_rule n" by (simp only: facts)
  show "maltese_rule m = maltese_rule n" by (simp add: facts)
  show "latvian_rule m = latvian_rule n" by (simp add: facts)
  show "polish_rule m = polish_rule n" by (simp add: facts)
  show "welsh_rule m = welsh_rule n" by (simp add: facts)
  show "romanian_rule m = romanian_rule n" by (simp add: facts)
  show "arabic_rule m = arabic_rule n" by (simp add: facts)
qed

text \<open>A language's rule is one of the fifteen.\<close>

lemma rule_of_mem: "rule_of rules l = Some r \<Longrightarrow> r \<in> set (map snd rules)"
proof -
  assume "rule_of rules l = Some r"
  then obtain l' where "rule_for rules l' = Some r"
    by (auto simp: rule_of_def Let_def split: option.splits)
  then obtain e where "List.find (\<lambda>r. l' \<in> set (fst r)) rules = Some e" "r = snd e"
    unfolding rule_for_def by blast
  then show ?thesis using find_Some_mem by fastforce
qed

lemma plural_rules_snd:
  "map snd plural_rules =
     [one_rule, two_rule, french_rule, russian_rule, czech_rule, irish_rule, lithuanian_rule, slovenian_rule,
      macedonian_rule, maltese_rule, latvian_rule, polish_rule, welsh_rule, romanian_rule, arabic_rule]"
  by (simp add: plural_rules_def)

lemma rule_bounds: "r \<in> set (map snd plural_rules) \<Longrightarrow> 0 \<le> r n \<and> r n < 6"
  unfolding plural_rules_snd by (auto simp: rule_defs)

lemma rule_same: "r \<in> set (map snd plural_rules) \<Longrightarrow> same_form m n \<Longrightarrow> r m = r n"
  unfolding plural_rules_snd using rule_same_form by auto

lemma plural_index_bounds: "0 \<le> plural_index l n \<and> plural_index l n < 6"
  by (cases "rule_of plural_rules l") (simp_all add: plural_index_def Let_def rule_bounds [OF rule_of_mem])

lemma plural_index_same: "same_form m n \<Longrightarrow> plural_index l m = plural_index l n"
proof -
  assume mn: "same_form m n"
  then have "\<not> m < 0" "\<not> n < 0" by (auto simp: same_form_def)
  then show ?thesis
    by (cases "rule_of plural_rules l") (simp_all add: plural_index_def rule_same [OF rule_of_mem mn])
qed

lemma plural_index_abs: "in_int64 (- n) \<Longrightarrow> plural_index l \<bar>n\<bar> = plural_index l n"
  by (cases "n < 0") (simp_all add: plural_index_def)

lemma plural_index_normalized: "normalized l = normalized l' \<Longrightarrow> plural_index l n = plural_index l' n"
  by (simp add: plural_index_def rule_of_def normalized_def)

section \<open>The tables a page has\<close>

lemma itoa_digit: "0 \<le> x \<Longrightarrow> x < 10 \<Longrightarrow> itoa x = [digit_char (nat x)]"
  by (simp add: itoa_def nat_digits_small nat_less_iff)

lemma form_table_eq: "form_table l = map (\<lambda>n. digit_char (nat (plural_index l (int n)))) [0..<table_counts]"
proof -
  have "itoa (go_mod (plural_index l (int n)) 10) = [digit_char (nat (plural_index l (int n)))]" for n
    using plural_index_bounds [of l "int n"] by (simp add: itoa_digit)
  then show ?thesis by (simp add: form_table_def)
qed

lemma form_table_nth:
  "k < table_counts \<Longrightarrow> int (of_char (form_table l ! k)) - 48 = plural_index l (int k)"
  using plural_index_bounds [of l "int k"] by (simp add: form_table_eq digit_char_def nat_less_iff)

lemma form_table_normalized: "normalized l = normalized l' \<Longrightarrow> form_table l = form_table l'"
  using plural_index_normalized [of l l'] by (simp add: form_table_def)

lemma form_tables_lookup:
  assumes "\<And>l t. lookup tables (normalized l) = Some t \<Longrightarrow> t = form_table l"
    and "l \<in> set ls \<or> lookup tables (normalized l) \<noteq> None"
  shows "lookup (form_tables ls tables) (normalized l) = Some (form_table l)"
  using assms
proof (induction ls arbitrary: tables)
  case Nil
  then show ?case by auto
next
  case (Cons l' ls)
  let ?next = "case lookup tables (normalized l') of Some _ \<Rightarrow> tables | None \<Rightarrow> tables @ [(normalized l', form_table l')]"
  have "t = form_table k" if "lookup ?next (normalized k) = Some t" for k t
    using that Cons.prems(1) form_table_normalized [of k l']
    by (auto simp: map_add_def split: option.splits if_splits)
  moreover have "l \<in> set ls \<or> lookup ?next (normalized l) \<noteq> None"
    using Cons.prems(2) by (auto simp: map_add_def split: option.splits)
  ultimately show ?case using Cons.IH [of ?next] by simp
qed

lemma page_index_ok:
  assumes "l' \<in> set ls" and "normalized l' = normalized l" and "in_int64 (- n)"
  shows "page_index (form_tables ls []) l n = plural_index l n"
proof -
  have "lookup (form_tables ls []) (normalized l) = Some (form_table l)"
    using form_tables_lookup [of "[]" l' ls] assms form_table_normalized [OF assms(2)] by simp
  moreover have "plural_index l (short_count \<bar>n\<bar>) = plural_index l n"
    using plural_index_same [OF same_form_short_count] plural_index_abs [OF assms(3)] by simp
  moreover have "nat (short_count \<bar>n\<bar>) < table_counts" "0 \<le> short_count \<bar>n\<bar>"
    using short_count_bounds [of "\<bar>n\<bar>"] by (simp_all add: table_counts_def nat_less_iff)
  ultimately show ?thesis
    using form_table_nth [of "nat (short_count \<bar>n\<bar>)" l]
    by (simp add: page_index_def of_nat_of_char Let_def short_count_def [symmetric])
qed

section \<open>The words a page has\<close>

definition catalog_maps :: "catalog \<Rightarrow> bool" where
  "catalog_maps c \<longleftrightarrow> (\<forall>k m. lookup (ct_texts c) k = Some m \<longrightarrow> gomap_ok m)"

text \<open>What has been put in a page's texts after some languages: a tx's words are of the first that has any.\<close>

definition first_words :: "catalog \<Rightarrow> string list \<Rightarrow> string \<Rightarrow> string option" where
  "first_words c ls tx = List.find (\<lambda>l. text_in c l tx \<noteq> []) ls"

definition texts_ok :: "catalog \<Rightarrow> string \<Rightarrow> string list \<Rightarrow> page_texts \<Rightarrow> bool" where
  "texts_ok c loc ls t \<longleftrightarrow>
     pt_locale t = loc \<and>
     (\<forall>tx.
        case first_words c ls tx of
          None \<Rightarrow> lookup (pt_words t) tx = None \<and> lookup (pt_from t) tx = None
        | Some l \<Rightarrow> lookup (pt_words t) tx = Some (text_in c l tx) \<and>
                    lookup (pt_from t) tx = (if to_lower l \<noteq> to_lower loc then Some l else None))"

lemma add_texts_lookup:
  assumes "gomap_ok m"
  shows "pt_locale (add_texts l m t) = pt_locale t \<and>
    (lookup (pt_words (add_texts l m t)) tx, lookup (pt_from (add_texts l m t)) tx) =
      (case lookup m tx of
         None \<Rightarrow> (lookup (pt_words t) tx, lookup (pt_from t) tx)
       | Some said \<Rightarrow>
           if said = [] \<or> (case lookup (pt_words t) tx of None \<Rightarrow> False | Some s \<Rightarrow> s \<noteq> [])
           then (lookup (pt_words t) tx, lookup (pt_from t) tx)
           else (Some said, if to_lower l \<noteq> to_lower (pt_locale t) then Some l else lookup (pt_from t) tx))"
  using assms
proof (induction m arbitrary: t)
  case Nil
  then show ?case by simp
next
  case (Cons e m)
  obtain k v where e: "e = (k, v)" by fastforce
  have "lookup m k = None" using Cons.prems e by (simp add: map_of_eq_None_iff)
  with Cons e show ?case by (auto split: option.splits)
qed

lemma text_in_lookup:
  "text_in c l tx =
     (case lookup (case lookup (ct_texts c) (to_lower l) of None \<Rightarrow> [] | Some m \<Rightarrow> m) tx of None \<Rightarrow> [] | Some s \<Rightarrow> s)"
  by (simp add: text_in_def split: option.splits)

lemma first_words_snoc:
  "first_words c (ls @ [l]) tx =
     (case first_words c ls tx of Some l' \<Rightarrow> Some l' | None \<Rightarrow> if text_in c l tx \<noteq> [] then Some l else None)"
  by (induction ls) (simp_all add: first_words_def)

lemma first_words_said: "first_words c ls tx = Some l \<Longrightarrow> l \<in> set ls \<and> text_in c l tx \<noteq> []"
  unfolding first_words_def by (rule find_Some_mem)

lemma add_texts_ok:
  assumes "texts_ok c loc ls t" and "gomap_ok m" and said: "\<And>tx. text_in c l tx = (case lookup m tx of None \<Rightarrow> [] | Some s \<Rightarrow> s)"
  shows "texts_ok c loc (ls @ [l]) (add_texts l m t)"
  unfolding texts_ok_def
proof (intro conjI allI)
  have loc: "pt_locale t = loc" using assms(1) by (simp add: texts_ok_def)
  then show "pt_locale (add_texts l m t) = loc" using add_texts_lookup [OF assms(2), of l t] by simp
  fix tx
  have t: "case first_words c ls tx of
        None \<Rightarrow> lookup (pt_words t) tx = None \<and> lookup (pt_from t) tx = None
      | Some l \<Rightarrow> lookup (pt_words t) tx = Some (text_in c l tx) \<and>
                  lookup (pt_from t) tx = (if to_lower l \<noteq> to_lower loc then Some l else None)"
    using assms(1) by (simp add: texts_ok_def)
  show "case first_words c (ls @ [l]) tx of
        None \<Rightarrow> lookup (pt_words (add_texts l m t)) tx = None \<and> lookup (pt_from (add_texts l m t)) tx = None
      | Some l' \<Rightarrow> lookup (pt_words (add_texts l m t)) tx = Some (text_in c l' tx) \<and>
                  lookup (pt_from (add_texts l m t)) tx = (if to_lower l' \<noteq> to_lower loc then Some l' else None)"
    using t add_texts_lookup [OF assms(2), of l t tx] loc first_words_said [of c ls tx] said [of tx]
    by (cases "lookup m tx"; cases "first_words c ls tx") (simp_all add: first_words_snoc split: if_splits)
qed

lemma fold_texts_ok:
  assumes "texts_ok c loc ls t" and "catalog_maps c"
  shows "texts_ok c loc (ls @ ls')
    (foldl (\<lambda>t l. add_texts l (case lookup (ct_texts c) (to_lower l) of None \<Rightarrow> [] | Some m \<Rightarrow> m) t) t ls')"
  using assms(1)
proof (induction ls' arbitrary: ls t)
  case Nil
  then show ?case by simp
next
  case (Cons l ls')
  have "texts_ok c loc (ls @ [l]) (add_texts l (case lookup (ct_texts c) (to_lower l) of None \<Rightarrow> [] | Some m \<Rightarrow> m) t)"
    using assms(2) by (intro add_texts_ok [OF Cons.prems]) (auto simp: text_in_def catalog_maps_def split: option.splits)
  from Cons.IH [OF this] show ?case by simp
qed

lemma words_texts_ok:
  assumes "wd_catalog w = Some c" and "catalog_maps c"
  shows "texts_ok c (words_locale w) (word_langs w) (words_texts w)"
proof -
  have "texts_ok c (words_locale w) [] \<lparr>pt_locale = words_locale w, pt_words = [], pt_from = [], pt_dir = lang_dir (wd_locale w)\<rparr>"
    by (simp add: texts_ok_def first_words_def)
  from fold_texts_ok [OF this assms(2), where ls' = "word_langs w"] show ?thesis by (simp add: words_texts_def assms(1))
qed

text \<open>The first of a language's own that folds to it is the language.\<close>

lemma first_words_folds:
  assumes "first_words c (word_langs w) tx = Some l" and "to_lower l = to_lower (words_locale w)" and "wd_locale w \<noteq> []"
  shows "l = wd_locale w"
proof -
  have "text_in c (wd_locale w) tx = text_in c l tx"
    using assms(2,3) by (simp add: text_in_def words_locale_def)
  then have "text_in c (wd_locale w) tx \<noteq> []" using first_words_said [OF assms(1)] by argo
  then show ?thesis using assms(1) by (simp add: first_words_def word_langs_def)
qed

lemma page_words_ok:
  assumes "wd_catalog w = Some c" and "catalog_maps c" and "wd_locale w \<noteq> []"
  shows "page_words (words_texts w) tx = lookup_text w tx"
proof -
  have ok: "case first_words c (word_langs w) tx of
        None \<Rightarrow> lookup (pt_words (words_texts w)) tx = None \<and> lookup (pt_from (words_texts w)) tx = None
      | Some l \<Rightarrow> lookup (pt_words (words_texts w)) tx = Some (text_in c l tx) \<and>
                  lookup (pt_from (words_texts w)) tx = (if to_lower l \<noteq> to_lower (words_locale w) then Some l else None)"
    and loc: "pt_locale (words_texts w) = words_locale w"
    using words_texts_ok [OF assms(1,2)] by (simp_all add: texts_ok_def)
  show ?thesis
  proof (cases "first_words c (word_langs w) tx")
    case None
    then show ?thesis using ok assms(1) by (simp add: page_words_def lookup_text_def first_words_def)
  next
    case (Some l)
    have "words_locale w = wd_locale w" using assms(3) by (simp add: words_locale_def)
    then have folds: "to_lower l = to_lower (words_locale w) \<Longrightarrow> words_locale w = l"
      using first_words_folds [OF Some _ assms(3)] by argo
    have said: "lookup (pt_words (words_texts w)) tx = Some (text_in c l tx)"
      and from_lang: "lookup (pt_from (words_texts w)) tx = (if to_lower l \<noteq> to_lower (words_locale w) then Some l else None)"
      using ok unfolding Some option.case by blast+
    have "(case lookup (pt_from (words_texts w)) tx of Some l' \<Rightarrow> l' | None \<Rightarrow> pt_locale (words_texts w)) = l"
    proof (cases "to_lower l = to_lower (words_locale w)")
      case True
      show ?thesis unfolding from_lang loc folds [OF True] by simp
    next
      case False
      then show ?thesis unfolding from_lang loc by simp
    qed
    then have "page_words (words_texts w) tx = (text_in c l tx, l)"
      using said first_words_said [OF Some] by (simp add: page_words_def)
    moreover have "lookup_text w tx = (text_in c l tx, l)"
      using Some assms(1) by (simp add: lookup_text_def first_words_def)
    ultimately show ?thesis by simp
  qed
qed

section \<open>A catalog's languages\<close>

definition texts_of :: "(string, text_map) gomap \<Rightarrow> string list \<Rightarrow> bool" where
  "texts_of texts langs \<longleftrightarrow> [] \<notin> set langs \<and> (\<forall>k m. lookup texts k = Some m \<longrightarrow> gomap_ok m \<and> k \<in> to_lower ` set langs)"

lemma valid_tag_Nil [simp]: "\<not> valid_tag []"
  by (simp add: valid_tag_def)

lemma read_langs_ok:
  assumes "read_langs json es texts langs = Inr (texts', langs')" and "\<And>data m. json data = Some m \<Longrightarrow> gomap_ok m"
    and "texts_of texts langs"
  shows "texts_of texts' langs'"
  using assms
proof (induction json es texts langs rule: read_langs.induct)
  case (1 json texts langs)
  then show ?case by simp
next
  case (2 json e es texts langs)
  show ?case
  proof (cases "le_dir e \<or> has_prefix (le_name e) ''.'' \<or> file_ext (le_name e) \<noteq> ''.json''")
    case True
    with 2 show ?thesis by simp
  next
    case False
    let ?tag = "canonical (take (length (le_name e) - 5) (le_name e))"
    from False "2.prems"(1) obtain data m where
      read: "valid_tag ?tag" "lookup texts (to_lower ?tag) = None" "le_data e = Inr data" "json data = Some m"
      by (auto simp: Let_def split: if_splits sum.splits option.splits)
    with False "2.prems"(1) have go_on: "read_langs json es (put (to_lower ?tag) m texts) (langs @ [?tag]) = Inr (texts', langs')"
      by (simp add: Let_def)
    have "texts_of (put (to_lower ?tag) m texts) (langs @ [?tag])"
      using "2.prems"(2,3) read(1,4) by (auto simp: texts_of_def split: if_splits)
    with "2.IH"(2) [OF False refl _ _ read(3,4)] read go_on "2.prems"(2) show ?thesis by simp
  qed
qed

lemma load_catalog_cases:
  assumes "load_catalog json fs d = Inr c"
  obtains es texts langs where "valid_tag (canonical d)" "read_langs json es [] [] = Inr (texts, langs)"
    "c = \<lparr>ct_def = canonical d, ct_langs = canonical d # sort (filter (\<lambda>l. to_lower l \<noteq> to_lower (canonical d)) langs),
          ct_texts = texts\<rparr>"
proof -
  have valid: "valid_tag (canonical d)" using assms by (auto simp: load_catalog_def Let_def split: if_splits)
  obtain es where es: "(case fs of None \<Rightarrow> Inr [] | Some r \<Rightarrow> r) = Inr es"
    using assms valid by (cases "case fs of None \<Rightarrow> Inr [] | Some r \<Rightarrow> r") (auto simp: load_catalog_def)
  then obtain texts langs where "read_langs json es [] [] = Inr (texts, langs)"
    using assms valid by (cases "read_langs json es [] []") (auto simp: load_catalog_def)
  then show ?thesis using that [OF valid] assms es valid by (auto simp: load_catalog_def Let_def split: if_splits)
qed

lemma load_catalog_ok:
  assumes "load_catalog json fs d = Inr c" and "\<And>data m. json data = Some m \<Longrightarrow> gomap_ok m"
  shows "texts_of (ct_texts c) (ct_langs c)"
proof -
  from assms(1) obtain es texts langs where c: "valid_tag (canonical d)" "read_langs json es [] [] = Inr (texts, langs)"
    "c = \<lparr>ct_def = canonical d, ct_langs = canonical d # sort (filter (\<lambda>l. to_lower l \<noteq> to_lower (canonical d)) langs),
          ct_texts = texts\<rparr>"
    by (rule load_catalog_cases)
  have "texts_of texts langs" using read_langs_ok [OF c(2) assms(2)] by (simp add: texts_of_def)
  moreover have "canonical d \<noteq> []" using c(1) by auto
  ultimately show ?thesis unfolding c(3) by (auto simp: texts_of_def image_iff)
qed

lemma load_catalog_def_mem: "load_catalog json fs d = Inr c \<Longrightarrow> ct_def c \<in> set (ct_langs c)"
  by (erule load_catalog_cases) simp

lemma find_lang_mem: "find_lang c tag = Some l \<Longrightarrow> l \<in> set (languages c)"
  by (auto simp: find_lang_def Let_def split: if_splits option.splits dest: find_Some_mem)

lemma words_in_mem:
  "load_catalog json fs d = Inr c \<Longrightarrow> wd_locale (words_in (Some c) loc) \<in> set (ct_langs c)"
  using find_lang_mem [of "Some c" loc] load_catalog_def_mem
  by (auto simp: words_in_def default_lang_def languages_def split: option.splits)

section \<open>A page and the server\<close>

lemma lower_char_dash: "lower_char c = CHR ''-'' \<longleftrightarrow> c = CHR ''-''"
proof (cases "is_upper c")
  case True
  then have "of_char (lower_char c) = (of_char c + 32 :: nat)" "c \<noteq> CHR ''-''"
    by (auto simp: lower_char_def is_upper_def)
  moreover have "of_char CHR ''-'' = (45 :: nat)" by simp
  ultimately show ?thesis using True by (auto simp: is_upper_def)
qed (simp add: lower_char_def)

lemma normalized_lower: "normalized l = swap_char CHR ''-'' CHR ''_'' (to_lower l)"
proof -
  have "lower_char CHR ''_'' = CHR ''_''" by code_simp
  then show ?thesis by (simp add: normalized_def swap_char_def to_lower_def lower_char_dash)
qed

lemma said_lang_mem:
  assumes "texts_of (ct_texts c) langs" and "text_in c l tx \<noteq> []"
  shows "\<exists>l' \<in> set langs. normalized l' = normalized l"
proof -
  from assms(2) obtain m where "lookup (ct_texts c) (to_lower l) = Some m"
    by (auto simp: text_in_def split: option.splits)
  with assms(1) have "to_lower l \<in> to_lower ` set langs" by (auto simp: texts_of_def)
  then obtain l' where "l' \<in> set langs" "to_lower l = to_lower l'" by blast
  then show ?thesis by (auto simp: normalized_lower intro!: bexI [of _ l'])
qed

lemma lookup_text_lang:
  assumes "wd_catalog w = Some c" and "texts_of (ct_texts c) langs"
    and "(\<exists>l \<in> set (word_langs w). text_in c l tx \<noteq> []) \<or> ''en'' \<in> set langs"
  shows "\<exists>l' \<in> set langs. normalized l' = normalized (snd (lookup_text w tx))"
proof (cases "List.find (\<lambda>l. text_in c l tx \<noteq> []) (word_langs w)")
  case None
  then have "''en'' \<in> set langs" using assms(3) by (auto simp: find_None_iff)
  moreover have "lookup_text w tx = (tx, ''en'')" using None assms(1) by (simp add: lookup_text_def)
  ultimately show ?thesis by auto
next
  case (Some l)
  then have "snd (lookup_text w tx) = l" "text_in c l tx \<noteq> []"
    using assms(1) find_Some_mem [OF Some] by (simp_all add: lookup_text_def)
  then show ?thesis using said_lang_mem [OF assms(2)] by simp
qed

text \<open>
  C33. A page says a count as the server does. Whatever catalog an app loads, and whatever language it answers in, the
  texts it shares with its pages have for each text the words the server says it in and the language they are in, and
  the table of forms generated from the catalog's languages has for every count the form the server picks there, where
  the catalog has words for the text in one of the languages the answer is in, or English is one of its languages. For another
  text, said as it is written, a page may have no forms, as below.
\<close>

theorem a_page_says_a_count_as_the_server:
  assumes "load_catalog json fs d = Inr c" and "\<And>data m. json data = Some m \<Longrightarrow> gomap_ok m"
    and "w = words_in (Some c) tag"
    and "\<bar>n\<bar> < 2 ^ 53"
  shows "page_words (words_texts w) tx = lookup_text w tx \<and>
    ((\<exists>l \<in> set (word_langs w). text_in c l tx \<noteq> []) \<or> ''en'' \<in> set (languages (Some c)) \<longrightarrow>
      page_index (form_tables (languages (Some c)) []) (snd (page_words (words_texts w) tx)) n =
        plural_index (snd (lookup_text w tx)) n)"
proof -
  have texts: "texts_of (ct_texts c) (languages (Some c))"
    using load_catalog_ok [OF assms(1,2)] by (simp add: languages_def)
  then have maps: "catalog_maps c" "wd_locale w \<noteq> []" "wd_catalog w = Some c"
    using words_in_mem [OF assms(1), of tag] by (auto simp: texts_of_def catalog_maps_def languages_def assms(3) words_in_def)
  have words: "page_words (words_texts w) tx = lookup_text w tx" by (rule page_words_ok [OF maps(3,1,2)])
  have "page_index (form_tables (languages (Some c)) []) (snd (lookup_text w tx)) n = plural_index (snd (lookup_text w tx)) n"
    if said: "(\<exists>l \<in> set (word_langs w). text_in c l tx \<noteq> []) \<or> ''en'' \<in> set (languages (Some c))"
  proof -
    obtain l' where "l' \<in> set (languages (Some c))" "normalized l' = normalized (snd (lookup_text w tx))"
      using lookup_text_lang [OF maps(3) texts said] by blast
    then show ?thesis using assms(4) by (intro page_index_ok [of l']) (auto simp: in_int64_def)
  qed
  with words show ?thesis by simp
qed

definition example_json :: "string \<Rightarrow> text_map option" where
  "example_json data = (if data = ''ru'' then Some [('':count post|:count posts'', ''a|b|c'')] else None)"

definition example_catalog :: catalog where
  "example_catalog =
     \<lparr>ct_def = ''ru'', ct_langs = [''ru''], ct_texts = [(''ru'', [('':count post|:count posts'', ''a|b|c'')])]\<rparr>"

lemma example_catalog_loads:
  "load_catalog example_json (Some (Inr [\<lparr>le_name = ''ru.json'', le_dir = False, le_data = Inr ''ru''\<rparr>])) ''ru'' =
     Inr example_catalog"
  by code_simp

theorem a_page_says_a_count_as_the_server_witness:
  "page_words (words_texts (words_in (Some example_catalog) ''ru-RU'')) '':count post|:count posts'' = (''a|b|c'', ''ru'') \<and>
   page_index (form_tables [''ru''] []) ''ru'' 1225 = 2"
proof -
  have lookup: "lookup_text (words_in (Some example_catalog) ''ru-RU'') '':count post|:count posts'' = (''a|b|c'', ''ru'')"
    by code_simp
  have known: "\<exists>l \<in> set (word_langs (words_in (Some example_catalog) ''ru-RU'')).
      text_in example_catalog l '':count post|:count posts'' \<noteq> []"
    by code_simp
  have maps: "gomap_ok m" if "example_json data = Some m" for data m
    using that by (auto simp: example_json_def split: if_splits)
  have langs: "languages (Some example_catalog) = [''ru'']" by (simp add: languages_def example_catalog_def)
  have index: "plural_index ''ru'' 1225 = 2" by code_simp
  let ?w = "words_in (Some example_catalog) ''ru-RU''" and ?t = "'':count post|:count posts''"
  have ok: "page_words (words_texts ?w) ?t = lookup_text ?w ?t \<and>
      ((\<exists>l \<in> set (word_langs ?w). text_in example_catalog l ?t \<noteq> []) \<or> ''en'' \<in> set (languages (Some example_catalog)) \<longrightarrow>
        page_index (form_tables (languages (Some example_catalog)) []) (snd (page_words (words_texts ?w) ?t)) 1225 =
          plural_index (snd (lookup_text ?w ?t)) 1225)"
    by (rule a_page_says_a_count_as_the_server [OF example_catalog_loads maps refl]) simp_all
  have words: "page_words (words_texts (words_in (Some example_catalog) ''ru-RU'')) '':count post|:count posts'' = (''a|b|c'', ''ru'')"
    using ok [THEN conjunct1] lookup by simp
  have "page_index (form_tables [''ru''] []) ''ru'' 1225 = 2"
    using ok [THEN conjunct2, THEN mp, OF disjI1 [OF known]] by (simp add: words lookup langs index)
  with words show ?thesis by blast
qed

text \<open>
  Where the app has no English file, and English is not its default, a text no language has words for is said in English
  on the server, a count's form by English's rules, and by no rules on its pages: they say "2 post".
\<close>

lemma a_page_has_no_english_forms:
  "lookup_text (words_in (Some example_catalog) ''ru'') '':count user|:count users'' = ('':count user|:count users'', ''en'')"
  "plural_index ''en'' 2 = 1" "page_index (form_tables (languages (Some example_catalog)) []) ''en'' 2 = 0"
proof -
  show "lookup_text (words_in (Some example_catalog) ''ru'') '':count user|:count users'' = ('':count user|:count users'', ''en'')"
    by code_simp
  show "plural_index ''en'' 2 = 1" by code_simp
  have "normalized ''ru'' = ''ru''" "normalized ''en'' = ''en''" "fst (cut CHR ''_'' ''en'') = ''en''" by code_simp+
  then show "page_index (form_tables (languages (Some example_catalog)) []) ''en'' 2 = 0"
    by (simp add: page_index_def languages_def example_catalog_def)
qed

section \<open>Placeholders and numbers\<close>

text \<open>
  A text's literal bytes and its placeholders, which no value changes: what a value puts in is never read again.
\<close>

function text_holes :: "string \<Rightarrow> (char + string) list" where
  "text_holes [] = []"
| "text_holes (c # s) =
     (if c \<noteq> CHR '':'' \<or> s = [] \<or> \<not> is_letter (hd s) then Inl c # text_holes s
      else Inr (takeWhile name_char s) # text_holes (dropWhile name_char s))"
  by pat_completeness auto
termination
  by (relation "measure length") (auto simp: le_imp_less_Suc length_dropWhile_le)

fun fill_hole :: "(string \<Rightarrow> string) \<Rightarrow> (string, string) gomap \<Rightarrow> char + string \<Rightarrow> string" where
  "fill_hole upper vs (Inl c) = [c]"
| "fill_hole upper vs (Inr name) = (case fill_value upper vs name of Some v \<Rightarrow> v | None \<Rightarrow> CHR '':'' # name)"

lemma fill_from_holes: "fill_from upper vs s = concat (map (fill_hole upper vs) (text_holes s))"
  by (induction s rule: text_holes.induct) simp_all

lemma text_holes_name: "Inr name \<in> set (text_holes s) \<Longrightarrow> name \<noteq> [] \<and> list_all name_char name"
proof (induction s rule: text_holes.induct)
  case (1)
  then show ?case by simp
next
  case (2 c s)
  show ?case
  proof (cases "c \<noteq> CHR '':'' \<or> s = [] \<or> \<not> is_letter (hd s)")
    case True
    then show ?thesis using 2 by auto
  next
    case False
    then have "takeWhile name_char s \<noteq> []" by (cases s) (simp_all add: name_char_def)
    moreover have "list_all name_char (takeWhile name_char s)" by (auto simp: list_all_iff dest: set_takeWhileD)
    moreover have "name = takeWhile name_char s \<or> Inr name \<in> set (text_holes (dropWhile name_char s))"
      using "2.prems" False by simp
    ultimately show ?thesis using "2.IH"(2) [OF False] by (cases "name = takeWhile name_char s") simp_all
  qed
qed

text \<open>A capitalized placeholder of an empty value says the replacement character.\<close>

lemma an_empty_value_is_not_empty: "fill_text id '':Name'' [''name'', []] = replacement_char"
proof -
  have "is_letter CHR ''N''" "takeWhile name_char ''Name'' = ''Name''" "dropWhile name_char ''Name'' = []"
    "to_lower ''Name'' = ''name''" "to_upper ''Name'' = ''NAME''" "first_rune [] = (replacement_char, 0)"
    by code_simp+
  then show ?thesis by (simp add: fill_text_def fill_value_def)
qed

text \<open>The digits of a number said in a language are the number's own.\<close>

lemma grouped_digits_own:
  assumes "list_all (\<lambda>c. \<not> is_digit c) g"
  shows "list_all is_digit ds \<Longrightarrow> filter is_digit (grouped_digits g ds started) = ds"
proof -
  have none: "filter is_digit g = []" using assms by (simp add: list_all_iff filter_empty_conv)
  show "list_all is_digit ds \<Longrightarrow> filter is_digit (grouped_digits g ds started) = ds"
    by (induction ds arbitrary: started) (simp_all add: none)
qed

lemma filter_digits: "list_all is_digit ds \<Longrightarrow> filter is_digit ds = ds"
  by (simp add: list_all_iff)

lemma number_groups_no_digits: "list_all (\<lambda>c. \<not> is_digit c) (nm_group (numbers_of l))"
proof -
  have groups: "list_all (\<lambda>r. list_all (\<lambda>c. \<not> is_digit c) (nm_group r)) (map snd number_rules)" by code_simp
  show ?thesis
  proof (cases "rule_of number_rules l")
    case None
    then show ?thesis by (simp add: numbers_of_def is_digit_def)
  next
    case (Some r)
    then show ?thesis using groups rule_of_mem [OF Some] by (auto simp: numbers_of_def list_all_iff)
  qed
qed

lemma number_says_its_digits:
  assumes "0 \<le> n"
  shows "filter is_digit (number_text w n) = nat_digits (nat n)"
proof -
  let ?ds = "nat_digits (nat n)"
  have ds: "list_all is_digit ?ds" "?ds \<noteq> []" using nat_digits_props [of "nat n"] by auto
  then have "is_digit (hd ?ds)" by (cases ?ds) auto
  then have "hd ?ds \<noteq> CHR ''-''" "hd ?ds \<noteq> CHR ''+''" using not_digit_sign by auto
  with ds number_groups_no_digits [of "wd_locale w"] assms show ?thesis
    by (simp add: number_text_def itoa_def grouped_def grouped_digits_own filter_digits)
qed

end
