(* ===== verification/Paginate.thy ===== *)
theory Paginate
  imports Urls Inertia_Props "HOL-Library.List_Lexorder" "HOL-Library.Char_ord"
begin

text \<open>
  Pages of a list (paginate.go): numbered pages of a list that is counted, or of one that is not, and pages by cursor;
  their links, and the pager. The list itself is the app's: its count and its fetch are parameters, as its cursors'
  JSON is. Last, what a client reads that follows the links, for the three of them at once.
\<close>

section \<open>A request's query, and the links made of it\<close>

text \<open>\<open>url.Values.Encode\<close>: the names sorted, the values of each in their order.\<close>

definition values_list :: "url_values \<Rightarrow> (string \<times> string) list" where
  "values_list q = concat (map (\<lambda>k. map (Pair k) (case lookup q k of None \<Rightarrow> [] | Some vs \<Rightarrow> vs)) (sort (map fst q)))"

definition values_encode :: "url_values \<Rightarrow> string" where
  "values_encode q = query_encode (values_list q)"

text \<open>A request to a page: its escaped path and its raw query.\<close>

record page_request =
  pq_path :: string
  pq_raw :: string

definition ctx_query :: "page_request \<Rightarrow> string \<Rightarrow> string" where
  "ctx_query r name = q_get name (parse_query (pq_raw r))"

definition page_number :: "page_request \<Rightarrow> string \<Rightarrow> int" where
  "page_number r name = (case atoi (ctx_query r name) of None \<Rightarrow> 1 | Some n \<Rightarrow> if n < 1 then 1 else n)"

definition page_links_to :: "page_request \<Rightarrow> string \<Rightarrow> string \<Rightarrow> string" where
  "page_links_to r name v = pq_path r @ ''?'' @ values_encode (put name [v] (parse_query (pq_raw r)))"

definition page_links :: "page_request \<Rightarrow> string \<Rightarrow> int \<Rightarrow> string" where
  "page_links r name n = page_links_to r name (itoa n)"

section \<open>The pager\<close>

record page_link =
  pl_url :: "string option"
  pl_label :: string
  pl_active :: bool

definition pager_side :: int where "pager_side = 3"

definition pager_window :: int where "pager_window = 3 + 4"

text \<open>The pages the pager links, 0 for its dots.\<close>

definition window_pages :: "int \<Rightarrow> int \<Rightarrow> int list" where
  "window_pages n last_page =
     (if last_page < pager_side * 2 + 8 then [1..last_page]
      else if n \<le> pager_window then [1..pager_window + pager_side] @ 0 # [last_page - 1..last_page]
      else if last_page - pager_window < n then [1..2] @ 0 # [last_page - (pager_window + pager_side - 1)..last_page]
      else [1..2] @ 0 # [n - pager_side..n + pager_side] @ 0 # [last_page - 1..last_page])"

definition page_window :: "int \<Rightarrow> int \<Rightarrow> (int \<Rightarrow> string) \<Rightarrow> page_link list" where
  "page_window n last_page link =
     map (\<lambda>k. if k = 0 then \<lparr>pl_url = None, pl_label = ''...'', pl_active = False\<rparr>
              else \<lparr>pl_url = Some (link k), pl_label = itoa k, pl_active = k = n\<rparr>)
       (window_pages n last_page)"

section \<open>The pages\<close>

text \<open>What stops a page: the panic of a page with no items, or an error of the app's, or of a cursor's JSON.\<close>

datatype page_error = Page_size_panic int | Page_error string | Cursor_json

text \<open>The name PageName's options leave: the last.\<close>

definition page_name_of :: "string list \<Rightarrow> string \<Rightarrow> string" where
  "page_name_of opts name = foldl (\<lambda>_ o_name. o_name) name opts"

definition page_options_of :: "string list \<Rightarrow> string \<Rightarrow> int \<Rightarrow> page_error + string" where
  "page_options_of opts name per = (if per < 1 then Inl (Page_size_panic per) else Inr (page_name_of opts name))"

definition span_of :: "'a list \<Rightarrow> int \<Rightarrow> int \<Rightarrow> 'a list \<times> int option \<times> int option" where
  "span_of xs n per =
     (if xs = [] then (xs, None, None)
      else let first = wrap64 (wrap64 ((n - 1) * per) + 1)
           in (xs, Some first, Some (wrap64 (wrap64 (first + int (length xs)) - 1))))"

record 'a paginated =
  pd_current :: int
  pd_data :: "'a list"
  pd_first_url :: string
  pd_from :: "int option"
  pd_last :: int
  pd_last_url :: string
  pd_links :: "page_link list"
  pd_next_url :: "string option"
  pd_path :: string
  pd_per_page :: int
  pd_prev_url :: "string option"
  pd_to :: "int option"
  pd_total :: int
  pd_name :: string

definition last_page_of :: "int \<Rightarrow> int \<Rightarrow> int" where
  "last_page_of tot per = max (go_div (wrap64 (wrap64 (tot + per) - 1)) per) 1"

definition paginate ::
  "page_request \<Rightarrow> int \<Rightarrow> (string + int) \<Rightarrow> (int \<Rightarrow> int \<Rightarrow> string + 'a list) \<Rightarrow> string list \<Rightarrow>
   page_error + 'a paginated" where
  "paginate r per count fetch opts =
     (case page_options_of opts ''page'' per of
        Inl e \<Rightarrow> Inl e
      | Inr name \<Rightarrow>
          (case count of
             Inl e \<Rightarrow> Inl (Page_error e)
           | Inr counted \<Rightarrow>
               let tot = max counted 0; n = page_number r name; last_page = last_page_of tot per
               in case (if 0 < tot \<and> n \<le> last_page then fetch per (wrap64 ((n - 1) * per)) else Inr []) of
                    Inl e \<Rightarrow> Inl (Page_error e)
                  | Inr fetched \<Rightarrow>
                      (case span_of (take (nat per) fetched) n per of
                         (xs, first, final) \<Rightarrow>
                           let link = page_links r name
                           in Inr \<lparr>pd_current = n, pd_data = xs, pd_first_url = link 1, pd_from = first,
                                pd_last = last_page, pd_last_url = link last_page, pd_links = page_window n last_page link,
                                pd_next_url = (if n < last_page then Some (link (n + 1)) else None), pd_path = pq_path r,
                                pd_per_page = per, pd_prev_url = (if 1 < n then Some (link (n - 1)) else None),
                                pd_to = final, pd_total = tot, pd_name = name\<rparr>)))"

definition paginated_paging :: "'a paginated \<Rightarrow> paging" where
  "paginated_paging p = (page_numbers (pd_current p) (pd_current p < pd_last p))\<lparr>pg_name := pd_name p\<rparr>"

record 'a simple_paginated =
  sp_current :: int
  sp_current_url :: string
  sp_data :: "'a list"
  sp_first_url :: string
  sp_from :: "int option"
  sp_next_url :: "string option"
  sp_path :: string
  sp_per_page :: int
  sp_prev_url :: "string option"
  sp_to :: "int option"
  sp_name :: string

definition simple_paginate ::
  "page_request \<Rightarrow> int \<Rightarrow> (int \<Rightarrow> int \<Rightarrow> string + 'a list) \<Rightarrow> string list \<Rightarrow> page_error + 'a simple_paginated" where
  "simple_paginate r per fetch opts =
     (case page_options_of opts ''page'' per of
        Inl e \<Rightarrow> Inl e
      | Inr name \<Rightarrow>
          let n = page_number r name
          in case (if n - 1 \<le> go_div (max_int - per - 1) per then fetch (wrap64 (per + 1)) (wrap64 ((n - 1) * per))
                   else Inr []) of
               Inl e \<Rightarrow> Inl (Page_error e)
             | Inr fetched \<Rightarrow>
                 (case span_of (take (nat per) fetched) n per of
                    (xs, first, final) \<Rightarrow>
                      let link = page_links r name
                      in Inr \<lparr>sp_current = n, sp_current_url = link n, sp_data = xs, sp_first_url = link 1,
                           sp_from = first, sp_next_url = (if per < int (length fetched) then Some (link (wrap64 (n + 1))) else None),
                           sp_path = pq_path r, sp_per_page = per, sp_prev_url = (if 1 < n then Some (link (n - 1)) else None),
                           sp_to = final, sp_name = name\<rparr>))"

definition simple_paging :: "'a simple_paginated \<Rightarrow> paging" where
  "simple_paging p = (page_numbers (sp_current p) (sp_next_url p \<noteq> None))\<lparr>pg_name := sp_name p\<rparr>"

record 'a cursor_paginated =
  cp_data :: "'a list"
  cp_path :: string
  cp_per_page :: int
  cp_next_cursor :: "string option"
  cp_next_url :: "string option"
  cp_name :: string
  cp_current :: string

text \<open>The cursor a request asks for: none for one that does not decode.\<close>

definition asked_cursor :: "(string \<Rightarrow> 'c option) \<Rightarrow> string \<Rightarrow> 'c option" where
  "asked_cursor of_json raw =
     (if raw = [] then None else case b64_decode raw of None \<Rightarrow> None | Some data \<Rightarrow> of_json data)"

definition cursor_paginate ::
  "('c \<Rightarrow> string option) \<Rightarrow> (string \<Rightarrow> 'c option) \<Rightarrow> page_request \<Rightarrow> int \<Rightarrow>
   ('c option \<Rightarrow> int \<Rightarrow> string + 'a list) \<Rightarrow> ('a \<Rightarrow> 'c) \<Rightarrow> string list \<Rightarrow> page_error + 'a cursor_paginated" where
  "cursor_paginate to_json of_json r per fetch cursor opts =
     (case page_options_of opts ''cursor'' per of
        Inl e \<Rightarrow> Inl e
      | Inr name \<Rightarrow>
          let raw = ctx_query r name; after = asked_cursor of_json raw
          in case fetch after (wrap64 (per + 1)) of
               Inl e \<Rightarrow> Inl (Page_error e)
             | Inr fetched \<Rightarrow>
                 let xs = take (nat per) fetched;
                     p = \<lparr>cp_data = xs, cp_path = pq_path r, cp_per_page = per, cp_next_cursor = None, cp_next_url = None,
                          cp_name = name, cp_current = (if after = None then [] else raw)\<rparr>
                 in if int (length fetched) \<le> per then Inr p
                    else case to_json (cursor (xs ! (length xs - 1))) of
                           None \<Rightarrow> Inl Cursor_json
                         | Some data \<Rightarrow>
                             let following = b64_encode data
                             in Inr (p\<lparr>cp_next_cursor := Some following, cp_next_url := Some (page_links_to r name following)\<rparr>))"

definition cursor_paging :: "'a cursor_paginated \<Rightarrow> paging" where
  "cursor_paging p =
     \<lparr>pg_name = cp_name p, pg_previous = No_page,
      pg_next = (case cp_next_cursor p of None \<Rightarrow> No_page | Some s \<Rightarrow> Cursor s),
      pg_current = (if cp_current p = [] then No_page else Cursor (cp_current p))\<rparr>"

section \<open>Links read back\<close>

lemma add_value_lookup:
  "lookup (add_value k' v m) k =
     (if k = k' then Some ((case lookup m k of None \<Rightarrow> [] | Some ws \<Rightarrow> ws) @ [v]) else lookup m k)"
  by (simp add: add_value_def)

lemma fold_add_value:
  "lookup (foldl (\<lambda>m (k, v). add_value k v m) m ps) k =
     (case map snd (filter (\<lambda>p. fst p = k) ps) of
        [] \<Rightarrow> lookup m k
      | vs \<Rightarrow> Some ((case lookup m k of None \<Rightarrow> [] | Some ws \<Rightarrow> ws) @ vs))"
proof (induction ps arbitrary: m)
  case Nil
  then show ?case by simp
next
  case (Cons p ps)
  obtain k' v where p: "p = (k', v)" by fastforce
  show ?case
    by (cases "map snd (filter (\<lambda>p. fst p = k) ps)") (auto simp: p Cons.IH add_value_lookup split: option.splits list.splits)
qed

lemma gomap_ok_read_part: "gomap_ok q \<Longrightarrow> gomap_ok (read_part q w)"
  by (auto simp: read_part_def add_value_def split: prod.splits option.splits)

lemma gomap_ok_parse_query [simp]: "gomap_ok (parse_query s)"
proof -
  have "gomap_ok q \<Longrightarrow> gomap_ok (foldl read_part q ws)" for q ws
    by (induction ws arbitrary: q) (simp_all add: gomap_ok_read_part)
  then show ?thesis by (simp add: parse_query_parts)
qed

lemma pairs_of_key:
  "distinct ks \<Longrightarrow>
     map snd (filter (\<lambda>p. fst p = k) (concat (map (\<lambda>k. map (Pair k) (vs k)) ks))) = (if k \<in> set ks then vs k else [])"
proof (induction ks)
  case Nil
  then show ?case by simp
next
  case (Cons k' ks)
  have "filter (\<lambda>p. fst p = k) (map (Pair k') (vs k')) = (if k = k' then map (Pair k') (vs k') else [])"
    by (auto simp: filter_empty_conv intro: filter_True)
  with Cons show ?case by (auto simp: comp_def)
qed

lemma values_list_of:
  assumes "gomap_ok q"
  shows "map snd (filter (\<lambda>p. fst p = k) (values_list q)) = (case lookup q k of None \<Rightarrow> [] | Some vs \<Rightarrow> vs)"
proof -
  have "distinct (sort (map fst q))" using assms by simp
  note pairs = pairs_of_key [OF this, of k "\<lambda>k. case lookup q k of None \<Rightarrow> [] | Some vs \<Rightarrow> vs"]
  have "lookup q k = None \<longleftrightarrow> k \<notin> set (sort (map fst q))" by (simp add: map_of_eq_None_iff)
  then show ?thesis unfolding values_list_def pairs by (auto split: option.splits)
qed

text \<open>What is encoded reads back: the same values of each name that has any.\<close>

lemma parse_values_encode:
  assumes "gomap_ok q"
  shows "lookup (parse_query (values_encode q)) k = (case lookup q k of Some (v # vs) \<Rightarrow> Some (v # vs) | _ \<Rightarrow> None)"
proof -
  have "parse_query (values_encode q) = foldl (\<lambda>m (k, v). add_value k v m) [] (values_list q)"
  proof (cases "values_list q = []")
    case True
    then show ?thesis by (simp add: values_encode_def query_encode_def parse_query_def)
  next
    case False
    then show ?thesis unfolding values_encode_def by (rule parse_query_encode)
  qed
  then show ?thesis
    using values_list_of [OF assms, of k]
    by (auto simp: fold_add_value split: option.splits list.splits)
qed

text \<open>The request a client makes of a link on the same app.\<close>

definition request_of :: "string \<Rightarrow> page_request" where
  "request_of link = (case cut CHR ''?'' link of (path, raw, _) \<Rightarrow> \<lparr>pq_path = path, pq_raw = raw\<rparr>)"

lemma request_of_link:
  assumes "CHR ''?'' \<notin> set (pq_path r)"
  shows "pq_path (request_of (page_links_to r name v)) = pq_path r"
    and "ctx_query (request_of (page_links_to r name v)) k = (if k = name then v else ctx_query r k)"
proof -
  have link: "request_of (page_links_to r name v) =
      \<lparr>pq_path = pq_path r, pq_raw = values_encode (put name [v] (parse_query (pq_raw r)))\<rparr>"
    using cut_found [OF assms] by (simp add: request_of_def page_links_to_def)
  show "pq_path (request_of (page_links_to r name v)) = pq_path r" by (simp add: link)
  have "lookup (parse_query (values_encode (put name [v] (parse_query (pq_raw r))))) k =
      (case lookup (put name [v] (parse_query (pq_raw r))) k of Some (v # vs) \<Rightarrow> Some (v # vs) | _ \<Rightarrow> None)"
    by (rule parse_values_encode) simp
  then show "ctx_query (request_of (page_links_to r name v)) k = (if k = name then v else ctx_query r k)"
    by (simp add: link ctx_query_def q_get_def split: option.splits list.splits)
qed

lemma page_number_of_link:
  assumes "CHR ''?'' \<notin> set (pq_path r)" and "1 \<le> n" and "in_int64 n"
  shows "page_number (request_of (page_links r name n)) name = n"
  using assms(2) by (simp add: page_number_def page_links_def request_of_link(2) [OF assms(1)] atoi_itoa [OF assms(3)])

section \<open>Following the links\<close>

text \<open>A client that reads a page, and the ones its link to the next leads to, as far as the fuel goes.\<close>

fun browse :: "(page_request \<Rightarrow> ('a list \<times> string option) option) \<Rightarrow> nat \<Rightarrow> page_request \<Rightarrow> 'a list option" where
  "browse show_page 0 r = None"
| "browse show_page (Suc fuel) r =
     (case show_page r of
        None \<Rightarrow> None
      | Some (xs, None) \<Rightarrow> Some xs
      | Some (xs, Some link) \<Rightarrow> map_option ((@) xs) (browse show_page fuel (request_of link)))"

text \<open>
  What the three kinds of page promise a client that follows the link to the next page: from the request that starts at
  an item, a page's worth of items, and a link that starts after them as long as there are more.
\<close>

locale pages =
  fixes show_page :: "page_request \<Rightarrow> ('a list \<times> string option) option"
    and starts_at :: "page_request \<Rightarrow> nat \<Rightarrow> bool"
    and items :: "'a list"
    and per :: nat
  assumes page_of_items: "starts_at r k \<Longrightarrow> \<exists>following. show_page r = Some (take per (drop k items), following) \<and>
      (if k + per < length items then \<exists>link. following = Some link \<and> starts_at (request_of link) (k + per)
       else following = None)"
begin

lemma browse_reads_the_rest:
  "starts_at r k \<Longrightarrow> length items \<le> k + per * fuel \<Longrightarrow> browse show_page (Suc fuel) r = Some (drop k items)"
proof (induction fuel arbitrary: r k)
  case 0
  then obtain following where "show_page r = Some (take per (drop k items), following)" "following = None"
    using page_of_items [OF 0(1)] by auto
  with 0 show ?case by simp
next
  case (Suc fuel)
  obtain following where shown: "show_page r = Some (take per (drop k items), following)" and
    following: "if k + per < length items then \<exists>link. following = Some link \<and> starts_at (request_of link) (k + per)
       else following = None"
    using page_of_items [OF Suc.prems(1)] by blast
  show ?case
  proof (cases "k + per < length items")
    case False
    with shown following show ?thesis by simp
  next
    case True
    with following obtain link where link: "following = Some link" "starts_at (request_of link) (k + per)" by auto
    have "browse show_page (Suc fuel) (request_of link) = Some (drop (k + per) items)"
      using Suc.IH [OF link(2)] Suc.prems(2) by (simp add: algebra_simps)
    moreover have "take per (drop k items) @ drop (k + per) items = drop k items"
      using append_take_drop_id [of per "drop k items"] by (simp add: add.commute)
    ultimately show ?thesis using shown link(1) by (simp del: browse.simps add: browse.simps(2) [of _ "Suc fuel"])
  qed
qed

end

text \<open>The app's list, as its queries have it: a slice of it, its count, and the items after the one at a cursor.\<close>

definition slice_of :: "'a list \<Rightarrow> int \<Rightarrow> int \<Rightarrow> string + 'a list" where
  "slice_of xs limit offset = Inr (take (nat limit) (drop (nat offset) xs))"

definition slice_after :: "('a \<Rightarrow> 'c) \<Rightarrow> 'a list \<Rightarrow> 'c option \<Rightarrow> int \<Rightarrow> string + 'a list" where
  "slice_after cursor xs after limit =
     Inr (take (nat limit)
       (case after of None \<Rightarrow> xs | Some c \<Rightarrow> drop 1 (dropWhile (\<lambda>x. cursor x \<noteq> c) xs)))"

definition counted_page :: "int \<Rightarrow> string list \<Rightarrow> 'a list \<Rightarrow> page_request \<Rightarrow> ('a list \<times> string option) option" where
  "counted_page per opts xs r =
     (case paginate r per (Inr (int (length xs))) (slice_of xs) opts of
        Inl e \<Rightarrow> None
      | Inr p \<Rightarrow> Some (pd_data p, pd_next_url p))"

definition uncounted_page :: "int \<Rightarrow> string list \<Rightarrow> 'a list \<Rightarrow> page_request \<Rightarrow> ('a list \<times> string option) option" where
  "uncounted_page per opts xs r =
     (case simple_paginate r per (slice_of xs) opts of Inl e \<Rightarrow> None | Inr p \<Rightarrow> Some (sp_data p, sp_next_url p))"

definition cursor_page ::
  "('c \<Rightarrow> string option) \<Rightarrow> (string \<Rightarrow> 'c option) \<Rightarrow> ('a \<Rightarrow> 'c) \<Rightarrow> int \<Rightarrow> string list \<Rightarrow> 'a list \<Rightarrow> page_request \<Rightarrow>
   ('a list \<times> string option) option" where
  "cursor_page to_json of_json cursor per opts xs r =
     (case cursor_paginate to_json of_json r per (slice_after cursor xs) cursor opts of
        Inl e \<Rightarrow> None
      | Inr p \<Rightarrow> Some (cp_data p, cp_next_url p))"

text \<open>A page has an item, the list and a page fit an int, and the request's path is an escaped one.\<close>

definition pageable :: "int \<Rightarrow> 'a list \<Rightarrow> page_request \<Rightarrow> bool" where
  "pageable per xs r \<longleftrightarrow> 0 < per \<and> int (length xs) + 2 * per < max_int \<and> CHR ''?'' \<notin> set (pq_path r)"

definition number_starts :: "int \<Rightarrow> string list \<Rightarrow> 'a list \<Rightarrow> page_request \<Rightarrow> nat \<Rightarrow> bool" where
  "number_starts per opts xs r k \<longleftrightarrow>
     pageable per xs r \<and> int k = (page_number r (page_name_of opts ''page'') - 1) * per \<and>
     (k = 0 \<or> k < length xs)"

lemma page_number_pos: "1 \<le> page_number r name"
  by (simp add: page_number_def split: option.splits)

lemma span_data: "\<exists>a b. span_of xs n per = (xs, a, b)"
  by (simp add: span_of_def Let_def)

lemma page_options_ok: "0 < per \<Longrightarrow> page_options_of opts name per = Inr (page_name_of opts name)"
  by (simp add: page_options_of_def)

lemma pageable_wraps:
  assumes "pageable per xs r" and "0 \<le> k" and "k \<le> int (length xs)"
  shows "in_int64 k" "in_int64 (k + per)" "wrap64 (int (length xs) + per) = int (length xs) + per"
    "wrap64 (per + 1) = per + 1" "wrap64 (int (length xs) + per - 1) = int (length xs) + per - 1"
  using assms by (auto simp: pageable_def max_int_def in_int64_def intro!: wrap64_id)

lemma le_div_iff:
  fixes n m per :: int
  assumes "0 < per"
  shows "n \<le> m div per \<longleftrightarrow> n * per \<le> m"
proof
  assume "n \<le> m div per"
  then have "n * per \<le> m div per * per" using assms by simp
  also have "\<dots> \<le> m" using assms pos_mod_sign [of per m] minus_mod_eq_div_mult [of m per] by linarith
  finally show "n * per \<le> m" .
next
  assume "n * per \<le> m"
  then have "n * per div per \<le> m div per" using assms by (intro zdiv_mono1)
  then show "n \<le> m div per" using assms by simp
qed

text \<open>The last page has the last item.\<close>

lemma last_page_covers:
  assumes "pageable per xs r" and "1 \<le> n"
  shows "n \<le> last_page_of (int (length xs)) per \<longleftrightarrow> n = 1 \<or> (n - 1) * per < int (length xs)"
proof -
  have per: "0 < per" using assms(1) by (simp add: pageable_def)
  let ?t = "int (length xs)"
  have last_page: "last_page_of ?t per = max ((?t + per - 1) div per) 1"
    using per pageable_wraps [OF assms(1), of 0] by (simp add: last_page_of_def)
  have "n \<le> (?t + per - 1) div per \<longleftrightarrow> n * per \<le> ?t + per - 1" by (rule le_div_iff [OF per])
  then show ?thesis unfolding last_page using assms(2) per by (auto simp: algebra_simps)
qed

text \<open>The numbered page an item starts, and the one after it.\<close>

lemma number_starts_facts:
  assumes "number_starts per opts xs r k"
  defines "n \<equiv> page_number r (page_name_of opts ''page'')"
  shows "(n - 1) * per = int k" "1 \<le> n" "0 < per" "int k \<le> int (length xs)" "in_int64 (int k)" "in_int64 (n + 1)"
    "n * per = int k + per"
proof -
  have k: "int k = (n - 1) * per" "0 < per" "k = 0 \<or> k < length xs" "int (length xs) + 2 * per < max_int"
    using assms by (auto simp: number_starts_def pageable_def)
  show "(n - 1) * per = int k" "0 < per" "int k \<le> int (length xs)" using k by auto
  show n: "1 \<le> n" unfolding n_def by (rule page_number_pos)
  show "in_int64 (int k)" using k by (auto simp: in_int64_def max_int_def)
  have "(n - 1) * 1 \<le> (n - 1) * per" using n k(2) by (intro mult_left_mono) auto
  then show "in_int64 (n + 1)" using k n by (auto simp: in_int64_def max_int_def)
  show "n * per = int k + per" using k(1) by (simp add: algebra_simps)
qed

lemma next_number_starts:
  assumes "number_starts per opts xs r k" and "k + nat per < length xs"
  shows "number_starts per opts xs
     (request_of (page_links r (page_name_of opts ''page'') (page_number r (page_name_of opts ''page'') + 1))) (k + nat per)"
proof -
  note facts = number_starts_facts [OF assms(1)]
  have path: "CHR ''?'' \<notin> set (pq_path r)" using assms(1) by (simp add: number_starts_def pageable_def)
  have "page_number (request_of (page_links r (page_name_of opts ''page'') (page_number r (page_name_of opts ''page'') + 1)))
      (page_name_of opts ''page'') = page_number r (page_name_of opts ''page'') + 1"
    using facts(2,6) by (intro page_number_of_link [OF path]) simp_all
  moreover have "pq_path (request_of (page_links r (page_name_of opts ''page'') m)) = pq_path r" for m
    by (simp add: page_links_def request_of_link(1) [OF path])
  ultimately show ?thesis using assms facts by (simp add: number_starts_def pageable_def algebra_simps)
qed

lemma counted_page_of_items:
  assumes "number_starts per opts xs r k"
  shows "counted_page per opts xs r =
    Some (take (nat per) (drop k xs),
      if k + nat per < length xs
      then Some (page_links r (page_name_of opts ''page'') (page_number r (page_name_of opts ''page'') + 1)) else None)"
proof -
  note facts = number_starts_facts [OF assms]
  let ?n = "page_number r (page_name_of opts ''page'')"
  have ok: "pageable per xs r" and k: "k = 0 \<or> k < length xs" using assms by (auto simp: number_starts_def)
  have here: "?n \<le> last_page_of (int (length xs)) per"
    using last_page_covers [OF ok facts(2)] facts(1,3) k by auto
  have after: "?n < last_page_of (int (length xs)) per \<longleftrightarrow> k + nat per < length xs"
  proof -
    have "?n + 1 \<le> last_page_of (int (length xs)) per \<longleftrightarrow> ?n + 1 = 1 \<or> int k + per < int (length xs)"
      using last_page_covers [OF ok, of "?n + 1"] facts(2) by (simp only: add_diff_cancel_right' facts(7))
    then show ?thesis using facts(2,3) by auto
  qed
  obtain a b where span: "span_of (take (nat per) (take (nat per) (drop k xs))) ?n per = (take (nat per) (drop k xs), a, b)"
    using span_data [of "take (nat per) (drop k xs)" ?n per] by auto
  show ?thesis
  proof (cases "xs = []")
    case True
    with after k show ?thesis
      using facts(3) by (simp add: counted_page_def paginate_def page_options_ok Let_def span_of_def)
  next
    case False
    then have some: "0 < int (length xs)" by simp
    have offset: "wrap64 ((?n - 1) * per) = int k" unfolding facts(1) by (rule wrap64_id [OF facts(5)])
    show ?thesis unfolding counted_page_def paginate_def page_options_ok [OF facts(3)]
      using span by (simp only: Let_def sum.case max.absorb1 of_nat_0_le_iff some here after offset slice_of_def nat_int
          simp_thms if_True paginated.simps prod.case)
  qed
qed

lemma uncounted_page_of_items:
  assumes "number_starts per opts xs r k"
  shows "uncounted_page per opts xs r =
    Some (take (nat per) (drop k xs),
      if k + nat per < length xs
      then Some (page_links r (page_name_of opts ''page'') (page_number r (page_name_of opts ''page'') + 1)) else None)"
proof -
  note facts = number_starts_facts [OF assms]
  let ?n = "page_number r (page_name_of opts ''page'')"
  have ok: "pageable per xs r" using assms by (auto simp: number_starts_def)
  have size_of: "int (length xs) + 2 * per < max_int" using ok by (simp add: pageable_def)
  then have "0 \<le> max_int - per - 1" "int k \<le> max_int - per - 1" using facts(3,4) by linarith+
  moreover from this(2) have "?n - 1 \<le> (max_int - per - 1) div per" by (simp only: le_div_iff [OF facts(3)] facts(1))
  ultimately have near: "?n - 1 \<le> go_div (max_int - per - 1) per" using facts(3) by simp
  have offset: "wrap64 ((?n - 1) * per) = int k" unfolding facts(1) by (rule wrap64_id [OF facts(5)])
  have next_page: "wrap64 (?n + 1) = ?n + 1" by (rule wrap64_id [OF facts(6)])
  have wraps: "wrap64 (per + 1) = per + 1" using pageable_wraps [OF ok, of 0] by simp
  have more: "per < int (length (take (nat (per + 1)) (drop k xs))) \<longleftrightarrow> k + nat per < length xs"
    using facts(3) by auto
  have "take (nat per) (take (nat (per + 1)) (drop k xs)) = take (nat per) (drop k xs)" using facts(3) by (simp add: min_def)
  then obtain a b where span: "span_of (take (nat per) (take (nat (per + 1)) (drop k xs))) ?n per = (take (nat per) (drop k xs), a, b)"
    using span_data [of "take (nat per) (drop k xs)" ?n per] by auto
  show ?thesis
    unfolding uncounted_page_def simple_paginate_def page_options_ok [OF facts(3)]
    using span by (simp only: Let_def sum.case near offset wraps more slice_of_def nat_int next_page
        simp_thms if_True simple_paginated.simps prod.case)
qed

interpretation counted: pages "counted_page per opts xs" "number_starts per opts xs" xs "nat per" for per opts xs
  by unfold_locales (auto simp: counted_page_of_items next_number_starts)

interpretation uncounted: pages "uncounted_page per opts xs" "number_starts per opts xs" xs "nat per" for per opts xs
  by unfold_locales (auto simp: uncounted_page_of_items next_number_starts)

text \<open>A cursor of an item goes out as JSON, which is never empty, and reads back as it was.\<close>

definition cursor_codec :: "('c \<Rightarrow> string option) \<Rightarrow> (string \<Rightarrow> 'c option) \<Rightarrow> 'c \<Rightarrow> bool" where
  "cursor_codec to_json of_json c \<longleftrightarrow> (case to_json c of None \<Rightarrow> False | Some data \<Rightarrow> data \<noteq> [] \<and> of_json data = Some c)"

definition cursor_starts ::
  "('c \<Rightarrow> string option) \<Rightarrow> (string \<Rightarrow> 'c option) \<Rightarrow> ('a \<Rightarrow> 'c) \<Rightarrow> int \<Rightarrow> string list \<Rightarrow> 'a list \<Rightarrow> page_request \<Rightarrow> nat \<Rightarrow>
   bool" where
  "cursor_starts to_json of_json cursor per opts xs r k \<longleftrightarrow>
     pageable per xs r \<and> distinct (map cursor xs) \<and> list_all (\<lambda>x. cursor_codec to_json of_json (cursor x)) xs \<and>
     asked_cursor of_json (ctx_query r (page_name_of opts ''cursor'')) = (if k = 0 then None else Some (cursor (xs ! (k - 1)))) \<and>
     (k = 0 \<or> k < length xs)"

lemma dropWhile_to:
  "distinct (map f xs) \<Longrightarrow> j < length xs \<Longrightarrow> dropWhile (\<lambda>x. f x \<noteq> f (xs ! j)) xs = drop j xs"
proof (induction xs arbitrary: j)
  case Nil
  then show ?case by simp
next
  case (Cons x xs)
  then show ?case by (cases j) auto
qed

lemma slice_after_start:
  assumes "distinct (map cursor xs)" and "k = 0 \<or> k < length xs"
  shows "slice_after cursor xs (if k = 0 then None else Some (cursor (xs ! (k - 1)))) limit = Inr (take (nat limit) (drop k xs))"
proof (cases "k = 0")
  case False
  then have "dropWhile (\<lambda>x. cursor x \<noteq> cursor (xs ! (k - 1))) xs = drop (k - 1) xs"
    using assms by (intro dropWhile_to) auto
  with False show ?thesis by (simp add: slice_after_def)
qed (simp add: slice_after_def)

lemma asked_cursor_of_data:
  "data \<noteq> [] \<Longrightarrow> asked_cursor of_json (b64_encode data) = of_json data"
proof -
  assume "data \<noteq> []"
  then have "0 < length data" by simp
  then have "0 < length (b64_encode data)" unfolding b64_length by linarith
  then show ?thesis by (auto simp: asked_cursor_def)
qed

lemma cursor_page_of_items:
  assumes "cursor_starts to_json of_json cursor per opts xs r k"
  defines "name \<equiv> page_name_of opts ''cursor''"
  shows "\<exists>following. cursor_page to_json of_json cursor per opts xs r = Some (take (nat per) (drop k xs), following) \<and>
    (if k + nat per < length xs
     then \<exists>link. following = Some link \<and> cursor_starts to_json of_json cursor per opts xs (request_of link) (k + nat per)
     else following = None)"
proof -
  have ok: "pageable per xs r" "distinct (map cursor xs)" "list_all (\<lambda>x. cursor_codec to_json of_json (cursor x)) xs"
    "k = 0 \<or> k < length xs" and per: "0 < per" and path: "CHR ''?'' \<notin> set (pq_path r)"
    and asked: "asked_cursor of_json (ctx_query r name) = (if k = 0 then None else Some (cursor (xs ! (k - 1))))"
    using assms by (auto simp: cursor_starts_def pageable_def)
  have fetched: "slice_after cursor xs (asked_cursor of_json (ctx_query r name)) (wrap64 (per + 1)) =
      Inr (take (nat (per + 1)) (drop k xs))"
    using pageable_wraps [OF ok(1), of 0] slice_after_start [OF ok(2,4), of "per + 1"] by (simp add: asked)
  have firsts: "take (nat per) (take (nat (per + 1)) (drop k xs)) = take (nat per) (drop k xs)" using per by (simp add: min_def)
  have further: "int (length (take (nat (per + 1)) (drop k xs))) \<le> per \<longleftrightarrow> \<not> k + nat per < length xs" using per by auto
  note page = cursor_page_def cursor_paginate_def page_options_ok [OF per] name_def [symmetric] Let_def sum.case fetched firsts further
  show ?thesis
  proof (cases "k + nat per < length xs")
    case False
    then show ?thesis unfolding page by simp
  next
    case True
    let ?xs = "take (nat per) (drop k xs)"
    have "length ?xs = nat per" using True by simp
    then have final: "?xs ! (length ?xs - 1) = xs ! (k + nat per - 1)" using True per by simp
    have "xs ! (k + nat per - 1) \<in> set xs" using True by (intro nth_mem) linarith
    then obtain data where data: "to_json (cursor (xs ! (k + nat per - 1))) = Some data" "data \<noteq> []"
      "of_json data = Some (cursor (xs ! (k + nat per - 1)))"
      using ok(3) by (auto simp: list_all_iff cursor_codec_def split: option.splits)
    let ?link = "page_links_to r name (b64_encode data)"
    have "cursor_page to_json of_json cursor per opts xs r = Some (?xs, Some ?link)"
      unfolding page final data(1) using True by simp
    moreover have "cursor_starts to_json of_json cursor per opts xs (request_of ?link) (k + nat per)"
      using ok True per request_of_link [OF path, of name "b64_encode data"] asked_cursor_of_data [OF data(2), of of_json] data(3)
      by (simp add: cursor_starts_def pageable_def name_def [symmetric])
    ultimately show ?thesis using True by auto
  qed
qed

interpretation by_cursor: pages "cursor_page to_json of_json cursor per opts xs"
  "cursor_starts to_json of_json cursor per opts xs" xs "nat per" for to_json of_json cursor per opts xs
  by unfold_locales (rule cursor_page_of_items)

text \<open>
  C20. Following the next links reads the whole list. Of a list of an app's, shown a page at a time by Paginate, by
  SimplePaginate or by CursorPaginate, with whatever else its requests' queries say, a client that reads the first page
  and then each page its next link leads to reads every item once, in the list's order, and then finds no link.
\<close>

theorem following_next_reads_the_whole_list:
  assumes "pageable per xs r" and "length xs \<le> nat per * fuel"
    and "page_number r (page_name_of opts ''page'') = 1"
    and "asked_cursor of_json (ctx_query r (page_name_of opts ''cursor'')) = None"
    and "distinct (map cursor xs)" and "list_all (\<lambda>x. cursor_codec to_json of_json (cursor x)) xs"
  shows "(browse (counted_page per opts xs) (Suc fuel) r = Some xs) \<and>
    (browse (uncounted_page per opts xs) (Suc fuel) r = Some xs) \<and>
    (browse (cursor_page to_json of_json cursor per opts xs) (Suc fuel) r = Some xs)"
proof -
  have number: "number_starts per opts xs r 0" using assms(1,3) by (simp add: number_starts_def)
  have after: "cursor_starts to_json of_json cursor per opts xs r 0" using assms by (simp add: cursor_starts_def)
  have part1: "browse (counted_page per opts xs) (Suc fuel) r = Some xs"
    using counted.browse_reads_the_rest [OF number, of fuel] assms(2) by (simp del: browse.simps)
  have part2: "browse (uncounted_page per opts xs) (Suc fuel) r = Some xs"
    using uncounted.browse_reads_the_rest [OF number, of fuel] assms(2) by (simp del: browse.simps)
  have part3: "browse (cursor_page to_json of_json cursor per opts xs) (Suc fuel) r = Some xs"
    using by_cursor.browse_reads_the_rest [OF after, of fuel] assms(2) by (simp del: browse.simps)
  show ?thesis by (rule conjI [OF part1 conjI [OF part2 part3]])
qed

theorem following_next_reads_the_whole_list_witness:
  "browse (counted_page 2 [] ''abcde'') 4 \<lparr>pq_path = ''/posts'', pq_raw = ''order=new''\<rparr> = Some ''abcde'' \<and>
   browse (uncounted_page 2 [] ''abcde'') 4 \<lparr>pq_path = ''/posts'', pq_raw = ''order=new''\<rparr> = Some ''abcde'' \<and>
   browse (cursor_page (\<lambda>c. Some [c]) (\<lambda>d. case d of [c] \<Rightarrow> Some c | _ \<Rightarrow> None) id 2 [] ''abcde'') 4
     \<lparr>pq_path = ''/posts'', pq_raw = ''order=new''\<rparr> = Some ''abcde''"
proof -
  have "pageable 2 ''abcde'' \<lparr>pq_path = ''/posts'', pq_raw = ''order=new''\<rparr>" by (simp add: pageable_def max_int_def)
  moreover have "page_number \<lparr>pq_path = ''/posts'', pq_raw = ''order=new''\<rparr> (page_name_of [] ''page'') = 1"
    "asked_cursor (\<lambda>d. case d of [c] \<Rightarrow> Some c | _ \<Rightarrow> None)
       (ctx_query \<lparr>pq_path = ''/posts'', pq_raw = ''order=new''\<rparr> (page_name_of [] ''cursor'')) = (None :: char option)"
    by code_simp+
  moreover have "list_all (\<lambda>x. cursor_codec (\<lambda>c. Some [c]) (\<lambda>d. case d of [c] \<Rightarrow> Some c | _ \<Rightarrow> None) (id x)) ''abcde''"
    by (simp add: cursor_codec_def)
  ultimately show ?thesis
    using following_next_reads_the_whole_list [of 2 "''abcde''" "\<lparr>pq_path = ''/posts'', pq_raw = ''order=new''\<rparr>" 3 "[]"
        "\<lambda>d. case d of [c] \<Rightarrow> Some c | _ \<Rightarrow> None" id "\<lambda>c. Some [c]"]
    by (simp add: numeral_eq_Suc del: browse.simps)
qed

section \<open>What the pager links\<close>

lemma upto_two: "[m - 1..m] = [m - 1, m]" for m :: int
  by (simp add: upto_rec1)

lemma upto_seven: "[m - 3..m + 3] = [m - 3, m - 2, m - 1, m, m + 1, m + 2, m + 3]" for m :: int
  by (simp add: upto_rec1)

lemma upto_ten: "[m - 9..m] = [m - 9, m - 8, m - 7, m - 6, m - 5, m - 4, m - 3, m - 2, m - 1, m]" for m :: int
  by (simp add: upto_rec1)

lemma window_pages_eq:
  "window_pages n last_page =
     (if last_page < 14 then [1..last_page]
      else if n \<le> 7 then [1, 2, 3, 4, 5, 6, 7, 8, 9, 10, 0, last_page - 1, last_page]
      else if last_page - 7 < n
      then [1, 2, 0, last_page - 9, last_page - 8, last_page - 7, last_page - 6, last_page - 5, last_page - 4,
            last_page - 3, last_page - 2, last_page - 1, last_page]
      else [1, 2, 0, n - 3, n - 2, n - 1, n, n + 1, n + 2, n + 3, 0, last_page - 1, last_page])"
proof -
  have "[1..2] = [1, 2 :: int]" "[1..10] = [1, 2, 3, 4, 5, 6, 7, 8, 9, 10 :: int]" by code_simp+
  then show ?thesis by (simp add: window_pages_def pager_side_def pager_window_def upto_two upto_seven upto_ten)
qed

text \<open>
  A pager links around its page. It has at most 13 entries, in order, from the first page to the last; it has the
  page shown, when there is one, and those within three of it; and where it leaves pages out it leaves out two at least,
  and says so with its dots.
\<close>

theorem a_pager_links_around_its_page:
  assumes "1 \<le> n" and "1 \<le> last_page"
  shows "(length (page_window n last_page link) \<le> 13) \<and>
    (sorted_wrt (<) (filter (\<lambda>k. k \<noteq> 0) (window_pages n last_page))) \<and>
    (hd (window_pages n last_page) = 1 \<and> List.last (window_pages n last_page) = last_page) \<and>
    (\<forall>k. 1 \<le> k \<longrightarrow> k \<le> last_page \<longrightarrow> \<bar>k - n\<bar> \<le> 3 \<longrightarrow> k \<in> set (window_pages n last_page)) \<and>
    (\<forall>xs a b ys. window_pages n last_page = xs @ [a, 0, b] @ ys \<longrightarrow> a + 3 \<le> b)"
proof -
  have small: "[1..last_page] = 1 # [2..last_page]" using assms(2) by (simp add: upto_rec1)
  have part1: "length (page_window n last_page link) \<le> 13" by (auto simp: page_window_def window_pages_eq)
  have "sorted_wrt (<) [1..m]" for m :: int by (simp add: sorted_wrt_upto)
  then have part2: "sorted_wrt (<) (filter (\<lambda>k. k \<noteq> 0) (window_pages n last_page))"
    by (auto simp: window_pages_eq intro: sorted_wrt_filter)
  have "List.last [1..last_page] = last_page" using assms(2) by (simp add: upto_rec2)
  then have part3: "hd (window_pages n last_page) = 1 \<and> List.last (window_pages n last_page) = last_page"
    using small by (simp add: window_pages_eq)
  have part4: "k \<in> set (window_pages n last_page)" if "1 \<le> k" "k \<le> last_page" "\<bar>k - n\<bar> \<le> 3" for k
    using that assms by (simp add: window_pages_eq) presburger
  have part5: "a + 3 \<le> b" if split: "window_pages n last_page = xs @ [a, 0, b] @ ys" for xs a b ys
  proof (cases "last_page < 14")
    case True
    then have "0 \<notin> set (window_pages n last_page)" by (simp add: window_pages_eq)
    then show ?thesis unfolding split by simp
  next
    case False
    then show ?thesis using split assms by (auto simp: window_pages_eq Cons_eq_append_conv split: if_splits)
  qed
  show ?thesis using part1 part2 part3 part4 part5 by blast
qed

theorem a_pager_links_around_its_page_witness:
  "length (page_window 20 40 (page_links \<lparr>pq_path = ''/posts'', pq_raw = []\<rparr> ''page'')) \<le> 13 \<and>
   hd (window_pages 20 40) = 1 \<and> List.last (window_pages 20 40) = 40"
  using a_pager_links_around_its_page [of 20 40] by simp

end
