(* ===== verification/Router.thy ===== *)
theory Router
  imports Urls
begin

text \<open>
  The router (router.go): groups, their middleware and routes, and the order the middleware of a request runs in; and the
  patterns of net/http's ServeMux the routes are, with the paths they take.
\<close>

section \<open>Patterns of ServeMux\<close>

text \<open>\<open>strings.HasPrefix\<close> and \<open>TrimRight\<close> of slashes, and the segments of a pattern's path.\<close>

definition trim_right_slash :: "string \<Rightarrow> string" where
  "trim_right_slash s = rev (dropWhile (\<lambda>c. c = slash) (rev s))"

datatype seg = Lit_seg string | Wild_seg string | Rest_seg string | End_seg

definition unescape_or :: "string \<Rightarrow> string" where
  "unescape_or s = (case url_unescape False s of None \<Rightarrow> s | Some t \<Rightarrow> t)"

definition wildcard_start :: "char \<Rightarrow> bool" where
  "wildcard_start c \<longleftrightarrow> is_lower c \<or> is_upper c \<or> c = CHR ''_''"

definition wildcard_name :: "string \<Rightarrow> bool" where
  "wildcard_name name \<longleftrightarrow> name \<noteq> [] \<and> wildcard_start (hd name) \<and> list_all (\<lambda>c. wildcard_start c \<or> is_digit c) name"

text \<open>A segment, and whether it has to be the path's last; none for one that is not valid. A name is of ASCII.\<close>

definition parse_seg :: "bool \<Rightarrow> string \<Rightarrow> seg option" where
  "parse_seg at_end s =
     (if CHR ''{'' \<notin> set s then Some (if s = [] \<and> at_end then Rest_seg [] else Lit_seg (unescape_or s))
      else if hd s \<noteq> CHR ''{'' \<or> List.last s \<noteq> CHR ''}'' then None
      else let name = butlast (tl s)
           in if name = ''$'' then (if at_end then Some End_seg else None)
              else if has_suffix name ''...'' then
                (let n = take (length name - 3) name in if at_end \<and> wildcard_name n then Some (Rest_seg n) else None)
              else if wildcard_name name then Some (Wild_seg name) else None)"

fun parse_segs :: "string list \<Rightarrow> seg list option" where
  "parse_segs [] = Some []"
| "parse_segs (s # ss) =
     (case parse_seg (ss = []) s of
        None \<Rightarrow> None
      | Some seg \<Rightarrow> (case parse_segs ss of None \<Rightarrow> None | Some segs \<Rightarrow> Some (seg # segs)))"

fun wild_names :: "seg list \<Rightarrow> string list" where
  "wild_names [] = []"
| "wild_names (Wild_seg n # ss) = n # wild_names ss"
| "wild_names (Rest_seg n # ss) = (if n = [] then [] else [n]) @ wild_names ss"
| "wild_names (s # ss) = wild_names ss"

definition parse_path :: "string \<Rightarrow> seg list option" where
  "parse_path path =
     (case parse_segs (split_on slash (tl path)) of
        None \<Rightarrow> None
      | Some segs \<Rightarrow> if distinct (wild_names segs) then Some segs else None)"

text \<open>\<open>path.Clean\<close> of a rooted path, with its trailing slash, as ServeMux cleans a request's.\<close>

fun clean_segs :: "string list \<Rightarrow> string list \<Rightarrow> string list" where
  "clean_segs [] done_segs = done_segs"
| "clean_segs (s # ss) done_segs =
     clean_segs ss
       (if s = [] \<or> s = ''.'' then done_segs else if s = ''..'' then butlast done_segs else done_segs @ [s])"

definition clean_path :: "string \<Rightarrow> string" where
  "clean_path p =
     (let p = (if p = [] \<or> hd p \<noteq> slash then slash # p else p); segs = clean_segs (split_on slash p) []
      in slash # join_with [slash] segs @ (if List.last p = slash \<and> segs \<noteq> [] then [slash] else []))"

text \<open>
  What a pattern's path makes of a cleaned path: its wildcards' values, or nothing. The first segment of what is left of
  a path is unescaped, and is a slash alone for the end of one that ends in a slash.
\<close>

definition first_segment :: "string \<Rightarrow> string \<times> string" where
  "first_segment path =
     (if path = [slash] then ([slash], [])
      else (unescape_or (takeWhile (\<lambda>c. c \<noteq> slash) (tl path)), dropWhile (\<lambda>c. c \<noteq> slash) (tl path)))"

fun match_segs :: "seg list \<Rightarrow> string \<Rightarrow> string list option" where
  "match_segs [] path = (if path = [] then Some [] else None)"
| "match_segs (s # ss) path =
     (if path = [] then None
      else case s of
             Rest_seg n \<Rightarrow> Some (if n = [] then [] else [unescape_or (tl path)])
           | _ \<Rightarrow>
               (case first_segment path of
                  (here, rest) \<Rightarrow>
                    (case s of
                       Wild_seg n \<Rightarrow> if here = [slash] then None else map_option ((#) here) (match_segs ss rest)
                     | End_seg \<Rightarrow> if here = [slash] then match_segs ss rest else None
                     | Lit_seg l \<Rightarrow> if here = l then match_segs ss rest else None
                     | Rest_seg n \<Rightarrow> None)))"

text \<open>Whether a pattern takes a path exactly: not with more than nothing after its last slash.\<close>

definition exact_match :: "seg list \<Rightarrow> string \<Rightarrow> bool" where
  "exact_match segs path \<longleftrightarrow>
     match_segs segs path \<noteq> None \<and>
     (case List.last segs of
        Rest_seg _ \<Rightarrow> path \<noteq> [] \<and> List.last path = slash \<and> length segs = length (filter (\<lambda>c. c = slash) path)
      | _ \<Rightarrow> True)"

section \<open>Groups and routes\<close>

text \<open>
  An app's Routers, the first of them the App's own, and its routes. A Router is its place among them; \<open>'m\<close> is a
  middleware and \<open>'h\<close> a handler. \<open>clashes\<close> is ServeMux's own judgement that two patterns take the same requests,
  neither the more specific, for which it panics.
\<close>

record 'm router =
  rg_parent :: "nat option"
  rg_prefix :: string
  rg_mw :: "'m list"

record ('m, 'h) app_route =
  rt_group :: nat
  rt_method :: string
  rt_path :: string
  rt_segs :: "seg list"
  rt_name :: string
  rt_handler :: 'h
  rt_mw :: "'m list"

record ('m, 'h) app_routes =
  ar_groups :: "'m router list"
  ar_routes :: "('m, 'h) app_route list"
  ar_names :: "(string, nat) gomap"
  ar_catch_all :: bool
  ar_serving :: bool

datatype route_panic = Now_serving | Bad_prefix string | Bad_route_path string | Bad_pattern string | Clash string | Name_taken string

definition new_routes :: "('m, 'h) app_routes" where
  "new_routes = \<lparr>ar_groups = [\<lparr>rg_parent = None, rg_prefix = [], rg_mw = []\<rparr>], ar_routes = [], ar_names = [],
     ar_catch_all = False, ar_serving = False\<rparr>"

definition use_mw :: "nat \<Rightarrow> 'm list \<Rightarrow> ('m, 'h) app_routes \<Rightarrow> route_panic + ('m, 'h) app_routes" where
  "use_mw g mws a =
     (if ar_serving a then Inl Now_serving
      else Inr (a\<lparr>ar_groups := (ar_groups a)[g := (ar_groups a ! g)\<lparr>rg_mw := rg_mw (ar_groups a ! g) @ mws\<rparr>]\<rparr>))"

definition add_group :: "nat \<Rightarrow> string \<Rightarrow> 'm list \<Rightarrow> ('m, 'h) app_routes \<Rightarrow> route_panic + ('m, 'h) app_routes" where
  "add_group g prefix mws a =
     (if ar_serving a then Inl Now_serving
      else if prefix \<noteq> [] \<and> \<not> has_prefix prefix ''/'' then Inl (Bad_prefix prefix)
      else Inr (a\<lparr>ar_groups := ar_groups a @
             [\<lparr>rg_parent = Some g, rg_prefix = rg_prefix (ar_groups a ! g) @ trim_right_slash prefix, rg_mw = mws\<rparr>]\<rparr>))"

definition full_path :: "string \<Rightarrow> string \<Rightarrow> string" where
  "full_path prefix path =
     (let full = (if path = ''/'' \<and> prefix \<noteq> [] then prefix else prefix @ path)
      in if has_suffix full ''/'' then full @ ''{$}'' else full)"

definition is_catch_all :: "string \<Rightarrow> bool" where
  "is_catch_all path \<longleftrightarrow>
     has_prefix path ''/{'' \<and> has_suffix path ''...}'' \<and> length (filter (\<lambda>c. c = slash) path) = 1"

text \<open>A pattern of a method has to be a clean path, as one that is not takes no request.\<close>

definition pattern_of :: "string \<Rightarrow> string \<Rightarrow> seg list option" where
  "pattern_of method full = (if method \<noteq> [] \<and> method \<noteq> ''CONNECT'' \<and> clean_path full \<noteq> full then None else parse_path full)"

definition add_route ::
  "(string \<times> seg list \<Rightarrow> string \<times> seg list \<Rightarrow> bool) \<Rightarrow> nat \<Rightarrow> string \<Rightarrow> string \<Rightarrow> 'h \<Rightarrow> 'm list \<Rightarrow>
   ('m, 'h) app_routes \<Rightarrow> route_panic + ('m, 'h) app_routes" where
  "add_route clashes g method path h mws a =
     (if ar_serving a then Inl Now_serving
      else if \<not> has_prefix path ''/'' then Inl (Bad_route_path path)
      else let full = full_path (rg_prefix (ar_groups a ! g)) path
           in case pattern_of method full of
                None \<Rightarrow> Inl (Bad_pattern full)
              | Some segs \<Rightarrow>
                  if list_ex (\<lambda>rt. clashes (rt_method rt, rt_segs rt) (method, segs)) (ar_routes a) then Inl (Clash full)
                  else Inr (a\<lparr>ar_routes := ar_routes a @
                              [\<lparr>rt_group = g, rt_method = method, rt_path = full, rt_segs = segs, rt_name = [],
                                rt_handler = h, rt_mw = mws\<rparr>],
                            ar_catch_all := ar_catch_all a \<or> (method = [] \<and> is_catch_all full)\<rparr>))"

definition name_route :: "nat \<Rightarrow> string \<Rightarrow> ('m, 'h) app_routes \<Rightarrow> route_panic + ('m, 'h) app_routes" where
  "name_route i name a =
     (if ar_serving a then Inl Now_serving
      else case lookup (ar_names a) name of
             Some j \<Rightarrow>
               if j \<noteq> i then Inl (Name_taken name)
               else Inr (a\<lparr>ar_routes := (ar_routes a)[i := (ar_routes a ! i)\<lparr>rt_name := name\<rparr>],
                           ar_names := put name i (del (rt_name (ar_routes a ! i)) (ar_names a))\<rparr>)
           | None \<Rightarrow>
               Inr (a\<lparr>ar_routes := (ar_routes a)[i := (ar_routes a ! i)\<lparr>rt_name := name\<rparr>],
                      ar_names := put name i (del (rt_name (ar_routes a ! i)) (ar_names a))\<rparr>))"

definition route_string :: "('m, 'h) app_route \<Rightarrow> string" where
  "route_string rt =
     (let path = (if has_suffix (rt_path rt) ''{$}'' then take (length (rt_path rt) - 3) (rt_path rt) else rt_path rt)
      in (if rt_method rt = [] then ''ANY '' else rt_method rt @ '' '') @ path)"

text \<open>A route's pattern as ServeMux has it, as the route's String says it.\<close>

definition shown_pattern :: "string \<Rightarrow> string" where
  "shown_pattern pattern =
     (if pattern = [] \<or> pattern = ''/'' then []
      else let p = (if has_suffix pattern ''{$}'' then take (length pattern - 3) pattern else pattern)
           in if has_prefix p ''/'' then ''ANY '' @ p else p)"

section \<open>Middleware\<close>

text \<open>\<open>wrap\<close>: the first middleware is the outermost. A Router is made after its parent, so that the walk up ends.\<close>

definition wrap_mw :: "('m \<Rightarrow> 'h \<Rightarrow> 'h) \<Rightarrow> 'h \<Rightarrow> 'm list \<Rightarrow> 'h" where
  "wrap_mw run h mws = foldl (\<lambda>h m. run m h) h (rev mws)"

function wrap_groups :: "('m \<Rightarrow> 'h \<Rightarrow> 'h) \<Rightarrow> 'm router list \<Rightarrow> nat \<Rightarrow> 'h \<Rightarrow> 'h" where
  "wrap_groups run groups g h =
     (case rg_parent (groups ! g) of
        None \<Rightarrow> h
      | Some p \<Rightarrow> if p < g then wrap_groups run groups p (wrap_mw run h (rg_mw (groups ! g))) else h)"
  by pat_completeness auto
termination by (relation "measure (\<lambda>(run, groups, g, h). g)") auto

declare wrap_groups.simps [simp del]

definition route_chain :: "('m \<Rightarrow> 'h \<Rightarrow> 'h) \<Rightarrow> ('m, 'h) app_routes \<Rightarrow> ('m, 'h) app_route \<Rightarrow> 'h" where
  "route_chain run a rt = wrap_groups run (ar_groups a) (rt_group rt) (wrap_mw run (rt_handler rt) (rt_mw rt))"

text \<open>
  \<open>freeze\<close>: the App's own middleware around its sessions, around the flash data kept on a reload, around Inertia's
  middleware, around the ServeMux: each of the three is there when the app's configuration has it.
\<close>

definition frozen_handler ::
  "('m \<Rightarrow> 'h \<Rightarrow> 'h) \<Rightarrow> ('h \<Rightarrow> 'h) option \<Rightarrow> ('h \<Rightarrow> 'h) \<Rightarrow> ('h \<Rightarrow> 'h) option \<Rightarrow> ('m, 'h) app_routes \<Rightarrow> 'h \<Rightarrow> 'h" where
  "frozen_handler run session keep_flash inertia a mux =
     (let h = (case inertia of None \<Rightarrow> mux | Some i \<Rightarrow> i mux);
          h = (case session of None \<Rightarrow> h | Some s \<Rightarrow> s (if inertia = None then h else keep_flash h))
      in wrap_mw run h (rg_mw (ar_groups a ! 0)))"

section \<open>Building an app\<close>

text \<open>What main does to an app's Router before it serves, and the states that leads to, with what was done.\<close>

datatype ('m, 'h) route_op =
    Use_op nat "'m list"
  | Group_op nat string "'m list"
  | Route_op nat string string 'h "'m list"
  | Name_op nat string

inductive built ::
  "(string \<times> seg list \<Rightarrow> string \<times> seg list \<Rightarrow> bool) \<Rightarrow> ('m, 'h) route_op list \<Rightarrow> ('m, 'h) app_routes \<Rightarrow> bool"
  for clashes where
  built_new: "built clashes [] new_routes"
| built_use: "built clashes ops a \<Longrightarrow> g < length (ar_groups a) \<Longrightarrow> use_mw g mws a = Inr a' \<Longrightarrow>
    built clashes (ops @ [Use_op g mws]) a'"
| built_group: "built clashes ops a \<Longrightarrow> g < length (ar_groups a) \<Longrightarrow> add_group g prefix mws a = Inr a' \<Longrightarrow>
    built clashes (ops @ [Group_op g prefix mws]) a'"
| built_route: "built clashes ops a \<Longrightarrow> g < length (ar_groups a) \<Longrightarrow> add_route clashes g method path h mws a = Inr a' \<Longrightarrow>
    built clashes (ops @ [Route_op g method path h mws]) a'"
| built_name: "built clashes ops a \<Longrightarrow> i < length (ar_routes a) \<Longrightarrow> name_route i name a = Inr a' \<Longrightarrow>
    built clashes (ops @ [Name_op i name]) a'"

text \<open>The groups a route is in, the outermost first, but for the App; and all the middleware a Router was ever given.\<close>

function groups_to :: "'m router list \<Rightarrow> nat \<Rightarrow> nat list" where
  "groups_to groups g =
     (case rg_parent (groups ! g) of None \<Rightarrow> [] | Some p \<Rightarrow> if p < g then groups_to groups p @ [g] else [])"
  by pat_completeness auto
termination by (relation "measure snd") auto

declare groups_to.simps [simp del]

fun mws_of :: "nat \<Rightarrow> ('m, 'h) route_op list \<Rightarrow> nat \<Rightarrow> 'm list" where
  "mws_of n [] g = []"
| "mws_of n (Use_op g' mws # ops) g = (if g' = g then mws else []) @ mws_of n ops g"
| "mws_of n (Group_op p prefix mws # ops) g = (if n = g then mws else []) @ mws_of (n + 1) ops g"
| "mws_of n (op # ops) g = mws_of n ops g"

fun group_count :: "('m, 'h) route_op list \<Rightarrow> nat" where
  "group_count [] = 1"
| "group_count (Group_op p prefix mws # ops) = group_count ops + 1"
| "group_count (op # ops) = group_count ops"

lemma mws_of_append: "mws_of n (ops @ ops') g = mws_of n ops g @ mws_of (n + group_count ops - 1) ops' g"
proof (induction n ops g rule: mws_of.induct)
  case (3 n p prefix mws ops g)
  moreover have "0 < group_count ops" by (induction ops rule: group_count.induct) simp_all
  ultimately show ?case by simp
qed simp_all

lemma group_count_snoc:
  "group_count (ops @ [Use_op g mws]) = group_count ops" "group_count (ops @ [Group_op g p mws]) = group_count ops + 1"
  "group_count (ops @ [Route_op g m path h mws]) = group_count ops" "group_count (ops @ [Name_op i name]) = group_count ops"
  by (induction ops rule: group_count.induct) simp_all

definition uses_below :: "nat \<Rightarrow> ('m, 'h) route_op list \<Rightarrow> bool" where
  "uses_below n ops = list_all (\<lambda>op. case op of Use_op g _ \<Rightarrow> g < n | _ \<Rightarrow> True) ops"

lemma uses_below_Nil [simp]: "uses_below n []"
  by (simp add: uses_below_def)

lemma uses_below_snoc [simp]:
  "uses_below n (ops @ [op]) \<longleftrightarrow> uses_below n ops \<and> (case op of Use_op g _ \<Rightarrow> g < n | _ \<Rightarrow> True)"
  by (simp add: uses_below_def)

lemma uses_below_mono: "uses_below n ops \<Longrightarrow> n \<le> m \<Longrightarrow> uses_below m ops"
  by (auto simp: uses_below_def list_all_iff split: route_op.splits)

lemma group_count_pos: "0 < group_count ops"
  by (induction ops rule: group_count.induct) simp_all

lemma mws_of_late: "n + group_count ops - 1 \<le> g \<Longrightarrow> uses_below g ops \<Longrightarrow> mws_of n ops g = []"
proof (induction n ops g rule: mws_of.induct)
  case (3 n p prefix mws ops g)
  then show ?case using group_count_pos [of ops] by (auto simp: uses_below_def)
qed (auto simp: uses_below_def)

definition route_ok :: "nat \<Rightarrow> ('m, 'h) app_route \<Rightarrow> bool" where
  "route_ok n rt \<longleftrightarrow> rt_group rt < n \<and> parse_path (rt_path rt) = Some (rt_segs rt) \<and> has_prefix (rt_path rt) ''/''"

text \<open>
  What holds of an app being built: a Router has the middleware it was given and was made after its parent, a route's
  pattern is its path's, and a name is a route's that has it.
\<close>

definition built_ok :: "('m, 'h) route_op list \<Rightarrow> ('m, 'h) app_routes \<Rightarrow> bool" where
  "built_ok ops a \<longleftrightarrow>
     length (ar_groups a) = group_count ops \<and>
     (\<forall>g < length (ar_groups a). rg_mw (ar_groups a ! g) = mws_of 1 ops g) \<and>
     uses_below (length (ar_groups a)) ops \<and>
     rg_parent (ar_groups a ! 0) = None \<and>
     (\<forall>g < length (ar_groups a). 0 < g \<longrightarrow> (\<exists>p < g. rg_parent (ar_groups a ! g) = Some p)) \<and>
     list_all (\<lambda>gr. rg_prefix gr = [] \<or> has_prefix (rg_prefix gr) ''/'') (ar_groups a) \<and>
     list_all (route_ok (length (ar_groups a))) (ar_routes a) \<and>
     (\<forall>name i. lookup (ar_names a) name = Some i \<longrightarrow> i < length (ar_routes a) \<and> rt_name (ar_routes a ! i) = name)"

lemma new_built_ok: "built_ok [] new_routes"
  by (simp add: built_ok_def new_routes_def)

lemma use_built_ok:
  assumes "built_ok ops a" and "g < length (ar_groups a)" and "use_mw g mws a = Inr a'"
  shows "built_ok (ops @ [Use_op g mws]) a'"
proof -
  have a': "a' = a\<lparr>ar_groups := (ar_groups a)[g := (ar_groups a ! g)\<lparr>rg_mw := rg_mw (ar_groups a ! g) @ mws\<rparr>]\<rparr>"
    using assms(3) by (auto simp: use_mw_def split: if_splits)
  show ?thesis
    using assms(1,2) unfolding a' built_ok_def
    by (auto simp: mws_of_append group_count_snoc nth_list_update list_all_length)
qed

lemma trim_right_slash_split: "\<exists>r. s = trim_right_slash s @ r"
proof -
  have "s = rev (takeWhile (\<lambda>c. c = slash) (rev s) @ dropWhile (\<lambda>c. c = slash) (rev s))" by simp
  then have "s = trim_right_slash s @ rev (takeWhile (\<lambda>c. c = slash) (rev s))" unfolding trim_right_slash_def rev_append .
  then show ?thesis by blast
qed

lemma trim_right_slash_prefix:
  assumes "prefix = [] \<or> has_prefix prefix ''/''"
  shows "trim_right_slash prefix = [] \<or> has_prefix (trim_right_slash prefix) ''/''"
proof -
  obtain r where r: "prefix = trim_right_slash prefix @ r" using trim_right_slash_split by blast
  show ?thesis
  proof (cases "trim_right_slash prefix")
    case (Cons c t)
    with r have "prefix = c # t @ r" by simp
    with assms Cons show ?thesis by simp
  qed simp
qed

lemma prefix_joined: "p = [] \<or> has_prefix p ''/'' \<Longrightarrow> q = [] \<or> has_prefix q ''/'' \<Longrightarrow> p @ q = [] \<or> has_prefix (p @ q) ''/''"
  by (cases p) auto

lemma group_built_ok:
  assumes "built_ok ops a" and "g < length (ar_groups a)" and "add_group g prefix mws a = Inr a'"
  shows "built_ok (ops @ [Group_op g prefix mws]) a'"
proof -
  let ?new = "\<lparr>rg_parent = Some g, rg_prefix = rg_prefix (ar_groups a ! g) @ trim_right_slash prefix, rg_mw = mws\<rparr>"
  have a': "a' = a\<lparr>ar_groups := ar_groups a @ [?new]\<rparr>" and prefix: "prefix = [] \<or> has_prefix prefix ''/''"
    using assms(3) by (auto simp: add_group_def split: if_splits)
  have ok: "length (ar_groups a) = group_count ops" "uses_below (length (ar_groups a)) ops"
    "\<And>g. g < length (ar_groups a) \<Longrightarrow> rg_mw (ar_groups a ! g) = mws_of 1 ops g"
    "list_all (\<lambda>gr. rg_prefix gr = [] \<or> has_prefix (rg_prefix gr) ''/'') (ar_groups a)"
    using assms(1) unfolding built_ok_def by blast+
  have late: "mws_of 1 ops (group_count ops) = []" by (rule mws_of_late) (use ok in simp_all)
  have "rg_prefix (ar_groups a ! g) = [] \<or> has_prefix (rg_prefix (ar_groups a ! g)) ''/''"
    using ok(4) assms(2) by (simp add: list_all_length)
  from prefix_joined [OF this trim_right_slash_prefix [OF prefix]]
  have new: "rg_prefix ?new = [] \<or> has_prefix (rg_prefix ?new) ''/''" by simp
  have uses: "uses_below (length (ar_groups a) + 1) ops" by (rule uses_below_mono [OF ok(2)]) simp
  have mw: "rg_mw ((ar_groups a @ [?new]) ! g') = mws_of 1 (ops @ [Group_op g prefix mws]) g'"
    if "g' < length (ar_groups a) + 1" for g'
    using that ok(1,3) late by (auto simp: nth_append mws_of_append less_Suc_eq)
  have parents: "\<exists>p < g'. rg_parent ((ar_groups a @ [?new]) ! g') = Some p" if "g' < length (ar_groups a) + 1" "0 < g'" for g'
    using that assms(1,2) by (auto simp: nth_append less_Suc_eq built_ok_def)
  have routes: "route_ok (length (ar_groups a) + 1) rt" if "route_ok (length (ar_groups a)) rt" for rt :: "('a, 'b) app_route"
    using that by (simp add: route_ok_def)
  have root: "rg_parent ((ar_groups a @ [?new]) ! 0) = None"
    using assms(1,2) by (cases "ar_groups a") (simp_all add: built_ok_def)
  show ?thesis
    unfolding built_ok_def
  proof (intro conjI)
    show "list_all (route_ok (length (ar_groups a'))) (ar_routes a')"
      using assms(1) routes by (auto simp: a' built_ok_def list_all_iff)
  qed (use assms(1) ok new uses mw parents root in \<open>simp_all add: a' built_ok_def group_count_snoc\<close>)
qed

lemma route_built_ok:
  assumes "built_ok ops a" and "g < length (ar_groups a)" and "add_route clashes g method path h mws a = Inr a'"
  shows "built_ok (ops @ [Route_op g method path h mws]) a'"
proof -
  let ?full = "full_path (rg_prefix (ar_groups a ! g)) path"
  obtain segs where path: "has_prefix path ''/''" "pattern_of method ?full = Some segs" and
    a': "ar_groups a' = ar_groups a" "ar_names a' = ar_names a"
    "ar_routes a' = ar_routes a @
       [\<lparr>rt_group = g, rt_method = method, rt_path = ?full, rt_segs = segs, rt_name = [], rt_handler = h, rt_mw = mws\<rparr>]"
    using assms(3) by (auto simp: add_route_def Let_def split: if_splits option.splits)
  have "rg_prefix (ar_groups a ! g) = [] \<or> has_prefix (rg_prefix (ar_groups a ! g)) ''/''"
    using assms(1,2) by (simp add: built_ok_def list_all_length)
  then have "has_prefix ?full ''/''" using path(1) by (auto simp: full_path_def Let_def has_prefix_iff)
  moreover have "parse_path ?full = Some segs" using path(2) by (auto simp: pattern_of_def split: if_splits)
  ultimately have "route_ok (length (ar_groups a'))
      \<lparr>rt_group = g, rt_method = method, rt_path = ?full, rt_segs = segs, rt_name = [], rt_handler = h, rt_mw = mws\<rparr>"
    using assms(2) by (simp add: route_ok_def a')
  moreover have "lookup (ar_names a) name = Some i \<Longrightarrow>
      i < length (ar_routes a') \<and> rt_name (ar_routes a' ! i) = name" for name i
    using assms(1) by (auto simp: built_ok_def a' nth_append less_SucI)
  ultimately show ?thesis
    using assms(1) unfolding built_ok_def by - (elim conjE, simp add: a' group_count_snoc mws_of_append)
qed

lemma name_built_ok:
  assumes "built_ok ops a" and "i < length (ar_routes a)" and "name_route i name a = Inr a'"
  shows "built_ok (ops @ [Name_op i name]) a'"
proof -
  have a': "a' = a\<lparr>ar_routes := (ar_routes a)[i := (ar_routes a ! i)\<lparr>rt_name := name\<rparr>],
                  ar_names := put name i (del (rt_name (ar_routes a ! i)) (ar_names a))\<rparr>"
    and free: "lookup (ar_names a) name = None \<or> lookup (ar_names a) name = Some i"
    using assms(3) by (auto simp: name_route_def split: if_splits option.splits)
  have routes: "list_all (route_ok (length (ar_groups a))) ((ar_routes a)[i := (ar_routes a ! i)\<lparr>rt_name := name\<rparr>])"
    using assms(1,2) by (auto simp: built_ok_def list_all_length nth_list_update route_ok_def)
  have names: "j < length (ar_routes a) \<and> rt_name ((ar_routes a)[i := (ar_routes a ! i)\<lparr>rt_name := name\<rparr>] ! j) = k"
    if "lookup (put name i (del (rt_name (ar_routes a ! i)) (ar_names a))) k = Some j" for k j
  proof (cases "k = name")
    case True
    with that assms(2) show ?thesis by simp
  next
    case False
    with that have "lookup (ar_names a) k = Some j" "k \<noteq> rt_name (ar_routes a ! i)" by (auto split: if_splits)
    with assms(1) have "j < length (ar_routes a)" "rt_name (ar_routes a ! j) = k" by (auto simp: built_ok_def)
    with \<open>k \<noteq> rt_name (ar_routes a ! i)\<close> show ?thesis by (cases "j = i") simp_all
  qed
  show ?thesis
    using assms(1) routes names unfolding a' built_ok_def by - (elim conjE, simp add: group_count_snoc mws_of_append)
qed

lemma built_built_ok: "built clashes ops a \<Longrightarrow> built_ok ops a"
  by (induction rule: built.induct)
    (auto intro: new_built_ok use_built_ok group_built_ok route_built_ok name_built_ok)

section \<open>The order middleware runs in\<close>

lemma wrap_mw_foldr: "wrap_mw run h mws = foldr run mws h"
  by (simp add: wrap_mw_def foldr_conv_foldl)

lemma wrap_groups_foldr:
  "wrap_groups run groups g h = foldr run (concat (map (\<lambda>g. rg_mw (groups ! g)) (groups_to groups g))) h"
proof (induction run groups g h rule: wrap_groups.induct)
  case (1 run groups g h)
  then show ?case
    by (subst wrap_groups.simps, subst groups_to.simps) (auto simp: wrap_mw_foldr split: option.splits)
qed

lemma groups_to_less: "g < n \<Longrightarrow> k \<in> set (groups_to groups g) \<Longrightarrow> k < n"
proof (induction groups g rule: groups_to.induct)
  case (1 groups g)
  have groups: "groups_to groups g =
      (case rg_parent (groups ! g) of None \<Rightarrow> [] | Some p \<Rightarrow> if p < g then groups_to groups p @ [g] else [])"
    by (rule groups_to.simps)
  show ?case
  proof (cases "rg_parent (groups ! g)")
    case None
    with 1(3) groups show ?thesis by simp
  next
    case (Some p)
    with 1(2,3) 1(1) [OF Some] groups show ?thesis by (cases "p < g") auto
  qed
qed

text \<open>
  C22. Middleware runs from the outside in, in the order it was added. However an app's routes and groups were added and
  given middleware, a request a route takes goes through the App's own middleware, the sessions', Inertia's, that of the
  groups around the route, the outermost first, and the route's own, each in the order it was given, what a Router was
  given after its routes as well as before, and only then to the handler.
\<close>

theorem middleware_runs_from_the_outside_in:
  assumes "built clashes ops a" and "rt \<in> set (ar_routes a)"
  shows "route_chain run a rt =
      foldr run (concat (map (mws_of 1 ops) (groups_to (ar_groups a) (rt_group rt))) @ rt_mw rt) (rt_handler rt) \<and>
    frozen_handler run session keep_flash inertia a mux =
      foldr run (mws_of 1 ops 0)
        (let h = (case inertia of None \<Rightarrow> mux | Some i \<Rightarrow> i mux)
         in case session of None \<Rightarrow> h | Some s \<Rightarrow> s (if inertia = None then h else keep_flash h))"
proof
  have ok: "built_ok ops a" by (rule built_built_ok [OF assms(1)])
  then have mw: "\<And>g. g < length (ar_groups a) \<Longrightarrow> rg_mw (ar_groups a ! g) = mws_of 1 ops g"
    unfolding built_ok_def by blast
  have "rt_group rt < length (ar_groups a)"
    using ok assms(2) by (auto simp: built_ok_def list_all_iff route_ok_def)
  then have "map (\<lambda>g. rg_mw (ar_groups a ! g)) (groups_to (ar_groups a) (rt_group rt)) =
      map (mws_of 1 ops) (groups_to (ar_groups a) (rt_group rt))"
    using mw groups_to_less by (intro map_cong refl) blast
  then show "route_chain run a rt =
      foldr run (concat (map (mws_of 1 ops) (groups_to (ar_groups a) (rt_group rt))) @ rt_mw rt) (rt_handler rt)"
    unfolding route_chain_def wrap_groups_foldr wrap_mw_foldr foldr_append by (rule arg_cong)
  have "0 < length (ar_groups a)" using ok group_count_pos [of ops] by (auto simp: built_ok_def)
  from mw [OF this] show "frozen_handler run session keep_flash inertia a mux =
      foldr run (mws_of 1 ops 0)
        (let h = (case inertia of None \<Rightarrow> mux | Some i \<Rightarrow> i mux)
         in case session of None \<Rightarrow> h | Some s \<Rightarrow> s (if inertia = None then h else keep_flash h))"
    by (simp add: frozen_handler_def wrap_mw_foldr Let_def)
qed

text \<open>An app built by a program, where nothing panics.\<close>

fun add_all ::
  "(string \<times> seg list \<Rightarrow> string \<times> seg list \<Rightarrow> bool) \<Rightarrow> ('m, 'h) route_op list \<Rightarrow> ('m, 'h) app_routes \<Rightarrow>
   ('m, 'h) app_routes option" where
  "add_all clashes [] a = Some a"
| "add_all clashes (Use_op g mws # ops) a =
     (case use_mw g mws a of Inr a' \<Rightarrow> if g < length (ar_groups a) then add_all clashes ops a' else None | Inl _ \<Rightarrow> None)"
| "add_all clashes (Group_op g p mws # ops) a =
     (case add_group g p mws a of Inr a' \<Rightarrow> if g < length (ar_groups a) then add_all clashes ops a' else None | Inl _ \<Rightarrow> None)"
| "add_all clashes (Route_op g m p h mws # ops) a =
     (case add_route clashes g m p h mws a of
        Inr a' \<Rightarrow> if g < length (ar_groups a) then add_all clashes ops a' else None | Inl _ \<Rightarrow> None)"
| "add_all clashes (Name_op i name # ops) a =
     (case name_route i name a of Inr a' \<Rightarrow> if i < length (ar_routes a) then add_all clashes ops a' else None | Inl _ \<Rightarrow> None)"

lemma add_all_built: "built clashes pre a \<Longrightarrow> add_all clashes ops a = Some a' \<Longrightarrow> built clashes (pre @ ops) a'"
proof (induction clashes ops a arbitrary: pre rule: add_all.induct)
  case (2 clashes g mws ops a)
  then show ?case using built_use [of clashes pre a g mws] by (fastforce split: sum.splits if_splits)
next
  case (3 clashes g p mws ops a)
  then show ?case using built_group [of clashes pre a g p mws] by (fastforce split: sum.splits if_splits)
next
  case (4 clashes g m p h mws ops a)
  then show ?case using built_route [of clashes pre a g m p h mws] by (fastforce split: sum.splits if_splits)
next
  case (5 clashes i name ops a)
  then show ?case using built_name [of clashes pre a i name] by (fastforce split: sum.splits if_splits)
qed simp

definition ex_ops :: "(string, string list) route_op list" where
  "ex_ops =
     [Use_op 0 [''log''], Group_op 0 ''/admin/'' [''auth''], Route_op 1 ''GET'' ''/users/{id}/'' [''handler''] [''limit''],
      Name_op 0 ''users.show'', Use_op 1 [''audit''], Route_op 1 ''GET'' ''/'' [''home''] [],
      Route_op 0 ''GET'' ''/files/{path...}'' [''files''] [], Name_op 2 ''files'']"

definition ex_app :: "(string, string list) app_routes" where
  "ex_app =
     \<lparr>ar_groups = [\<lparr>rg_parent = None, rg_prefix = [], rg_mw = [''log'']\<rparr>,
        \<lparr>rg_parent = Some 0, rg_prefix = ''/admin'', rg_mw = [''auth'', ''audit'']\<rparr>],
      ar_routes = [
        \<lparr>rt_group = 1, rt_method = ''GET'', rt_path = ''/admin/users/{id}/{$}'',
         rt_segs = [Lit_seg ''admin'', Lit_seg ''users'', Wild_seg ''id'', End_seg], rt_name = ''users.show'',
         rt_handler = [''handler''], rt_mw = [''limit'']\<rparr>,
        \<lparr>rt_group = 1, rt_method = ''GET'', rt_path = ''/admin'', rt_segs = [Lit_seg ''admin''], rt_name = [],
         rt_handler = [''home''], rt_mw = []\<rparr>,
        \<lparr>rt_group = 0, rt_method = ''GET'', rt_path = ''/files/{path...}'', rt_segs = [Lit_seg ''files'', Rest_seg ''path''],
         rt_name = ''files'', rt_handler = [''files''], rt_mw = []\<rparr>],
      ar_names = [(''users.show'', 0), (''files'', 2)], ar_catch_all = False, ar_serving = False\<rparr>"

lemma ex_app_built: "built (\<lambda>_ _. False) ex_ops ex_app"
proof -
  have "add_all (\<lambda>_ _. False) ex_ops new_routes = Some ex_app" by code_simp
  from add_all_built [OF built_new this] show ?thesis by simp
qed

theorem middleware_runs_from_the_outside_in_witness:
  "route_chain (#) ex_app (ar_routes ex_app ! 0) = [''auth'', ''audit'', ''limit'', ''handler''] \<and>
   frozen_handler (#) (Some ((#) ''session'')) id None ex_app [''mux''] = [''log'', ''session'', ''mux'']"
proof -
  have "ar_routes ex_app ! 0 \<in> set (ar_routes ex_app)" by (simp add: ex_app_def)
  note order = middleware_runs_from_the_outside_in [OF ex_app_built this, where run = "(#)"]
  have "groups_to (ar_groups ex_app) 1 = [1]" by (simp add: groups_to.simps ex_app_def)
  then show ?thesis
    using order [of "Some ((#) ''session'')" id None "[''mux'']"] by (simp add: ex_app_def ex_ops_def)
qed

end
