(* ===== verification/Router_Urls.thy ===== *)
theory Router_Urls
  imports Router
begin

text \<open>
  The URLs of named routes (router.go, App.URL), and that they lead back to their routes.
\<close>

section \<open>URLs of routes\<close>

datatype url_error = No_route string | Needs_value string | Empty_value string | Takes_fewer nat

definition path_segment_plain :: "char \<Rightarrow> bool" where
  "path_segment_plain c \<longleftrightarrow> unreserved c \<or> c \<in> set ''$&+=:@''"

definition path_escape :: "string \<Rightarrow> string" where
  "path_escape s = concat (map (\<lambda>c. if path_segment_plain c then [c] else percent c) s)"

fun fill_segs :: "string list \<Rightarrow> string list \<Rightarrow> nat \<Rightarrow> url_error + string \<times> nat" where
  "fill_segs [] params used = Inr ([], used)"
| "fill_segs (s # ss) params used =
     (case (if s = ''{$}'' then Inr ([], used)
            else if has_prefix s ''{'' then
              (if used = length params then Inl (Needs_value s)
               else let v = params ! used
                    in if has_suffix s ''...}'' then Inr (join_with [slash] (map path_escape (split_on slash v)), used + 1)
                       else if v = [] then Inl (Empty_value s)
                       else Inr (path_escape v, used + 1))
            else Inr (s, used)) of
        Inl e \<Rightarrow> Inl e
      | Inr (written, used) \<Rightarrow>
          (case fill_segs ss params used of
             Inl e \<Rightarrow> Inl e
           | Inr (rest, used) \<Rightarrow> Inr (slash # written @ rest, used)))"

definition route_url :: "('m, 'h) app_routes \<Rightarrow> string \<Rightarrow> string list \<Rightarrow> url_error + string" where
  "route_url a name params =
     (case lookup (ar_names a) name of
        None \<Rightarrow> Inl (No_route name)
      | Some i \<Rightarrow>
          (case fill_segs (split_on slash (tl (rt_path (ar_routes a ! i)))) params 0 of
             Inl e \<Rightarrow> Inl e
           | Inr (path, used) \<Rightarrow> if used < length params then Inl (Takes_fewer used) else Inr path))"

section \<open>What an escaped segment is\<close>

lemma unescape_path_escape: "url_unescape False (path_escape s @ t) = map_option ((@) s) (url_unescape False t)"
proof (induction s)
  case Nil
  then show ?case by (simp add: path_escape_def option.map_ident)
next
  case (Cons c s)
  have e: "path_escape (c # s) = (if path_segment_plain c then [c] else percent c) @ path_escape s"
    by (simp add: path_escape_def)
  show ?case
  proof (cases "path_segment_plain c")
    case True
    then have "c \<noteq> CHR ''%''" using unreserved_plain [of c] by (auto simp: path_segment_plain_def)
    with True Cons e show ?thesis by (simp add: option.map_comp comp_def)
  next
    case False
    with Cons e show ?thesis by (simp add: unescape_percent option.map_comp comp_def)
  qed
qed

lemma unescape_or_escape [simp]: "unescape_or (path_escape s) = s"
  using unescape_path_escape [of s "[]"] by (simp add: unescape_or_def)

lemma path_escape_eq: "url_unescape False t = Some t \<Longrightarrow> path_escape s = t \<Longrightarrow> s = t"
  using unescape_path_escape [of s "[]"] by auto

lemma percent_letters: "c \<in> set (percent x) \<Longrightarrow> c \<in> set ''%0123456789ABCDEF''"
proof -
  assume c: "c \<in> set (percent x)"
  have hex: "hex_digit n \<in> set ''0123456789ABCDEF''" if "n < 16" for n
    unfolding hex_digit_def by (rule nth_mem) (use that in auto)
  have "(of_char x :: nat) div 16 < 16" using nat_of_char_less_256 [of x] by linarith
  with c hex [of "of_char x div 16"] hex [of "of_char x mod 16"] show ?thesis
    unfolding percent_def by (auto simp del: mod_less_divisor)
qed

lemma path_escape_no_slash: "slash \<notin> set (path_escape s)"
proof
  assume "slash \<in> set (path_escape s)"
  then obtain x where "slash \<in> set (if path_segment_plain x then [x] else percent x)"
    unfolding path_escape_def set_concat set_map by blast
  then show False
    using percent_letters [of slash x]
    by (auto simp: slash_def path_segment_plain_def unreserved_def is_upper_def is_lower_def is_digit_def split: if_splits)
qed

lemma path_escape_nonempty: "path_escape s = [] \<longleftrightarrow> s = []"
  using path_escape_eq [of "[]" s] by (auto simp: path_escape_def)

text \<open>A segment that cleaning a path leaves as it is.\<close>

definition kept_seg :: "string \<Rightarrow> bool" where
  "kept_seg w \<longleftrightarrow> w \<noteq> [] \<and> w \<noteq> ''.'' \<and> w \<noteq> ''..'' \<and> slash \<notin> set w"

definition kept_segs :: "string list \<Rightarrow> bool" where
  "kept_segs ws \<longleftrightarrow> ws \<noteq> [] \<and> list_all kept_seg (butlast ws) \<and> (kept_seg (List.last ws) \<or> List.last ws = [])"

definition path_text :: "string list \<Rightarrow> string" where
  "path_text ws = concat (map ((#) slash) ws)"

lemma kept_escape: "v \<noteq> [] \<Longrightarrow> v \<noteq> ''.'' \<Longrightarrow> v \<noteq> ''..'' \<Longrightarrow> kept_seg (path_escape v)"
  using path_escape_eq [of "''.''" v] path_escape_eq [of "''..''" v]
  by (auto simp: kept_seg_def path_escape_nonempty path_escape_no_slash)

lemma path_text_join: "ws \<noteq> [] \<Longrightarrow> slash # join_with [slash] ws = path_text ws"
  by (induction ws rule: induct_list012) (simp_all add: path_text_def)

lemma split_path_text: "ws \<noteq> [] \<Longrightarrow> list_all (\<lambda>w. slash \<notin> set w) ws \<Longrightarrow> split_on slash (path_text ws) = [] # ws"
proof (induction ws)
  case (Cons w ws)
  show ?case
  proof (cases ws)
    case Nil
    with Cons show ?thesis by (simp add: path_text_def split_on_single)
  next
    case (Cons w' ws')
    then have "path_text (w # ws) = slash # w @ path_text ws" and "path_text ws = slash # w' @ path_text ws'"
      by (simp_all add: path_text_def)
    with Cons.IH Cons.prems Cons split_on_append [of slash w "w' @ path_text ws'"] show ?thesis by simp
  qed
qed simp

lemma clean_kept: "list_all kept_seg ws \<Longrightarrow> clean_segs (ws @ ws') d = clean_segs ws' (d @ ws)"
  by (induction ws arbitrary: d) (auto simp: kept_seg_def)

lemma clean_path_text:
  assumes "kept_segs ws"
  shows "clean_path (path_text ws) = path_text ws"
proof -
  obtain us w where ws: "ws = us @ [w]" using assms by (cases ws rule: rev_cases) (auto simp: kept_segs_def)
  have kept: "list_all kept_seg us" and last_kept: "kept_seg w \<or> w = []" using assms by (simp_all add: kept_segs_def ws)
  then have "list_all (\<lambda>w. slash \<notin> set w) (us @ [w])" by (auto simp: kept_seg_def list_all_iff)
  then have split: "split_on slash (path_text ws) = [] # us @ [w]" unfolding ws by (intro split_path_text) simp_all
  have shape: "path_text ws = path_text us @ slash # w" by (simp add: path_text_def ws)
  have start: "path_text ws \<noteq> []" "hd (path_text ws) = slash" by (cases us; simp add: path_text_def ws)+
  have segs: "clean_segs ([] # us @ [w]) [] = (if w = [] then us else us @ [w])"
    using clean_kept [OF kept, of "[w]" "[]"] last_kept by (auto simp: kept_seg_def)
  have joined: "us \<noteq> [] \<Longrightarrow> slash # join_with [slash] us = path_text us" by (rule path_text_join)
  show ?thesis
  proof (cases "w = []")
    case True
    have cleaned: "clean_segs ([] # us @ [w]) [] = us" using True segs by simp
    have "List.last (path_text ws) = slash" by (simp add: shape True)
    then have "clean_path (path_text ws) = slash # join_with [slash] us @ (if us = [] then [] else [slash])"
      using start by (simp add: clean_path_def Let_def split cleaned del: clean_segs.simps)
    then show ?thesis using joined unfolding shape True by (cases "us = []") (simp_all add: path_text_def)
  next
    case False
    then have cleaned: "clean_segs ([] # us @ [w]) [] = us @ [w]" unfolding segs by (simp only: if_False)
    from False have "List.last (path_text ws) \<in> set w" by (simp add: shape)
    then have "List.last (path_text ws) \<noteq> slash" using last_kept False by (auto simp: kept_seg_def)
    then have "clean_path (path_text ws) = slash # join_with [slash] (us @ [w])"
      using start by (simp add: clean_path_def Let_def split cleaned del: clean_segs.simps)
    then show ?thesis using path_text_join [of "us @ [w]"] by (simp add: ws)
  qed
qed

lemma first_segment_text:
  "kept_seg w \<Longrightarrow> rest = [] \<or> hd rest = slash \<Longrightarrow> first_segment (slash # w @ rest) = (unescape_or w, rest)"
proof -
  assume w: "kept_seg w" and rest: "rest = [] \<or> hd rest = slash"
  have "takeWhile (\<lambda>c. c \<noteq> slash) (w @ rest) = w" "dropWhile (\<lambda>c. c \<noteq> slash) (w @ rest) = rest"
  proof -
    have plain: "\<And>c. c \<in> set w \<Longrightarrow> c \<noteq> slash" using w by (auto simp: kept_seg_def)
    have "takeWhile (\<lambda>c. c \<noteq> slash) rest = []" "dropWhile (\<lambda>c. c \<noteq> slash) rest = rest" using rest by (cases rest; simp)+
    then show "takeWhile (\<lambda>c. c \<noteq> slash) (w @ rest) = w" "dropWhile (\<lambda>c. c \<noteq> slash) (w @ rest) = rest"
      using plain by (simp_all add: takeWhile_append2 dropWhile_append2)
  qed
  then show ?thesis using w by (auto simp: first_segment_def kept_seg_def)
qed

section \<open>A route's URL leads back to it\<close>

text \<open>
  A segment of a route's path is a wildcard, or text that cleaning a path leaves as it is; and a value a URL can carry: not
  a slash alone, which ServeMux takes for a path's end, nor a dot or two, which it cleans away, as of each part of the
  value of a {name...} wildcard, which has none empty but the last.
\<close>

definition plain_route_seg :: "string \<Rightarrow> bool" where
  "plain_route_seg s \<longleftrightarrow> CHR ''{'' \<in> set s \<or> kept_seg s"

definition rest_fits :: "string \<Rightarrow> bool" where
  "rest_fits v \<longleftrightarrow> kept_segs (split_on slash v)"

fun values_fit :: "seg list \<Rightarrow> string list \<Rightarrow> bool" where
  "values_fit (Wild_seg n # ss) (v # vs) = (v \<noteq> ''.'' \<and> v \<noteq> ''..'' \<and> v \<noteq> [slash] \<and> values_fit ss vs)"
| "values_fit (Rest_seg n # ss) (v # vs) = (rest_fits v \<and> values_fit ss vs)"
| "values_fit (Lit_seg l # ss) vs = values_fit ss vs"
| "values_fit (End_seg # ss) vs = values_fit ss vs"
| "values_fit ss vs = True"

lemma unescape_join:
  "url_unescape False (join_with [slash] (map path_escape ws) @ t) = map_option ((@) (join_with [slash] ws)) (url_unescape False t)"
proof (induction ws rule: induct_list012)
  case (3 w w' ws)
  have "url_unescape False (slash # u) = map_option ((#) slash) (url_unescape False u)" for u by (simp add: slash_def)
  with 3(2) show ?case by (simp add: unescape_path_escape option.map_comp comp_def)
qed (simp_all add: unescape_path_escape option.map_ident)

lemma unescape_or_join: "unescape_or (join_with [slash] (map path_escape (split_on slash v))) = v"
  using unescape_join [of "split_on slash v" "[]"] join_split_on [of slash v] by (simp add: unescape_or_def)

lemma kept_escapes: "kept_segs ws \<Longrightarrow> kept_segs (map path_escape ws)"
proof -
  assume ws: "kept_segs ws"
  have keeps: "kept_seg w \<Longrightarrow> kept_seg (path_escape w)" for w
    using kept_escape [of w] by (auto simp: kept_seg_def)
  have "path_escape [] = []" by (simp add: path_escape_nonempty)
  with ws keeps show ?thesis
    by (auto simp: kept_segs_def last_map map_butlast [symmetric] list_all_iff)
qed

lemma has_suffix_snoc: "has_suffix (s @ [c]) (p @ [c]) = has_suffix s p"
  by (simp add: has_suffix_def)

lemma has_prefix_snoc: "c \<notin> set p \<Longrightarrow> has_prefix (s @ [c]) p \<longleftrightarrow> has_prefix s p"
proof (induction s p rule: has_prefix.induct)
  case (2 p ps)
  then show ?case by (cases ps) auto
qed auto

lemma has_suffix_brace: "has_suffix (CHR ''{'' # name) ''...'' \<longleftrightarrow> has_suffix name ''...''"
  using has_prefix_snoc [of "CHR ''{''" "''...''" "rev name"] by (simp add: has_suffix_def)

text \<open>The segments of a pattern that have a brace.\<close>

lemma parse_seg_wild:
  assumes "parse_seg at_end s = Some g" and "CHR ''{'' \<in> set s"
  obtains name where "s = CHR ''{'' # name @ [CHR ''}'']"
    "(name = ''$'' \<and> g = End_seg \<and> at_end) \<or>
     (name \<noteq> ''$'' \<and> has_suffix name ''...'' \<and> at_end \<and> (\<exists>n. g = Rest_seg n \<and> n \<noteq> [])) \<or>
     (name \<noteq> ''$'' \<and> \<not> has_suffix name ''...'' \<and> (\<exists>n. g = Wild_seg n))"
proof -
  have ends: "s \<noteq> []" "hd s = CHR ''{''" "List.last s = CHR ''}''"
    using assms by (auto simp: parse_seg_def split: if_splits)
  then obtain t where t: "s = CHR ''{'' # t" by (cases s) auto
  with ends(3) have "t \<noteq> []" by auto
  then have "t = butlast t @ [List.last t]" by simp
  with t ends(3) \<open>t \<noteq> []\<close> have s: "s = CHR ''{'' # butlast t @ [CHR ''}'']" by simp
  have name: "butlast (tl s) = butlast t" by (simp add: t)
  show ?thesis
    by (rule that [OF s]) (use assms ends in \<open>auto simp: parse_seg_def name wildcard_name_def Let_def split: if_splits\<close>)
qed

lemma first_end: "first_segment [slash] = ([slash], [])"
  by (simp add: first_segment_def)

lemma path_text_Cons: "path_text (w # ws) = slash # w @ path_text ws"
  by (simp add: path_text_def)

lemma path_text_start: "path_text ws = [] \<or> hd (path_text ws) = slash"
  by (cases ws) (simp_all add: path_text_def)

lemma kept_segs_Cons: "kept_seg w \<Longrightarrow> ws = [] \<or> kept_segs ws \<Longrightarrow> kept_segs (w # ws)"
  by (auto simp: kept_segs_def)

lemma fill_segs_match:
  assumes "parse_segs ss = Some segs" and "fill_segs ss params used = Inr (path, used')"
    and "list_all plain_route_seg ss" and "values_fit segs (drop used params)" and "used \<le> length params"
  shows "used \<le> used' \<and> used' \<le> length params \<and>
    match_segs segs path = Some (take (used' - used) (drop used params)) \<and>
    (\<exists>ws. path = path_text ws \<and> (ss = [] \<and> ws = [] \<or> kept_segs ws))"
  using assms
proof (induction ss arbitrary: segs used path)
  case Nil
  then show ?case by (auto simp: path_text_def)
next
  case (Cons s ss)
  from Cons.prems(1) obtain g segs' where g: "parse_seg (ss = []) s = Some g" "parse_segs ss = Some segs'" "segs = g # segs'"
    by (auto split: option.splits)
  have rest_ok: "list_all plain_route_seg ss" using Cons.prems(3) by simp
  show ?case
  proof (cases "CHR ''{'' \<in> set s")
    case False
    then have kept: "kept_seg s" using Cons.prems(3) by (simp add: plain_route_seg_def)
    then have lit: "g = Lit_seg (unescape_or s)" using g(1) False by (auto simp: parse_seg_def kept_seg_def)
    have "s \<noteq> ''{$}''" "\<not> has_prefix s ''{''" using False by (auto simp: has_prefix_iff)
    then obtain rest where rest: "fill_segs ss params used = Inr (rest, used')" "path = slash # s @ rest"
      using Cons.prems(2) by (auto split: sum.splits prod.splits)
    have "values_fit segs' (drop used params)" using Cons.prems(4) g(3) lit by simp
    from Cons.IH [OF g(2) rest(1) rest_ok this Cons.prems(5)] obtain ws where
      ws: "used \<le> used'" "used' \<le> length params" "match_segs segs' rest = Some (take (used' - used) (drop used params))"
      "rest = path_text ws" "ws = [] \<or> kept_segs ws" by blast
    have "first_segment path = (unescape_or s, rest)"
      unfolding rest(2) using path_text_start [of ws] ws(4) by (intro first_segment_text [OF kept]) simp
    then have "match_segs segs path = Some (take (used' - used) (drop used params))" using ws(3) rest(2) by (simp add: g(3) lit)
    moreover have "path = path_text (s # ws)" by (simp add: rest(2) ws(4) path_text_Cons)
    ultimately show ?thesis using ws(1,2) kept_segs_Cons [OF kept ws(5)] by blast
  next
    case True
    from g(1) this obtain name where name: "s = CHR ''{'' # name @ [CHR ''}'']"
      "(name = ''$'' \<and> g = End_seg \<and> ss = []) \<or>
       (name \<noteq> ''$'' \<and> has_suffix name ''...'' \<and> ss = [] \<and> (\<exists>n. g = Rest_seg n \<and> n \<noteq> [])) \<or>
       (name \<noteq> ''$'' \<and> \<not> has_suffix name ''...'' \<and> (\<exists>n. g = Wild_seg n))" by (rule parse_seg_wild)
    have starts: "has_prefix s ''{''" by (simp add: name(1))
    have dollar: "s = ''{$}'' \<longleftrightarrow> name = ''$''" by (auto simp: name(1) append_eq_Cons_conv)
    have dots: "has_suffix s ''...}'' \<longleftrightarrow> has_suffix name ''...''"
      using has_suffix_snoc [of "CHR ''{'' # name" "CHR ''}''" "''...''"] has_suffix_brace [of name] by (simp add: name(1))
    from name(2) consider
        (end_seg) "name = ''$''" "g = End_seg" "ss = []"
      | (rest_seg) n where "name \<noteq> ''$''" "has_suffix name ''...''" "ss = []" "g = Rest_seg n" "n \<noteq> []"
      | (wild_seg) n where "name \<noteq> ''$''" "\<not> has_suffix name ''...''" "g = Wild_seg n" by blast
    then show ?thesis
    proof cases
      case end_seg
      then have "path = [slash]" "used' = used" using Cons.prems(2) dollar by auto
      then show ?thesis using end_seg g Cons.prems(5) by (auto simp: first_end path_text_def kept_segs_def intro: exI [of _ "[[]]"])
    next
      case rest_seg
      let ?v = "params ! used"
      have out: "path = slash # join_with [slash] (map path_escape (split_on slash ?v))" "used' = used + 1" "used < length params"
        using Cons.prems(2,5) rest_seg starts dollar dots by (auto simp: Let_def split: if_splits)
      have "drop used params = ?v # drop (used + 1) params" using out(3) by (simp add: Cons_nth_drop_Suc)
      moreover from this have "rest_fits ?v" using Cons.prems(4) g(3) rest_seg by simp
      moreover have "path = path_text (map path_escape (split_on slash ?v))" by (simp add: out(1) path_text_join)
      moreover have "match_segs segs path = Some [?v]" using rest_seg(5) by (simp add: g(3) rest_seg(4) out(1) unescape_or_join)
      ultimately show ?thesis
        using out(2,3) kept_escapes [of "split_on slash ?v"] by (auto simp: rest_fits_def)
    next
      case wild_seg
      let ?v = "params ! used"
      have not_dots: "\<not> has_suffix s ''...}''" "s \<noteq> ''{$}''" using dots dollar wild_seg by auto
      obtain rest where out: "fill_segs ss params (used + 1) = Inr (rest, used')" "path = slash # path_escape ?v @ rest"
        "used < length params" "?v \<noteq> []"
        using Cons.prems(2,5) not_dots starts by (auto simp: Let_def split: if_splits sum.splits prod.splits)
      have v: "drop used params = ?v # drop (used + 1) params" using out(3) by (simp add: Cons_nth_drop_Suc)
      with Cons.prems(4) g(3) wild_seg have fits: "?v \<noteq> ''.''" "?v \<noteq> ''..''" "?v \<noteq> [slash]" "values_fit segs' (drop (used + 1) params)"
        by auto
      have kept: "kept_seg (path_escape ?v)" using out(4) fits by (intro kept_escape)
      from Cons.IH [OF g(2) out(1) rest_ok fits(4)] out(3) obtain ws where
        ws: "used + 1 \<le> used'" "used' \<le> length params" "match_segs segs' rest = Some (take (used' - (used + 1)) (drop (used + 1) params))"
        "rest = path_text ws" "ws = [] \<or> kept_segs ws" by auto
      have "first_segment path = (?v, rest)"
        unfolding out(2) using path_text_start [of ws] ws(4) first_segment_text [OF kept, of rest] by simp
      moreover have "take (used' - used) (drop used params) = ?v # take (used' - (used + 1)) (drop (used + 1) params)"
      proof -
        have "used' - used = Suc (used' - (used + 1))" using ws(1) by simp
        then show ?thesis unfolding v by simp
      qed
      ultimately have "match_segs segs path = Some (take (used' - used) (drop used params))"
        using ws(3) out(2) fits(3) by (simp add: g(3) wild_seg)
      moreover have "path = path_text (path_escape ?v # ws)" by (simp add: out(2) ws(4) path_text_Cons)
      moreover have "used \<le> used'" using ws(1) by simp
      ultimately show ?thesis using ws(2) kept_segs_Cons [OF kept ws(5)] by blast
    qed
  qed
qed

text \<open>
  C23. A route's URL leads back to the route. However an app's routes were added and named, the path App.URL builds of a
  name and values is one ServeMux does not redirect, and the pattern of the route so named takes it, with each wildcard's
  value as it was given, whatever its bytes: where the text between the route's wildcards is none that cleaning a path takes
  away, no value of a {name} wildcard is a dot, two dots or a slash alone, and no part of a {name...} wildcard's value but
  the last is empty, and none a dot or two dots. One that is leads elsewhere, as below.
\<close>

theorem a_routes_url_leads_back_to_it:
  assumes "built clashes ops a" and "lookup (ar_names a) name = Some i" and "route_url a name params = Inr url"
    and "list_all plain_route_seg (split_on slash (tl (rt_path (ar_routes a ! i))))"
    and "values_fit (rt_segs (ar_routes a ! i)) params"
  shows "rt_name (ar_routes a ! i) = name \<and> clean_path url = url \<and> match_segs (rt_segs (ar_routes a ! i)) url = Some params"
proof -
  have ok: "built_ok ops a" by (rule built_built_ok [OF assms(1)])
  then have i: "i < length (ar_routes a)" "rt_name (ar_routes a ! i) = name" using assms(2) by (auto simp: built_ok_def)
  have "route_ok (length (ar_groups a)) (ar_routes a ! i)"
    using ok i(1) unfolding built_ok_def list_all_length by blast
  then have segs: "parse_segs (split_on slash (tl (rt_path (ar_routes a ! i)))) = Some (rt_segs (ar_routes a ! i))"
    by (auto simp: route_ok_def parse_path_def split: option.splits if_splits)
  obtain used where used: "fill_segs (split_on slash (tl (rt_path (ar_routes a ! i)))) params 0 = Inr (url, used)"
    "\<not> used < length params"
    using assms(2,3) by (auto simp: route_url_def split: sum.splits if_splits)
  from fill_segs_match [OF segs used(1) assms(4)] assms(5) used(2) obtain ws where
    "match_segs (rt_segs (ar_routes a ! i)) url = Some params" "url = path_text ws" "kept_segs ws" by auto
  then show ?thesis using i(2) clean_path_text by blast
qed

theorem a_routes_url_leads_back_to_it_witness:
  "route_url ex_app ''users.show'' [''a/b?''] = Inr ''/admin/users/a%2Fb%3F/'' \<and>
   match_segs (rt_segs (ar_routes ex_app ! 0)) ''/admin/users/a%2Fb%3F/'' = Some [''a/b?''] \<and>
   match_segs (rt_segs (ar_routes ex_app ! 2)) ''/files/a/b%20c/'' = Some [''a/b c/'']"
proof -
  have urls: "route_url ex_app ''users.show'' [''a/b?''] = Inr ''/admin/users/a%2Fb%3F/''"
    "route_url ex_app ''files'' [''a/b c/''] = Inr ''/files/a/b%20c/''"
    by code_simp+
  have plain: "list_all plain_route_seg (split_on slash (tl (rt_path (ar_routes ex_app ! 0))))"
    "list_all plain_route_seg (split_on slash (tl (rt_path (ar_routes ex_app ! 2))))"
    by code_simp+
  have fits: "values_fit (rt_segs (ar_routes ex_app ! 0)) [''a/b?'']" "values_fit (rt_segs (ar_routes ex_app ! 2)) [''a/b c/'']"
    by code_simp+
  have names: "lookup (ar_names ex_app) ''users.show'' = Some 0" "lookup (ar_names ex_app) ''files'' = Some 2"
    by (simp_all add: ex_app_def)
  show ?thesis
    using a_routes_url_leads_back_to_it [OF ex_app_built names(1) urls(1) plain(1) fits(1)]
      a_routes_url_leads_back_to_it [OF ex_app_built names(2) urls(2) plain(2) fits(2)] urls(1) by blast
qed

text \<open>A value of two dots, or of a slash, leads elsewhere: to the path above, which is cleaned away to, and to no route.\<close>

lemma a_dotted_value_leads_elsewhere:
  "route_url ex_app ''users.show'' [''..''] = Inr ''/admin/users/../''" "clean_path ''/admin/users/../'' = ''/admin/''"
  "route_url ex_app ''users.show'' [''/''] = Inr ''/admin/users/%2F/''"
  "match_segs (rt_segs (ar_routes ex_app ! 0)) ''/admin/users/%2F/'' = None"
  by code_simp+

end
