(* ===== verification/Misses.thy ===== *)
theory Misses
  imports Router
begin

text \<open>
  What answers a request no route took (app.go, miss): a redirect to its path without its trailing slash, the methods its
  path takes, or that there is no such page; and the parts of a \<open>url.URL\<close> that it reads and writes.
\<close>

section \<open>Paths of URLs\<close>

record path_url =
  pu_path :: string
  pu_raw :: string
  pu_query :: string
  pu_force :: bool

text \<open>\<open>escape\<close> of a path, \<open>setPath\<close> of a request's target, \<open>EscapedPath\<close> and \<open>RequestURI\<close>, with no Opaque part.\<close>

definition path_plain :: "char \<Rightarrow> bool" where
  "path_plain c \<longleftrightarrow> unreserved c \<or> c \<in> set ''$&+,/:;=@''"

definition escape_path :: "string \<Rightarrow> string" where
  "escape_path s = concat (map (\<lambda>c. if path_plain c then [c] else percent c) s)"

definition set_path :: "string \<Rightarrow> path_url \<Rightarrow> path_url option" where
  "set_path p u =
     map_option (\<lambda>path. u\<lparr>pu_path := path, pu_raw := if escape_path path = p then [] else p\<rparr>) (url_unescape False p)"

definition raw_ok :: "char \<Rightarrow> bool" where
  "raw_ok c \<longleftrightarrow> path_plain c \<or> c \<in> set ''!()*[]%'' \<or> c = char_of (39 :: nat)"

definition escaped_path :: "path_url \<Rightarrow> string" where
  "escaped_path u =
     (if pu_raw u \<noteq> [] \<and> list_all raw_ok (pu_raw u) \<and> url_unescape False (pu_raw u) = Some (pu_path u) then pu_raw u
      else if pu_path u = ''*'' then ''*'' else escape_path (pu_path u))"

definition request_uri :: "path_url \<Rightarrow> string" where
  "request_uri u =
     (if escaped_path u = [] then ''/'' else escaped_path u) @
     (if pu_force u \<or> pu_query u \<noteq> [] then CHR ''?'' # pu_query u else [])"

section \<open>What a miss is answered with\<close>

text \<open>
  Whether a route would take a request, as \<open>mux.Handler\<close> finds: the ServeMux cleans its path, and redirects one that a route
  takes with a slash after it. A request of CONNECT has its path as it is.
\<close>

definition takes_method :: "string \<Rightarrow> string \<Rightarrow> bool" where
  "takes_method of_route m \<longleftrightarrow> of_route = [] \<or> of_route = m \<or> of_route = ''GET'' \<and> m = ''HEAD''"

definition routed :: "('m, 'h) app_routes \<Rightarrow> string \<Rightarrow> path_url \<Rightarrow> bool" where
  "routed a m u \<longleftrightarrow>
     (let p = (if m = ''CONNECT'' then escaped_path u else clean_path (escaped_path u))
      in list_ex (\<lambda>rt. takes_method (rt_method rt) m \<and>
             (match_segs (rt_segs rt) p \<noteq> None \<or> \<not> has_suffix p [slash] \<and> exact_match (rt_segs rt) (p @ [slash])))
           (ar_routes a))"

definition without_trailing_slash :: "('m, 'h) app_routes \<Rightarrow> string \<Rightarrow> path_url \<Rightarrow> string option" where
  "without_trailing_slash a m u =
     (if \<not> has_suffix (pu_path u) [slash] then None
      else let v = u\<lparr>pu_path := trim_right_slash (pu_path u), pu_raw := trim_right_slash (pu_raw u)\<rparr>
           in if pu_path v = [] \<or> \<not> routed a m v then None else Some (request_uri v))"

definition probed_methods :: "string list" where
  "probed_methods = [''GET'', ''POST'', ''PUT'', ''PATCH'', ''DELETE'', ''OPTIONS'']"

definition allowed_methods :: "('m, 'h) app_routes \<Rightarrow> string \<Rightarrow> path_url \<Rightarrow> string list" where
  "allowed_methods a m u =
     concat (map (\<lambda>p. if p = m \<or> \<not> routed a p u then [] else p # (if p = ''GET'' then [''HEAD''] else [])) probed_methods)"

datatype miss_answer = Miss_redirect string | Miss_allow "string list" | Miss_not_found

definition miss :: "('m, 'h) app_routes \<Rightarrow> string \<Rightarrow> path_url \<Rightarrow> miss_answer" where
  "miss a m u =
     (case without_trailing_slash a m u of
        Some to \<Rightarrow> Miss_redirect to
      | None \<Rightarrow> if allowed_methods a m u \<noteq> [] then Miss_allow (allowed_methods a m u) else Miss_not_found)"

section \<open>What a cleaned path is\<close>

definition whole_part :: "string \<Rightarrow> bool" where
  "whole_part s \<longleftrightarrow> s \<noteq> [] \<and> slash \<notin> set s"

lemma clean_segs_whole:
  "list_all whole_part ds \<Longrightarrow> list_all (\<lambda>s. slash \<notin> set s) ss \<Longrightarrow> list_all whole_part (clean_segs ss ds)"
proof (induction ss arbitrary: ds)
  case (Cons s ss)
  have "list_all whole_part (butlast ds)" using Cons.prems(1) by (auto simp: list_all_iff dest: in_set_butlastD)
  with Cons.prems have
    "list_all whole_part (if s = [] \<or> s = ''.'' then ds else if s = ''..'' then butlast ds else ds @ [s])"
    by (auto simp: list_all_iff whole_part_def)
  then show ?case using Cons.IH Cons.prems(2) by simp
qed simp

lemma joined_whole:
  assumes "list_all whole_part segs" and "segs \<noteq> []"
  shows "\<exists>c t. join_with [slash] segs = c # t \<and> c \<noteq> slash"
proof (cases segs)
  case (Cons s ss)
  with assms have "s \<noteq> []" "slash \<notin> set s" by (simp_all add: whole_part_def)
  then obtain c t where s: "s = c # t" "c \<noteq> slash" by (cases s) auto
  show ?thesis by (cases ss) (simp_all add: Cons s)
qed (use assms in simp)

lemma clean_path_start: "\<not> has_prefix (clean_path p) [slash, slash] \<and> has_prefix (clean_path p) [slash]"
proof -
  define q where "q = (if p = [] \<or> hd p \<noteq> slash then slash # p else p)"
  define segs where "segs = clean_segs (split_on slash q) []"
  have whole: "list_all whole_part segs"
    unfolding segs_def by (rule clean_segs_whole) (use split_on_no_sep in \<open>fastforce simp: list_all_iff\<close>)+
  have p: "clean_path p = slash # join_with [slash] segs @ (if List.last q = slash \<and> segs \<noteq> [] then [slash] else [])"
    by (simp add: clean_path_def Let_def q_def segs_def)
  show ?thesis
  proof (cases "segs = []")
    case False
    with joined_whole [OF whole] obtain c t where "join_with [slash] segs = c # t" "c \<noteq> slash" by blast
    then show ?thesis by (simp add: p)
  qed (simp add: p)
qed

section \<open>What a miss says\<close>

lemma escape_path_append: "escape_path (s @ t) = escape_path s @ escape_path t"
  by (simp add: escape_path_def)

lemma escape_path_nonempty: "s \<noteq> [] \<Longrightarrow> escape_path s \<noteq> []"
  by (cases s) (simp_all add: escape_path_def percent_def)

definition trimmed_url :: "path_url \<Rightarrow> path_url" where
  "trimmed_url u = u\<lparr>pu_path := trim_right_slash (pu_path u), pu_raw := trim_right_slash (pu_raw u)\<rparr>"

lemma redirect_starts_alone:
  assumes "set_path p u = Some v" and "pu_raw v = []" and "clean_path p = p" and "pu_path (trimmed_url v) \<noteq> []"
  shows "has_prefix (request_uri (trimmed_url v)) [slash] \<and> \<not> has_prefix (request_uri (trimmed_url v)) [slash, slash]"
proof -
  let ?t = "trim_right_slash (pu_path v)"
  have p: "has_prefix p [slash]" "\<not> has_prefix p [slash, slash]" using clean_path_start [of p] assms(3) by simp_all
  then have "p \<noteq> []" by auto
  with assms(1,2) have escaped: "p = escape_path (pu_path v)"
    by (auto simp: set_path_def split: if_splits)
  obtain r where "pu_path v = ?t @ r" using trim_right_slash_split by blast
  with escaped have p_eq: "p = escape_path ?t @ escape_path r" using escape_path_append by metis
  have t: "?t \<noteq> []" using assms(4) by (simp add: trimmed_url_def)
  then obtain c x where x: "escape_path ?t = c # x" using escape_path_nonempty by (cases "escape_path ?t") auto
  with p p_eq have c: "c = slash" "\<not> has_prefix (x @ escape_path r) [slash]" by auto
  have "escape_path ''*'' = ''%2A''" by code_simp
  with x c(1) have star: "?t \<noteq> ''*''" by (auto simp: slash_def)
  have "escaped_path (trimmed_url v) = slash # x"
    using star x c(1) by (simp add: escaped_path_def trimmed_url_def assms(2) trim_right_slash_def)
  moreover have "\<not> has_prefix (x @ (if b then CHR ''?'' # q else [])) [slash]" for b q
    using c(2) by (cases x) (auto simp: slash_def)
  ultimately show ?thesis by (simp add: request_uri_def trimmed_url_def)
qed

text \<open>The methods of the routes that Get, Post, Put, Patch, Delete, Options and Any add, an empty one for any method.\<close>

definition usual_method :: "string \<Rightarrow> bool" where
  "usual_method k \<longleftrightarrow>
     k = ''GET'' \<or> k = ''POST'' \<or> k = ''PUT'' \<or> k = ''PATCH'' \<or> k = ''DELETE'' \<or> k = ''OPTIONS'' \<or> k = []"

text \<open>Whether a route takes a path, under its own method, once it is cleaned.\<close>

definition fits_path :: "('m, 'h) app_route \<Rightarrow> path_url \<Rightarrow> bool" where
  "fits_path rt u \<longleftrightarrow>
     (let p = clean_path (escaped_path u)
      in match_segs (rt_segs rt) p \<noteq> None \<or> \<not> has_suffix p [slash] \<and> exact_match (rt_segs rt) (p @ [slash]))"

lemma routed_fits:
  "k \<noteq> ''CONNECT'' \<Longrightarrow>
     routed a k u \<longleftrightarrow> (\<exists>rt \<in> set (ar_routes a). takes_method (rt_method rt) k \<and> fits_path rt u)"
  by (auto simp: routed_def fits_path_def Let_def list_ex_iff)

lemma allowed_are_routed:
  assumes "\<not> routed a m u" and "list_all (\<lambda>rt. usual_method (rt_method rt)) (ar_routes a)" and "m \<noteq> ''CONNECT''"
  shows "set (allowed_methods a m u) = {k. k \<noteq> ''CONNECT'' \<and> routed a k u}"
proof -
  have each: "set (concat (map (\<lambda>p. if p = m \<or> \<not> routed a p u then [] else p # (if p = ''GET'' then [''HEAD''] else [])) ms)) =
    {k \<in> set ms. k \<noteq> m \<and> routed a k u} \<union> (if ''GET'' \<in> set ms \<and> ''GET'' \<noteq> m \<and> routed a ''GET'' u then {''HEAD''} else {})" for ms
    by (induction ms) auto
  have "\<forall>rt \<in> set (ar_routes a). fits_path rt u \<longrightarrow> \<not> takes_method (rt_method rt) m"
    using assms(1) routed_fits [OF assms(3)] by blast
  then have no_any: "rt_method rt \<noteq> []" if "rt \<in> set (ar_routes a)" "fits_path rt u" for rt
    using that by (auto simp: takes_method_def)
  have usual: "usual_method (rt_method rt)" if "rt \<in> set (ar_routes a)" for rt
    using assms(2) that by (simp add: list_all_iff)
  have routed: "routed a k u \<longleftrightarrow> (\<exists>rt \<in> set (ar_routes a). fits_path rt u \<and> (rt_method rt = k \<or> rt_method rt = ''GET'' \<and> k = ''HEAD''))"
    if "k \<noteq> ''CONNECT''" for k
    using routed_fits [OF that] no_any by (auto simp: takes_method_def)
  have "rt_method rt \<noteq> ''HEAD''" if "rt \<in> set (ar_routes a)" for rt
    using usual [OF that] by (auto simp: usual_method_def)
  then have head: "routed a ''HEAD'' u = routed a ''GET'' u"
    using routed [of "''HEAD''"] routed [of "''GET''"] by auto
  have "k \<in> set (''HEAD'' # probed_methods)" if k: "k \<noteq> ''CONNECT''" "routed a k u" for k
  proof -
    obtain rt where "rt \<in> set (ar_routes a)" "fits_path rt u" "rt_method rt = k \<or> rt_method rt = ''GET'' \<and> k = ''HEAD''"
      using routed [OF k(1)] k(2) by blast
    with usual [of rt] no_any [of rt] show ?thesis by (auto simp: usual_method_def probed_methods_def)
  qed
  moreover have "''CONNECT'' \<notin> set (''HEAD'' # probed_methods)" "''GET'' \<in> set probed_methods"
    by (simp_all add: probed_methods_def)
  ultimately have "{k. k \<noteq> ''CONNECT'' \<and> routed a k u} = {k \<in> set (''HEAD'' # probed_methods). routed a k u}" by blast
  also have "\<dots> = set (allowed_methods a m u)"
    using assms(1) head \<open>''GET'' \<in> set probed_methods\<close> unfolding allowed_methods_def each by auto
  finally show ?thesis by simp
qed

text \<open>
  C40. A miss says what the path takes. In an app whose routes are those Get, Post, Put, Patch, Delete, Options and Any add, a
  request no route takes, of any method but CONNECT, is redirected to its path with no trailing slash only where a route takes
  that path; which no other host's name can start, for a path written with no escape of its own that is
  not needed. Otherwise it is told every method that a route takes the path under, and no other; and
  it is told there is no such page only where no route takes the path under any method.
\<close>

theorem a_miss_says_what_its_path_takes:
  assumes "\<not> routed a m u" and "list_all (\<lambda>rt. usual_method (rt_method rt)) (ar_routes a)" and "m \<noteq> ''CONNECT''"
    and "set_path p v = Some u" and "clean_path p = p"
  shows "case miss a m u of
      Miss_redirect to \<Rightarrow>
        to = request_uri (trimmed_url u) \<and> routed a m (trimmed_url u) \<and>
        (pu_raw u = [] \<longrightarrow> has_prefix to [slash] \<and> \<not> has_prefix to [slash, slash])
    | Miss_allow ms \<Rightarrow> ms \<noteq> [] \<and> set ms = {k. k \<noteq> ''CONNECT'' \<and> routed a k u}
    | Miss_not_found \<Rightarrow> (\<forall>k. k \<noteq> ''CONNECT'' \<longrightarrow> \<not> routed a k u)"
proof -
  note allowed = allowed_are_routed [OF assms(1-3)]
  have none: "\<forall>k. k \<noteq> ''CONNECT'' \<longrightarrow> \<not> routed a k u" if "allowed_methods a m u = []"
    using allowed that by auto
  show ?thesis
  proof (cases "without_trailing_slash a m u")
    case None
    then show ?thesis using allowed none by (simp add: miss_def)
  next
    case (Some to)
    then have "to = request_uri (trimmed_url u)" "routed a m (trimmed_url u)" "pu_path (trimmed_url u) \<noteq> []"
      by (auto simp: without_trailing_slash_def Let_def trimmed_url_def split: if_splits)
    then show ?thesis using redirect_starts_alone [OF assms(4) _ assms(5)] by (simp add: miss_def Some)
  qed
qed

definition slug_app :: "(nat, nat) app_routes" where
  "slug_app = new_routes\<lparr>ar_routes := [
     \<lparr>rt_group = 0, rt_method = ''GET'', rt_path = ''/{slug}'', rt_segs = [Wild_seg ''slug''], rt_name = [], rt_handler = 0, rt_mw = []\<rparr>,
     \<lparr>rt_group = 0, rt_method = ''POST'', rt_path = ''/posts/{id}'', rt_segs = [Lit_seg ''posts'', Wild_seg ''id''], rt_name = [],
      rt_handler = 1, rt_mw = []\<rparr>]\<rparr>"

definition url_at :: "string \<Rightarrow> path_url" where
  "url_at p = the (set_path p \<lparr>pu_path = [], pu_raw = [], pu_query = ''page=2'', pu_force = False\<rparr>)"

theorem a_miss_says_what_its_path_takes_witness:
  "miss slug_app ''GET'' (url_at ''/about/'') = Miss_redirect ''/about?page=2'' \<and>
   routed slug_app ''GET'' (trimmed_url (url_at ''/about/'')) \<and>
   miss slug_app ''GET'' (url_at ''/posts/1'') = Miss_allow [''POST''] \<and>
   set [''POST''] = {k. k \<noteq> ''CONNECT'' \<and> routed slug_app k (url_at ''/posts/1'')}"
proof -
  let ?v = "\<lparr>pu_path = [], pu_raw = [], pu_query = ''page=2'', pu_force = False\<rparr>"
  have usual: "list_all (\<lambda>rt. usual_method (rt_method rt)) (ar_routes slug_app)"
    by (simp add: slug_app_def usual_method_def)
  have get: "''GET'' \<noteq> ''CONNECT''" by simp
  have urls: "set_path ''/about/'' ?v = Some (url_at ''/about/'')" "set_path ''/posts/1'' ?v = Some (url_at ''/posts/1'')"
    "clean_path ''/about/'' = ''/about/''" "clean_path ''/posts/1'' = ''/posts/1''" by code_simp+
  have missed: "\<not> routed slug_app ''GET'' (url_at ''/about/'')" "\<not> routed slug_app ''GET'' (url_at ''/posts/1'')"
    "miss slug_app ''GET'' (url_at ''/about/'') = Miss_redirect ''/about?page=2''"
    "miss slug_app ''GET'' (url_at ''/posts/1'') = Miss_allow [''POST'']" by code_simp+
  show ?thesis
    using a_miss_says_what_its_path_takes [OF missed(1) usual get urls(1,3)]
      a_miss_says_what_its_path_takes [OF missed(2) usual get urls(2,4)] missed(3,4) by simp
qed

text \<open>
  A route that Handle added for another method takes a path none of whose methods a 405 would name: a request of the path
  under GET is told there is no such page.
\<close>

definition purge_app :: "(nat, nat) app_routes" where
  "purge_app = new_routes\<lparr>ar_routes := [
     \<lparr>rt_group = 0, rt_method = ''PURGE'', rt_path = ''/{slug}'', rt_segs = [Wild_seg ''slug''], rt_name = [], rt_handler = 0, rt_mw = []\<rparr>]\<rparr>"

lemma a_miss_knows_no_other_methods:
  "miss purge_app ''GET'' (url_at ''/about'') = Miss_not_found \<and> routed purge_app ''PURGE'' (url_at ''/about'')"
  by code_simp

text \<open>
  The path of a request may be written so that the redirect leads to another site: a slash that ends it is escaped, and is
  trimmed of the path though not of the path as it was written, which is then no longer the path's.
\<close>

lemma a_miss_leads_off_the_site:
  "miss slug_app ''GET'' (url_at ''/%2Fevil.example%2F/'') = Miss_redirect ''//evil.example?page=2'' \<and>
   \<not> routed slug_app ''GET'' (url_at ''/%2Fevil.example%2F/'') \<and> clean_path ''/%2Fevil.example%2F/'' = ''/%2Fevil.example%2F/''"
  by code_simp

end
