(* ===== verification/Flash.thy ===== *)
theory Flash
  imports Session_Visits Inertia_Pages Lang
begin

text \<open>
  What a request leaves for the page after it (forms.go, flash.go, and the redirects of ctx.go): the flash data, whether to
  clear the client's history and to keep its fragment, and validation errors, through the session; and the page that shows
  them. What was flashed reaches the next page shown, over the redirects, the partial reloads and the reload of a new build
  between, and is shown once.
\<close>

section \<open>What a request keeps\<close>

text \<open>
  A value in the session, as JSON has it: a map, a text, a bool, or anything else of the app's, of the type \<open>'d\<close>. A
  \<open>map[string]string\<close> goes in, and a \<open>map[string]any\<close> of texts comes out.
\<close>

datatype 'd kept = Kept_map "(string, 'd kept) gomap" | Kept_text string | Kept_bool bool | Kept_data 'd

definition errors_key :: string where "errors_key = ''tug.errors''"
definition flash_key :: string where "flash_key = ''tug.flash''"
definition clear_history_key :: string where "clear_history_key = ''tug.clear_history''"
definition fragment_key :: string where "fragment_key = ''tug.preserve_fragment''"

lemmas key_defs = errors_key_def flash_key_def clear_history_key_def fragment_key_def

text \<open>A Ctx, as what it has for the page: its request's session, if the app has sessions, and what was flashed.\<close>

record 'd form_ctx =
  fc_request :: http_request
  fc_session :: "'d kept session option"
  fc_flash :: "(string, 'd kept) gomap"
  fc_clear :: bool
  fc_fragment :: bool
  fc_head :: "head_element list"
  fc_locale :: string

definition in_session :: "('d kept session \<Rightarrow> 'd kept session) \<Rightarrow> 'd form_ctx \<Rightarrow> 'd form_ctx" where
  "in_session f c = c\<lparr>fc_session := map_option f (fc_session c)\<rparr>"

text \<open>
  The keys the app declares with \<open>tug.Flash\<close>, and their types: \<open>'t\<close> is a \<open>reflect.Type\<close>, and \<open>fits\<close> whether a value is of
  one, or implements it. Declaring a key twice of two types panics, and so does flashing a value of another.
\<close>

definition declare_flash :: "string \<Rightarrow> 't \<Rightarrow> (string, 't) gomap \<Rightarrow> (string, 't) gomap option" where
  "declare_flash key t types =
     (case lookup types key of
        Some other \<Rightarrow> if other \<noteq> t then None else Some (put key t types)
      | None \<Rightarrow> Some (put key t types))"

definition check_flash :: "('t \<Rightarrow> 'd kept \<Rightarrow> bool) \<Rightarrow> (string, 't) gomap \<Rightarrow> string \<Rightarrow> 'd kept \<Rightarrow> bool" where
  "check_flash fits types key v = (case lookup types key of None \<Rightarrow> True | Some t \<Rightarrow> fits t v)"

definition flash_put :: "'d form_ctx \<Rightarrow> string \<times> 'd kept \<Rightarrow> 'd form_ctx" where
  "flash_put c e =
     (let flash = put (fst e) (snd e) (fc_flash c)
      in in_session (flash_set flash_key (Kept_map flash)) (c\<lparr>fc_flash := flash\<rparr>))"

definition ctx_flash ::
  "('t \<Rightarrow> 'd kept \<Rightarrow> bool) \<Rightarrow> (string, 't) gomap \<Rightarrow> string \<Rightarrow> 'd kept \<Rightarrow> 'd form_ctx \<Rightarrow> 'd form_ctx option" where
  "ctx_flash fits types key v c =
     (if \<not> check_flash fits types key v then None else Some (flash_put c (key, v)))"

definition clear_history :: "'d form_ctx \<Rightarrow> 'd form_ctx" where
  "clear_history c = in_session (flash_set clear_history_key (Kept_bool True)) (c\<lparr>fc_clear := True\<rparr>)"

definition preserve_fragment :: "'d form_ctx \<Rightarrow> 'd form_ctx" where
  "preserve_fragment c = in_session (flash_set fragment_key (Kept_bool True)) (c\<lparr>fc_fragment := True\<rparr>)"

section \<open>Redirects\<close>

definition carry_key :: "'d kept session \<Rightarrow> string \<Rightarrow> 'd kept session" where
  "carry_key s key = (if flashed key s = Some (Kept_bool True) then flash_set key (Kept_bool True) s else s)"

definition carry_flash :: "(string, 'd kept) gomap \<Rightarrow> 'd kept session \<Rightarrow> 'd kept session" where
  "carry_flash flash s =
     (let s = (case flashed flash_key s of
                 Some (Kept_map before) \<Rightarrow>
                   if before \<noteq> [] then flash_set flash_key (Kept_map (maps_copy before flash)) s else s
               | _ \<Rightarrow> s)
      in foldl carry_key s [clear_history_key, fragment_key])"

text \<open>\<open>Ctx.Redirect\<close>: nothing, for flash data with no session to go in; else what the request leaves, and its answer.\<close>

definition redirect_code :: "http_request \<Rightarrow> nat" where
  "redirect_code r = (if hr_method r = ''GET'' \<or> hr_method r = ''HEAD'' then 302 else 303)"

definition ctx_redirect :: "string \<Rightarrow> 'd form_ctx \<Rightarrow> ('d form_ctx \<times> call list) option" where
  "ctx_redirect to c =
     (if (fc_flash c \<noteq> [] \<or> fc_clear c \<or> fc_fragment c) \<and> fc_session c = None then None
      else Some (in_session (carry_flash (fc_flash c)) c, http_redirect to (redirect_code (fc_request c))))"

text \<open>
  \<open>back\<close>: \<open>parse\<close> is \<open>url.Parse\<close>, which gives a URL's host, path and request URI. \<open>host\<close> is the request's own.
\<close>

definition back_to :: "(string \<Rightarrow> (string \<times> string \<times> string) option) \<Rightarrow> string \<Rightarrow> http_request \<Rightarrow> string" where
  "back_to parse host r =
     (case parse (h_get ''Referer'' (hr_header r)) of
        None \<Rightarrow> ''/''
      | Some (ref_host, ref_path, ref_uri) \<Rightarrow> if ref_host \<noteq> host \<or> ref_path = [] then ''/'' else ref_uri)"

definition redirect_back ::
  "(string \<Rightarrow> (string \<times> string \<times> string) option) \<Rightarrow> string \<Rightarrow> 'd form_ctx \<Rightarrow> ('d form_ctx \<times> call list) option" where
  "redirect_back parse host c = ctx_redirect (back_to parse host (fc_request c)) c"

text \<open>\<open>wantsJSON\<close>, and \<open>answerInvalid\<close>: back to the form, or no redirect, for a 422 with the errors.\<close>

definition wants_json :: "http_request \<Rightarrow> bool" where
  "wants_json r \<longleftrightarrow>
     (let first = hd (split_on CHR '','' (h_get ''Accept'' (hr_header r)));
          media_type = trim_space (hd (split_on CHR '';'' first))
      in has_suffix media_type ''/json'' \<or> has_suffix media_type ''+json'')"

definition answer_invalid ::
  "(string \<Rightarrow> (string \<times> string \<times> string) option) \<Rightarrow> string \<Rightarrow> (string, string) gomap \<Rightarrow> 'd form_ctx \<Rightarrow>
   ('d form_ctx \<times> call list) option" where
  "answer_invalid parse host errs c =
     (if fc_session c \<noteq> None \<and> \<not> wants_json (fc_request c) then
        redirect_back parse host
          (in_session (flash_set errors_key (Kept_map (map (\<lambda>(field, msg). (field, Kept_text msg)) errs))) c)
      else None)"

section \<open>Pages\<close>

text \<open>\<open>messages\<close>: what is a text of a map that came back from the session.\<close>

definition messages :: "'d kept option \<Rightarrow> (string, string) gomap" where
  "messages v =
     (case v of
        Some (Kept_map m) \<Rightarrow>
          foldl (\<lambda>errs (field, msg). case msg of Kept_text s \<Rightarrow> put field s errs | _ \<Rightarrow> errs) [] m
      | _ \<Rightarrow> [])"

text \<open>
  \<open>pageRequest\<close>: what a page shows besides its props, and the request's session as the page leaves it. A partial reload
  passes the session on.
\<close>

record 'd page_extras =
  pe_errors :: "(string, string) gomap"
  pe_flash :: "(string, 'd kept) gomap"
  pe_clear :: bool
  pe_fragment :: bool
  pe_head :: "head_element list"
  pe_locale :: string
  pe_dir :: string

definition part_of_page :: "http_request \<Rightarrow> string \<Rightarrow> bool" where
  "part_of_page r component \<longleftrightarrow> is_inertia r \<and> h_get ''X-Inertia-Partial-Component'' (hr_header r) = component"

definition flash_before :: "'d kept session \<Rightarrow> (string, 'd kept) gomap" where
  "flash_before s = (case flashed flash_key s of Some (Kept_map m) \<Rightarrow> m | _ \<Rightarrow> [])"

definition shown_left :: "'d kept session \<Rightarrow> 'd kept session" where
  "shown_left s = unflash fragment_key (unflash clear_history_key (unflash flash_key s))"

definition page_request :: "string \<Rightarrow> 'd form_ctx \<Rightarrow> 'd page_extras \<times> 'd form_ctx" where
  "page_request component c =
     (let part = part_of_page (fc_request c) component;
          left_for_it = (if part then None else fc_session c);
          extras =
            \<lparr>pe_errors = (case left_for_it of None \<Rightarrow> [] | Some s \<Rightarrow> messages (flashed errors_key s)),
             pe_flash = maps_copy (case left_for_it of None \<Rightarrow> [] | Some s \<Rightarrow> flash_before s) (fc_flash c),
             pe_clear = (fc_clear c \<or>
               (case left_for_it of None \<Rightarrow> False | Some s \<Rightarrow> flashed clear_history_key s = Some (Kept_bool True))),
             pe_fragment = (fc_fragment c \<or>
               (case left_for_it of None \<Rightarrow> False | Some s \<Rightarrow> flashed fragment_key s = Some (Kept_bool True))),
             pe_head = fc_head c, pe_locale = fc_locale c, pe_dir = lang_dir (fc_locale c)\<rparr>
      in (extras, in_session (\<lambda>s. shown_left (if part then session_pass s else s)) c))"

text \<open>\<open>keepFlashOnReload\<close>: a visit from another build is answered with a 409, and the page the reload loads shows it.\<close>

definition keep_flash_on_reload :: "inertia \<Rightarrow> 'd form_ctx \<Rightarrow> 'd form_ctx" where
  "keep_flash_on_reload pages c = (if stale pages (fc_request c) then in_session reflash c else c)"

section \<open>What each does to the session\<close>

lemma lookup_reflash:
  "lookup (s_next (reflash s)) k = (case lookup (s_next s) k of Some v \<Rightarrow> Some v | None \<Rightarrow> lookup (s_now s) k)"
proof -
  have "lookup (foldl (\<lambda>m (k, v). if lookup m k = None then put k v m else m) m now) k =
      (case lookup m k of Some v \<Rightarrow> Some v | None \<Rightarrow> lookup now k)" for m :: "(string, 'a) gomap" and now
  proof (induction now arbitrary: m)
    case (Cons e now)
    obtain a b where e: "e = (a, b)" by (cases e)
    show ?case
    proof (cases "lookup m a")
      case None
      then show ?thesis by (auto simp: e Cons.IH split: option.split)
    next
      case (Some x)
      then show ?thesis by (auto simp: e Cons.IH split: option.split)
    qed
  qed (simp split: option.split)
  then show ?thesis by (simp add: reflash_def)
qed

lemma reflash_same [simp]:
  "s_now (reflash s) = s_now s" "s_values (reflash s) = s_values s" "s_passed (reflash s) = s_passed s"
  "s_lost (reflash s) = s_lost s" "s_lifetime (reflash s) = s_lifetime s" "s_base (reflash s) = s_base s"
  "s_changed (reflash s) = s_changed s" "s_had (reflash s) = s_had s"
  by (simp_all add: reflash_def)

lemma lookup_maps_copy_keeps: "k \<notin> fst ` set src \<Longrightarrow> lookup (maps_copy dst src) k = lookup dst k"
  by (induction src arbitrary: dst) (auto simp: maps_copy_def)

lemma carry_key_same:
  "s_now (carry_key s k) = s_now s" "s_values (carry_key s k) = s_values s" "s_passed (carry_key s k) = s_passed s"
  "s_lost (carry_key s k) = s_lost s" "s_lifetime (carry_key s k) = s_lifetime s" "s_base (carry_key s k) = s_base s"
  "s_changed (carry_key s k) = s_changed s" "s_had (carry_key s k) = s_had s"
  by (simp_all add: carry_key_def flash_set_def)

lemma carry_flash_same:
  "s_now (carry_flash fl s) = s_now s" "s_values (carry_flash fl s) = s_values s" "s_passed (carry_flash fl s) = s_passed s"
  "s_lost (carry_flash fl s) = s_lost s" "s_lifetime (carry_flash fl s) = s_lifetime s" "s_base (carry_flash fl s) = s_base s"
  by (simp_all add: carry_flash_def Let_def carry_key_same flash_set_def split: option.split kept.split)

lemma carry_flash_key:
  "lookup (s_next (carry_flash fl s)) flash_key =
     (if flash_before s \<noteq> [] then Some (Kept_map (maps_copy (flash_before s) fl)) else lookup (s_next s) flash_key)"
  by (auto simp: carry_flash_def Let_def carry_key_def flash_set_def flash_before_def flashed_def key_defs
      split: option.split kept.split)

lemma carry_flash_bool:
  "k \<in> {clear_history_key, fragment_key} \<Longrightarrow> flashed k s = Some (Kept_bool True) \<Longrightarrow>
     lookup (s_next (carry_flash fl s)) k = Some (Kept_bool True)"
  by (auto simp: carry_flash_def Let_def carry_key_def flash_set_def flash_before_def flashed_def key_defs
      split: option.split kept.split)

section \<open>On the way to the page\<close>

text \<open>
  The requests that may come between a request that flashes and the page that shows it: one that redirects, with flash data
  of its own, a partial reload of a page open elsewhere, and a visit from another build, which goes no further than the
  409. The first two may set and delete the session's values.
\<close>

datatype 'd leg_kind = Goes_on "(string \<times> 'd kept) list" | Part_reload string | New_build inertia

record 'd leg =
  lg_kind :: "'d leg_kind"
  lg_ops :: "'d kept session_op list"
  lg_request :: http_request
  lg_tls :: bool
  lg_draws :: draws
  lg_at :: instant

fun value_op :: "'v session_op \<Rightarrow> bool" where
  "value_op (Set_value k v) = True"
| "value_op (Delete_value k) = True"
| "value_op _ = False"

definition ctx_of :: "http_request \<Rightarrow> 'd kept session \<Rightarrow> 'd form_ctx" where
  "ctx_of r s = \<lparr>fc_request = r, fc_session = Some s, fc_flash = [], fc_clear = False, fc_fragment = False, fc_head = [],
     fc_locale = []\<rparr>"

definition leg_ctx :: "'d leg \<Rightarrow> 'd kept session \<Rightarrow> 'd form_ctx" where
  "leg_ctx l s =
     (case lg_kind l of
        Goes_on fl \<Rightarrow>
          (let c = foldl flash_put (ctx_of (lg_request l) (session_run (lg_ops l) s)) fl
           in case ctx_redirect ''/'' c of None \<Rightarrow> c | Some (c', answer) \<Rightarrow> c')
      | Part_reload component \<Rightarrow> snd (page_request component (ctx_of (lg_request l) (session_run (lg_ops l) s)))
      | New_build pages \<Rightarrow> keep_flash_on_reload pages (ctx_of (lg_request l) s))"

definition leg_session :: "'d leg \<Rightarrow> 'd kept session \<Rightarrow> 'd kept session" where
  "leg_session l s = (case fc_session (leg_ctx l s) of None \<Rightarrow> s | Some s' \<Rightarrow> s')"

definition leg_ok :: "string \<Rightarrow> bool \<Rightarrow> 'd leg \<Rightarrow> bool" where
  "leg_ok key errs l \<longleftrightarrow> draws_ok (lg_draws l) \<and> list_all value_op (lg_ops l) \<and>
     (case lg_kind l of
        Goes_on fl \<Rightarrow> key \<notin> fst ` set fl \<and> \<not> errs
      | Part_reload component \<Rightarrow> part_of_page (lg_request l) component
      | New_build pages \<Rightarrow> stale pages (lg_request l))"

lemma value_run:
  "list_all value_op ops \<Longrightarrow>
     s_now (session_run ops s) = s_now s \<and> s_next (session_run ops s) = s_next s \<and>
     s_passed (session_run ops s) = s_passed s \<and> s_base (session_run ops s) = s_base s \<and>
     s_lost (session_run ops s) = s_lost s \<and> s_lifetime (session_run ops s) = s_lifetime s"
proof (induction ops arbitrary: s)
  case (Cons op ops)
  then show ?case by (cases op) (auto simp: session_run_def session_set_def session_delete_def)
qed (simp add: session_run_def)

lemma flash_each:
  "fc_flash (foldl flash_put c fl) = maps_copy (fc_flash c) fl \<and>
   (fc_session c = Some s \<longrightarrow>
      (\<exists>s'. fc_session (foldl flash_put c fl) = Some s' \<and> s_now s' = s_now s \<and> s_passed s' = s_passed s \<and>
         s_base s' = s_base s \<and> s_lost s' = s_lost s \<and> s_lifetime s' = s_lifetime s))"
proof (induction fl arbitrary: c s)
  case (Cons e fl)
  obtain k v where e: "e = (k, v)" by (cases e)
  have flash: "fc_flash (flash_put c e) = put k v (fc_flash c)" by (simp add: flash_put_def e Let_def in_session_def)
  have "fc_session c = Some s \<longrightarrow> fc_session (flash_put c e) = Some (flash_set flash_key (Kept_map (put k v (fc_flash c))) s)"
    by (simp add: flash_put_def e Let_def in_session_def)
  with Cons.IH [of "flash_put c e" "flash_set flash_key (Kept_map (put k v (fc_flash c))) s"] flash show ?case
    by (auto simp: maps_copy_def e flash_set_def)
qed (simp add: maps_copy_def)

text \<open>What the session has for the page: a value under a key of the flash data, the history to clear, and the errors.\<close>

definition has_for_page :: "string \<Rightarrow> 'd kept \<Rightarrow> bool \<Rightarrow> 'd kept option \<Rightarrow> (string, 'd kept) gomap \<Rightarrow> bool" where
  "has_for_page key v clears errs flash \<longleftrightarrow>
     (case lookup flash flash_key of Some (Kept_map m) \<Rightarrow> lookup m key = Some v | _ \<Rightarrow> False) \<and>
     (clears \<longrightarrow> lookup flash clear_history_key = Some (Kept_bool True)) \<and>
     (errs \<noteq> None \<longrightarrow> lookup flash errors_key = errs)"

lemma has_for_page_iff:
  "has_for_page key v clears errs flash \<longleftrightarrow>
     (\<exists>m. lookup flash flash_key = Some (Kept_map m) \<and> lookup m key = Some v) \<and>
     (clears \<longrightarrow> lookup flash clear_history_key = Some (Kept_bool True)) \<and>
     (errs \<noteq> None \<longrightarrow> lookup flash errors_key = errs)"
  by (simp add: has_for_page_def split: option.split kept.split)

lemma leg_leaves:
  assumes "leg_ok key (errs \<noteq> None) l" and "has_for_page key v clears errs (s_now s)"
    and "s_next s = []" "\<not> s_passed s" "\<not> s_lost s"
  defines "s' \<equiv> leg_session l s"
  shows "\<not> s_lost s' \<and> s_lifetime s' = s_lifetime s \<and> s_base s' = s_base s \<and>
    (if s_passed s' \<and> \<not> s_changed s' \<and> s_next s' = [] then s_now s' = s_now s
     else has_for_page key v clears errs (s_next (if s_passed s' then reflash s' else s')))"
proof -
  note ops = value_run [of "lg_ops l" s]
  show ?thesis
  proof (cases "lg_kind l")
    case (Goes_on fl)
    let ?start = "ctx_of (lg_request l) (session_run (lg_ops l) s)"
    let ?c = "foldl flash_put ?start fl"
    have "fc_session ?start = Some (session_run (lg_ops l) s)" "fc_flash ?start = []" by (simp_all add: ctx_of_def)
    with flash_each [of ?start fl "session_run (lg_ops l) s"] obtain s1 where
      s1: "fc_session ?c = Some s1" "fc_flash ?c = maps_copy [] fl" "s_now s1 = s_now (session_run (lg_ops l) s)"
      "s_passed s1 = s_passed (session_run (lg_ops l) s)" "s_base s1 = s_base (session_run (lg_ops l) s)"
      "s_lost s1 = s_lost (session_run (lg_ops l) s)" "s_lifetime s1 = s_lifetime (session_run (lg_ops l) s)" by auto
    have s': "s' = carry_flash (maps_copy [] fl) s1"
      by (simp add: s'_def leg_session_def leg_ctx_def Goes_on ctx_redirect_def in_session_def s1(1,2) Let_def)
    have ok: "list_all value_op (lg_ops l)" "key \<notin> fst ` set fl" "errs = None" using assms(1) by (auto simp: leg_ok_def Goes_on)
    obtain m where m: "lookup (s_now s) flash_key = Some (Kept_map m)" "lookup m key = Some v"
      using assms(2) by (auto simp: has_for_page_iff)
    have now: "s_now s1 = s_now s" using s1(3) ops [OF ok(1)] by simp
    have before: "flash_before s1 = m" "m \<noteq> []" using m by (auto simp: flash_before_def flashed_def now)
    have gone: "key \<notin> fst ` set (maps_copy [] fl)"
    proof -
      have "lookup (maps_copy [] fl) key = None" using lookup_maps_copy_keeps [OF ok(2), of "[]"] by simp
      then show ?thesis by (simp add: map_of_eq_None_iff)
    qed
    have "lookup (s_next s') flash_key = Some (Kept_map (maps_copy m (maps_copy [] fl)))"
      using before by (simp add: s' carry_flash_key)
    moreover have "lookup (maps_copy m (maps_copy [] fl)) key = Some v" using lookup_maps_copy_keeps [OF gone] m(2) by simp
    moreover have "clears \<longrightarrow> lookup (s_next s') clear_history_key = Some (Kept_bool True)"
      using assms(2) carry_flash_bool [of clear_history_key s1] by (simp add: s' has_for_page_iff flashed_def now)
    ultimately have "has_for_page key v clears errs (s_next s')" by (simp add: has_for_page_iff ok(3))
    then show ?thesis
      using s1 ops [OF ok(1)] assms(4,5) by (simp add: s' carry_flash_same)
  next
    case (Part_reload component)
    have ok: "list_all value_op (lg_ops l)" "part_of_page (lg_request l) component"
      using assms(1) by (auto simp: leg_ok_def Part_reload)
    have s': "s' = shown_left (session_pass (session_run (lg_ops l) s))"
      using ok(2) by (simp add: s'_def leg_session_def leg_ctx_def Part_reload page_request_def ctx_of_def in_session_def Let_def)
    have next_s': "s_next s' = []" "s_now s' = s_now s" "s_passed s'"
      using ops [OF ok(1)] assms(3) by (simp_all add: s' shown_left_def unflash_def session_pass_def)
    then have "lookup (s_next (reflash s')) k = lookup (s_now s) k" for k by (simp add: lookup_reflash)
    then have "has_for_page key v clears errs (s_next (reflash s'))" using assms(2) by (simp add: has_for_page_iff)
    then show ?thesis
      using next_s' ops [OF ok(1)] assms(5) by (simp add: s' shown_left_def unflash_def session_pass_def)
  next
    case (New_build pages)
    have s': "s' = reflash s"
      using assms(1) by (simp add: s'_def leg_session_def leg_ctx_def New_build keep_flash_on_reload_def ctx_of_def
        in_session_def leg_ok_def)
    have "lookup (s_next s') k = lookup (s_now s) k" for k using assms(3) by (simp add: s' lookup_reflash)
    then have "has_for_page key v clears errs (s_next s')" using assms(2) by (simp add: has_for_page_iff)
    then show ?thesis using assms(4,5) by (simp add: s')
  qed
qed

section \<open>In the browser's cookie\<close>

text \<open>
  What a browser's cookie carries until \<open>hi\<close>, of a session that lasts \<open>lasts\<close> after each response: in a store with no
  keeper, whose cookie is the session.
\<close>

definition carried ::
  "('d kept, 'k) store \<Rightarrow> instant \<Rightarrow> duration \<Rightarrow> string \<Rightarrow> 'd kept \<Rightarrow> bool \<Rightarrow> 'd kept option \<Rightarrow> string option \<Rightarrow> bool" where
  "carried st hi lasts key v clears errs cookie \<longleftrightarrow>
     (\<exists>text sealed p. cookie = Some text \<and> b64_decode text = Some sealed \<and> st_open st sealed (st_cookie st) = Some p \<and>
        unix hi \<le> p_expires p \<and> has_for_page key v clears errs (p_flash p) \<and>
        lasts = (if 0 < max (p_lifetime p) 0 * second then max (p_lifetime p) 0 * second else st_lifetime st))"

definition whole_seconds :: "'v session \<Rightarrow> bool" where
  "whole_seconds s \<longleftrightarrow> s_lifetime s = max (go_div (s_lifetime s) second) 0 * second"

lemma go_div_second [simp]: "go_div (max n 0 * second) second = max n 0"
  by (cases "0 \<le> n") (simp_all add: second_def)

lemma carried_load:
  assumes "carried st hi lasts key v clears errs cookie" and "st_keeper st = None" and "t \<le> hi"
  shows "\<exists>s. st_load st t cookie k = (s, k) \<and> has_for_page key v clears errs (s_now s) \<and> s_next s = [] \<and> \<not> s_passed s \<and>
    \<not> s_lost s \<and> \<not> s_changed s \<and> s_base s = st_lifetime st \<and> lifetime_of s = lasts \<and> whole_seconds s"
proof -
  obtain ck sealed p where p: "cookie = Some ck" "b64_decode ck = Some sealed" "st_open st sealed (st_cookie st) = Some p"
    "unix hi \<le> p_expires p" "has_for_page key v clears errs (p_flash p)"
    "lasts = (if 0 < max (p_lifetime p) 0 * second then max (p_lifetime p) 0 * second else st_lifetime st)"
    using assms(1) by (auto simp: carried_def)
  have "\<not> p_expires p < unix t" using unix_mono [OF assms(3)] p(4) by linarith
  then have "st_load st t cookie k =
    ((new_session st)\<lparr>s_had := True, s_lifetime := max (p_lifetime p) 0 * second, s_values := p_values p, s_now := p_flash p\<rparr>, k)"
    by (simp add: st_load_def p(1-3) assms(2) Let_def)
  then show ?thesis
    using p(5,6) by (simp add: new_session_def lifetime_of_def whole_seconds_def)
qed

lemma carried_save:
  assumes "sealing st" "st_keeper st = None" "draws_ok dr"
    and "st_save st tls dr t s k = (Written c, k')" and "\<not> s_lost s"
    and "has_for_page key v clears errs (s_next (if s_passed s then reflash s else s))"
    and "s_base s = st_lifetime st" "whole_seconds s" "hi \<le> t + lifetime_of s"
  shows "carried st hi (lifetime_of s) key v clears errs (Some (ck_value c)) \<and> k' = k"
proof -
  define s1 where "s1 = (if s_passed s then reflash s else s)"
  have same: "s_lifetime s1 = s_lifetime s" "s_base s1 = s_base s" by (simp_all add: s1_def)
  have life: "lifetime_of s = (if 0 < s_lifetime s1 then s_lifetime s1 else st_lifetime st)"
    by (simp add: lifetime_of_def same assms(7))
  have w: "write_cookie st tls (dr_cookie dr) (payload_of s1 (t + lifetime_of s)) (lifetime_of s) = Written c" "k' = k"
    using assms(2,4) unfolding life st_save_def s1_def [symmetric] Let_def by (auto split: if_splits)
  from written_cookie [OF assms(1) _ w(1)] assms(3) obtain sealed where
    o: "b64_decode (ck_value c) = Some sealed" "st_open st sealed (st_cookie st) = Some (payload_of s1 (t + lifetime_of s))"
    by (auto simp: draws_ok_def)
  have lasts: "lifetime_of s = (if 0 < max (go_div (s_lifetime s1) second) 0 * second
      then max (go_div (s_lifetime s1) second) 0 * second else st_lifetime st)"
  proof -
    have "max (go_div (s_lifetime s1) second) 0 * second = s_lifetime s1"
      using assms(8) unfolding whole_seconds_def same(1) by (rule sym)
    then show ?thesis by (simp only: life)
  qed
  have "carried st hi (lifetime_of s) key v clears errs (Some (ck_value c))"
    unfolding carried_def
    using o unix_mono [OF assms(9)] assms(6) lasts
    by (intro exI [of _ "ck_value c"] exI [of _ sealed] exI [of _ "payload_of s1 (t + lifetime_of s)"])
      (simp add: payload_of_def s1_def [symmetric])
  with w(2) show ?thesis by simp
qed

text \<open>The requests in turn, and that each response that has a cookie to write writes it: it is not too large.\<close>

fun run_legs :: "('d kept, 'k) store \<Rightarrow> 'd leg list \<Rightarrow> string option \<times> 'k \<Rightarrow> string option \<times> 'k" where
  "run_legs st [] w = w"
| "run_legs st (l # ls) w = run_legs st ls (snd (visit st (lg_tls l) (lg_draws l) (lg_at l) (leg_session l) w))"

definition leg_written :: "('d kept, 'k) store \<Rightarrow> 'd leg \<Rightarrow> string option \<times> 'k \<Rightarrow> bool" where
  "leg_written st l w \<longleftrightarrow>
     (case st_load st (lg_at l) (fst w) (snd w) of
        (s, k) \<Rightarrow> s_passed (leg_session l s) \<and> \<not> s_changed (leg_session l s) \<and> s_next (leg_session l s) = [] \<or>
          fst (st_save st (lg_tls l) (lg_draws l) (lg_at l) (leg_session l s) k) \<noteq> Not_written)"

fun legs_written :: "('d kept, 'k) store \<Rightarrow> 'd leg list \<Rightarrow> string option \<times> 'k \<Rightarrow> bool" where
  "legs_written st [] w = True"
| "legs_written st (l # ls) w \<longleftrightarrow>
     leg_written st l w \<and> legs_written st ls (snd (visit st (lg_tls l) (lg_draws l) (lg_at l) (leg_session l) w))"

lemma leg_carries:
  assumes "sealing st" "st_keeper st = None" "leg_ok key (errs \<noteq> None) l" "leg_written st l (cookie, k)"
    and "carried st hi lasts key v clears errs cookie" and "lg_at l \<le> hi" "hi \<le> lg_at l + lasts"
  shows "\<exists>cookie'. snd (visit st (lg_tls l) (lg_draws l) (lg_at l) (leg_session l) (cookie, k)) = (cookie', k) \<and>
    carried st hi lasts key v clears errs cookie'"
proof -
  from carried_load [OF assms(5,2,6)] obtain s where
    s: "st_load st (lg_at l) cookie k = (s, k)" "has_for_page key v clears errs (s_now s)" "s_next s = []" "\<not> s_passed s"
    "\<not> s_lost s" "s_base s = st_lifetime st" "lifetime_of s = lasts" "whole_seconds s" by blast
  let ?s' = "leg_session l s"
  from leg_leaves [OF assms(3) s(2-5)] have s': "\<not> s_lost ?s'" "s_lifetime ?s' = s_lifetime s" "s_base ?s' = s_base s"
    "if s_passed ?s' \<and> \<not> s_changed ?s' \<and> s_next ?s' = [] then s_now ?s' = s_now s
     else has_for_page key v clears errs (s_next (if s_passed ?s' then reflash ?s' else ?s'))" by simp_all
  have visit: "snd (visit st (lg_tls l) (lg_draws l) (lg_at l) (leg_session l) (cookie, k)) =
      (case st_save st (lg_tls l) (lg_draws l) (lg_at l) ?s' k of (out, k2) \<Rightarrow> (browser_takes out cookie, k2))"
    by (simp add: visit_def s(1) Let_def split: prod.split)
  show ?thesis
  proof (cases "s_passed ?s' \<and> \<not> s_changed ?s' \<and> s_next ?s' = []")
    case True
    then have "st_save st (lg_tls l) (lg_draws l) (lg_at l) ?s' k = (Not_written, k)" by (simp add: st_save_def)
    then show ?thesis using visit assms(5) by (simp add: browser_takes_def)
  next
    case False
    then have left: "has_for_page key v clears errs (s_next (if s_passed ?s' then reflash ?s' else ?s'))" using s'(4) by argo
    obtain out k2 where save: "st_save st (lg_tls l) (lg_draws l) (lg_at l) ?s' k = (out, k2)" by fastforce
    have "out \<noteq> Not_written" using assms(4) False by (simp add: leg_written_def s(1) save)
    moreover have "out \<noteq> Dropped"
    proof -
      have "s_next (if s_passed ?s' then reflash ?s' else ?s') \<noteq> []" using left by (auto simp: has_for_page_iff)
      then show ?thesis using save assms(2) False
        by (auto simp: st_save_def Let_def write_cookie_def split: if_splits option.splits)
    qed
    ultimately obtain c where c: "out = Written c" by (cases out) auto
    have life: "lifetime_of ?s' = lasts" using s(7) s'(2,3) by (auto simp: lifetime_of_def split: if_splits)
    have "draws_ok (lg_draws l)" using assms(3) by (simp add: leg_ok_def)
    from carried_save [OF assms(1,2) this save [unfolded c] s'(1) left] life s(6,8) s'(2,3) assms(7)
    have "carried st hi lasts key v clears errs (Some (ck_value c)) \<and> k2 = k" by (simp add: whole_seconds_def)
    then show ?thesis using visit save c by (simp add: browser_takes_def)
  qed
qed

lemma legs_carry:
  assumes "sealing st" "st_keeper st = None"
  shows "list_all (leg_ok key (errs \<noteq> None)) legs \<Longrightarrow> list_all (\<lambda>l. lg_at l \<le> hi \<and> hi \<le> lg_at l + lasts) legs \<Longrightarrow>
    legs_written st legs (cookie, k) \<Longrightarrow> carried st hi lasts key v clears errs cookie \<Longrightarrow>
    \<exists>cookie'. run_legs st legs (cookie, k) = (cookie', k) \<and> carried st hi lasts key v clears errs cookie'"
proof (induction legs arbitrary: cookie)
  case (Cons l legs)
  from Cons.prems(1-3) have l: "leg_ok key (errs \<noteq> None) l" "leg_written st l (cookie, k)" "lg_at l \<le> hi" "hi \<le> lg_at l + lasts"
    by simp_all
  from leg_carries [OF assms l(1,2) Cons.prems(4) l(3,4)] obtain cookie1 where
    c1: "snd (visit st (lg_tls l) (lg_draws l) (lg_at l) (leg_session l) (cookie, k)) = (cookie1, k)"
    "carried st hi lasts key v clears errs cookie1" by blast
  from Cons.IH [OF _ _ _ c1(2)] Cons.prems(1-3) show ?case by (simp add: c1(1))
qed simp

section \<open>The page that shows it\<close>

lemma flash_each_next:
  "fc_session c = Some s \<Longrightarrow> fc_session (foldl flash_put c fl) = Some s' \<Longrightarrow> k \<noteq> flash_key \<Longrightarrow>
     lookup (s_next s') k = lookup (s_next s) k"
proof (induction fl arbitrary: c s)
  case (Cons e fl)
  have "fc_session (flash_put c e) = Some (flash_set flash_key (Kept_map (put (fst e) (snd e) (fc_flash c))) s)"
    using Cons.prems(1) by (simp add: flash_put_def Let_def in_session_def)
  from Cons.IH [OF this _ Cons.prems(3)] Cons.prems(2,3) show ?case by (simp add: flash_set_def)
qed simp

lemma flash_each_ctx:
  "fc_request (foldl flash_put c fl) = fc_request c" "fc_clear (foldl flash_put c fl) = fc_clear c"
  by (induction fl arbitrary: c) (simp_all add: flash_put_def Let_def in_session_def)

lemma page_shows:
  assumes "has_for_page key v clears errs (s_now s)" "s_next s = []" "\<not> s_passed s"
    and "\<not> part_of_page r component" "key \<notin> fst ` set fl"
    and "page_request component (foldl flash_put (ctx_of r s) fl) = (extras, c')"
  shows "lookup (pe_flash extras) key = Some v \<and> (clears \<longrightarrow> pe_clear extras) \<and>
    (errs \<noteq> None \<longrightarrow> pe_errors extras = messages errs) \<and>
    (\<exists>s'. fc_session c' = Some s' \<and> \<not> s_passed s' \<and> (\<forall>k. lookup (s_next s') k = None))"
proof -
  let ?pc = "foldl flash_put (ctx_of r s) fl"
  have start: "fc_session (ctx_of r s) = Some s" "fc_flash (ctx_of r s) = []" "fc_request (ctx_of r s) = r"
    "fc_clear (ctx_of r s) = False" by (simp_all add: ctx_of_def)
  from flash_each [of "ctx_of r s" fl s] start obtain s1 where
    s1: "fc_session ?pc = Some s1" "fc_flash ?pc = maps_copy [] fl" "s_now s1 = s_now s" "s_passed s1 = s_passed s" by auto
  obtain m where m: "lookup (s_now s) flash_key = Some (Kept_map m)" "lookup m key = Some v"
    using assms(1) by (auto simp: has_for_page_iff)
  have "lookup (maps_copy [] fl) key = None" using lookup_maps_copy_keeps [OF assms(5), of "[]"] by simp
  then have gone: "key \<notin> fst ` set (maps_copy [] fl)" by (simp add: map_of_eq_None_iff)
  have part: "\<not> part_of_page (fc_request ?pc) component" using assms(4) by (simp add: flash_each_ctx start)
  have "lookup (s_next s1) k = None" if "k \<noteq> flash_key" for k
    using flash_each_next [OF start(1) s1(1) that] assms(2) by simp
  then have "\<forall>k. lookup (s_next (shown_left s1)) k = None" by (simp add: shown_left_def unflash_def)
  moreover have "\<not> s_passed (shown_left s1)" using s1(4) assms(3) by (simp add: shown_left_def unflash_def)
  moreover have "fc_session c' = Some (shown_left s1)"
    using assms(6) part s1(1) by (auto simp: page_request_def in_session_def Let_def)
  moreover have "lookup (pe_flash extras) key = Some v"
    using assms(6) part s1 m lookup_maps_copy_keeps [OF gone, of m]
    by (auto simp: page_request_def Let_def flash_before_def flashed_def)
  moreover have "clears \<longrightarrow> pe_clear extras" "errs \<noteq> None \<longrightarrow> pe_errors extras = messages errs"
    using assms(1,6) part s1(1,3) by (auto simp: page_request_def Let_def flashed_def has_for_page_iff)
  ultimately show ?thesis by blast
qed

text \<open>
  C18. What a request flashes reaches the next page shown, of a session kept in its cookie, within its lifetime. Whatever
  requests the browser sends between, that set and delete values of the session and redirect, with flash data under other
  keys, that load a part of a page open elsewhere, or come from another build, the first page that is
  loaded whole shows the value, clears the history if it was to, and has the errors of a form, where none of the others
  redirected; and leaves nothing of it for the page after. A redirect that clears the session, or flashes the key anew, is
  not among them: the one drops the value, and the other's takes its place.
\<close>

theorem what_is_flashed_reaches_the_next_page:
  assumes "sealing st" "st_keeper st = None" "draws_ok dr"
    and "\<not> s_lost s" "\<not> s_passed s" "s_base s = st_lifetime st" "whole_seconds s"
    and "has_for_page key v clears errs (s_next s)"
    and save: "st_save st tls dr t0 s k = (Written c, k')"
    and legs: "list_all (leg_ok key (errs \<noteq> None)) legs"
    and times: "list_all (\<lambda>l. t0 \<le> lg_at l \<and> lg_at l \<le> t0 + lifetime_of s) legs" "t \<le> t0 + lifetime_of s"
    and written: "legs_written st legs (Some (ck_value c), k')"
    and load: "st_load st t (fst (run_legs st legs (Some (ck_value c), k'))) k' = (s2, k2)"
    and page: "\<not> part_of_page r component" "key \<notin> fst ` set fl"
      "page_request component (foldl flash_put (ctx_of r s2) fl) = (extras, c')"
  shows "lookup (pe_flash extras) key = Some v \<and> (clears \<longrightarrow> pe_clear extras) \<and>
    (errs \<noteq> None \<longrightarrow> pe_errors extras = messages errs) \<and>
    (\<exists>s'. fc_session c' = Some s' \<and> \<not> s_passed s' \<and> (\<forall>k. lookup (s_next s') k = None))"
proof -
  let ?hi = "t0 + lifetime_of s" and ?lasts = "lifetime_of s"
  have "has_for_page key v clears errs (s_next (if s_passed s then reflash s else s))" using assms(5,8) by simp
  from carried_save [OF assms(1,2,3) save assms(4) this assms(6,7) order_refl]
  have c: "carried st ?hi ?lasts key v clears errs (Some (ck_value c))" by blast
  have "list_all (\<lambda>l. lg_at l \<le> ?hi \<and> ?hi \<le> lg_at l + ?lasts) legs" using times(1) by (auto simp: list_all_iff)
  from legs_carry [OF assms(1,2) legs this written c] obtain cookie where
    run: "run_legs st legs (Some (ck_value c), k') = (cookie, k')" "carried st ?hi ?lasts key v clears errs cookie" by blast
  from carried_load [OF run(2) assms(2) times(2), of k'] load have
    "has_for_page key v clears errs (s_now s2)" "s_next s2 = []" "\<not> s_passed s2"
    by (auto simp: run(1))
  from page_shows [OF this page] show ?thesis .
qed

definition shown_payload :: "int \<Rightarrow> nat kept payload" where
  "shown_payload expires =
     \<lparr>p_id = [], p_values = [],
      p_flash = [(flash_key, Kept_map [(''success'', Kept_text ''Post created'')]), (clear_history_key, Kept_bool True)],
      p_expires = expires, p_lifetime = 0, p_wrote = 0\<rparr>"

definition flash_store :: "(nat kept, nat) store" where
  "flash_store =
     \<lparr>st_aeads = [\<lparr>ae_open = (\<lambda>n box ad. Some box), ae_seal = (\<lambda>n plain ad. plain)\<rparr>],
      st_cookie = ''c'', st_lifetime = minute, st_secure = False, st_keeper = None,
      st_marshal = (\<lambda>p. if p = shown_payload 60 then Some ''1'' else if p = shown_payload 61 then Some ''2'' else None),
      st_unmarshal = (\<lambda>t. if t = ''1'' then Some (shown_payload 60) else if t = ''2'' then Some (shown_payload 61) else None),
      st_sha = (\<lambda>x. x)\<rparr>"

definition flash_visit :: "string \<Rightarrow> http_request" where
  "flash_visit part =
     \<lparr>hr_method = ''GET'', hr_path = ''/'', hr_uri = ''/'',
      hr_header = [(''X-Inertia'', [''true'']), (''X-Inertia-Partial-Component'', [part])], hr_remote = [], hr_request_id = [],
      hr_nonce = []\<rparr>"

definition flash_first :: "nat kept session" where
  "flash_first =
     (case ctx_redirect ''/posts/1''
         (clear_history (flash_put (ctx_of (flash_visit []) (new_session flash_store)) (''success'', Kept_text ''Post created''))) of
        Some (c, answer) \<Rightarrow> the (fc_session c))"

definition flash_legs :: "nat leg list" where
  "flash_legs =
     [\<lparr>lg_kind = Goes_on [], lg_ops = [], lg_request = flash_visit [], lg_tls = False, lg_draws = demo_draws,
       lg_at = unix_epoch + second\<rparr>,
      \<lparr>lg_kind = Part_reload ''Bell'', lg_ops = [], lg_request = flash_visit ''Bell'', lg_tls = False, lg_draws = demo_draws,
       lg_at = unix_epoch + second\<rparr>]"

lemma flash_ok: "sealing flash_store" "st_keeper flash_store = None" "draws_ok demo_draws"
  by (auto simp: sealing_def flash_store_def draws_ok_def demo_draws_def nonce_size_def)

definition flash_cookie :: "string \<Rightarrow> cookie" where
  "flash_cookie n = \<lparr>ck_value = b64_encode (dr_cookie demo_draws @ n), ck_max_age = 60, ck_secure = False\<rparr>"

lemma flash_runs:
  "st_save flash_store False demo_draws unix_epoch flash_first 0 = (Written (flash_cookie ''1''), 0)"
  "legs_written flash_store flash_legs (Some (ck_value (flash_cookie ''1'')), 0)"
  "run_legs flash_store flash_legs (Some (ck_value (flash_cookie ''1'')), 0) = (Some (ck_value (flash_cookie ''2'')), 0)"
  "list_all (leg_ok ''success'' False) flash_legs"
  "has_for_page ''success'' (Kept_text ''Post created'') True None (s_next flash_first)"
  by code_simp+

text \<open>The first request redirects, and so does the page it leads to; a bell reloads its part; and the page is shown.\<close>

theorem what_is_flashed_reaches_the_next_page_witness:
  "\<exists>s2. st_load flash_store (unix_epoch + 2 * second)
       (fst (run_legs flash_store flash_legs (Some (ck_value (flash_cookie ''1'')), 0))) 0 = (s2, 0) \<and>
     lookup (pe_flash (fst (page_request ''Posts/Show'' (ctx_of (flash_visit []) s2)))) ''success'' =
       Some (Kept_text ''Post created'') \<and>
     pe_clear (fst (page_request ''Posts/Show'' (ctx_of (flash_visit []) s2)))"
proof -
  have s: "\<not> s_lost flash_first" "\<not> s_passed flash_first" "s_base flash_first = st_lifetime flash_store"
    "whole_seconds flash_first" "lifetime_of flash_first = minute"
    by code_simp+
  have times: "list_all (\<lambda>l. unix_epoch \<le> lg_at l \<and> lg_at l \<le> unix_epoch + lifetime_of flash_first) flash_legs"
    "unix_epoch + 2 * second \<le> unix_epoch + lifetime_of flash_first"
    by (simp_all add: s(5) flash_legs_def unix_epoch_def second_def minute_def)
  let ?w = "(Some (ck_value (flash_cookie ''1'')), 0)"
  obtain s2 k2 where load: "st_load flash_store (unix_epoch + 2 * second) (fst (run_legs flash_store flash_legs ?w)) 0 = (s2, k2)"
    by fastforce
  then have "k2 = 0" using flash_ok(2) by (auto simp: st_load_def Let_def split: option.splits if_splits)
  obtain extras c' where page: "page_request ''Posts/Show'' (foldl flash_put (ctx_of (flash_visit []) s2) []) = (extras, c')"
    by fastforce
  have whole: "\<not> part_of_page (flash_visit []) ''Posts/Show''" by code_simp
  have legs: "list_all (leg_ok ''success'' ((None :: nat kept option) \<noteq> None)) flash_legs" using flash_runs(4) by simp
  from what_is_flashed_reaches_the_next_page [OF flash_ok s(1-4) flash_runs(5,1) legs times flash_runs(2) load whole _ page] page
    load \<open>k2 = 0\<close> show ?thesis by auto
qed

section \<open>What drops it\<close>

text \<open>
  A request of another kind that comes before the page, as one that is answered with JSON is, drops what was flashed: the
  next request's session has none of it.
\<close>

lemma another_answer_drops_it:
  assumes "sealing st" "st_keeper st = None" "draws_ok dr" "\<not> s_passed s" "s_base s = st_lifetime st" "s_next s = []"
    and "st_save st tls dr t s k = (Written c, k')" "t' \<le> t + lifetime_of s"
  shows "flashed key (fst (st_load st t' (Some (ck_value c)) k')) = None"
  using load_left [OF assms(1-4,7,8,5)] assms(6) by (auto simp: left_by_def flashed_def)

text \<open>A form's errors are shown by the page the form is sent back to, and not past a redirect of that page.\<close>

lemma a_redirect_drops_errors:
  "lookup (s_next s) errors_key = None \<Longrightarrow> lookup (s_next (carry_flash fl s)) errors_key = None"
  by (auto simp: carry_flash_def Let_def carry_key_def flash_set_def key_defs split: option.split kept.split)

end
