(* ===== verification/Errors.thy ===== *)
theory Errors
  imports Flash
begin

text \<open>
  Errors: those of a form's fields (validate.Errors), how a request is bound and checked, and a form checked as it is filled
  in (forms.go), and what answers an error of a handler (errors.go, adapt in app.go, Stream in stream.go).
\<close>

section \<open>Errors of fields\<close>

type_synonym field_errors = "(string, string) gomap"

definition errs_add :: "string \<Rightarrow> string \<Rightarrow> field_errors \<Rightarrow> field_errors" where
  "errs_add field msg errs = (if lookup errs field = None then put field msg errs else errs)"

definition errs_text :: "field_errors \<Rightarrow> string" where
  "errs_text errs = join_with ''; '' (map (\<lambda>field. the (lookup errs field)) (sorted_keys errs))"

definition errs_first :: "field_errors \<Rightarrow> string" where
  "errs_first errs = (if errs = [] then [] else the (lookup errs (hd (sorted_keys errs))))"

definition under_field :: "string \<Rightarrow> string \<Rightarrow> bool" where
  "under_field field name \<longleftrightarrow> field = name \<or> has_prefix field (name @ ''.'')"

definition errs_only :: "string list \<Rightarrow> field_errors \<Rightarrow> field_errors" where
  "errs_only names errs = filter (\<lambda>(field, msg). list_ex (under_field field) names) errs"

section \<open>Errors of Go\<close>

text \<open>
  An error, with what it wraps: one, several, or none. \<open>errors.As\<close> finds the first of a kind, in pre-order. A panic's value
  is what its text is, and may be an error, which it wraps.
\<close>

record bind_error =
  be_field :: string
  be_reason :: string
  be_label :: string

datatype err_kind =
    Http_error int string
  | Bind_error bind_error
  | Panic_error string
  | Status_error int string
  | Invalid field_errors
  | Answered
  | Other_error string

datatype err = Err err_kind "err list"

fun as_kind :: "(err_kind \<Rightarrow> 'a option) \<Rightarrow> err \<Rightarrow> 'a option" and as_kinds :: "(err_kind \<Rightarrow> 'a option) \<Rightarrow> err list \<Rightarrow> 'a option" where
  "as_kind f (Err k es) = (case f k of Some x \<Rightarrow> Some x | None \<Rightarrow> as_kinds f es)"
| "as_kinds f [] = None"
| "as_kinds f (e # es) = (case as_kind f e of Some x \<Rightarrow> Some x | None \<Rightarrow> as_kinds f es)"

definition http_of :: "err \<Rightarrow> (int \<times> string) option" where
  "http_of = as_kind (\<lambda>k. case k of Http_error code msg \<Rightarrow> Some (code, msg) | _ \<Rightarrow> None)"

definition bind_of :: "err \<Rightarrow> bind_error option" where
  "bind_of = as_kind (\<lambda>k. case k of Bind_error be \<Rightarrow> Some be | _ \<Rightarrow> None)"

definition panic_of :: "err \<Rightarrow> string option" where
  "panic_of = as_kind (\<lambda>k. case k of Panic_error stack \<Rightarrow> Some stack | _ \<Rightarrow> None)"

definition status_of :: "err \<Rightarrow> (int \<times> string) option" where
  "status_of = as_kind (\<lambda>k. case k of Status_error code msg \<Rightarrow> Some (code, msg) | _ \<Rightarrow> None)"

definition invalid_of :: "err \<Rightarrow> field_errors option" where
  "invalid_of = as_kind (\<lambda>k. case k of Invalid errs \<Rightarrow> Some errs | _ \<Rightarrow> None)"

definition answered_in :: "err \<Rightarrow> bool" where
  "answered_in e \<longleftrightarrow> as_kind (\<lambda>k. case k of Answered \<Rightarrow> Some () | _ \<Rightarrow> None) e \<noteq> None"

section \<open>Binding and checking\<close>

text \<open>
  What a form being checked is answered with: a 204, or a 422 with the errors. \<open>say\<close> is \<open>bindMessage\<close> in the request's
  language; \<open>struct\<close> is \<open>validate.Struct\<close>: an error of a tag, or the errors found, in the order they are ranged over.
\<close>

datatype precognition_answer = All_good | Not_yet string field_errors

definition asks_precognition :: "http_request \<Rightarrow> bool" where
  "asks_precognition r \<longleftrightarrow> h_get ''Precognition'' (hr_header r) = ''true''"

definition precognition :: "http_request \<Rightarrow> field_errors \<Rightarrow> precognition_answer" where
  "precognition r errs =
     (let only = h_get ''Precognition-Validate-Only'' (hr_header r);
          errs = (if only \<noteq> [] then errs_only (map trim_space (split_on CHR '','' only)) errs else errs)
      in if errs = [] then All_good else Not_yet (errs_first errs) errs)"

definition check_value ::
  "('v \<Rightarrow> err + field_errors) \<Rightarrow> http_request \<Rightarrow> 'v \<Rightarrow> field_errors \<Rightarrow> (field_errors \<Rightarrow> field_errors) list \<Rightarrow>
   precognition_answer option \<times> err option" where
  "check_value struct r v errs checks =
     (case struct v of
        Inl bad \<Rightarrow> (None, Some bad)
      | Inr found \<Rightarrow>
          let errs = foldl (\<lambda>e (field, msg). errs_add field msg e) errs found;
              errs = foldl (\<lambda>e check. check e) errs checks
          in if asks_precognition r then (Some (precognition r errs), Some (Err Answered []))
             else if errs \<noteq> [] then (None, Some (Err (Invalid errs) []))
             else (None, None))"

definition bind_valid ::
  "(bind_error \<Rightarrow> string) \<Rightarrow> ('v \<Rightarrow> err + field_errors) \<Rightarrow> http_request \<Rightarrow> 'v \<Rightarrow> err option \<Rightarrow>
   (field_errors \<Rightarrow> field_errors) list \<Rightarrow> precognition_answer option \<times> err option" where
  "bind_valid say struct r v bound checks =
     (case bound of
        None \<Rightarrow> check_value struct r v [] checks
      | Some e \<Rightarrow>
          (case (http_of e, bind_of e) of
             (Some (code, msg), Some be) \<Rightarrow>
               if code \<noteq> 400 then (None, Some e)
               else check_value struct r v (errs_add (be_field be) (say be) []) checks
           | _ \<Rightarrow> (None, Some e)))"

section \<open>What an error is answered with\<close>

text \<open>
  What the handler of errors reads of a request and the app: \<open>eh_page\<close> is the component of the app's error page, if it has
  one, and \<open>eh_shown\<close> whether rendering it answered. \<open>say\<close> says a text in the request's language.
\<close>

record error_ctx =
  eh_request :: http_request
  eh_session :: bool
  eh_written :: bool
  eh_debug :: bool
  eh_page :: "string option"
  eh_shown :: "nat \<Rightarrow> string \<Rightarrow> bool"

datatype error_answer =
    Goes_back field_errors
  | Invalid_json string field_errors
  | Already_answered
  | Debug_page nat err
  | Error_page string nat string
  | Error_json nat string
  | Error_text nat string

datatype error_log = Failed err "string option" | After_written err | No_log

definition error_page :: "error_ctx \<Rightarrow> nat \<Rightarrow> string \<Rightarrow> bool" where
  "error_page c code msg \<longleftrightarrow> eh_page c \<noteq> None \<and> \<not> wants_json (eh_request c) \<and> eh_shown c code msg"

definition error_says :: "(string \<Rightarrow> string) \<Rightarrow> (nat \<Rightarrow> string) \<Rightarrow> err \<Rightarrow> nat \<times> string" where
  "error_says say status_text e =
     (let (code, msg) =
            (case http_of e of
               Some (code, msg) \<Rightarrow> (code, msg)
             | None \<Rightarrow> (case status_of e of Some (code, text) \<Rightarrow> (code, if code < 500 then text else []) | None \<Rightarrow> (500, [])));
          code = (if code < 100 \<or> 999 < code then 500 else nat code)
      in (code, if msg = [] then say (status_text code) else msg))"

definition default_error_handler ::
  "(string \<Rightarrow> string) \<Rightarrow> (nat \<Rightarrow> string) \<Rightarrow> error_ctx \<Rightarrow> err \<Rightarrow> error_answer \<times> error_log" where
  "default_error_handler say status_text c e =
     (case (if eh_written c then None else invalid_of e) of
        Some errs \<Rightarrow>
          (if eh_session c \<and> \<not> wants_json (eh_request c) then Goes_back errs else Invalid_json (errs_first errs) errs, No_log)
      | None \<Rightarrow>
          let (code, msg) = error_says say status_text e;
              log = (if 500 \<le> code then Failed e (panic_of e) else if eh_written c then After_written e else No_log)
          in (if eh_written c then Already_answered
              else if 500 \<le> code \<and> eh_debug c then Debug_page code e
              else if error_page c code msg then Error_page (the (eh_page c)) code msg
              else if wants_json (eh_request c) then Error_json code msg
              else Error_text code msg, log))"

text \<open>
  \<open>adapt\<close>: a handler returns, with an error or none, or panics, with the value's error if it is one, or aborts the request.
\<close>

datatype ran = Returned "err option" | Panicked string "err option" | Aborted

definition adapt :: "(err \<Rightarrow> 'a) \<Rightarrow> ran \<Rightarrow> 'a option" where
  "adapt on_error out =
     (case out of
        Returned None \<Rightarrow> None
      | Returned (Some e) \<Rightarrow> if answered_in e then None else Some (on_error e)
      | Panicked stack e \<Rightarrow> Some (on_error (Err (Panic_error stack) (case e of None \<Rightarrow> [] | Some e \<Rightarrow> [e])))
      | Aborted \<Rightarrow> None)"

text \<open>\<open>Ctx.Stream\<close>: what its writing ended with, whether it had written by then, and whether the client has gone.\<close>

datatype streamed = Stream_done | Stream_empty | Stream_error err | Stream_gone | Stream_cut

definition stream_end :: "err option \<Rightarrow> bool \<Rightarrow> bool \<Rightarrow> streamed" where
  "stream_end e written gone =
     (case e of
        None \<Rightarrow> if written then Stream_done else Stream_empty
      | Some e \<Rightarrow> if \<not> written then Stream_error e else if gone then Stream_gone else Stream_cut)"

section \<open>A form checked as it is filled in\<close>

text \<open>
  C35. A form checked as it is filled in is told what sending it would tell. A request that asks for it is never let into the
  work of its handler, and is answered with no word to the handler of errors; it is told of the errors that sending the same
  values would give, of the fields it names and those nested in them, or of all when it names none, and that all is good
  exactly when there are none of these; and what sending them would give an error of its own for, it is given the same.
\<close>

theorem a_form_is_told_what_sending_it_would_tell:
  assumes "asks_precognition r" and "\<not> asks_precognition sent"
    and "names = (let only = h_get ''Precognition-Validate-Only'' (hr_header r)
                  in if only = [] then None else Some (map trim_space (split_on CHR '','' only)))"
  shows "case bind_valid say struct r v bound checks of
      (None, e) \<Rightarrow> e \<noteq> None \<and> bind_valid say struct sent v bound checks = (None, e)
    | (Some ans, e) \<Rightarrow>
        e \<noteq> None \<and> adapt on_error (Returned e) = None \<and>
        (\<exists>errs. bind_valid say struct sent v bound checks = (None, if errs = [] then None else Some (Err (Invalid errs) [])) \<and>
           (let told = (case names of None \<Rightarrow> errs
                          | Some ns \<Rightarrow> filter (\<lambda>(field, msg). \<exists>n \<in> set ns. field = n \<or> has_prefix field (n @ ''.'')) errs)
            in ans = (if told = [] then All_good else Not_yet (errs_first told) told)))"
proof -
  have same: "(precognition r errs) = (let told = (case names of None \<Rightarrow> errs
        | Some ns \<Rightarrow> filter (\<lambda>(field, msg). \<exists>n \<in> set ns. field = n \<or> has_prefix field (n @ ''.'')) errs)
      in if told = [] then All_good else Not_yet (errs_first told) told)" for errs
    by (simp add: precognition_def assms(3) Let_def errs_only_def list_ex_iff under_field_def)
  have stops: "adapt on_error (Returned (Some (Err Answered []))) = None" by (simp add: adapt_def answered_in_def)
  have checked: "case check_value struct r v es checks of
      (None, e) \<Rightarrow> e \<noteq> None \<and> check_value struct sent v es checks = (None, e)
    | (Some ans, e) \<Rightarrow>
        e \<noteq> None \<and> adapt on_error (Returned e) = None \<and>
        (\<exists>errs. check_value struct sent v es checks = (None, if errs = [] then None else Some (Err (Invalid errs) [])) \<and>
           ans = precognition r errs)" for es
    using assms(1,2) stops by (cases "struct v") (auto simp: check_value_def Let_def)
  have shared: "(\<exists>es. \<forall>q. bind_valid say struct q v bound checks = check_value struct q v es checks) \<or>
      (\<exists>e. \<forall>q. bind_valid say struct q v bound checks = (None, Some e))"
  proof (cases bound)
    case None
    then show ?thesis by (auto simp: bind_valid_def)
  next
    case (Some e)
    show ?thesis
    proof (cases "\<exists>msg be. http_of e = Some (400, msg) \<and> bind_of e = Some be")
      case True
      then obtain msg be where "http_of e = Some (400, msg)" "bind_of e = Some be" by blast
      then show ?thesis by (auto simp: bind_valid_def Some)
    next
      case False
      then have "bind_valid say struct q v bound checks = (None, Some e)" for q
        by (auto simp: bind_valid_def Some split: option.split)
      then show ?thesis by blast
    qed
  qed
  then consider es where "\<forall>q. bind_valid say struct q v bound checks = check_value struct q v es checks"
    | e where "\<forall>q. bind_valid say struct q v bound checks = (None, Some e)" by blast
  then show ?thesis
  proof cases
    case (1 es)
    show ?thesis using checked [of es] unfolding same 1 [rule_format] Let_def .
  qed simp
qed

definition asking :: "string \<Rightarrow> http_request" where
  "asking only = (flash_visit [])\<lparr>hr_header := [(''Precognition'', [''true'']), (''Precognition-Validate-Only'', [only])]\<rparr>"

theorem a_form_is_told_what_sending_it_would_tell_witness:
  "bind_valid be_reason (\<lambda>v. Inr [(''author.name'', ''name is required'')]) (asking ''title, author'') () None [errs_add ''age'' ''too young''] =
     (Some (Not_yet ''name is required'' [(''author.name'', ''name is required'')]), Some (Err Answered [])) \<and>
   bind_valid be_reason (\<lambda>v. Inr [(''author.name'', ''name is required'')]) (flash_visit []) () None [errs_add ''age'' ''too young''] =
     (None, Some (Err (Invalid [(''author.name'', ''name is required''), (''age'', ''too young'')]) []))"
proof -
  have asks: "asks_precognition (asking ''title, author'')" "\<not> asks_precognition (flash_visit [])" by code_simp+
  have names: "Some [''title'', ''author''] = (let only = h_get ''Precognition-Validate-Only'' (hr_header (asking ''title, author''))
                  in if only = [] then None else Some (map trim_space (split_on CHR '','' only)))" by code_simp
  have one: "bind_valid be_reason (\<lambda>v. Inr [(''author.name'', ''name is required'')]) (asking ''title, author'') () None
      [errs_add ''age'' ''too young''] =
     (Some (Not_yet ''name is required'' [(''author.name'', ''name is required'')]), Some (Err Answered []))" by code_simp
  have sent: "bind_valid be_reason (\<lambda>v. Inr [(''author.name'', ''name is required'')]) (flash_visit []) () None
      [errs_add ''age'' ''too young''] =
     (None, Some (Err (Invalid [(''author.name'', ''name is required''), (''age'', ''too young'')]) []))" by code_simp
  show ?thesis
    using a_form_is_told_what_sending_it_would_tell [OF asks names, of be_reason "\<lambda>v. Inr [(''author.name'', ''name is required'')]" "()"
      None "[errs_add ''age'' ''too young'']" "\<lambda>e. e"] one sent by simp
qed

section \<open>What a client is told of an error\<close>

text \<open>What an error has for its client: a form's errors, a status and message given for it, or a status, with a message under 500.\<close>

definition for_client :: "err \<Rightarrow> field_errors option \<times> (int \<times> string) option \<times> (int \<times> string) option" where
  "for_client e =
     (invalid_of e, http_of e, map_option (\<lambda>(code, text). (code, if code < 500 then text else [])) (status_of e))"

lemma error_says_client:
  assumes "for_client e = for_client e'"
  shows "error_says say status_text e = error_says say status_text e'"
  using assms by (auto simp: for_client_def error_says_def split: option.splits prod.splits if_splits)

lemma error_says_status: "100 \<le> fst (error_says say status_text e) \<and> fst (error_says say status_text e) \<le> 999"
  by (auto simp: error_says_def Let_def split: option.splits prod.splits)

text \<open>
  Nothing else of an error, as its text, what it wraps or a panic's stack, changes what the client is answered, unless the
  app is being debugged; and the status is one that net/http writes.
\<close>

lemma an_answer_keeps_the_details:
  assumes "\<not> eh_debug c" and "for_client e = for_client e'"
  shows "fst (default_error_handler say status_text c e) = fst (default_error_handler say status_text c e')"
  using assms error_says_client [OF assms(2), of say status_text]
  by (auto simp: default_error_handler_def for_client_def Let_def split: option.splits prod.splits)

lemma answered_is_left:
  "eh_written c \<Longrightarrow> fst (default_error_handler say status_text c e) = Already_answered"
  by (simp add: default_error_handler_def split: prod.split)

end
