(* ===== verification/Bind.thy ===== *)
theory Bind
  imports Errors
begin

text \<open>
  Binding a request to a struct (bind.go): the fields, and the keys of the body, the query and the path each is filled from;
  the values of a form; and the order they are bound in, by which what the path says stands, whatever the body and the query
  have.
\<close>

section \<open>The fields of a struct\<close>

text \<open>
  A field's type, as far as binding tells types apart: \<open>B_text n\<close> is a type with an \<open>UnmarshalText\<close>, of which there are many,
  and \<open>B_bytes\<close> a slice of bytes. A number is of so many bits.
\<close>

datatype btype =
    B_string | B_bool | B_int nat | B_uint nat | B_float nat | B_bytes | B_time | B_text nat
  | B_ptr btype | B_slice btype | B_map | B_struct | B_file | B_files | B_other

datatype bvalue =
    Str string | Truth bool | Whole int | Decimal string | Bytes string | Moment int | Read_text string
  | Ptr bvalue | Items "bvalue list" | File nat | Files "nat list"

record tags =
  tg_path :: string
  tg_query :: string
  tg_form :: "string option"
  tg_json :: string
  tg_label :: string
  tg_none :: bool

text \<open>A field as reflection has it; one that is an embedded struct has that struct's fields.\<close>

datatype struct_field = Struct_field string bool tags btype | Embedded string bool tags btype "struct_field list"

record bind_field =
  bf_index :: "nat list"
  bf_path :: string
  bf_query :: string
  bf_form :: string
  bf_label :: string
  bf_type :: btype

definition form_name :: "string \<Rightarrow> tags \<Rightarrow> string" where
  "form_name field_name t =
     (case tg_form t of
        Some n \<Rightarrow> if n = ''-'' then [] else n
      | None \<Rightarrow>
          let n = fst (cut CHR '','' (tg_json t))
          in if n = ''-'' then [] else if n = [] then field_name else n)"

definition field_at :: "nat list \<Rightarrow> string \<Rightarrow> tags \<Rightarrow> btype \<Rightarrow> bind_field" where
  "field_at idx n t ty =
     \<lparr>bf_index = idx, bf_path = tg_path t, bf_query = tg_query t, bf_form = form_name n t, bf_label = tg_label t, bf_type = ty\<rparr>"

text \<open>\<open>collectFields\<close>, from the field at \<open>i\<close>. An embedded struct with a tag is a field of its own, named by its type.\<close>

fun collect_fields :: "nat list \<Rightarrow> nat \<Rightarrow> struct_field list \<Rightarrow> bind_field list" where
  "collect_fields index i [] = []"
| "collect_fields index i (Struct_field n exported t ty # fs) =
     (if exported then [field_at (index @ [i]) n t ty] else []) @ collect_fields index (i + 1) fs"
| "collect_fields index i (Embedded n exported t ty sub # fs) =
     (if tg_none t then collect_fields (index @ [i]) 0 sub
      else if exported then [field_at (index @ [i]) n t ty] else []) @ collect_fields index (i + 1) fs"

definition fields_of :: "struct_field list \<Rightarrow> bind_field list" where
  "fields_of st = collect_fields [] 0 st"

text \<open>\<open>readsBody\<close>, and \<open>takes\<close>: a struct bound that is not the one the route says it takes, where it reads the body.\<close>

definition reads_body :: "bind_field list \<Rightarrow> bool" where
  "reads_body fs \<longleftrightarrow> list_ex (\<lambda>f. bf_form f \<noteq> [] \<and> bf_path f = [] \<and> bf_query f = []) fs"

definition takes :: "struct_field list option \<Rightarrow> struct_field list \<Rightarrow> err option" where
  "takes input st =
     (case input of
        None \<Rightarrow> None
      | Some declared \<Rightarrow>
          if st = declared \<or> \<not> reads_body (fields_of st) then None
          else Some (Err (Other_error ''takes another struct, by Takes'') []))"

section \<open>Values\<close>

text \<open>What reading a value ended with: an empty one leaves its field alone, and a field that can't be filled is no client's doing.\<close>

datatype read = Left_alone | Set_to bvalue | Bad_value string | Cannot_fill

text \<open>\<open>ParseFloat\<close>, \<open>time.Parse\<close> in a layout, and a type's \<open>UnmarshalText\<close>.\<close>

record parsers =
  ps_float :: "nat \<Rightarrow> string \<Rightarrow> string option"
  ps_time :: "string \<Rightarrow> string \<Rightarrow> int option"
  ps_text :: "nat \<Rightarrow> string \<Rightarrow> string option"

fun reason_for :: "btype \<Rightarrow> string" where
  "reason_for (B_ptr t) = reason_for t"
| "reason_for B_time = ''must be a date''"
| "reason_for (B_text n) = ''is invalid''"
| "reason_for (B_int n) = ''must be a whole number''"
| "reason_for (B_uint n) = ''must be a whole number, 0 or more''"
| "reason_for (B_float n) = ''must be a number''"
| "reason_for B_bool = ''must be true or false''"
| "reason_for B_string = ''must be text''"
| "reason_for (B_slice t) = ''must be a list''"
| "reason_for B_bytes = ''must be a list''"
| "reason_for B_files = ''must be a list''"
| "reason_for B_map = ''must be an object''"
| "reason_for B_struct = ''must be an object''"
| "reason_for B_file = ''must be an object''"
| "reason_for B_other = ''is invalid''"

definition parse_bool :: "string \<Rightarrow> bool option" where
  "parse_bool s =
     (let l = to_lower s
      in if l \<in> set [''1'', ''true'', ''on'', ''yes''] then Some True
         else if l \<in> set [''0'', ''false'', ''off'', ''no''] then Some False else None)"

definition time_layouts :: "string list" where
  "time_layouts = [''2006-01-02T15:04:05.999999999Z07:00'', ''2006-01-02T15:04:05'', ''2006-01-02T15:04'', ''2006-01-02'']"

fun first_time :: "(string \<Rightarrow> string \<Rightarrow> int option) \<Rightarrow> string list \<Rightarrow> string \<Rightarrow> int option" where
  "first_time p [] s = None"
| "first_time p (l # ls) s = (case p l s of Some t \<Rightarrow> Some t | None \<Rightarrow> first_time p ls s)"

text \<open>\<open>strconv.ParseInt\<close> and \<open>ParseUint\<close> in base 10, of so many bits.\<close>

definition whole_number :: "nat \<Rightarrow> string \<Rightarrow> int option" where
  "whole_number bits s =
     (let (neg, ds) = (case s of [] \<Rightarrow> (False, []) | c # r \<Rightarrow> if c = CHR ''-'' then (True, r) else if c = CHR ''+'' then (False, r) else (False, s));
          v = (if neg then - int (digits_value ds) else int (digits_value ds))
      in if ds = [] \<or> \<not> list_all is_digit ds \<or> v < - (2 ^ (bits - 1)) \<or> 2 ^ (bits - 1) \<le> v then None else Some v)"

definition natural_number :: "nat \<Rightarrow> string \<Rightarrow> int option" where
  "natural_number bits s =
     (if s = [] \<or> \<not> list_all is_digit s \<or> 2 ^ bits \<le> int (digits_value s) then None else Some (int (digits_value s)))"

definition read_as :: "btype \<Rightarrow> ('a \<Rightarrow> bvalue) \<Rightarrow> 'a option \<Rightarrow> read" where
  "read_as t f x = (case x of None \<Rightarrow> Bad_value (reason_for t) | Some v \<Rightarrow> Set_to (f v))"

fun set_scalar :: "parsers \<Rightarrow> btype \<Rightarrow> string \<Rightarrow> read" where
  "set_scalar ps t [] = Left_alone"
| "set_scalar ps (B_ptr t) s = (case set_scalar ps t s of Set_to v \<Rightarrow> Set_to (Ptr v) | r \<Rightarrow> r)"
| "set_scalar ps B_time s = read_as B_time Moment (first_time (ps_time ps) time_layouts s)"
| "set_scalar ps (B_text n) s = read_as (B_text n) Read_text (ps_text ps n s)"
| "set_scalar ps B_string s = Set_to (Str s)"
| "set_scalar ps B_bool s = read_as B_bool Truth (parse_bool s)"
| "set_scalar ps (B_int bits) s = read_as (B_int bits) Whole (whole_number bits s)"
| "set_scalar ps (B_uint bits) s = read_as (B_uint bits) Whole (natural_number bits s)"
| "set_scalar ps (B_float bits) s = read_as (B_float bits) Decimal (ps_float ps bits s)"
| "set_scalar ps B_bytes s = Set_to (Bytes s)"
| "set_scalar ps t s = Cannot_fill"

text \<open>
  \<open>setValues\<close>: all of them for a slice, but the empty ones. A slice of slices, or a pointer to one, comes to \<open>setScalar\<close> as
  a slice, which it takes for one of bytes: reflection panics, which is answered as a field that cannot be filled is, with a 500.
\<close>

fun set_items :: "parsers \<Rightarrow> btype \<Rightarrow> string list \<Rightarrow> bvalue list \<Rightarrow> read" where
  "set_items ps t [] vs = Set_to (Items vs)"
| "set_items ps t (s # ss) vs =
     (if s = [] then set_items ps t ss vs
      else case set_scalar ps t s of Set_to v \<Rightarrow> set_items ps t ss (vs @ [v]) | r \<Rightarrow> r)"

definition set_values :: "parsers \<Rightarrow> btype \<Rightarrow> string list \<Rightarrow> read" where
  "set_values ps t vals =
     (case vals of
        [] \<Rightarrow> Left_alone
      | v # vs \<Rightarrow> (case t of B_slice e \<Rightarrow> set_items ps e vals [] | _ \<Rightarrow> set_scalar ps t v))"

section \<open>Binding\<close>

type_synonym dst = "nat list \<Rightarrow> bvalue option"

text \<open>\<open>lookup\<close> of a form's or query's key, or of the key with a \<open>[]\<close>; \<open>bindFailed\<close>; and a field set.\<close>

definition form_values :: "(string, 'a list) gomap \<Rightarrow> string \<Rightarrow> 'a list" where
  "form_values m n = (case lookup m n of Some vs \<Rightarrow> vs | None \<Rightarrow> (case lookup m (n @ ''[]'') of Some vs \<Rightarrow> vs | None \<Rightarrow> []))"

definition bind_failed :: "int \<Rightarrow> string \<Rightarrow> string \<Rightarrow> string \<Rightarrow> err" where
  "bind_failed code n lbl reason =
     Err (Http_error code (if code = 404 then [] else n @ '' '' @ reason))
       [Err (Bind_error \<lparr>be_field = n, be_reason = reason, be_label = lbl\<rparr>) []]"

definition set_field :: "int \<Rightarrow> string \<Rightarrow> bind_field \<Rightarrow> read \<Rightarrow> dst \<Rightarrow> dst \<times> err option" where
  "set_field code n f r d =
     (case r of
        Left_alone \<Rightarrow> (d, None)
      | Set_to v \<Rightarrow> (d(bf_index f := Some v), None)
      | Bad_value reason \<Rightarrow> (d, Some (bind_failed code n (bf_label f) reason))
      | Cannot_fill \<Rightarrow> (d, Some (Err (Other_error ''a field of its type can't be filled'') [])))"

text \<open>A value that does not parse is kept, the first of them, and the fields after it are bound; another error ends it.\<close>

fun bind_each :: "(bind_field \<Rightarrow> dst \<Rightarrow> dst \<times> err option) \<Rightarrow> bind_field list \<Rightarrow> dst \<Rightarrow> err option \<Rightarrow> dst \<times> (err + err option)" where
  "bind_each step [] d first = (d, Inr first)"
| "bind_each step (f # fs) d first =
     (case step f d of
        (d, None) \<Rightarrow> bind_each step fs d first
      | (d, Some e) \<Rightarrow>
          if bind_of e = None then (d, Inl e)
          else bind_each step fs d (case first of None \<Rightarrow> Some e | Some e' \<Rightarrow> Some e'))"

definition form_step ::
  "parsers \<Rightarrow> (string, string list) gomap \<Rightarrow> (string, nat list) gomap \<Rightarrow> bind_field \<Rightarrow> dst \<Rightarrow> dst \<times> err option" where
  "form_step ps vals files f d =
     (if bf_form f = [] then (d, None)
      else case bf_type f of
             B_file \<Rightarrow> (case form_values files (bf_form f) of [] \<Rightarrow> (d, None) | x # xs \<Rightarrow> (d(bf_index f := Some (File x)), None))
           | B_files \<Rightarrow> (case form_values files (bf_form f) of [] \<Rightarrow> (d, None) | x # xs \<Rightarrow> (d(bf_index f := Some (Files (x # xs))), None))
           | t \<Rightarrow> set_field 400 (bf_form f) f (set_values ps t (form_values vals (bf_form f))) d)"

definition query_step :: "parsers \<Rightarrow> (string, string list) gomap \<Rightarrow> bind_field \<Rightarrow> dst \<Rightarrow> dst \<times> err option" where
  "query_step ps q f d =
     (if bf_query f = [] then (d, None)
      else set_field 400 (bf_query f) f (set_values ps (bf_type f) (form_values q (bf_query f))) d)"

fun bind_path :: "parsers \<Rightarrow> (string \<Rightarrow> string) \<Rightarrow> bind_field list \<Rightarrow> dst \<Rightarrow> dst \<times> err option" where
  "bind_path ps value [] d = (d, None)"
| "bind_path ps value (f # fs) d =
     (if bf_path f = [] then bind_path ps value fs d
      else case set_field 404 (bf_path f) f (set_values ps (bf_type f) [value (bf_path f)]) d of
             (d, None) \<Rightarrow> bind_path ps value fs d
           | (d, Some e) \<Rightarrow> (d, Some e))"

text \<open>
  The body, as read under the limit, or not: \<open>json\<close> is \<open>encoding/json\<close> into the struct, with the type error's path and reason,
  if there is one, and \<open>as_form\<close> is \<open>jsonAsForm\<close>: the body read as a form sent as JSON.
\<close>

datatype json_error = Json_syntax | Json_type string string string | Json_other

record bind_body =
  bb_length :: int
  bb_media :: "string option"
  bb_data :: "bool + string"
  bb_form :: "bool + (string, string list) gomap \<times> (string, nat list) gomap"

definition body_failed :: "bool \<Rightarrow> err" where
  "body_failed too_large = Err (Http_error (if too_large then 413 else 400) []) [Err (Other_error ''reading the body'') []]"

definition bind_json ::
  "(string \<Rightarrow> dst \<Rightarrow> dst \<times> json_error option) \<Rightarrow> (string \<Rightarrow> string option) \<Rightarrow> string \<Rightarrow> dst \<Rightarrow> dst \<times> err option" where
  "bind_json json as_form data d =
     (if trim_space data = [] then (d, None)
      else let (d', e) = json data d;
               (d', e) = (if e = None \<or> e = Some Json_syntax then (d', e)
                          else case as_form data of None \<Rightarrow> (d', e) | Some form \<Rightarrow> json form d)
           in (d', case e of
                     None \<Rightarrow> None
                   | Some (Json_type n reason lbl) \<Rightarrow>
                       if n \<noteq> [] then Some (bind_failed 400 n lbl reason) else Some (Err (Http_error 400 ''invalid JSON'') [])
                   | Some other \<Rightarrow> Some (Err (Http_error 400 ''invalid JSON'') [])))"

definition bind_body_of ::
  "parsers \<Rightarrow> (string \<Rightarrow> dst \<Rightarrow> dst \<times> json_error option) \<Rightarrow> (string \<Rightarrow> string option) \<Rightarrow> bind_body \<Rightarrow> bind_field list \<Rightarrow> dst \<Rightarrow>
   dst \<times> (err + err option)" where
  "bind_body_of ps json as_form b fs d =
     (if bb_length b = 0 then (d, Inr None)
      else case bb_media b of
             None \<Rightarrow> (d, Inl (Err (Http_error 415 []) []))
           | Some media \<Rightarrow>
               if media = ''application/json'' \<or> has_suffix media ''+json'' then
                 (case bb_data b of
                    Inl too_large \<Rightarrow> (d, Inl (body_failed too_large))
                  | Inr data \<Rightarrow>
                      (case bind_json json as_form data d of
                         (d, None) \<Rightarrow> (d, Inr None)
                       | (d, Some e) \<Rightarrow> (d, if bind_of e = None then Inl e else Inr (Some e))))
               else if media = ''application/x-www-form-urlencoded'' \<or> media = ''multipart/form-data'' then
                 (case bb_form b of
                    Inl too_large \<Rightarrow> (d, Inl (body_failed too_large))
                  | Inr (vals, files) \<Rightarrow> bind_each (form_step ps vals files) fs d None)
               else (d, Inl (Err (Http_error 415 []) [])))"

definition bind_struct ::
  "parsers \<Rightarrow> (string \<Rightarrow> dst \<Rightarrow> dst \<times> json_error option) \<Rightarrow> (string \<Rightarrow> string option) \<Rightarrow> struct_field list option \<Rightarrow>
   struct_field list \<Rightarrow> bind_body \<Rightarrow> (string, string list) gomap \<Rightarrow> (string \<Rightarrow> string) \<Rightarrow> dst \<Rightarrow> dst \<times> err option" where
  "bind_struct ps json as_form input st b query path d =
     (case takes input st of
        Some e \<Rightarrow> (d, Some e)
      | None \<Rightarrow>
          (case bind_body_of ps json as_form b (fields_of st) d of
             (d, Inl e) \<Rightarrow> (d, Some e)
           | (d, Inr first) \<Rightarrow>
               (case bind_each (query_step ps query) (fields_of st) d first of
                  (d, Inl e) \<Rightarrow> (d, Some e)
                | (d, Inr first) \<Rightarrow>
                    (case bind_path ps path (fields_of st) d of
                       (d, Some e) \<Rightarrow> (d, Some e)
                     | (d, None) \<Rightarrow> (d, first)))))"

section \<open>What the path says stands\<close>

lemma collect_fields_index:
  "f \<in> set (collect_fields index i fs) \<Longrightarrow> \<exists>k r. bf_index f = index @ k # r \<and> i \<le> k"
proof (induction index i fs rule: collect_fields.induct)
  case (2 index i n exported t ty fs)
  then show ?case by (fastforce simp: field_at_def split: if_splits)
next
  case (3 index i n exported t ty sub fs)
  from 3(3) consider "tg_none t" "f \<in> set (collect_fields (index @ [i]) 0 sub)" | "bf_index f = index @ [i]"
    | "f \<in> set (collect_fields index (i + 1) fs)" by (auto simp: field_at_def split: if_splits)
  then show ?case
  proof cases
    case 1
    with 3(1) show ?thesis by fastforce
  next
    case 3
    with "3.IH"(2) show ?thesis by fastforce
  qed simp
qed simp

lemma collect_fields_distinct: "distinct (map bf_index (collect_fields index i fs))"
proof (induction index i fs rule: collect_fields.induct)
  case (2 index i n exported t ty fs)
  have "index @ [i] \<notin> bf_index ` set (collect_fields index (i + 1) fs)"
    using collect_fields_index [of _ index "i + 1" fs] by fastforce
  with 2 show ?case by (auto simp: field_at_def)
next
  case (3 index i n exported t ty sub fs)
  have here: "index @ [i] \<notin> bf_index ` set (collect_fields index (i + 1) fs)"
    using collect_fields_index [of _ index "i + 1" fs] by fastforce
  have "bf_index ` set (collect_fields (index @ [i]) 0 sub) \<inter> bf_index ` set (collect_fields index (i + 1) fs) = {}"
    using collect_fields_index [of _ "index @ [i]" 0 sub] collect_fields_index [of _ index "i + 1" fs] by fastforce
  with 3 here show ?case by (auto simp: field_at_def)
qed simp

lemma bind_path_keeps: "bind_path ps pv fs d = (d', None) \<Longrightarrow> i \<notin> bf_index ` set fs \<Longrightarrow> d' i = d i"
proof (induction ps pv fs d rule: bind_path.induct)
  case (2 ps pv f fs d)
  then show ?case by (auto simp: set_field_def split: if_splits read.splits)
qed simp

lemma bind_path_sets:
  "bind_path ps pv fs d = (d', None) \<Longrightarrow> distinct (map bf_index fs) \<Longrightarrow> f \<in> set fs \<Longrightarrow> bf_path f \<noteq> [] \<Longrightarrow>
     (case set_values ps (bf_type f) [pv (bf_path f)] of
        Set_to v \<Rightarrow> d' (bf_index f) = Some v
      | Left_alone \<Rightarrow> d' (bf_index f) = d (bf_index f)
      | _ \<Rightarrow> False)"
proof (induction ps pv fs d rule: bind_path.induct)
  case (2 ps pv g fs d)
  show ?case
  proof (cases "f = g")
    case True
    then have "f \<notin> set fs" "bf_index f \<notin> bf_index ` set fs" using 2(4) by auto
    then show ?thesis
      using 2(3,6) True bind_path_keeps [of ps pv fs _ d' "bf_index f"]
      by (auto simp: set_field_def split: read.splits)
  next
    case False
    then have "f \<in> set fs" "bf_index g \<notin> bf_index ` set fs" using 2(4,5) by simp_all
    then have f: "f \<in> set fs" "bf_index f \<noteq> bf_index g" by (simp, metis imageI)
    show ?thesis
    proof (cases "bf_path g = []")
      case True
      with 2 f show ?thesis by simp
    next
      case False
      obtain d1 where d1: "set_field 404 (bf_path g) g (set_values ps (bf_type g) [pv (bf_path g)]) d = (d1, None)"
        "bind_path ps pv fs d1 = (d', None)"
        using 2(3) False by (auto split: prod.splits option.splits)
      then have "d1 (bf_index f) = d (bf_index f)" using f(2) by (auto simp: set_field_def split: read.splits)
      with 2(2) [OF False d1(1) [symmetric] refl d1(2)] 2(4,6) f(1) show ?thesis by (simp split: read.splits)
    qed
  qed
qed simp

lemma set_scalar_left: "set_scalar ps t s = Left_alone \<Longrightarrow> s = []"
  by (induction ps t s rule: set_scalar.induct) (auto simp: read_as_def split: read.splits option.splits)

lemma set_one_left: "set_values ps t [s] = Left_alone \<Longrightarrow> s = []"
  using set_scalar_left by (auto simp: set_values_def split: btype.splits read.splits if_splits)

lemma bind_path_404:
  "bind_path ps pv fs d = (d', Some e) \<Longrightarrow> bind_of e = None \<or> (\<exists>m. http_of e = Some (404, m))"
proof (induction ps pv fs d rule: bind_path.induct)
  case (2 ps pv f fs d)
  then show ?case
    by (auto simp: set_field_def bind_failed_def http_of_def bind_of_def split: if_splits read.splits)
qed simp

text \<open>
  C28. What the path says stands. Where a struct is bound without an error, or with one of a value that did not parse, which
  BindValid goes on with, each field with a path tag has what its part of the path says, if that is not empty, read as the
  field's type, whatever the query and the body say, of any kind and however it is read, and whatever was in the field
  before.
\<close>

theorem what_the_path_says_stands:
  assumes "bind_struct ps json as_form input st b query path d = (d', e)"
    and "case e of None \<Rightarrow> True | Some err \<Rightarrow> map_option fst (http_of err) = Some 400 \<and> bind_of err \<noteq> None"
    and "f \<in> set (fields_of st)" "bf_path f \<noteq> []" "path (bf_path f) \<noteq> []"
  shows "\<exists>v. set_values ps (bf_type f) [path (bf_path f)] = Set_to v \<and> d' (bf_index f) = Some v"
proof -
  have "takes input st = None"
    using assms(1,2) by (auto simp: bind_struct_def takes_def http_of_def split: option.splits if_splits)
  note taken = assms(1,2) this
  have body: "bind_of err = None" if "bind_body_of ps json as_form b (fields_of st) d = (d1, Inl err)" for d1 err
  proof -
    have each: "bind_each step fs d first = (d2, Inl err) \<Longrightarrow> bind_of err = None" for step fs d first d2
      by (induction step fs d first rule: bind_each.induct) (auto split: prod.splits option.splits if_splits)
    show ?thesis using that
      by (auto simp: bind_body_of_def body_failed_def bind_of_def split: if_splits option.splits sum.splits prod.splits dest: each)
  qed
  have each: "bind_each step fs d first = (d2, Inl err) \<Longrightarrow> bind_of err = None" for step fs d first d2 err
    by (induction step fs d first rule: bind_each.induct) (auto split: prod.splits option.splits if_splits)
  obtain d1 first where b1: "bind_body_of ps json as_form b (fields_of st) d = (d1, Inr first)"
    using taken body by (auto simp: bind_struct_def split: sum.splits prod.splits)
  obtain d2 first2 where b2: "bind_each (query_step ps query) (fields_of st) d1 first = (d2, Inr first2)"
    using taken b1 by (auto simp: bind_struct_def split: sum.splits prod.splits dest: each)
  have "bind_path ps path (fields_of st) d2 = (d', None)"
    using taken b1 b2 bind_path_404 [of ps path "fields_of st" d2]
    by (fastforce simp: bind_struct_def split: prod.splits option.splits)
  from bind_path_sets [OF this _ assms(3,4)] collect_fields_distinct [of "[]" 0 st] show ?thesis
    using set_one_left [of ps "bf_type f" "path (bf_path f)"] assms(5)
    by (auto simp: fields_of_def split: read.splits)
qed

definition no_tags :: tags where
  "no_tags = \<lparr>tg_path = [], tg_query = [], tg_form = None, tg_json = [], tg_label = [], tg_none = True\<rparr>"

definition update_post :: "struct_field list" where
  "update_post =
     [Struct_field ''ID'' True (no_tags\<lparr>tg_path := ''id'', tg_none := False\<rparr>) (B_int 64),
      Struct_field ''Title'' True (no_tags\<lparr>tg_json := ''title'', tg_none := False\<rparr>) B_string]"

definition plain_parsers :: parsers where
  "plain_parsers = \<lparr>ps_float = (\<lambda>bits s. None), ps_time = (\<lambda>l s. None), ps_text = (\<lambda>n s. None)\<rparr>"

definition posted :: "(string, string list) gomap \<Rightarrow> bind_body" where
  "posted vals = \<lparr>bb_length = 1, bb_media = Some ''application/x-www-form-urlencoded'', bb_data = Inl False, bb_form = Inr (vals, [])\<rparr>"

definition bind_post :: "(string, string list) gomap \<Rightarrow> string \<Rightarrow> dst \<times> err option" where
  "bind_post vals idv =
     bind_struct plain_parsers (\<lambda>data d. (d, None)) (\<lambda>data. None) None update_post (posted vals) [] (\<lambda>n. idv) (\<lambda>i. None)"

theorem what_the_path_says_stands_witness:
  "fst (bind_post [(''ID'', [''7'']), (''title'', [''A title''])] ''42'') [0] = Some (Whole 42) \<and>
   fst (bind_post [(''ID'', [''7'']), (''title'', [''A title''])] ''42'') [1] = Some (Str ''A title'')"
proof -
  obtain d' e where b: "bind_post [(''ID'', [''7'']), (''title'', [''A title''])] ''42'' = (d', e)" by fastforce
  have "snd (bind_post [(''ID'', [''7'']), (''title'', [''A title''])] ''42'') = None"
    "fst (bind_post [(''ID'', [''7'']), (''title'', [''A title''])] ''42'') [1] = Some (Str ''A title'')" by code_simp+
  with b have e: "e = None" "d' [1] = Some (Str ''A title'')" by simp_all
  let ?f = "field_at [0] ''ID'' (no_tags\<lparr>tg_path := ''id'', tg_none := False\<rparr>) (B_int 64)"
  have "?f \<in> set (fields_of update_post)" "bf_path ?f \<noteq> []" "bf_index ?f = [0]" "bf_type ?f = B_int 64"
    by (simp_all add: fields_of_def update_post_def field_at_def)
  moreover have "set_values plain_parsers (B_int 64) [''42''] = Set_to (Whole 42)" by code_simp
  ultimately show ?thesis
    using what_the_path_says_stands [OF b [unfolded bind_post_def], of ?f] e b by auto
qed

text \<open>
  A part of the path that is empty, as what a {path...} wildcard takes of a path that ends there, leaves its field to the
  body, whose value stands.
\<close>

lemma an_empty_part_is_left_to_the_body:
  "fst (bind_post [(''ID'', [''7''])] []) [0] = Some (Whole 7) \<and> snd (bind_post [(''ID'', [''7''])] []) = None"
  by code_simp

end
