(* ===== verification/Passwords.thy ===== *)
theory Passwords
  imports Bind
begin

text \<open>
  Passwords and abilities of package auth (password.go, ability.go): a password's hash in the PHC string format, which checks
  that password and asks for no more memory or time than its bounds allow, whoever wrote it; and what a user may do, which
  a gate and an ability's check say.
\<close>

section \<open>Base64 of the standard alphabet\<close>

definition std_char :: "char \<Rightarrow> char" where
  "std_char c = (if c = CHR ''-'' then CHR ''+'' else if c = CHR ''_'' then CHR ''/'' else c)"

definition url_char :: "char \<Rightarrow> char" where
  "url_char c = (if c = CHR ''+'' then CHR ''-'' else if c = CHR ''/'' then CHR ''_'' else c)"

definition std_encode :: "string \<Rightarrow> string" where
  "std_encode s = map std_char (b64_encode s)"

definition std_decode :: "string \<Rightarrow> string option" where
  "std_decode s = (if CHR ''-'' \<in> set s \<or> CHR ''_'' \<in> set s then None else b64_decode (map url_char s))"

section \<open>Hashes\<close>

record argon_params =
  ap_memory :: nat
  ap_passes :: nat
  ap_threads :: nat
  ap_salt :: string
  ap_key :: string
  ap_key_len :: nat

definition argon_memory :: nat where "argon_memory = 19 * 1024"
definition argon_passes :: nat where "argon_passes = 2"
definition argon_threads :: nat where "argon_threads = 1"
definition salt_len :: nat where "salt_len = 16"
definition key_len :: nat where "key_len = 32"
definition argon_version :: nat where "argon_version = 19"

lemmas argon_defs = argon_memory_def argon_passes_def argon_threads_def salt_len_def key_len_def argon_version_def

definition settings_text :: "nat \<Rightarrow> nat \<Rightarrow> nat \<Rightarrow> string" where
  "settings_text m t p = ''m='' @ nat_digits m @ '',t='' @ nat_digits t @ '',p='' @ nat_digits p"

text \<open>\<open>Sscanf\<close> of the settings, whose text has to be the one that \<open>Sprintf\<close> writes of them.\<close>

definition setting :: "string \<Rightarrow> nat \<Rightarrow> string \<Rightarrow> nat option" where
  "setting n bits s =
     (if has_prefix s n then map_option nat (natural_number bits (drop (length n) s)) else None)"

definition parse_settings :: "string \<Rightarrow> (nat \<times> nat \<times> nat) option" where
  "parse_settings s =
     (case split_on CHR '','' s of
        [a, b, c] \<Rightarrow>
          (case (setting ''m='' 32 a, setting ''t='' 32 b, setting ''p='' 8 c) of
             (Some m, Some t, Some p) \<Rightarrow> if s = settings_text m t p then Some (m, t, p) else None
           | _ \<Rightarrow> None)
      | _ \<Rightarrow> None)"

definition hash_bounds :: "argon_params \<Rightarrow> bool" where
  "hash_bounds p \<longleftrightarrow>
     8 * ap_threads p \<le> ap_memory p \<and> ap_memory p \<le> 4 * 2 ^ 20 \<and> 1 \<le> ap_passes p \<and> ap_passes p \<le> 64 \<and> 1 \<le> ap_threads p \<and>
     8 \<le> length (ap_salt p) \<and> length (ap_salt p) \<le> 64 \<and> 16 \<le> length (ap_key p) \<and> length (ap_key p) \<le> 64"

definition parse_hash :: "string \<Rightarrow> argon_params option" where
  "parse_hash hash =
     (case split_on CHR ''$'' hash of
        [a, b, v, s, salt, key] \<Rightarrow>
          if a \<noteq> [] \<or> b \<noteq> ''argon2id'' \<or> v \<noteq> ''v='' @ nat_digits argon_version then None
          else (case (parse_settings s, std_decode salt, std_decode key) of
                  (Some (m, t, p), Some salt, Some key) \<Rightarrow>
                    let params = \<lparr>ap_memory = m, ap_passes = t, ap_threads = p, ap_salt = salt, ap_key = key,
                      ap_key_len = length key\<rparr>
                    in if hash_bounds params then Some params else None
                | _ \<Rightarrow> None)
      | _ \<Rightarrow> None)"

text \<open>
  \<open>derive\<close> is argon2id, of a password, and the settings, salt and length of key that it is given; a hash draws its salt. The
  slots that hashes take turns in are left out: they bound how many run at once, and change none.
\<close>

definition own_params :: "string \<Rightarrow> argon_params" where
  "own_params salt =
     \<lparr>ap_memory = argon_memory, ap_passes = argon_passes, ap_threads = argon_threads, ap_salt = salt, ap_key = [],
      ap_key_len = key_len\<rparr>"

definition decoy :: argon_params where
  "decoy = own_params (replicate salt_len (char_of (0 :: nat)))"

definition hash_password :: "(string \<Rightarrow> argon_params \<Rightarrow> string) \<Rightarrow> string \<Rightarrow> string \<Rightarrow> string" where
  "hash_password derive salt password =
     ''$argon2id$v='' @ nat_digits argon_version @ ''$'' @ settings_text argon_memory argon_passes argon_threads @ ''$'' @
     std_encode salt @ ''$'' @ std_encode (derive password (own_params salt))"

definition checked_with :: "string \<Rightarrow> argon_params" where
  "checked_with hash = (case parse_hash hash of None \<Rightarrow> decoy | Some p \<Rightarrow> p)"

definition check_password :: "(string \<Rightarrow> argon_params \<Rightarrow> string) \<Rightarrow> string \<Rightarrow> string \<Rightarrow> bool" where
  "check_password derive hash password =
     (let key = derive password (checked_with hash)
      in parse_hash hash \<noteq> None \<and> key = ap_key (checked_with hash))"

definition needs_rehash :: "string \<Rightarrow> bool" where
  "needs_rehash hash =
     (case parse_hash hash of
        None \<Rightarrow> True
      | Some p \<Rightarrow> ap_memory p \<noteq> argon_memory \<or> ap_passes p \<noteq> argon_passes \<or> ap_threads p \<noteq> argon_threads \<or>
          length (ap_salt p) \<noteq> salt_len \<or> length (ap_key p) \<noteq> key_len)"

section \<open>A hash checks its password\<close>

lemma nat_digits_no: "\<not> is_digit c \<Longrightarrow> c \<notin> set (nat_digits n)"
  using nat_digits_props [of n] by (auto simp: list_all_iff)

lemma b64_chars: "list_all (\<lambda>c. c \<in> set url_alphabet) (b64_encode s)"
proof -
  have "list_all (\<lambda>v. v < 64) (b64_sextets (map of_char s))"
    by (rule b64_sextets_small) (simp add: list_all_iff)
  moreover have "length url_alphabet = 64" by (simp add: url_alphabet_def)
  ultimately show ?thesis by (auto simp: b64_encode_def b64_char_def list_all_iff)
qed

lemma alphabet_chars: "list_all (\<lambda>c. url_char (std_char c) = c \<and> std_char c \<notin> set ''-_$'') url_alphabet"
  by code_simp

lemma std_chars: "c \<in> set (b64_encode s) \<Longrightarrow> url_char (std_char c) = c \<and> std_char c \<notin> set ''-_$''"
  using b64_chars [of s] alphabet_chars by (simp add: list_all_iff)

lemma std_decode_encode [simp]: "std_decode (std_encode s) = Some s"
proof -
  have "map url_char (std_encode s) = b64_encode s"
    unfolding std_encode_def map_map using std_chars by (intro map_idI) simp
  moreover have "CHR ''-'' \<notin> set (std_encode s)" "CHR ''_'' \<notin> set (std_encode s)"
    by (auto simp: std_encode_def dest!: std_chars)
  ultimately show ?thesis by (simp add: std_decode_def)
qed

lemma std_no_dollar: "CHR ''$'' \<notin> set (std_encode s)"
  by (auto simp: std_encode_def dest!: std_chars)

lemma digits_setting:
  "int n < 2 ^ bits \<Longrightarrow> setting p bits (p @ nat_digits n) = Some n"
  using nat_digits_props [of n] by (simp add: setting_def natural_number_def has_prefix_iff)

lemma parse_settings_text:
  assumes "m < 2 ^ 32" "t < 2 ^ 32" "p < 2 ^ 8"
  shows "parse_settings (settings_text m t p) = Some (m, t, p)"
proof -
  have comma: "CHR '','' \<notin> set (nat_digits n)" for n by (rule nat_digits_no) (simp add: is_digit_def)
  have "split_on CHR '','' (settings_text m t p) = [''m='' @ nat_digits m, ''t='' @ nat_digits t, ''p='' @ nat_digits p]"
  proof -
    have "settings_text m t p = (''m='' @ nat_digits m) @ CHR '','' # (''t='' @ nat_digits t) @ CHR '','' # ''p='' @ nat_digits p"
      by (simp add: settings_text_def)
    then show ?thesis using comma by (simp only: split_on_append split_on_single) (simp add: split_on_append split_on_single)
  qed
  moreover have "setting ''m='' 32 (''m='' @ nat_digits m) = Some m" "setting ''t='' 32 (''t='' @ nat_digits t) = Some t"
    "setting ''p='' 8 (''p='' @ nat_digits p) = Some p"
    by (rule digits_setting; use assms in simp)+
  ultimately show ?thesis by (simp add: parse_settings_def)
qed

lemma parse_own_hash:
  assumes "length salt = salt_len" "length (derive pw (own_params salt)) = key_len"
  shows "parse_hash (hash_password derive salt pw) = Some (own_params salt \<lparr>ap_key := derive pw (own_params salt)\<rparr>)"
proof -
  let ?key = "derive pw (own_params salt)"
  have digits: "CHR ''$'' \<notin> set (nat_digits n)" for n by (rule nat_digits_no) (simp add: is_digit_def)
  then have settings: "CHR ''$'' \<notin> set (settings_text m t p)" for m t p by (simp add: settings_text_def)
  have whole: "hash_password derive salt pw =
      [] @ CHR ''$'' # ''argon2id'' @ CHR ''$'' # (''v='' @ nat_digits argon_version) @ CHR ''$'' #
      settings_text argon_memory argon_passes argon_threads @ CHR ''$'' # std_encode salt @ CHR ''$'' # std_encode ?key"
    by (simp add: hash_password_def)
  have split: "split_on CHR ''$'' (hash_password derive salt pw) =
      [[], ''argon2id'', ''v='' @ nat_digits argon_version, settings_text argon_memory argon_passes argon_threads,
       std_encode salt, std_encode ?key]"
    unfolding whole
    by (simp add: std_no_dollar settings digits split_on_append split_on_single)
  have "parse_settings (settings_text argon_memory argon_passes argon_threads) = Some (argon_memory, argon_passes, argon_threads)"
    by (rule parse_settings_text) (simp_all add: argon_defs)
  then show ?thesis
    using assms by (simp add: parse_hash_def split hash_bounds_def own_params_def argon_defs)
qed

text \<open>What a check asks of argon2id at most: 4 GiB, 64 passes, and a salt and key of 64 bytes.\<close>

definition modest :: "argon_params \<Rightarrow> bool" where
  "modest p \<longleftrightarrow> ap_memory p \<le> 4 * 1024 * 1024 \<and> 1 \<le> ap_passes p \<and> ap_passes p \<le> 64 \<and> 1 \<le> ap_threads p \<and>
     8 * ap_threads p \<le> ap_memory p \<and> length (ap_salt p) \<le> 64 \<and> 16 \<le> ap_key_len p \<and> ap_key_len p \<le> 64"

lemma checked_with_modest: "modest (checked_with hash)"
proof (cases "parse_hash hash")
  case None
  then show ?thesis by (simp add: checked_with_def decoy_def modest_def own_params_def argon_defs)
next
  case (Some p)
  then have "hash_bounds p \<and> ap_key_len p = length (ap_key p)"
    by (auto simp: parse_hash_def Let_def split: list.splits option.splits if_splits)
  with Some show ?thesis by (simp add: checked_with_def modest_def hash_bounds_def)
qed

text \<open>
  C39. A password's hash checks that password, and asks for no more than it should. What HashPassword makes of a password
  under a salt checks exactly the passwords argon2id derives the same key of, with the settings, salt and length the hash
  was made with, and is not one to hash again; and whatever text is checked, a user's with no password, one of another kind
  or one that someone wrote, argon2id is asked for settings within the bounds, and no password is let in by a text that is
  no hash.
\<close>

theorem a_hash_checks_its_password:
  assumes "length salt = salt_len" "length (derive pw (own_params salt)) = key_len"
  shows "(check_password derive (hash_password derive salt pw) pw' \<longleftrightarrow>
      derive pw' (own_params salt \<lparr>ap_key := derive pw (own_params salt)\<rparr>) = derive pw (own_params salt)) \<and>
    \<not> needs_rehash (hash_password derive salt pw) \<and> modest (checked_with hash) \<and>
    (check_password derive hash pw' \<longrightarrow> parse_hash hash \<noteq> None)"
  using parse_own_hash [of salt derive pw, OF assms] assms checked_with_modest [of hash]
  by (simp add: check_password_def checked_with_def needs_rehash_def own_params_def Let_def)

definition toy_derive :: "string \<Rightarrow> argon_params \<Rightarrow> string" where
  "toy_derive pw p = take (ap_key_len p) (pw @ ap_salt p @ replicate (ap_key_len p) CHR ''k'')"

theorem a_hash_checks_its_password_witness:
  "check_password toy_derive (hash_password toy_derive (replicate 16 CHR ''s'') ''secret'') ''secret'' \<and>
   \<not> check_password toy_derive (hash_password toy_derive (replicate 16 CHR ''s'') ''secret'') ''Secret'' \<and>
   modest (checked_with ''$argon2id$v=19$m=4294967295,t=1,p=1$c29tZXNhbHQ$c29tZWtleXNvbWVrZXk'')"
proof -
  have lens: "length (replicate 16 CHR ''s'') = salt_len" "length (toy_derive ''secret'' (own_params (replicate 16 CHR ''s''))) = key_len"
    by code_simp+
  have keys: "toy_derive ''secret'' (own_params (replicate 16 CHR ''s'') \<lparr>ap_key := toy_derive ''secret'' (own_params (replicate 16 CHR ''s''))\<rparr>) =
      toy_derive ''secret'' (own_params (replicate 16 CHR ''s''))"
    "toy_derive ''Secret'' (own_params (replicate 16 CHR ''s'') \<lparr>ap_key := toy_derive ''secret'' (own_params (replicate 16 CHR ''s''))\<rparr>) \<noteq>
      toy_derive ''secret'' (own_params (replicate 16 CHR ''s''))" by code_simp+
  show ?thesis using a_hash_checks_its_password [of _ toy_derive "''secret''", OF lens] keys by blast
qed

section \<open>Abilities\<close>

text \<open>
  An error of a gate or a check: an ability's no, with its reason, or a failure; either may be wrapped. \<open>errors.AsType\<close> finds the
  no in what wraps it.
\<close>

datatype 'f ab_error = Denial string | Failure 'f | Wrapped 'f "'f ab_error"

fun denial_in :: "'f ab_error \<Rightarrow> string option" where
  "denial_in (Denial reason) = Some reason"
| "denial_in (Failure x) = None"
| "denial_in (Wrapped x e) = denial_in e"

text \<open>\<open>no\<close>, \<open>Check\<close> and \<open>Can\<close>: \<open>zero\<close> is whether the user is the zero one, and a gate with no Before is none.\<close>

definition ab_no :: "string \<Rightarrow> 'f ab_error option \<Rightarrow> 'f ab_error" where
  "ab_no what e =
     (case e of
        None \<Rightarrow> Denial (''you may not '' @ what)
      | Some err \<Rightarrow>
          (case denial_in err of
             None \<Rightarrow> err
           | Some reason \<Rightarrow> if reason = [] then Denial (''you may not '' @ what) else Denial reason))"

definition ab_check ::
  "string \<Rightarrow> ('u \<Rightarrow> bool \<times> 'f ab_error option) option \<Rightarrow> ('u \<Rightarrow> 't \<Rightarrow> bool \<times> 'f ab_error option) \<Rightarrow> ('u \<Rightarrow> bool) \<Rightarrow> 'u \<Rightarrow> 't \<Rightarrow>
   'f ab_error option" where
  "ab_check what gate check zero u x =
     (if zero u then Some (ab_no what None)
      else let asked = (case check u x of (yes, e) \<Rightarrow> if e \<noteq> None \<or> \<not> yes then Some (ab_no what e) else None)
           in case gate of
                None \<Rightarrow> asked
              | Some before \<Rightarrow>
                  (case before u of
                     (yes, Some e) \<Rightarrow> Some (ab_no what (Some e))
                   | (yes, None) \<Rightarrow> if yes then None else asked))"

definition ab_can ::
  "string \<Rightarrow> ('u \<Rightarrow> bool \<times> 'f ab_error option) option \<Rightarrow> ('u \<Rightarrow> 't \<Rightarrow> bool \<times> 'f ab_error option) \<Rightarrow> ('u \<Rightarrow> bool) \<Rightarrow> 'u \<Rightarrow> 't \<Rightarrow>
   bool \<times> 'f ab_error option" where
  "ab_can what gate check zero u x =
     (case ab_check what gate check zero u x of
        None \<Rightarrow> (True, None)
      | Some e \<Rightarrow> if denial_in e \<noteq> None then (False, None) else (False, Some e))"

text \<open>Can says yes exactly when Check has no error, and has an error of its own only where neither said yes nor no.\<close>

lemma can_is_check:
  "fst (ab_can what gate check zero u x) \<longleftrightarrow> ab_check what gate check zero u x = None"
  "snd (ab_can what gate check zero u x) = Some e \<Longrightarrow> denial_in e = None"
  by (auto simp: ab_can_def split: option.splits if_splits)

text \<open>A guest is refused, and nobody is asked; so is a user the gate stops, whatever the ability would say.\<close>

lemma a_guest_may_nothing: "zero u \<Longrightarrow> ab_check what gate check zero u x = Some (Denial (''you may not '' @ what))"
  by (simp add: ab_check_def ab_no_def)

lemma a_stopped_user_may_nothing:
  "before u = (yes, Some (Denial reason)) \<Longrightarrow> \<not> fst (ab_can what (Some before) check zero u x)"
  by (simp add: ab_can_def ab_check_def ab_no_def)

end
