(* ===== verification/Ulid.thy ===== *)
theory Ulid
  imports Http "HOL-Library.Word" "HOL-Library.List_Lexorder"
begin

text \<open>
  Package ulid (internal/ulid/ulid.go): IDs of 128 bits, the millisecond first, that sort as they were made. The maker's
  words are of Go's widths, so that its counter wraps as Go's does.
\<close>

unbundle bit_operations_syntax

definition crockford :: string where
  "crockford = ''0123456789ABCDEFGHJKMNPQRSTVWXYZ''"

record maker =
  mk_ms :: "64 word"
  mk_high :: "16 word"
  mk_low :: "64 word"

definition new_maker :: maker where
  "new_maker = \<lparr>mk_ms = 0, mk_high = 0, mk_low = 0\<rparr>"

text \<open>The digits, from the last to the first: so many of them, of the high and the low half of 128 bits.\<close>

fun ulid_digits :: "nat \<Rightarrow> 64 word \<Rightarrow> 64 word \<Rightarrow> string \<Rightarrow> string" where
  "ulid_digits 0 hi lo s = s"
| "ulid_digits (Suc n) hi lo s =
     ulid_digits n (drop_bit 5 hi) (drop_bit 5 lo OR push_bit 59 hi) (crockford ! unat (lo AND 31) # s)"

definition ulid_text :: "maker \<Rightarrow> string" where
  "ulid_text u = ulid_digits 26 (push_bit 16 (mk_ms u) OR ucast (mk_high u)) (mk_low u) []"

text \<open>\<open>Next\<close> at a millisecond of Unix time, which may be before 1970, with the 80 random bits it draws.\<close>

definition ulid_step :: "int \<Rightarrow> 16 word \<Rightarrow> 64 word \<Rightarrow> maker \<Rightarrow> maker" where
  "ulid_step millis r_high r_low u =
     (let ms = (word_of_int millis :: 64 word)
      in if ms \<le> mk_ms u then
           let low = mk_low u + 1 in u\<lparr>mk_low := low, mk_high := (if low = 0 then mk_high u + 1 else mk_high u)\<rparr>
         else u\<lparr>mk_ms := ms, mk_high := r_high, mk_low := r_low\<rparr>)"

definition ulid_next :: "int \<Rightarrow> 16 word \<Rightarrow> 64 word \<Rightarrow> maker \<Rightarrow> string \<times> maker" where
  "ulid_next millis r_high r_low u = (let u = ulid_step millis r_high r_low u in (ulid_text u, u))"

definition ulid_valid :: "string \<Rightarrow> bool" where
  "ulid_valid s \<longleftrightarrow> length s = 26 \<and> of_char (hd s) \<le> (of_char (CHR ''7'') :: nat) \<and> list_all (\<lambda>c. c \<in> set crockford) s"

section \<open>The digits are those of the number\<close>

fun base32 :: "nat \<Rightarrow> nat \<Rightarrow> string" where
  "base32 0 n = []"
| "base32 (Suc k) n = base32 k (n div 32) @ [crockford ! (n mod 32)]"

definition wide :: "64 word \<Rightarrow> 64 word \<Rightarrow> nat" where
  "wide hi lo = unat hi * 2 ^ 64 + unat lo"

lemma unat_shift: "unat (drop_bit 5 (w :: 64 word)) = unat w div 32"
proof -
  have "unat (drop_bit 5 w) = drop_bit 5 (unat w)" by (rule unat_drop_bit_eq)
  then show ?thesis by (simp only: drop_bit_eq_div) simp
qed

lemma shifted_low:
  "unat (drop_bit 5 lo OR push_bit 59 hi) = unat (lo :: 64 word) div 32 + unat (hi :: 64 word) mod 32 * 2 ^ 59"
proof -
  have split: "unat (push_bit 59 hi) = unat hi mod 32 * 2 ^ 59"
  proof -
    have "unat (push_bit 59 hi) = take_bit 64 (push_bit 59 (unat hi))" by (simp add: unsigned_push_bit_eq)
    also have "\<dots> = unat hi * 2 ^ 59 mod 2 ^ 64" by (simp add: push_bit_eq_mult take_bit_eq_mod)
    also have "\<dots> = unat hi mod 32 * 2 ^ 59" by (simp add: mult_mod_left)
    finally show ?thesis .
  qed
  note low = unat_shift [of lo]
  have "drop_bit 5 lo AND push_bit 59 hi = 0"
    by (rule bit_word_eqI) (auto simp: bit_simps dest: bit_imp_le_length)
  then have "drop_bit 5 lo OR push_bit 59 hi = drop_bit 5 lo + push_bit 59 hi" by (simp add: disjunctive_add_eq_or)
  moreover have "unat lo div 32 + unat hi mod 32 * 2 ^ 59 < 2 ^ 64"
  proof -
    have "unat lo < 2 ^ 64" using unsigned_less [of lo] by simp
    then have "unat lo div 32 < 2 ^ 59" by simp
    moreover have "unat hi mod 32 \<le> 31" by simp
    ultimately show ?thesis by simp
  qed
  ultimately show ?thesis by (simp add: unat_word_ariths split low)
qed

lemma wide_shift: "wide (drop_bit 5 hi) (drop_bit 5 lo OR push_bit 59 hi) = wide hi lo div 32"
proof -
  note hi = unat_shift [of hi]
  have split: "n * 2 ^ 64 = 32 * (n div 32 * 2 ^ 64 + n mod 32 * 2 ^ 59)" for n :: nat
  proof -
    have "32 * (q * 2 ^ 64 + r * 2 ^ 59) = (32 * q + r) * 2 ^ 64" for q r :: nat by simp
    from this [of "n div 32" "n mod 32"] show ?thesis by simp
  qed
  have "wide hi lo = 32 * (unat hi div 32 * 2 ^ 64 + unat hi mod 32 * 2 ^ 59) + unat lo"
    unfolding wide_def using split [of "unat hi"] by simp
  then have "wide hi lo div 32 = (unat hi div 32 * 2 ^ 64 + unat hi mod 32 * 2 ^ 59) + unat lo div 32" by simp
  then show ?thesis by (simp add: wide_def shifted_low hi)
qed

lemma wide_last: "wide hi lo mod 32 = unat (lo AND 31)"
proof -
  have "unat (lo AND 31) = unat lo mod 32"
  proof -
    have "unat (lo AND 31) = unat lo AND unat (31 :: 64 word)" by (rule unsigned_and_eq)
    also have "\<dots> = unat lo AND mask 5" by (simp add: mask_eq_exp_minus_1)
    also have "\<dots> = take_bit 5 (unat lo)" by (simp only: take_bit_eq_mask)
    also have "\<dots> = unat lo mod 32" by (simp add: take_bit_eq_mod)
    finally show ?thesis .
  qed
  moreover have "wide hi lo mod 32 = unat lo mod 32"
    by (simp add: wide_def mod_add_left_eq [symmetric] mod_mult_right_eq [symmetric])
  ultimately show ?thesis by simp
qed

lemma ulid_digits_base32: "ulid_digits n hi lo s = base32 n (wide hi lo) @ s"
  by (induction n arbitrary: hi lo s) (simp_all add: wide_shift wide_last)

lemma length_base32 [simp]: "length (base32 k n) = k"
  by (induction k arbitrary: n) simp_all

lemma hd_base32: "hd (base32 (Suc k) n) = crockford ! (n div 32 ^ k mod 32)"
proof (induction k arbitrary: n)
  case (Suc k)
  have "base32 (Suc k) (n div 32) \<noteq> []" using length_base32 [of "Suc k" "n div 32"] by (metis length_0_conv nat.distinct(1))
  then have "hd (base32 (Suc (Suc k)) n) = hd (base32 (Suc k) (n div 32))" by (simp del: base32.simps(2) add: base32.simps(2) [of "Suc k"])
  also have "\<dots> = crockford ! (n div 32 div 32 ^ k mod 32)" by (rule Suc)
  finally show ?case by (simp add: div_mult2_eq)
qed simp

lemma base32_digits: "c \<in> set (base32 k n) \<Longrightarrow> c \<in> set crockford"
proof (induction k arbitrary: n)
  case (Suc k)
  have "length crockford = 32" by (simp add: crockford_def)
  then have "crockford ! (n mod 32) \<in> set crockford" by simp
  with Suc show ?case by auto
qed simp

lemma crockford_ascends: "i < j \<Longrightarrow> j < 32 \<Longrightarrow> crockford ! i < crockford ! j"
proof -
  have "list_all (\<lambda>j. list_all (\<lambda>i. crockford ! i < crockford ! j) [0..<j]) [0..<32]" by code_simp
  then show "i < j \<Longrightarrow> j < 32 \<Longrightarrow> ?thesis" by (simp add: list_all_iff)
qed

lemma snoc_less:
  "length xs = length ys \<Longrightarrow> xs @ [c] < ys @ [d] \<longleftrightarrow> xs < ys \<or> xs = ys \<and> c < (d :: char)"
  by (induction xs ys rule: list_induct2) auto

lemma base32_inj: "n < 32 ^ k \<Longrightarrow> m < 32 ^ k \<Longrightarrow> base32 k n < base32 k m \<longleftrightarrow> n < m"
proof -
  have less: "n < 32 ^ k \<Longrightarrow> m < 32 ^ k \<Longrightarrow> n < m \<Longrightarrow> base32 k n < base32 k m" for n m
  proof (induction k arbitrary: n m)
    case (Suc k)
    have small: "n div 32 < 32 ^ k" "m div 32 < 32 ^ k" using Suc.prems by (simp_all add: less_mult_imp_div_less mult.commute)
    show ?case
    proof (cases "n div 32 = m div 32")
      case True
      then have "n mod 32 < m mod 32" using Suc.prems(3) by (metis div_mult_mod_eq nat_add_left_cancel_less)
      then have "crockford ! (n mod 32) < crockford ! (m mod 32)" by (intro crockford_ascends) simp_all
      then show ?thesis by (simp add: snoc_less True)
    next
      case False
      moreover have "n div 32 \<le> m div 32" using Suc.prems(3) by (simp add: div_le_mono)
      ultimately have "base32 k (n div 32) < base32 k (m div 32)" using Suc.IH [OF small] by simp
      then show ?thesis by (simp add: snoc_less)
    qed
  qed simp
  show "n < 32 ^ k \<Longrightarrow> m < 32 ^ k \<Longrightarrow> ?thesis"
    using less [of n m] less [of m n] by (cases n m rule: linorder_cases) auto
qed

section \<open>IDs sort as they were made\<close>

definition counter :: "maker \<Rightarrow> nat" where
  "counter u = unat (mk_high u) * 2 ^ 64 + unat (mk_low u)"

definition ulid_number :: "maker \<Rightarrow> nat" where
  "ulid_number u = unat (mk_ms u) * 2 ^ 80 + counter u"

lemma counter_less: "counter u < 2 ^ 80"
proof -
  have "unat (mk_high u) < 2 ^ 16" "unat (mk_low u) < 2 ^ 64"
    using unsigned_less [of "mk_high u"] unsigned_less [of "mk_low u"] by simp_all
  then show ?thesis by (simp add: counter_def)
qed

lemma ulid_text_number:
  assumes "unat (mk_ms u) < 2 ^ 48"
  shows "ulid_text u = base32 26 (ulid_number u)"
proof -
  let ?ms = "mk_ms u" and ?h = "ucast (mk_high u) :: 64 word"
  have high: "unat ?h = unat (mk_high u)"
  proof -
    have "unat (mk_high u) < 2 ^ 64" using unsigned_less [of "mk_high u"] by (rule order.strict_trans1 [OF less_imp_le]) simp
    then show ?thesis by (simp add: unsigned_ucast_eq take_bit_nat_eq_self)
  qed
  have "unat (push_bit 16 ?ms) = take_bit 64 (push_bit 16 (unat ?ms))" by (simp add: unsigned_push_bit_eq)
  also have "\<dots> = unat ?ms * 2 ^ 16" using assms by (simp add: push_bit_eq_mult take_bit_eq_mod)
  finally have ms: "unat (push_bit 16 ?ms) = unat ?ms * 2 ^ 16" .
  have "push_bit 16 ?ms AND ?h = 0"
    by (rule bit_word_eqI) (auto simp: bit_simps dest: bit_imp_le_length)
  then have "push_bit 16 ?ms OR ?h = push_bit 16 ?ms + ?h" by (simp add: disjunctive_add_eq_or)
  moreover have "unat (mk_high u) < 2 ^ 16" using unsigned_less [of "mk_high u"] by simp
  ultimately have "unat (push_bit 16 ?ms OR ?h) = unat ?ms * 2 ^ 16 + unat (mk_high u)"
    using assms by (simp add: unat_word_ariths ms high)
  then have "wide (push_bit 16 ?ms OR ?h) (mk_low u) = ulid_number u"
    by (simp add: wide_def ulid_number_def counter_def)
  then show ?thesis by (simp add: ulid_text_def ulid_digits_base32 del: ulid_digits.simps base32.simps)
qed

definition has_room :: "nat \<Rightarrow> maker \<Rightarrow> bool" where
  "has_room k u \<longleftrightarrow> unat (mk_ms u) < 2 ^ 48 \<and> counter u + k < 2 ^ 80"

text \<open>The times asked at, and the room each random part leaves for the calls after it.\<close>

fun room_ok :: "(int \<times> 16 word \<times> 64 word) list \<Rightarrow> bool" where
  "room_ok [] \<longleftrightarrow> True"
| "room_ok ((millis, high, low) # ds) \<longleftrightarrow>
     0 \<le> millis \<and> millis < 2 ^ 48 \<and> unat high * 2 ^ 64 + unat low + length ds < 2 ^ 80 \<and> room_ok ds"

lemma counter_up:
  assumes "counter u + 1 < 2 ^ 80"
  shows "counter (u\<lparr>mk_low := mk_low u + 1, mk_high := (if mk_low u + 1 = 0 then mk_high u + 1 else mk_high u)\<rparr>) = counter u + 1"
proof (cases "mk_low u + 1 = 0")
  case True
  have low: "unat (mk_low u) = 2 ^ 64 - 1"
  proof -
    have "mk_low u = -1" using True by (simp add: eq_neg_iff_add_eq_0)
    then show ?thesis by (simp add: unsigned_minus_1_eq_mask mask_eq_exp_minus_1)
  qed
  have "unat (mk_high u) + 1 < 2 ^ 16"
  proof -
    have "unat (mk_high u) * 2 ^ 64 + 2 ^ 64 < 2 ^ 80" using assms low by (simp add: counter_def)
    then show ?thesis by simp
  qed
  then have "unat (mk_high u + 1) = unat (mk_high u) + 1" by (simp add: unat_word_ariths)
  with True low show ?thesis by (simp add: counter_def)
next
  case False
  then have "unat (mk_low u + 1) = unat (mk_low u) + 1"
    using unatSuc [of "mk_low u"] by (simp add: add.commute)
  with False show ?thesis by (simp add: counter_def)
qed

lemma ulid_step_grows:
  assumes "has_room (Suc k) u" and "room_ok ((millis, high, low) # ds)" and "k = length ds"
  shows "ulid_number u < ulid_number (ulid_step millis high low u) \<and> has_room k (ulid_step millis high low u)"
proof -
  let ?ms = "word_of_int millis :: 64 word"
  have at: "0 \<le> millis" "millis < 2 ^ 48" and room: "unat high * 2 ^ 64 + unat low + k < 2 ^ 80"
    using assms(2,3) by simp_all
  have ms: "unat ?ms = nat millis"
    using at by (simp add: unat_eq_nat_uint uint_word_of_int)
  show ?thesis
  proof (cases "?ms \<le> mk_ms u")
    case True
    define u' where "u' = u\<lparr>mk_low := mk_low u + 1, mk_high := (if mk_low u + 1 = 0 then mk_high u + 1 else mk_high u)\<rparr>"
    have step: "ulid_step millis high low u = u'" using True by (simp add: ulid_step_def u'_def Let_def)
    have "counter u' = counter u + 1" unfolding u'_def using assms(1) by (intro counter_up) (simp add: has_room_def)
    moreover have "mk_ms u' = mk_ms u" by (simp add: u'_def)
    ultimately show ?thesis using assms(1) by (simp add: step has_room_def ulid_number_def)
  next
    case False
    define u' where "u' = u\<lparr>mk_ms := ?ms, mk_high := high, mk_low := low\<rparr>"
    have step: "ulid_step millis high low u = u'" using False by (simp add: ulid_step_def u'_def Let_def)
    have later: "unat (mk_ms u) < nat millis" using False ms by (simp add: word_le_nat_alt)
    have "counter u' + k < 2 ^ 80" using room by (simp add: counter_def u'_def)
    moreover have "nat millis < 2 ^ 48" using at by (auto simp: nat_less_iff)
    moreover have "ulid_number u < ulid_number u'"
      using later counter_less [of u] by (simp add: ulid_number_def u'_def ms)
    ultimately show ?thesis by (simp add: step has_room_def u'_def ms)
  qed
qed

text \<open>What a maker makes, of the times it is asked at and what it draws.\<close>

fun ulid_run :: "maker \<Rightarrow> (int \<times> 16 word \<times> 64 word) list \<Rightarrow> string list" where
  "ulid_run u [] = []"
| "ulid_run u ((millis, high, low) # ds) = (case ulid_next millis high low u of (s, u) \<Rightarrow> s # ulid_run u ds)"

lemma number_small: "unat (mk_ms u) < 2 ^ 48 \<Longrightarrow> ulid_number u < 2 ^ 128"
  using counter_less [of u] by (simp add: ulid_number_def)

lemma text_less:
  assumes "has_room k u" "has_room k' u'" "ulid_number u < ulid_number u'"
  shows "ulid_text u < ulid_text u'"
proof -
  have "ulid_number u < 32 ^ 26" "ulid_number u' < 32 ^ 26"
    using number_small [of u] number_small [of u'] assms(1,2) by (simp_all add: has_room_def)
  then show ?thesis using assms by (simp add: ulid_text_number has_room_def base32_inj del: base32.simps)
qed

lemma text_valid: "has_room k u \<Longrightarrow> ulid_valid (ulid_text u)"
proof -
  assume u: "has_room k u"
  then have n: "ulid_text u = base32 26 (ulid_number u)" "ulid_number u < 2 ^ 128"
    using number_small [of u] by (simp_all add: ulid_text_number has_room_def del: base32.simps)
  then have "ulid_number u div 32 ^ 25 < 8" by (simp add: less_mult_imp_div_less)
  moreover have "list_all (\<lambda>i. of_char (crockford ! i) \<le> (of_char (CHR ''7'') :: nat)) [0..<8]" by code_simp
  ultimately have "of_char (crockford ! (ulid_number u div 32 ^ 25 mod 32)) \<le> (of_char (CHR ''7'') :: nat)"
    by (simp add: list_all_iff)
  moreover have "hd (base32 26 (ulid_number u)) = crockford ! (ulid_number u div 32 ^ 25 mod 32)"
    using hd_base32 [of 25 "ulid_number u"] by (simp del: base32.simps)
  ultimately show ?thesis
    using base32_digits by (auto simp: ulid_valid_def n(1) list_all_iff simp del: base32.simps)
qed

lemma run_after:
  "has_room (length ds) u \<Longrightarrow> room_ok ds \<Longrightarrow>
     list_all (\<lambda>s. ulid_text u < s \<and> ulid_valid s) (ulid_run u ds) \<and> sorted_wrt (<) (ulid_run u ds)"
proof (induction ds arbitrary: u)
  case (Cons d ds)
  obtain millis high low where d: "d = (millis, high, low)" by (cases d)
  let ?u = "ulid_step millis high low u"
  have step: "ulid_number u < ulid_number ?u" "has_room (length ds) ?u"
    using ulid_step_grows [of "length ds" u millis high low ds] Cons.prems by (simp_all add: d)
  from Cons.IH [OF step(2)] Cons.prems(2) have
    ih: "list_all (\<lambda>s. ulid_text ?u < s \<and> ulid_valid s) (ulid_run ?u ds)" "sorted_wrt (<) (ulid_run ?u ds)" by (simp_all add: d)
  have "ulid_text u < ulid_text ?u" using text_less [OF Cons.prems(1) step(2,1)] .
  with ih text_valid [OF step(2)] show ?case
    by (auto simp: d ulid_next_def Let_def list_all_iff intro: order.strict_trans)
qed simp

text \<open>
  C37. IDs sort as they were made. Whatever times a maker is asked at, in whatever order, at the same one or before the last,
  the texts of its IDs ascend strictly, so that no two are the same, and each is a valid one: for times from 1970 on that fit
  48 bits of milliseconds, and as long as each random part drawn leaves room, under 2^80, for a count of one for each call
  after it: past it, the count would carry into nothing, and start again.
\<close>

theorem ids_sort_as_they_were_made:
  assumes "room_ok draws" and "length draws < 2 ^ 80"
  shows "sorted_wrt (<) (ulid_run new_maker draws) \<and> list_all ulid_valid (ulid_run new_maker draws)"
proof -
  have "has_room (length draws) new_maker" using assms(2) by (simp add: has_room_def new_maker_def counter_def)
  from run_after [OF this assms(1)] show ?thesis by (auto simp: list_all_iff)
qed

theorem ids_sort_as_they_were_made_witness:
  "ulid_run new_maker [(1, 5, -1), (1, 0, 0)] = [''0000000001002ZZZZZZZZZZZZZ'', ''00000000010030000000000000''] \<and>
   sorted_wrt (<) [''0000000001002ZZZZZZZZZZZZZ'', ''00000000010030000000000000''] \<and> ulid_valid ''0000000001002ZZZZZZZZZZZZZ''"
proof -
  have ids: "ulid_run new_maker [(1, 5, -1), (1, 0, 0)] = [''0000000001002ZZZZZZZZZZZZZ'', ''00000000010030000000000000'']"
  proof -
    have makers: "ulid_step 1 5 (-1) new_maker = \<lparr>mk_ms = 1, mk_high = 5, mk_low = -1\<rparr>"
      "ulid_step 1 0 0 \<lparr>mk_ms = 1, mk_high = 5, mk_low = -1\<rparr> = \<lparr>mk_ms = 1, mk_high = 6, mk_low = 0\<rparr>"
      by (simp_all add: ulid_step_def new_maker_def)
    have numbers: "ulid_number \<lparr>mk_ms = 1, mk_high = 5, mk_low = -1\<rparr> = 2 ^ 80 + 6 * 2 ^ 64 - 1"
      "ulid_number \<lparr>mk_ms = 1, mk_high = 6, mk_low = 0\<rparr> = 2 ^ 80 + 6 * 2 ^ 64"
      by (simp_all add: ulid_number_def counter_def unsigned_minus_1_eq_mask mask_eq_exp_minus_1)
    have step: "base32 (numeral k) n = base32 (pred_numeral k) (n div 32) @ [crockford ! (n mod 32)]" for k n
      by (subst numeral_eq_Suc) (rule base32.simps(2))
    have "ulid_text \<lparr>mk_ms = 1, mk_high = 5, mk_low = -1\<rparr> = base32 26 (2 ^ 80 + 6 * 2 ^ 64 - 1)"
      "ulid_text \<lparr>mk_ms = 1, mk_high = 6, mk_low = 0\<rparr> = base32 26 (2 ^ 80 + 6 * 2 ^ 64)"
      by (simp_all add: ulid_text_number numbers del: base32.simps)
    moreover have "base32 26 (2 ^ 80 + 6 * 2 ^ 64 - 1) = map ((!) crockford) [0, 0, 0, 0, 0, 0, 0, 0, 0, 1, 0, 0, 2, 31, 31, 31, 31, 31, 31, 31, 31, 31, 31, 31, 31, 31]"
      "base32 26 (2 ^ 80 + 6 * 2 ^ 64) = map ((!) crockford) [0, 0, 0, 0, 0, 0, 0, 0, 0, 1, 0, 0, 3, 0, 0, 0, 0, 0, 0, 0, 0, 0, 0, 0, 0, 0]"
      by (simp_all add: step)
    moreover have "map ((!) crockford) [0, 0, 0, 0, 0, 0, 0, 0, 0, 1, 0, 0, 2, 31, 31, 31, 31, 31, 31, 31, 31, 31, 31, 31, 31, 31] = ''0000000001002ZZZZZZZZZZZZZ''"
      "map ((!) crockford) [0, 0, 0, 0, 0, 0, 0, 0, 0, 1, 0, 0, 3, 0, 0, 0, 0, 0, 0, 0, 0, 0, 0, 0, 0, 0] = ''00000000010030000000000000''"
      by code_simp+
    ultimately have "ulid_text \<lparr>mk_ms = 1, mk_high = 5, mk_low = -1\<rparr> = ''0000000001002ZZZZZZZZZZZZZ''"
      "ulid_text \<lparr>mk_ms = 1, mk_high = 6, mk_low = 0\<rparr> = ''00000000010030000000000000''" by (simp_all only:)
    then show ?thesis by (simp add: ulid_next_def makers Let_def)
  qed
  then show ?thesis using ids_sort_as_they_were_made [of "[(1, 5, -1), (1, 0, 0)]"]
    by (simp add: unsigned_minus_1_eq_mask mask_eq_exp_minus_1)
qed

end
