(* ===== verification/Streams.thy ===== *)
theory Streams
  imports Go_Prelude
begin

text \<open>
  Server-sent events (stream.go): the events an app sends, the comments that keep a quiet stream open, and the browser's
  EventSource that reads them, as the HTML standard has it.
\<close>

definition newline :: char where "newline = CHR 0x0A"
definition return_char :: char where "return_char = CHR 0x0D"
definition nul :: char where "nul = CHR 0x00"

section \<open>Sending\<close>

text \<open>An event of an app: its data, of any type, goes through \<open>marshal\<close>, which is \<open>json.Marshal\<close>.\<close>

record 'v sent_event =
  ev_name :: string
  ev_id :: string
  ev_data :: 'v

datatype event_error = Not_one_line string string | Not_json

definition event_encode :: "('v \<Rightarrow> string option) \<Rightarrow> 'v sent_event \<Rightarrow> event_error + string" where
  "event_encode marshal e =
     (if newline \<in> set (ev_name e) \<or> return_char \<in> set (ev_name e) \<or>
         newline \<in> set (ev_id e) \<or> return_char \<in> set (ev_id e) \<or> nul \<in> set (ev_id e) then Inl (Not_one_line (ev_name e) (ev_id e))
      else case marshal (ev_data e) of
             None \<Rightarrow> Inl Not_json
           | Some data \<Rightarrow>
               Inr ((if ev_name e \<noteq> [] then ''event: '' @ ev_name e @ [newline] else []) @
                    (if ev_id e \<noteq> [] then ''id: '' @ ev_id e @ [newline] else []) @
                    ''data: '' @ data @ [newline, newline]))"

text \<open>
  What a stream does, in turn: an event it sends, which is none when it can't be written, and a comment, every 20 seconds;
  and what it has sent.
\<close>

definition keep_alive_seconds :: nat where "keep_alive_seconds = 20"

datatype 'v stream_op = Send "'v sent_event" | Keep_alive

definition comment :: string where
  "comment = [CHR '':'', newline, newline]"

fun sent_by :: "('v \<Rightarrow> string option) \<Rightarrow> 'v stream_op \<Rightarrow> string" where
  "sent_by marshal Keep_alive = comment"
| "sent_by marshal (Send e) = (case event_encode marshal e of Inl err \<Rightarrow> [] | Inr text \<Rightarrow> text)"

definition stream_text :: "('v \<Rightarrow> string option) \<Rightarrow> 'v stream_op list \<Rightarrow> string" where
  "stream_text marshal ops = concat (map (sent_by marshal) ops)"

section \<open>Reading\<close>

text \<open>The whole lines of a stream, each ended by a line feed, a return, or both; what is left over is no line yet.\<close>

fun es_lines :: "string \<Rightarrow> string \<Rightarrow> string list" where
  "es_lines [] line = []"
| "es_lines (c # cs) line =
     (if c = newline then line # es_lines cs []
      else if c = return_char then
        line # (case cs of [] \<Rightarrow> [] | d # ds \<Rightarrow> if d = newline then es_lines ds [] else es_lines cs [])
      else es_lines cs (line @ [c]))"

record es_state =
  es_type :: string
  es_data :: string
  es_last_id :: string
  es_heard :: "(string \<times> string \<times> string) list"

definition es_start :: "string \<Rightarrow> es_state" where
  "es_start last_id = \<lparr>es_type = [], es_data = [], es_last_id = last_id, es_heard = []\<rparr>"

definition es_field :: "string \<Rightarrow> string \<Rightarrow> es_state \<Rightarrow> es_state" where
  "es_field n v s =
     (if n = ''event'' then s\<lparr>es_type := v\<rparr>
      else if n = ''data'' then s\<lparr>es_data := es_data s @ v @ [newline]\<rparr>
      else if n = ''id'' then (if nul \<in> set v then s else s\<lparr>es_last_id := v\<rparr>)
      else s)"

definition es_dispatch :: "es_state \<Rightarrow> es_state" where
  "es_dispatch s =
     (if es_data s = [] then s\<lparr>es_type := []\<rparr>
      else s\<lparr>es_type := [], es_data := [],
             es_heard := es_heard s @ [(if es_type s = [] then ''message'' else es_type s, butlast (es_data s), es_last_id s)]\<rparr>)"

definition es_line :: "string \<Rightarrow> es_state \<Rightarrow> es_state" where
  "es_line line s =
     (if line = [] then es_dispatch s
      else if hd line = CHR '':'' then s
      else case cut CHR '':'' line of
             (n, v, found) \<Rightarrow> if found then es_field n (if has_prefix v '' '' then tl v else v) s else es_field line [] s)"

definition es_read :: "string \<Rightarrow> es_state \<Rightarrow> es_state" where
  "es_read text s = fold es_line (es_lines text []) s"

section \<open>A page hears what was sent\<close>

text \<open>What a page hears of what a stream does: each event that could be written, with the last ID that was given.\<close>

fun heard_of :: "('v \<Rightarrow> string option) \<Rightarrow> string \<Rightarrow> 'v stream_op list \<Rightarrow> (string \<times> string \<times> string) list" where
  "heard_of marshal last_id [] = []"
| "heard_of marshal last_id (Keep_alive # ops) = heard_of marshal last_id ops"
| "heard_of marshal last_id (Send e # ops) =
     (case (event_encode marshal e, marshal (ev_data e)) of
        (Inr text, Some data) \<Rightarrow>
          let i = (if ev_id e = [] then last_id else ev_id e)
          in (if ev_name e = [] then ''message'' else ev_name e, data, i) # heard_of marshal i ops
      | _ \<Rightarrow> heard_of marshal last_id ops)"

definition one_line :: "string \<Rightarrow> bool" where
  "one_line s \<longleftrightarrow> newline \<notin> set s \<and> return_char \<notin> set s"

lemma es_lines_line: "one_line s \<Longrightarrow> es_lines (s @ newline # rest) line = (line @ s) # es_lines rest []"
  by (induction s arbitrary: line) (auto simp: one_line_def)

lemma es_read_line: "one_line s \<Longrightarrow> es_read (s @ newline # rest) st = es_read rest (es_line s st)"
  by (simp add: es_read_def es_lines_line)

lemma es_read_field:
  assumes "CHR '':'' \<notin> set n" "one_line (n @ v)" "n \<noteq> []"
  shows "es_read (n @ '': '' @ v @ newline # rest) st = es_read rest (es_field n v st)"
proof -
  have "one_line (n @ '': '' @ v)" using assms(2) by (auto simp: one_line_def newline_def return_char_def)
  moreover have "cut CHR '':'' (n @ '': '' @ v) = (n, CHR '' '' # v, True)"
    using cut_found [OF assms(1), of "CHR '' '' # v"] by simp
  moreover have "hd (n @ '': '' @ v) \<noteq> CHR '':''" using assms(1,3) by (cases n) auto
  ultimately show ?thesis
    using es_read_line [of "n @ '': '' @ v" rest st] assms(3) by (simp add: es_line_def)
qed

lemma es_read_blank: "es_read (newline # rest) st = es_read rest (es_dispatch st)"
  using es_read_line [of "[]" rest st] by (simp add: es_line_def one_line_def)

lemma es_read_comment: "es_read (comment @ rest) st = es_read rest (es_dispatch st)"
  using es_read_line [of "'':''" "newline # rest" st] es_read_blank
  by (simp add: comment_def es_line_def one_line_def newline_def return_char_def)

lemma es_read_event:
  assumes "event_encode marshal e = Inr txt" "marshal (ev_data e) = Some data" "one_line data"
    and st: "es_type st = []" "es_data st = []"
  shows "es_read (txt @ rest) st = es_read rest
    (st\<lparr>es_last_id := (if ev_id e = [] then es_last_id st else ev_id e),
        es_heard := es_heard st @ [(if ev_name e = [] then ''message'' else ev_name e, data,
          if ev_id e = [] then es_last_id st else ev_id e)]\<rparr>)"
proof -
  have name: "one_line (ev_name e)" "one_line (ev_id e)" "nul \<notin> set (ev_id e)"
    and whole: "txt = (if ev_name e \<noteq> [] then ''event: '' @ ev_name e @ [newline] else []) @
                    (if ev_id e \<noteq> [] then ''id: '' @ ev_id e @ [newline] else []) @ ''data: '' @ data @ [newline, newline]"
    using assms(1,2) by (auto simp: event_encode_def one_line_def split: if_splits)
  have field: "one_line (n @ v)" if "one_line v" "n \<in> set [''event'', ''id'', ''data'']" for n v
    using that by (auto simp: one_line_def newline_def return_char_def)
  have event: "es_read ((if ev_name e \<noteq> [] then ''event: '' @ ev_name e @ [newline] else []) @ r) s =
      es_read r (if ev_name e \<noteq> [] then s\<lparr>es_type := ev_name e\<rparr> else s)" for r s
    using es_read_field [OF _ field [OF name(1), of "''event''"], of r s] by (simp add: es_field_def)
  have id: "es_read ((if ev_id e \<noteq> [] then ''id: '' @ ev_id e @ [newline] else []) @ r) s =
      es_read r (if ev_id e \<noteq> [] then s\<lparr>es_last_id := ev_id e\<rparr> else s)" for r s
    using es_read_field [OF _ field [OF name(2), of "''id''"], of r s] name(3) by (simp add: es_field_def)
  have data: "es_read (''data: '' @ data @ newline # newline # r) s = es_read r (es_dispatch (s\<lparr>es_data := es_data s @ data @ [newline]\<rparr>))"
    for r s
    using es_read_field [OF _ field [OF assms(3), of "''data''"], of "newline # r" s] by (simp add: es_field_def es_read_blank)
  show ?thesis
    unfolding whole append_assoc event id using data [of rest] st
    by (cases st) (simp add: es_dispatch_def butlast_append)
qed

lemma es_read_ops:
  "\<forall>x data. marshal x = Some data \<longrightarrow> one_line data \<Longrightarrow> es_type st = [] \<Longrightarrow> es_data st = [] \<Longrightarrow>
     es_heard (es_read (stream_text marshal ops) st) = es_heard st @ heard_of marshal (es_last_id st) ops"
proof (induction ops arbitrary: st)
  case Nil
  then show ?case by (simp add: stream_text_def es_read_def)
next
  case (Cons op ops)
  have rest: "stream_text marshal (op # ops) = sent_by marshal op @ stream_text marshal ops" by (simp add: stream_text_def)
  show ?case
  proof (cases op)
    case Keep_alive
    then show ?thesis
      using Cons.IH [of st, OF Cons.prems(1)] Cons.prems(2,3) by (cases st) (simp add: rest [unfolded Keep_alive] es_read_comment es_dispatch_def)
  next
    case (Send e)
    show ?thesis
    proof (cases "event_encode marshal e")
      case (Inl err)
      then show ?thesis using Cons.IH [of st, OF Cons.prems(1)] Cons.prems(2,3) by (simp add: rest [unfolded Send] Send Inl)
    next
      case (Inr out)
      then obtain data where data: "marshal (ev_data e) = Some data"
        by (auto simp: event_encode_def split: if_splits option.splits)
      show ?thesis
        using es_read_event [OF Inr data Cons.prems(1) [rule_format, OF data] Cons.prems(2,3)] Cons.IH [OF Cons.prems(1)] Cons.prems(2,3)
        by (simp add: rest [unfolded Send] Send Inr data Let_def)
    qed
  qed
qed

text \<open>
  C38. A page hears the events that were sent. Whatever events and comments a stream sends, in whatever order, the page's
  EventSource hears each event that could be written, and nothing else, in turn, with its name, its data as it was written
  and its ID, or the last that was given; with JSON on one line, as encoding/json writes it; and so no name, ID or data of
  one event makes another.
\<close>

theorem a_page_hears_what_was_sent:
  assumes "\<And>x data. marshal x = Some data \<Longrightarrow> newline \<notin> set data \<and> return_char \<notin> set data"
  shows "es_heard (es_read (stream_text marshal ops) (es_start last_id)) = heard_of marshal last_id ops"
  using es_read_ops [of marshal "es_start last_id" ops] assms by (simp add: es_start_def one_line_def)

theorem a_page_hears_what_was_sent_witness:
  "es_heard (es_read (stream_text (\<lambda>n. Some (itoa n))
      [Send \<lparr>ev_name = ''progress'', ev_id = ''7'', ev_data = 40\<rparr>, Keep_alive,
       Send \<lparr>ev_name = ''a'' @ [newline], ev_id = [], ev_data = 50\<rparr>, Send \<lparr>ev_name = [], ev_id = [], ev_data = 60\<rparr>]) (es_start [])) =
   [(''progress'', ''40'', ''7''), (''message'', ''60'', ''7'')]"
proof -
  have "newline \<notin> set (itoa n) \<and> return_char \<notin> set (itoa n)" for n
  proof -
    have digits: "newline \<notin> set (nat_digits k)" "return_char \<notin> set (nat_digits k)" for k
      using nat_digits_props [of k] by (auto simp: newline_def return_char_def list_all_iff is_digit_def)
    show ?thesis using digits by (auto simp: itoa_def) (simp_all add: newline_def return_char_def)
  qed
  then have "es_heard (es_read (stream_text (\<lambda>n. Some (itoa n))
      [Send \<lparr>ev_name = ''progress'', ev_id = ''7'', ev_data = 40\<rparr>, Keep_alive,
       Send \<lparr>ev_name = ''a'' @ [newline], ev_id = [], ev_data = 50\<rparr>, Send \<lparr>ev_name = [], ev_id = [], ev_data = 60\<rparr>]) (es_start [])) =
    heard_of (\<lambda>n. Some (itoa n)) []
      [Send \<lparr>ev_name = ''progress'', ev_id = ''7'', ev_data = 40\<rparr>, Keep_alive,
       Send \<lparr>ev_name = ''a'' @ [newline], ev_id = [], ev_data = 50\<rparr>, Send \<lparr>ev_name = [], ev_id = [], ev_data = 60\<rparr>]"
    by (intro a_page_hears_what_was_sent) auto
  moreover have "heard_of (\<lambda>n. Some (itoa n)) []
      [Send \<lparr>ev_name = ''progress'', ev_id = ''7'', ev_data = 40\<rparr>, Keep_alive,
       Send \<lparr>ev_name = ''a'' @ [newline], ev_id = [], ev_data = 50\<rparr>, Send \<lparr>ev_name = [], ev_id = [], ev_data = 60\<rparr>] =
    [(''progress'', ''40'', ''7''), (''message'', ''60'', ''7'')]" by code_simp
  ultimately show ?thesis by simp
qed

end
