(* ===== verification/Spec2Isabelle.thy ===== *)
theory Spec2Isabelle
  imports Throttle Job_Runs Job_Claims Cache_Flights Session_Visits Base64 Cron_Zones Inertia_Pages Proxies Policies
    Broadcast_Instances Presence Storage_Links Passkeys Tokens Seals Migrate Lang Paginate Router_Urls Misses Passwords Ulid Streams
begin

text \<open>
  A verification development of tug (src/), a web framework for Go apps whose frontend is Inertia.js.

  The program. An \<open>App\<close> (app.go) has routes in groups with middleware (router.go), over net/http's ServeMux. A
  handler gets a \<open>Ctx\<close> (ctx.go): it binds and checks the request's form (bind.go, forms.go, validate), reads and writes the visitor's
  session (session), and answers with a page of Inertia (inertia), a redirect that flashes something to the page after it
  (flash.go), a page of a list (paginate.go), a stream (stream.go) or an error (errors.go). Beside it are packages an app uses by
  themselves: queue, which runs jobs kept in a Store; cache, with its locks; auth, with logins, throttles, passwords,
  passkeys, two-factor codes and signed tokens; broadcast, which carries events and presence between instances; storage,
  files on a disk; migrate; lang; and middleware. Most of them rest on a store that an app gives, as a table of its
  database: such a store is an interface of the program, and here a locale.

  How the source is translated. A struct is a \<open>record\<close>, and an enumeration or a sum a \<open>datatype\<close>; a Go map is an association
  list without a repeated key (\<open>gomap\<close>), which is also one order that ranging over it may take; a string is its bytes; a
  \<open>time.Time\<close> or a \<open>time.Duration\<close> is an \<open>int\<close> of nanoseconds, and int64 has its wrap-around written out (\<open>wrap64\<close>) or is a
  word where it matters; an error returned is \<open>Inl\<close> of a sum or \<open>None\<close> of an option, and a panic a value too. An
  operation on state takes it and returns it. What several goroutines do at once is a list of operations or a step relation, each step
  what a mutex is held for or one call of a store. The clock, what is drawn at random, and what the app or another instance does
  meanwhile are arguments.

  The theories, and the files under src/ they model:

  \<^item> Go_Prelude: times, maps, words of 64 bits and package strings, shared by all. Utf8, Base64 and Urls: what is used of
    unicode/utf8, encoding/base64 and net/url. Http: headers, requests and writers of net/http, and internal/rw/rw.go.
  \<^item> Job_Store: queue/store.go and queue/queuetest/queuetest.go, the Store in memory with every extra (locales \<open>job_store\<close>
    and \<open>hold_back_store\<close>, interpreted by it). Job_Claims: what its claims promise. Job_Queue: queue/queue.go, kind.go, carry.go and
    observe.go, over any Store. Job_Runs: what becomes of a run, and Drain. Cron and Cron_Zones: queue/schedule.go.
  \<^item> Throttle: auth/throttle.go (locale \<open>throttle_store\<close>, interpreted by the store in memory) and limit.go.
  \<^item> Cache: cache/cache.go, lock.go and memory.go (locales \<open>lock_store\<close> and \<open>cache_store\<close>, interpreted by the store in memory).
    Cache_Flights: the flights of Remember, as a step relation.
  \<^item> Session and Session_Visits: session/session.go (locale \<open>session_keeper\<close>, which every \<open>cache_store\<close> is by a sublocale, and
    so the cache in memory).
  \<^item> Inertia_Empty, Inertia_Props, Inertia_Reloads and Inertia_Pages: inertia/empty.go, props.go, inertia.go, head.go and bigint.go.
  \<^item> Middleware, Policies and Proxies: middleware/cors.go, requestid.go, recover.go, logger.go; headers.go, csp.go; proxies.go.
  \<^item> Broadcast and Broadcast_Instances: broadcast/broadcast.go and the store of broadcast/broadcasttest/broadcasttest.go. Presence:
    broadcast/presence.go (locale \<open>presence_store\<close>, interpreted by the presence a hub keeps in memory).
  \<^item> Storage and Storage_Links: storage/local.go and storage.go. Filetype: internal/filetype/filetype.go. Signed_Parts: what signatures are over.
  \<^item> Login: auth/auth.go. Cbor, Cose and Passkeys: auth/cbor.go, cose.go and passkeys.go. Tokens: auth/tokens.go, reset.go,
    verify.go, register.go, access.go, and links.go. Seals: internal/seal/seal.go, crypt/crypt.go and auth/twofactor.go. Passwords:
    auth/password.go and ability.go.
  \<^item> Migrate: migrate/migrate.go (locale \<open>migration_store\<close>) and the Store tug new writes for SQLite
    (cmd/tug/sqlite/migrations_db.go.tmpl), which interprets it.
  \<^item> Lang: lang/lang.go, plural.go, number.go and dir.go, and the forms of a count on a page of internal/typegen/lang.go.
  \<^item> Paginate: paginate.go (locale \<open>pages\<close>, interpreted by numbered pages of a list that is counted, by those of one that is not,
    and by pages by cursor).
  \<^item> Router and Router_Urls: router.go, and the patterns of the ServeMux. Misses: what app.go answers where no route takes a request.
  \<^item> Flash: forms.go, flash.go and ctx.go's redirects. Errors: errors.go, forms.go, app.go's \<open>adapt\<close> and validate.Errors. Bind: bind.go.
    Streams: stream.go. Ulid: internal/ulid/ulid.go.
\<close>

text \<open>
  What the lemmas show. Each theory has first the operations, then lemmas of single operations, an invariant that every operation keeps (as
  \<open>mem_ok\<close>, \<open>ms_ok\<close>, \<open>hub_ok\<close>, \<open>disk_ok\<close>, \<open>built_ok\<close>), and then the properties, over any list of operations.

  \<^item> Safety over any order of operations: who holds a claim, a key or a lock, and for how long (Job_Claims, Cache, Cache_Flights);
    what a throttle lets through; that a code, a challenge or a flight is used once (Seals, Passkeys, Cache_Flights); that no event is
    missed (Broadcast, Broadcast_Instances); who is on a channel (Presence).
  \<^item> Refinements of an abstract state: a disk is a map from keys to files (Storage), a session a visitor (Login), the
    hubs of all instances one list of events (Broadcast_Instances), a database of migrations a map from names to hashes (Migrate).
  \<^item> Equivalence with a specification written apart from the code: the next time of a cron expression is the first of the matching minutes
    (Cron); a CBOR decoder reads RFC 8949's grammar (Cbor); the browser's EventSource reads what a stream wrote (Streams); a count's
    form on a page is the server's (Lang).
  \<^item> Round trips: signed links and tokens, sealed values, URLs of routes, cookies, hashes of passwords, flash data and deferred props.
  \<^item> Termination: Drain ends, by the work left in its store; the search for a cron time and the walks of types and lists end, as HOL functions.

  Bounds and fuel. \<open>clock_loop\<close> has the code's own bound, eight years from where it begins, which its measure counts down; its theorem
  says that a time is found within them wherever one is to be found. \<open>next_in\<close> goes through at most 64 stretches of one offset. CBOR
  nests 8 deep, as in the code. The walk of types in Inertia_Empty visits a struct once, so fuel for as many structs as
  there are, and two more, is enough. A client that follows the links of a list (\<open>browse\<close>) has fuel for its pages, and is
  shown to end with it. Lock.Wait may never end, and is a \<open>partial_function\<close>, whose \<open>None\<close> is not returning; so is Drain, shown to
  return for handlers that leave the store alone.

  Parameters, with what is asked of them as hypotheses where a property needs it: SHA-256, HMAC, HKDF, AES-GCM, argon2id, the curves and
  signatures of passkeys, base32; encoding/json of an app's own values; net/netip's and net/url's parsing of text; ParseFloat and
  FormatFloat, time.Parse and UnmarshalText; http.DetectContentType and ServeContent; what the ServeMux judges of two patterns; the
  time zones; the case of letters outside ASCII; the SQL of a migration; the rules of validation; the app's handlers.

  What the properties leave out, said with each, is what the code does not keep: the news of two pages of one member may cross
  (\<open>news_may_cross\<close>); a late Done after RunAgain can end another's claim (\<open>a_late_done_after_run_again\<close>); an escaped slash at the end of
  a path leads a miss off the site (\<open>a_miss_leads_off_the_site\<close>), and a method of an app's own is in no Allow header
  (\<open>a_miss_knows_no_other_methods\<close>); a dot for a value leads a URL elsewhere (\<open>a_dotted_value_leads_elsewhere\<close>); a page has no
  forms of a language its catalog has not (\<open>a_page_has_no_english_forms\<close>); a listing passes over files named as those being put
  (\<open>a_file_with_a_put_name_is_not_listed\<close>); and a login held back keeps the ID of the one before (\<open>a_held_back_login_keeps_its_id\<close>).

  Not modelled: the app's server, its start and stop, commands and TLS (app.go, tls.go, commands.go); what hands a request on to the
  standard library (most of ctx.go, files.go); mail; S3 and the environment (storage/s3.go, env.go, upload.go); vite, ssr, letsencrypt; the
  pages for developers (debugpage.go, mailbox.go, internal/devtools); reflection over an app's types (pages.go, jsonform.go, the rest
  of internal/typegen, the rules of validate); the CSRF middleware, a wrapper of net/http's; the loop of goroutines
  that is queue's Run, of whose parts each run of a job is modelled; the tug command; the stores of Postgres and MySQL; and the packages
  for tests, the site, the benchmarks and the examples.
\<close>

end
